(* ===== verification/Prelude.thy ===== *)
theory Prelude
  imports Main "HOL-Library.Word"
begin

text \<open>
  Shared vocabulary of the development: C strings and byte buffers, the outcome type of
  a call that may stop the process, decimal printing and parsing as the C library does
  them (\<open>sprintf\<close> with \<open>%d\<close>/\<open>%*d\<close>, \<open>atol\<close>), byte segments of files, and the theory
  of singly linked chains of pointer fields, stated once as a locale and interpreted by
  the components that keep linked lists (in a file or in memory).
\<close>

named_theorems wp_intros "introduction rules for okp"
named_theorems view_simps "projections of the open-file view"

section \<open>Outcomes\<close>

text \<open>
  Why a call does not come back to its caller.  \<open>Err_dump\<close>, \<open>Err_quit\<close> and \<open>Err_sys\<close>
  are the fatal routines of \<open>apue2e/lib/error.c\<close>, \<open>Exit_with\<close> is \<open>exit(n)\<close>,
  \<open>Aborted\<close> is \<open>abort()\<close>, \<open>Blocked\<close> is a system call that waits, \<open>Loops\<close> is a loop
  that never ends, and \<open>Overrun\<close> is a write or read past the end of an object, where C
  gives the program no meaning.
\<close>

datatype halt =
    Err_dump string
  | Err_quit string
  | Err_sys string
  | Exit_with int
  | Aborted
  | Blocked string
  | Loops
  | Overrun string

type_synonym 'a res = "halt + 'a"

definition res_bind :: "'e + 'a \<Rightarrow> ('a \<Rightarrow> 'e + 'b) \<Rightarrow> 'e + 'b" where
  "res_bind m f = (case m of Inl e \<Rightarrow> Inl e | Inr x \<Rightarrow> f x)"

text \<open>\<open>okp m Q\<close>: the call returns, and what it returns satisfies \<open>Q\<close>.\<close>

definition okp :: "'e + 'a \<Rightarrow> ('a \<Rightarrow> bool) \<Rightarrow> bool" where
  "okp m Q \<longleftrightarrow> (\<exists>x. m = Inr x \<and> Q x)"

section \<open>C strings and buffers\<close>

abbreviation NUL :: char where "NUL \<equiv> CHR 0x00"

abbreviation NL :: char where "NL \<equiv> CHR 0x0A"

type_synonym bytes = "char list"

text \<open>The string that starts at a buffer: everything before the first null byte.\<close>

definition cstr :: "bytes \<Rightarrow> string" where
  "cstr b = takeWhile (\<lambda>c. c \<noteq> NUL) b"

definition strchr :: "bytes \<Rightarrow> char \<Rightarrow> nat option" where
  "strchr b c = (if c \<in> set (cstr b) then Some (length (takeWhile (\<lambda>x. x \<noteq> c) (cstr b))) else None)"

text \<open>Bytes \<open>p..p+n-1\<close> of a file or buffer, and the file after \<open>bs\<close> is written at \<open>p\<close>.\<close>

definition seg :: "'a list \<Rightarrow> nat \<Rightarrow> nat \<Rightarrow> 'a list" where
  "seg xs p n = take n (drop p xs)"

definition patch :: "'a list \<Rightarrow> nat \<Rightarrow> 'a list \<Rightarrow> 'a list" where
  "patch xs p bs = take p xs @ bs @ drop (p + length bs) xs"

text \<open>\<open>size_t\<close> from a signed value, and the value of a (signed) \<open>char\<close>.\<close>

definition to_size_t :: "int \<Rightarrow> nat" where
  "to_size_t i = nat (i mod 2 ^ 64)"

definition schar :: "char \<Rightarrow> int" where
  "schar c = (let n = (of_char c :: int) in if n < 128 then n else n - 256)"

section \<open>Decimal numbers\<close>

definition digit :: "nat \<Rightarrow> char" where
  "digit n = char_of (48 + n)"

fun dec :: "nat \<Rightarrow> string" where
  "dec n = (if n < 10 then [digit n] else dec (n div 10) @ [digit (n mod 10)])"

declare dec.simps [simp del]

text \<open>\<open>%d\<close> and \<open>%ld\<close> of a signed value; \<open>%*d\<close> pads on the left with blanks.\<close>

definition dec_int :: "int \<Rightarrow> string" where
  "dec_int i = (if i < 0 then CHR ''-'' # dec (nat (- i)) else dec (nat i))"

definition pad :: "nat \<Rightarrow> string \<Rightarrow> string" where
  "pad w s = replicate (w - length s) (CHR '' '') @ s"

definition isspace :: "char \<Rightarrow> bool" where
  "isspace c \<longleftrightarrow> c \<in> {CHR '' '', CHR 0x09, CHR 0x0A, CHR 0x0B, CHR 0x0C, CHR 0x0D}"

definition isdigit :: "char \<Rightarrow> bool" where
  "isdigit c \<longleftrightarrow> (48::nat) \<le> of_char c \<and> of_char c \<le> (57::nat)"

definition digits_val :: "string \<Rightarrow> nat" where
  "digits_val s = foldl (\<lambda>a c. a * 10 + (of_char c - 48)) 0 s"

text \<open>
  \<open>atol\<close>/\<open>atoi\<close> on a value in range (C leaves a value out of range undefined): leading
  white space, an optional sign, digits up to the first other byte.
\<close>

definition atol :: "string \<Rightarrow> int" where
  "atol s = (let t = dropWhile isspace s in
     case t of
       [] \<Rightarrow> 0
     | c # r \<Rightarrow>
         if c = CHR ''-'' then - int (digits_val (takeWhile isdigit r))
         else if c = CHR ''+'' then int (digits_val (takeWhile isdigit r))
         else int (digits_val (takeWhile isdigit t)))"

section \<open>Outcomes: rules\<close>

lemma res_bind_simps [simp]:
  "res_bind (Inl e) f = Inl e"
  "res_bind (Inr x) f = f x"
  by (simp_all add: res_bind_def)

lemma res_bind_Inr: "res_bind m f = Inr y \<longleftrightarrow> (\<exists>x. m = Inr x \<and> f x = Inr y)"
  by (cases m) auto

lemma res_bind_Inl: "res_bind m f = Inl h \<longleftrightarrow> m = Inl h \<or> (\<exists>x. m = Inr x \<and> f x = Inl h)"
  by (cases m) auto

lemma okp_Inr [simp]: "okp (Inr x) Q \<longleftrightarrow> Q x"
  by (simp add: okp_def)

lemma okp_Inl [simp]: "\<not> okp (Inl e) Q"
  by (simp add: okp_def)

lemma okp_bind [simp]: "okp (res_bind m f) Q \<longleftrightarrow> okp m (\<lambda>x. okp (f x) Q)"
  by (cases m) auto

lemma okp_mono: "okp m P \<Longrightarrow> (\<And>x. P x \<Longrightarrow> Q x) \<Longrightarrow> okp m Q"
  by (auto simp: okp_def)

lemma okp_conj: "okp m P \<Longrightarrow> okp m Q \<Longrightarrow> okp m (\<lambda>x. P x \<and> Q x)"
  by (auto simp: okp_def)

lemma okpE: "okp m Q \<Longrightarrow> (\<And>x. m = Inr x \<Longrightarrow> Q x \<Longrightarrow> R) \<Longrightarrow> R"
  by (auto simp: okp_def)

section \<open>Segments: rules\<close>

lemma length_seg [simp]: "length (seg xs p n) = min n (length xs - p)"
  by (simp add: seg_def)

lemma length_patch [simp]: "p + length bs \<le> length xs \<Longrightarrow> length (patch xs p bs) = length xs"
  by (simp add: patch_def)

lemma length_patch_ge: "p \<le> length xs \<Longrightarrow> length xs \<le> length (patch xs p bs)"
  by (simp add: patch_def)

lemma patch_end [simp]: "patch xs (length xs) bs = xs @ bs"
  by (simp add: patch_def)

lemma seg_append [simp]: "p + n \<le> length xs \<Longrightarrow> seg (xs @ ys) p n = seg xs p n"
  by (simp add: seg_def)

lemma seg_append_end: "seg (xs @ bs) (length xs) (length bs) = bs"
  by (simp add: seg_def)

lemma seg_seg: "i + n \<le> m \<Longrightarrow> seg (seg xs p m) i n = seg xs (p + i) n"
  by (simp add: seg_def drop_take add.commute)

lemma seg_patch_same: "p + length bs \<le> length xs \<Longrightarrow> seg (patch xs p bs) p (length bs) = bs"
  by (simp add: seg_def patch_def)

lemma seg_patch_below: "p + n \<le> q \<Longrightarrow> q \<le> length xs \<Longrightarrow> seg (patch xs q bs) p n = seg xs p n"
  by (simp add: seg_def patch_def drop_take)

lemma seg_patch_above:
  "q + length bs \<le> p \<Longrightarrow> q + length bs \<le> length xs \<Longrightarrow> seg (patch xs q bs) p n = seg xs p n"
  by (simp add: seg_def patch_def)

lemma seg_patch_disj:
  assumes "p + n \<le> q \<or> q + length bs \<le> p" and "q + length bs \<le> length xs"
  shows "seg (patch xs q bs) p n = seg xs p n"
  using assms seg_patch_below [of p n q xs bs] seg_patch_above [of q bs p xs n] by auto

lemma seg_add: "seg xs p (m + n) = seg xs p m @ seg xs (p + m) n"
  by (simp add: seg_def take_add drop_drop add.commute)

lemma seg_0 [simp]: "seg xs p 0 = []"
  by (simp add: seg_def)

lemma nth_seg: "i < n \<Longrightarrow> p + i < length xs \<Longrightarrow> seg xs p n ! i = xs ! (p + i)"
  by (simp add: seg_def)

section \<open>C strings: rules\<close>

lemma cstr_no_NUL: "NUL \<notin> set s \<Longrightarrow> cstr s = s"
  by (auto simp: cstr_def takeWhile_eq_all_conv)

lemma cstr_append_NUL: "NUL \<notin> set s \<Longrightarrow> cstr (s @ NUL # r) = s"
  by (induction s) (auto simp: cstr_def)

lemma NUL_notin_cstr [simp]: "NUL \<notin> set (cstr b)"
  by (auto simp: cstr_def dest: set_takeWhileD)

lemma strchr_found:
  "NUL \<notin> set s \<Longrightarrow> c \<notin> set s \<Longrightarrow> c \<noteq> NUL \<Longrightarrow> strchr (s @ c # r) c = Some (length s)"
  by (induction s) (auto simp: strchr_def cstr_def split: if_splits)

lemma strchr_none: "NUL \<notin> set s \<Longrightarrow> c \<notin> set s \<Longrightarrow> strchr (s @ NUL # r) c = None"
  by (simp add: strchr_def cstr_append_NUL)

section \<open>Decimal numbers: rules\<close>

lemma of_char_digit: "n < 10 \<Longrightarrow> of_char (digit n) = 48 + n"
  by (simp add: digit_def)

lemma digit_neqI: "n < 10 \<Longrightarrow> of_char c < (48::nat) \<or> 57 < (of_char c :: nat) \<Longrightarrow> digit n \<noteq> c"
  using of_char_digit [of n] by auto

lemma digit_neq:
  assumes "n < 10"
  shows "digit n \<noteq> NUL" "digit n \<noteq> NL" "digit n \<noteq> CHR '':''" "digit n \<noteq> CHR ''-''"
    "digit n \<noteq> CHR ''+''" "digit n \<noteq> CHR '' ''"
  by (rule digit_neqI [OF assms], simp)+

lemma isdigit_digit: "n < 10 \<Longrightarrow> isdigit (digit n)"
  by (simp add: isdigit_def of_char_digit)

lemma not_isspace_digit: "n < 10 \<Longrightarrow> \<not> isspace (digit n)"
  by (simp add: isspace_def digit_neqI)

lemma dec_nonempty [simp]: "dec n \<noteq> []"
  by (subst dec.simps) simp

lemma set_dec: "c \<in> set (dec n) \<Longrightarrow> \<exists>d<10. c = digit d"
proof (induction n rule: dec.induct)
  case (1 n)
  have "\<exists>d<10. digit (n mod 10) = digit d" by (rule exI [of _ "n mod 10"]) simp
  with 1 show ?case by (cases "n < 10") (auto simp: dec.simps [of n])
qed

lemma dec_isdigit: "c \<in> set (dec n) \<Longrightarrow> isdigit c"
  using set_dec isdigit_digit by blast

lemma digits_val_snoc: "digits_val (s @ [c]) = digits_val s * 10 + (of_char c - 48)"
  by (simp add: digits_val_def)

lemma digits_val_dec [simp]: "digits_val (dec n) = n"
proof (induction n rule: dec.induct)
  case (1 n)
  show ?case
  proof (cases "n < 10")
    case True
    then show ?thesis by (simp add: dec.simps [of n] digits_val_def of_char_digit)
  next
    case False
    then have "digits_val (dec n) = digits_val (dec (n div 10)) * 10 + (of_char (digit (n mod 10)) - 48)"
      by (simp add: dec.simps [of n] digits_val_snoc)
    with False 1 show ?thesis by (simp add: of_char_digit)
  qed
qed

lemma dec_chars [simp]: "NUL \<notin> set (dec n)" "NL \<notin> set (dec n)" "CHR '':'' \<notin> set (dec n)"
  by (metis set_dec digit_neq(1), metis set_dec digit_neq(2), metis set_dec digit_neq(3))

lemma length_dec_le: "n < 10 ^ k \<Longrightarrow> 0 < k \<Longrightarrow> length (dec n) \<le> k"
proof (induction n arbitrary: k rule: dec.induct)
  case (1 n)
  show ?case
  proof (cases "n < 10")
    case True
    with 1 show ?thesis by (simp add: dec.simps [of n])
  next
    case False
    then obtain j where k: "k = Suc j" and "0 < j"
      using "1.prems" by (cases k; cases "k - 1") auto
    then have "n div 10 < 10 ^ j" using "1.prems" by auto
    with False \<open>0 < j\<close> "1.IH" have "length (dec (n div 10)) \<le> j" by simp
    with False k show ?thesis by (simp add: dec.simps [of n])
  qed
qed

lemma atol_blanks: "atol (replicate m (CHR '' '') @ s) = atol s"
proof -
  have "dropWhile isspace (replicate m (CHR '' '') @ s) = dropWhile isspace s"
    by (induction m) (simp_all add: isspace_def)
  then show ?thesis by (simp add: atol_def)
qed

lemma atol_dec_append:
  assumes "r = [] \<or> \<not> isdigit (hd r)"
  shows "atol (dec n @ r) = int n"
proof -
  obtain d s where s: "dec n = d # s" by (cases "dec n") auto
  then have "\<exists>e<10. d = digit e" using set_dec [of d n] by simp
  then have d: "\<not> isspace d" "d \<noteq> CHR ''-''" "d \<noteq> CHR ''+''" using digit_neq not_isspace_digit by auto
  have "takeWhile isdigit (dec n @ r) = dec n"
    using assms by (cases r) (auto simp: takeWhile_append dec_isdigit)
  with d s show ?thesis by (simp add: atol_def) (metis digits_val_dec)
qed

lemma atol_dec [simp]: "atol (dec n) = int n"
  using atol_dec_append [of "[]" n] by simp

lemma atol_pad_dec [simp]: "atol (pad w (dec n)) = int n"
  by (simp add: pad_def atol_blanks)

lemma length_pad [simp]: "length (pad w s) = max w (length s)"
  by (simp add: pad_def)

lemma to_size_t_of_nat [simp]: "n < 2 ^ 64 \<Longrightarrow> to_size_t (int n) = n"
proof -
  assume "n < 2 ^ 64"
  then have "int n < 2 ^ 64" by (metis of_nat_less_iff of_nat_numeral of_nat_power)
  then show ?thesis unfolding to_size_t_def by (subst mod_pos_pos_trivial) simp_all
qed

section \<open>Chains of pointer fields\<close>

text \<open>
  A memory of pointer fields, read by \<open>rd\<close> and written by \<open>wr\<close>; field addresses are the
  values the fields hold, and \<open>null\<close> ends a chain.  \<open>chain m p xs\<close> says that from the
  field \<open>p\<close> the fields in \<open>xs\<close> are met in this order before the end.
\<close>

locale ptr_fields =
  fixes rd :: "'m \<Rightarrow> 'p \<Rightarrow> 'p" and wr :: "'m \<Rightarrow> 'p \<Rightarrow> 'p \<Rightarrow> 'm" and null :: 'p
  assumes rd_wr_same: "rd (wr m p v) p = v"
    and rd_wr_other: "q \<noteq> p \<Longrightarrow> rd (wr m p v) q = rd m q"
begin

primrec chain :: "'m \<Rightarrow> 'p \<Rightarrow> 'p list \<Rightarrow> bool" where
  "chain m p [] \<longleftrightarrow> rd m p = null"
| "chain m p (x # xs) \<longleftrightarrow> rd m p = x \<and> x \<noteq> null \<and> chain m x xs"

lemma chain_frame: "q \<noteq> p \<Longrightarrow> q \<notin> set xs \<Longrightarrow> chain (wr m q v) p xs = chain m p xs"
  by (induction xs arbitrary: p) (auto simp: rd_wr_other)

lemma chain_not_null: "chain m p xs \<Longrightarrow> null \<notin> set xs"
  by (induction xs arbitrary: p) auto

lemma chain_unique: "chain m p xs \<Longrightarrow> chain m p ys \<Longrightarrow> xs = ys"
proof (induction xs arbitrary: p ys)
  case Nil
  then show ?case by (cases ys) auto
next
  case (Cons x xs)
  then show ?case by (cases ys) auto
qed

lemma chain_suffix: "chain m p (xs @ x # ys) \<Longrightarrow> chain m x ys"
  by (induction xs arbitrary: p) auto

lemma chain_hd: "chain m p xs \<Longrightarrow> rd m p = (if xs = [] then null else hd xs)"
  by (cases xs) auto

lemma chain_distinct: "chain m p xs \<Longrightarrow> distinct xs"
proof (induction xs arbitrary: p)
  case Nil
  then show ?case by simp
next
  case (Cons x xs)
  have "x \<notin> set xs"
  proof
    assume "x \<in> set xs"
    then obtain as bs where xs: "xs = as @ x # bs" by (meson split_list)
    from Cons.prems have "chain m x xs" by simp
    moreover from this xs have "chain m x bs" using chain_suffix by simp
    ultimately have "xs = bs" by (rule chain_unique)
    with xs show False by simp
  qed
  with Cons show ?case by auto
qed

text \<open>Push a field on the front: write its own field first, then the head.\<close>

lemma chain_push:
  assumes "chain m p xs" "x \<noteq> null" "x \<noteq> p" "x \<notin> set xs"
  shows "chain (wr (wr m x (rd m p)) p x) p (x # xs)"
proof -
  have p: "p \<notin> set xs"
  proof
    assume "p \<in> set xs"
    then obtain as bs where xs: "xs = as @ p # bs" by (meson split_list)
    with assms(1) have "chain m p bs" using chain_suffix by blast
    with assms(1) have "xs = bs" by (rule chain_unique)
    with xs show False by simp
  qed
  have "chain (wr (wr m x (rd m p)) p x) x xs"
  proof (cases xs)
    case Nil
    with assms show ?thesis by (simp add: rd_wr_same rd_wr_other)
  next
    case (Cons y ys)
    with assms(1) have y: "rd m p = y" "y \<noteq> null" "chain m y ys" by auto
    then have "chain (wr (wr m x (rd m p)) p x) y ys"
      using assms(4) p Cons by (simp add: chain_frame)
    with y assms(3) Cons show ?thesis by (simp add: rd_wr_same rd_wr_other)
  qed
  with assms(2) show ?thesis by (simp add: rd_wr_same)
qed

text \<open>The field that points to \<open>x\<close>: the head, or the element before it.\<close>

definition prev_field :: "'p \<Rightarrow> 'p list \<Rightarrow> 'p" where
  "prev_field p as = (if as = [] then p else last as)"

text \<open>Unlink an element: copy its own field into the field that points to it.\<close>

lemma chain_unlink:
  assumes "chain m p (as @ x # bs)" "p \<notin> set (as @ x # bs)"
  shows "chain (wr m (prev_field p as) (rd m x)) p (as @ bs)"
  using assms
proof (induction as arbitrary: p)
  case Nil
  then have x: "rd m p = x" "chain m x bs" "p \<notin> set bs" "p \<noteq> x" by auto
  show ?case
  proof (cases bs)
    case Nil
    with x show ?thesis by (simp add: prev_field_def rd_wr_same)
  next
    case (Cons b cs)
    with x have "chain (wr m p (rd m x)) b cs" by (simp add: chain_frame)
    with x Cons show ?thesis by (simp add: prev_field_def rd_wr_same)
  qed
next
  case (Cons a as)
  then have a: "rd m p = a" "a \<noteq> null" "chain m a (as @ x # bs)" by auto
  from Cons.prems have "distinct (a # as @ x # bs)" using chain_distinct by fastforce
  then have "a \<notin> set (as @ x # bs)" by simp
  with a(3) have *: "chain (wr m (prev_field a as) (rd m x)) a (as @ bs)" by (rule Cons.IH)
  have "prev_field a as \<noteq> p" using Cons.prems(2) by (auto simp: prev_field_def)
  with * a show ?case by (simp add: prev_field_def rd_wr_other)
qed

lemma chain_prev: "chain m p (as @ x # bs) \<Longrightarrow> rd m (prev_field p as) = x"
proof (induction as arbitrary: p)
  case Nil
  then show ?case by (simp add: prev_field_def)
next
  case (Cons a as)
  then have "rd m (prev_field a as) = x" by simp
  then show ?case by (cases "as = []") (simp_all add: prev_field_def)
qed

lemma chain_end: "chain m p as \<Longrightarrow> rd m (prev_field p as) = null"
proof (induction as arbitrary: p)
  case Nil
  then show ?case by (simp add: prev_field_def)
next
  case (Cons a as)
  then have "rd m (prev_field a as) = null" by simp
  then show ?case by (cases "as = []") (simp_all add: prev_field_def)
qed

text \<open>Append a field: write its address into the last field of the chain.\<close>

lemma chain_append:
  assumes "chain m p xs" "x \<noteq> null" "x \<noteq> p" "x \<notin> set xs" "p \<notin> set xs" "rd m x = null"
  shows "chain (wr m (prev_field p xs) x) p (xs @ [x])"
  using assms
proof (induction xs arbitrary: p)
  case Nil
  then show ?case by (simp add: prev_field_def rd_wr_same rd_wr_other)
next
  case (Cons a xs)
  have d: "distinct (a # xs)" using Cons.prems(1) chain_distinct by blast
  then have "chain (wr m (prev_field a xs) x) a (xs @ [x])" using Cons by simp
  moreover have "prev_field a xs \<noteq> p" using Cons.prems(5) by (auto simp: prev_field_def)
  ultimately show ?case using Cons.prems(1) by (simp add: prev_field_def rd_wr_other)
qed

end

end
