(* ===== verification/Errno.thy ===== *)
theory Errno
  imports Main
begin

text \<open>The error numbers of Linux that the programs compare or return.\<close>

definition ENOENT :: int where "ENOENT = 2"
definition EINTR :: int where "EINTR = 4"
definition EIO :: int where "EIO = 5"
definition EAGAIN :: int where "EAGAIN = 11"
definition EACCES :: int where "EACCES = 13"
definition EINVAL :: int where "EINVAL = 22"
definition EFBIG :: int where "EFBIG = 27"
definition ERANGE :: int where "ERANGE = 34"
definition EIDRM :: int where "EIDRM = 43"
definition ETIME :: int where "ETIME = 62"

lemmas errno_defs = ENOENT_def EINTR_def EIO_def EAGAIN_def EACCES_def EINVAL_def EFBIG_def ERANGE_def EIDRM_def ETIME_def

end
