(* ===== verification/Posix.thy ===== *)
theory Posix
  imports Prelude Errno
begin

text \<open>
  The part of the operating system the library code calls: regular files as byte
  sequences behind inodes, descriptors with a file offset and an access mode, and POSIX
  record locks kept per process and inode as byte ranges.  A system call takes the kernel
  and returns its result with the kernel after it; \<open>-1\<close> is the error return.  A lock
  request that has to wait does not return: its outcome is \<open>Blocked\<close>.  On top of the
  kernel stands \<open>lock_reg\<close> of \<open>apue2e/lib/lockreg.c\<close> with the macros of \<open>apue.h\<close>.
\<close>

unbundle bit_operations_syntax

section \<open>State\<close>

datatype whence = SEEK_SET | SEEK_CUR | SEEK_END

datatype locktype = F_RDLCK | F_WRLCK | F_UNLCK

datatype lockcmd = F_SETLK | F_SETLKW

record ofd =
  of_ino :: nat
  of_pos :: nat
  of_rd :: bool
  of_wr :: bool

text \<open>One held record lock: the bytes from \<open>fl_start\<close> up to \<open>fl_end\<close> (\<open>None\<close>: without end).\<close>

record flock_ent =
  fl_pid :: nat
  fl_ino :: nat
  fl_wr :: bool
  fl_start :: nat
  fl_end :: "nat option"

record kernel =
  k_pid :: nat
  k_errno :: int
  k_dir :: "string \<Rightarrow> nat option"
  k_data :: "nat \<Rightarrow> bytes"
  k_next :: nat
  k_deny :: "string \<Rightarrow> bool"
  k_fds :: "ofd option list"
  k_locks :: "flock_ent list"

definition O_ACCMODE :: "32 word" where "O_ACCMODE = 3"
definition O_RDONLY :: "32 word" where "O_RDONLY = 0"
definition O_WRONLY :: "32 word" where "O_WRONLY = 1"
definition O_RDWR :: "32 word" where "O_RDWR = 2"
definition O_CREAT :: "32 word" where "O_CREAT = 64"
definition O_EXCL :: "32 word" where "O_EXCL = 128"
definition O_TRUNC :: "32 word" where "O_TRUNC = 512"


section \<open>Files\<close>

definition fd_get :: "kernel \<Rightarrow> int \<Rightarrow> ofd option" where
  "fd_get k fd = (if 0 \<le> fd \<and> nat fd < length (k_fds k) then k_fds k ! nat fd else None)"

definition fd_set :: "kernel \<Rightarrow> int \<Rightarrow> ofd option \<Rightarrow> kernel" where
  "fd_set k fd f = k\<lparr>k_fds := (k_fds k)[nat fd := f]\<rparr>"

definition fd_content :: "kernel \<Rightarrow> int \<Rightarrow> bytes" where
  "fd_content k fd = (case fd_get k fd of None \<Rightarrow> [] | Some f \<Rightarrow> k_data k (of_ino f))"

definition seek_base :: "kernel \<Rightarrow> ofd \<Rightarrow> whence \<Rightarrow> int" where
  "seek_base k f w = (case w of SEEK_SET \<Rightarrow> 0 | SEEK_CUR \<Rightarrow> int (of_pos f)
     | SEEK_END \<Rightarrow> int (length (k_data k (of_ino f))))"

definition sys_lseek :: "kernel \<Rightarrow> int \<Rightarrow> int \<Rightarrow> whence \<Rightarrow> int \<times> kernel" where
  "sys_lseek k fd off w = (case fd_get k fd of
     None \<Rightarrow> (-1, k)
   | Some f \<Rightarrow> let n = seek_base k f w + off in
       if n < 0 then (-1, k\<lparr>k_errno := EINVAL\<rparr>)
       else (n, fd_set k fd (Some (f\<lparr>of_pos := nat n\<rparr>))))"

definition sys_read :: "kernel \<Rightarrow> int \<Rightarrow> nat \<Rightarrow> int \<times> bytes \<times> kernel" where
  "sys_read k fd n = (case fd_get k fd of
     None \<Rightarrow> (-1, [], k)
   | Some f \<Rightarrow> if \<not> of_rd f then (-1, [], k)
       else let bs = seg (k_data k (of_ino f)) (of_pos f) n in
         (int (length bs), bs, fd_set k fd (Some (f\<lparr>of_pos := of_pos f + length bs\<rparr>))))"

text \<open>A write past the end first fills the gap with null bytes.\<close>

definition write_at :: "bytes \<Rightarrow> nat \<Rightarrow> bytes \<Rightarrow> bytes" where
  "write_at c p bs = (if bs = [] then c else patch (c @ replicate (p - length c) NUL) p bs)"

definition sys_write :: "kernel \<Rightarrow> int \<Rightarrow> bytes \<Rightarrow> int \<times> kernel" where
  "sys_write k fd bs = (case fd_get k fd of
     None \<Rightarrow> (-1, k)
   | Some f \<Rightarrow> if \<not> of_wr f then (-1, k)
       else (int (length bs),
         fd_set (k\<lparr>k_data := (k_data k)(of_ino f := write_at (k_data k (of_ino f)) (of_pos f) bs)\<rparr>)
           fd (Some (f\<lparr>of_pos := of_pos f + length bs\<rparr>))))"

definition sys_fstat_size :: "kernel \<Rightarrow> int \<Rightarrow> nat option" where
  "sys_fstat_size k fd = map_option (\<lambda>f. length (k_data k (of_ino f))) (fd_get k fd)"

text \<open>A new descriptor is the lowest one not in use.\<close>

definition alloc_fd :: "kernel \<Rightarrow> ofd \<Rightarrow> int \<times> kernel" where
  "alloc_fd k f = (let n = length (takeWhile (\<lambda>x. x \<noteq> None) (k_fds k)) in
     (int n, if n < length (k_fds k) then k\<lparr>k_fds := (k_fds k)[n := Some f]\<rparr>
             else k\<lparr>k_fds := k_fds k @ [Some f]\<rparr>))"

definition sys_open :: "kernel \<Rightarrow> string \<Rightarrow> 32 word \<Rightarrow> int \<times> kernel" where
  "sys_open k path flags =
     (let rd = (flags AND O_ACCMODE \<noteq> O_WRONLY); wr = (flags AND O_ACCMODE \<noteq> O_RDONLY) in
      if k_deny k path then (-1, k)
      else case k_dir k path of
        Some i \<Rightarrow>
          if flags AND O_CREAT \<noteq> 0 \<and> flags AND O_EXCL \<noteq> 0 then (-1, k)
          else alloc_fd (if flags AND O_TRUNC \<noteq> 0 then k\<lparr>k_data := (k_data k)(i := [])\<rparr> else k)
                 \<lparr>of_ino = i, of_pos = 0, of_rd = rd, of_wr = wr\<rparr>
      | None \<Rightarrow>
          if flags AND O_CREAT \<noteq> 0
          then alloc_fd (k\<lparr>k_dir := (k_dir k)(path \<mapsto> k_next k),
                           k_data := (k_data k)(k_next k := []), k_next := Suc (k_next k)\<rparr>)
                 \<lparr>of_ino = k_next k, of_pos = 0, of_rd = rd, of_wr = wr\<rparr>
          else (-1, k))"

text \<open>Closing any descriptor of a file drops every record lock the process has on it.\<close>

definition sys_close :: "kernel \<Rightarrow> int \<Rightarrow> int \<times> kernel" where
  "sys_close k fd = (case fd_get k fd of
     None \<Rightarrow> (-1, k)
   | Some f \<Rightarrow> (0, (fd_set k fd None)\<lparr>k_locks :=
        filter (\<lambda>l. \<not> (fl_pid l = k_pid k \<and> fl_ino l = of_ino f)) (k_locks k)\<rparr>))"

section \<open>Record locks\<close>

definition before_end :: "nat \<Rightarrow> nat option \<Rightarrow> bool" where
  "before_end b e = (case e of None \<Rightarrow> True | Some h \<Rightarrow> b < h)"

definition in_range :: "nat \<Rightarrow> nat \<Rightarrow> nat option \<Rightarrow> bool" where
  "in_range b lo hi \<longleftrightarrow> lo \<le> b \<and> before_end b hi"

definition overlaps :: "nat \<Rightarrow> nat option \<Rightarrow> flock_ent \<Rightarrow> bool" where
  "overlaps lo hi l \<longleftrightarrow> in_range (max lo (fl_start l)) lo hi \<and> in_range (max lo (fl_start l)) (fl_start l) (fl_end l)"

text \<open>A request conflicts with a lock of another process when they overlap and one is a write lock.\<close>

definition conflicts :: "nat \<Rightarrow> nat \<Rightarrow> bool \<Rightarrow> nat \<Rightarrow> nat option \<Rightarrow> flock_ent \<Rightarrow> bool" where
  "conflicts pid ino wr lo hi l \<longleftrightarrow>
     fl_pid l \<noteq> pid \<and> fl_ino l = ino \<and> (wr \<or> fl_wr l) \<and> overlaps lo hi l"

text \<open>What is left of one of the caller's own locks outside the requested range.\<close>

definition carve :: "nat \<Rightarrow> nat \<Rightarrow> nat \<Rightarrow> nat option \<Rightarrow> flock_ent \<Rightarrow> flock_ent list" where
  "carve pid ino lo hi l =
     (if fl_pid l = pid \<and> fl_ino l = ino \<and> overlaps lo hi l
      then (if fl_start l < lo then [l\<lparr>fl_end := Some lo\<rparr>] else [])
         @ (case hi of None \<Rightarrow> []
            | Some h \<Rightarrow> if before_end h (fl_end l) then [l\<lparr>fl_start := h\<rparr>] else [])
      else [l])"

definition set_locks :: "nat \<Rightarrow> nat \<Rightarrow> locktype \<Rightarrow> nat \<Rightarrow> nat option \<Rightarrow> flock_ent list \<Rightarrow> flock_ent list" where
  "set_locks pid ino t lo hi ls =
     (let rest = concat (map (carve pid ino lo hi) ls) in
      if t = F_UNLCK then rest
      else \<lparr>fl_pid = pid, fl_ino = ino, fl_wr = (t = F_WRLCK), fl_start = lo, fl_end = hi\<rparr> # rest)"

text \<open>The range of a \<open>struct flock\<close>: \<open>l_len\<close> 0 reaches to the end of the file, however it grows.\<close>

definition flock_range :: "int \<Rightarrow> int \<Rightarrow> (nat \<times> nat option) option" where
  "flock_range s len =
     (let lo = (if len < 0 then s + len else s);
          hi = (if len = 0 then None else if len < 0 then Some (nat s) else Some (nat (s + len)))
      in if lo < 0 then None else Some (nat lo, hi))"

definition sys_fcntl_lock ::
  "kernel \<Rightarrow> int \<Rightarrow> lockcmd \<Rightarrow> locktype \<Rightarrow> int \<Rightarrow> whence \<Rightarrow> int \<Rightarrow> (int \<times> kernel) res" where
  "sys_fcntl_lock k fd cmd t start w len = (case fd_get k fd of
     None \<Rightarrow> Inr (-1, k)
   | Some f \<Rightarrow>
       if (t = F_RDLCK \<and> \<not> of_rd f) \<or> (t = F_WRLCK \<and> \<not> of_wr f) then Inr (-1, k)
       else case flock_range (seek_base k f w + start) len of
         None \<Rightarrow> Inr (-1, k\<lparr>k_errno := EINVAL\<rparr>)
       | Some (lo, hi) \<Rightarrow>
           if t \<noteq> F_UNLCK \<and> (\<exists>l \<in> set (k_locks k). conflicts (k_pid k) (of_ino f) (t = F_WRLCK) lo hi l)
           then (if cmd = F_SETLKW then Inl (Blocked ''fcntl'') else Inr (-1, k\<lparr>k_errno := EAGAIN\<rparr>))
           else Inr (0, k\<lparr>k_locks := set_locks (k_pid k) (of_ino f) t lo hi (k_locks k)\<rparr>))"

text \<open>\<open>lock_reg\<close> fills a \<open>struct flock\<close> and calls \<open>fcntl\<close>; the macros of \<open>apue.h\<close> fix command and type.\<close>

definition lock_reg ::
  "kernel \<Rightarrow> int \<Rightarrow> lockcmd \<Rightarrow> locktype \<Rightarrow> int \<Rightarrow> whence \<Rightarrow> int \<Rightarrow> (int \<times> kernel) res" where
  "lock_reg k fd cmd type offset w len = sys_fcntl_lock k fd cmd type offset w len"

definition read_lock :: "kernel \<Rightarrow> int \<Rightarrow> int \<Rightarrow> whence \<Rightarrow> int \<Rightarrow> (int \<times> kernel) res" where
  "read_lock k fd offset w len = lock_reg k fd F_SETLK F_RDLCK offset w len"

definition readw_lock :: "kernel \<Rightarrow> int \<Rightarrow> int \<Rightarrow> whence \<Rightarrow> int \<Rightarrow> (int \<times> kernel) res" where
  "readw_lock k fd offset w len = lock_reg k fd F_SETLKW F_RDLCK offset w len"

definition write_lock :: "kernel \<Rightarrow> int \<Rightarrow> int \<Rightarrow> whence \<Rightarrow> int \<Rightarrow> (int \<times> kernel) res" where
  "write_lock k fd offset w len = lock_reg k fd F_SETLK F_WRLCK offset w len"

definition writew_lock :: "kernel \<Rightarrow> int \<Rightarrow> int \<Rightarrow> whence \<Rightarrow> int \<Rightarrow> (int \<times> kernel) res" where
  "writew_lock k fd offset w len = lock_reg k fd F_SETLKW F_WRLCK offset w len"

definition un_lock :: "kernel \<Rightarrow> int \<Rightarrow> int \<Rightarrow> whence \<Rightarrow> int \<Rightarrow> (int \<times> kernel) res" where
  "un_lock k fd offset w len = lock_reg k fd F_SETLK F_UNLCK offset w len"

text \<open>
  \<open>lock_test\<close> of \<open>locktest.c\<close>: \<open>F_GETLK\<close> reports the first lock of another process that
  the request would conflict with; 0 when there is none.
\<close>

definition lock_test :: "kernel \<Rightarrow> int \<Rightarrow> locktype \<Rightarrow> int \<Rightarrow> whence \<Rightarrow> int \<Rightarrow> int res" where
  "lock_test k fd type offset w len = (case fd_get k fd of
     None \<Rightarrow> Inl (Err_sys ''fcntl error'')
   | Some f \<Rightarrow> (case flock_range (seek_base k f w + offset) len of
       None \<Rightarrow> Inl (Err_sys ''fcntl error'')
     | Some (lo, hi) \<Rightarrow>
         (case filter (conflicts (k_pid k) (of_ino f) (type = F_WRLCK) lo hi) (k_locks k) of
            [] \<Rightarrow> Inr 0
          | l # _ \<Rightarrow> Inr (int (fl_pid l)))))"

definition is_read_lockable :: "kernel \<Rightarrow> int \<Rightarrow> int \<Rightarrow> whence \<Rightarrow> int \<Rightarrow> bool res" where
  "is_read_lockable k fd offset w len =
     res_bind (lock_test k fd F_RDLCK offset w len) (\<lambda>p. Inr (p = 0))"

definition is_write_lockable :: "kernel \<Rightarrow> int \<Rightarrow> int \<Rightarrow> whence \<Rightarrow> int \<Rightarrow> bool res" where
  "is_write_lockable k fd offset w len =
     res_bind (lock_test k fd F_WRLCK offset w len) (\<lambda>p. Inr (p = 0))"

section \<open>Locks by byte\<close>

text \<open>What the lock table means: does a process hold a lock of a kind on one byte of an inode?\<close>

definition holds_lock :: "flock_ent list \<Rightarrow> nat \<Rightarrow> nat \<Rightarrow> bool \<Rightarrow> nat \<Rightarrow> bool" where
  "holds_lock ls pid ino wr b \<longleftrightarrow>
     (\<exists>l \<in> set ls. fl_pid l = pid \<and> fl_ino l = ino \<and> fl_wr l = wr \<and> in_range b (fl_start l) (fl_end l))"

text \<open>The table is sound when no two processes hold conflicting locks on a byte.\<close>

definition locks_sound :: "flock_ent list \<Rightarrow> bool" where
  "locks_sound ls \<longleftrightarrow>
     (\<forall>p q i w b. holds_lock ls p i True b \<and> holds_lock ls q i w b \<longrightarrow> p = q)"

lemma before_end_simps [simp]: "before_end b None" "before_end b (Some h) \<longleftrightarrow> b < h"
  by (simp_all add: before_end_def)

lemma overlaps_iff: "overlaps lo hi l \<longleftrightarrow> (\<exists>b. in_range b lo hi \<and> in_range b (fl_start l) (fl_end l))"
proof
  assume "overlaps lo hi l"
  then show "\<exists>b. in_range b lo hi \<and> in_range b (fl_start l) (fl_end l)"
    unfolding overlaps_def by blast
next
  assume "\<exists>b. in_range b lo hi \<and> in_range b (fl_start l) (fl_end l)"
  then show "overlaps lo hi l"
    by (cases hi; cases "fl_end l") (auto simp: overlaps_def in_range_def)
qed

lemma carve_in_range:
  assumes "fl_pid l = pid" "fl_ino l = ino"
  shows "(\<exists>c \<in> set (carve pid ino lo hi l). fl_wr c = w \<and> in_range b (fl_start c) (fl_end c))
     \<longleftrightarrow> fl_wr l = w \<and> in_range b (fl_start l) (fl_end l) \<and> \<not> in_range b lo hi"
  using assms
  by (cases hi; cases "fl_end l")
     (auto simp: carve_def overlaps_def in_range_def max_def split: if_splits)

lemma carve_owner: "c \<in> set (carve pid ino lo hi l) \<Longrightarrow> fl_pid c = fl_pid l \<and> fl_ino c = fl_ino l"
  by (auto simp: carve_def split: if_splits option.splits)

lemma carve_other: "\<not> (fl_pid l = pid \<and> fl_ino l = ino) \<Longrightarrow> carve pid ino lo hi l = [l]"
  by (auto simp: carve_def)

lemma holds_lock_carved:
  "holds_lock (concat (map (carve pid ino lo hi) ls)) p i w b \<longleftrightarrow>
     holds_lock ls p i w b \<and> \<not> (p = pid \<and> i = ino \<and> in_range b lo hi)"
proof -
  have "(\<exists>c \<in> set (carve pid ino lo hi l). fl_pid c = p \<and> fl_ino c = i \<and> fl_wr c = w \<and>
          in_range b (fl_start c) (fl_end c)) \<longleftrightarrow>
        fl_pid l = p \<and> fl_ino l = i \<and> fl_wr l = w \<and> in_range b (fl_start l) (fl_end l) \<and>
          \<not> (p = pid \<and> i = ino \<and> in_range b lo hi)" for l
  proof (cases "fl_pid l = pid \<and> fl_ino l = ino")
    case True
    then show ?thesis using carve_in_range [of l pid ino lo hi w b] carve_owner by metis
  next
    case False
    then show ?thesis by (auto simp: carve_other)
  qed
  then show ?thesis unfolding holds_lock_def by (simp add: bex_Un) blast
qed

lemma holds_lock_set_locks:
  "holds_lock (set_locks pid ino t lo hi ls) p i w b \<longleftrightarrow>
     (if p = pid \<and> i = ino \<and> in_range b lo hi then t \<noteq> F_UNLCK \<and> w = (t = F_WRLCK)
      else holds_lock ls p i w b)"
proof -
  have "holds_lock (set_locks pid ino t lo hi ls) p i w b \<longleftrightarrow>
     (t \<noteq> F_UNLCK \<and> p = pid \<and> i = ino \<and> w = (t = F_WRLCK) \<and> in_range b lo hi)
     \<or> holds_lock (concat (map (carve pid ino lo hi) ls)) p i w b"
    by (auto simp: set_locks_def Let_def holds_lock_def)
  then show ?thesis by (auto simp: holds_lock_carved)
qed

text \<open>Granting a request that conflicts with nothing keeps the table sound.\<close>

lemma no_conflict_holds:
  assumes "\<not> (\<exists>l \<in> set ls. conflicts pid ino wr lo hi l)" "in_range b lo hi" "p \<noteq> pid"
  shows "holds_lock ls p ino w b \<Longrightarrow> \<not> wr \<and> \<not> w"
  using assms by (auto simp: holds_lock_def conflicts_def overlaps_iff)

lemma set_locks_sound:
  assumes "locks_sound ls" "t = F_UNLCK \<or> \<not> (\<exists>l \<in> set ls. conflicts pid ino (t = F_WRLCK) lo hi l)"
  shows "locks_sound (set_locks pid ino t lo hi ls)"
  unfolding locks_sound_def
proof (intro allI impI)
  fix p q i w b
  assume h: "holds_lock (set_locks pid ino t lo hi ls) p i True b \<and>
             holds_lock (set_locks pid ino t lo hi ls) q i w b"
  show "p = q"
  proof (cases "i = ino \<and> in_range b lo hi \<and> (p = pid \<or> q = pid)")
    case False
    with h have "holds_lock ls p i True b" "holds_lock ls q i w b"
      by (auto simp: holds_lock_set_locks split: if_splits)
    with assms(1) show ?thesis unfolding locks_sound_def by blast
  next
    case True
    then show ?thesis
      using h assms(2) no_conflict_holds [of ls pid ino "t = F_WRLCK" lo hi b]
      by (auto simp: holds_lock_set_locks split: if_splits)
  qed
qed

text \<open>Releasing the range that was just locked restores a table without own locks there.\<close>

lemma set_unlock_lock:
  assumes "t \<noteq> F_UNLCK" "in_range b lo hi"
    "\<forall>l \<in> set ls. \<not> (fl_pid l = pid \<and> fl_ino l = ino \<and> overlaps lo hi l)"
  shows "set_locks pid ino F_UNLCK lo hi (set_locks pid ino t lo hi ls) = ls"
proof -
  have 1: "map (carve pid ino lo hi) ls = map (\<lambda>l. [l]) ls"
    using assms(3) by (auto simp: carve_def)
  have "overlaps lo hi \<lparr>fl_pid = pid, fl_ino = ino, fl_wr = t = F_WRLCK, fl_start = lo, fl_end = hi\<rparr>"
    using assms(2) by (auto simp: overlaps_iff)
  then have 2: "carve pid ino lo hi
      \<lparr>fl_pid = pid, fl_ino = ino, fl_wr = t = F_WRLCK, fl_start = lo, fl_end = hi\<rparr> = []"
    by (auto simp: carve_def split: option.splits)
  have 3: "concat (map (carve pid ino lo hi) ls) = ls" unfolding 1 by (induction ls) simp_all
  from assms(1) 2 3 show ?thesis by (simp add: set_locks_def)
qed

end
