(* ===== verification/Db_Model.thy ===== *)
theory Db_Model
  imports Posix
begin

text \<open>
  The database library of \<open>apue2e/db/db.c\<close>, function by function: an index file that holds
  a free-list pointer, a hash table of chain pointers and the index records, and a data
  file that holds the data records.  Every function takes the kernel and the \<open>DB\<close>
  structure and returns them updated; \<open>err_dump\<close> and \<open>err_quit\<close> end the call with the
  corresponding \<open>halt\<close> value.  The loops over chains are given more steps than the index
  file has bytes; a loop that needs more has met an offset twice and never ends (\<open>Loops\<close>).
\<close>

section \<open>Constants and the DB structure\<close>

definition IDXLEN_SZ :: nat where [simp]: "IDXLEN_SZ = 4"
definition IDXLEN_MIN :: nat where [simp]: "IDXLEN_MIN = 6"
definition IDXLEN_MAX :: nat where [simp]: "IDXLEN_MAX = 1024"
definition DATLEN_MIN :: nat where [simp]: "DATLEN_MIN = 2"
definition DATLEN_MAX :: nat where [simp]: "DATLEN_MAX = 1024"
definition PTR_SZ :: nat where [simp]: "PTR_SZ = 6"
definition PTR_MAX :: int where [simp]: "PTR_MAX = 999999"
definition NHASH_DEF :: nat where [simp]: "NHASH_DEF = 137"
definition FREE_OFF :: int where [simp]: "FREE_OFF = 0"
definition HASH_OFF :: int where [simp]: "HASH_OFF = 6"
definition SEP :: char where [simp]: "SEP = CHR '':''"
definition SPACE :: char where [simp]: "SPACE = CHR '' ''"
definition DB_INSERT :: int where [simp]: "DB_INSERT = 1"
definition DB_REPLACE :: int where [simp]: "DB_REPLACE = 2"
definition DB_STORE :: int where [simp]: "DB_STORE = 3"

record DB =
  idxfd :: int
  datfd :: int
  idxbuf :: bytes
  datbuf :: bytes
  db_name :: string
  idxoff :: int
  idxlen :: nat
  datoff :: int
  datlen :: nat
  ptrval :: int
  ptroff :: int
  chainoff :: int
  hashoff :: int
  nhash :: "64 word"
  cnt_delok :: "64 word"
  cnt_delerr :: "64 word"
  cnt_fetchok :: "64 word"
  cnt_fetcherr :: "64 word"
  cnt_nextrec :: "64 word"
  cnt_stor1 :: "64 word"
  cnt_stor2 :: "64 word"
  cnt_stor3 :: "64 word"
  cnt_stor4 :: "64 word"
  cnt_storerr :: "64 word"

text \<open>The idiom \<open>if (lock(...) < 0) err_dump(msg)\<close>.\<close>

definition must_lock :: "(int \<times> kernel) res \<Rightarrow> string \<Rightarrow> kernel res" where
  "must_lock m msg = res_bind m (\<lambda>(r, k). if r < 0 then Inl (Err_dump msg) else Inr k)"

section \<open>Reading\<close>

fun hash_loop :: "64 word \<Rightarrow> int \<Rightarrow> string \<Rightarrow> 64 word" where
  "hash_loop hval i [] = hval"
| "hash_loop hval i (c # cs) = hash_loop (hval + word_of_int (schar c * i)) (i + 1) cs"

definition db_hash :: "DB \<Rightarrow> string \<Rightarrow> 64 word" where
  "db_hash db key = hash_loop 0 1 key mod nhash db"

definition db_readptr :: "kernel \<Rightarrow> DB \<Rightarrow> int \<Rightarrow> (int \<times> kernel) res" where
  "db_readptr k db offset =
     (let (r, k) = sys_lseek k (idxfd db) offset SEEK_SET in
      if r = -1 then Inl (Err_dump ''_db_readptr: lseek error to ptr field'')
      else let (n, asciiptr, k) = sys_read k (idxfd db) PTR_SZ in
        if n \<noteq> int PTR_SZ then Inl (Err_dump ''_db_readptr: read error of ptr field'')
        else Inr (atol asciiptr, k))"

text \<open>
  The parse of an index record in \<open>idxbuf\<close> once its bytes are read: the newline and both
  separators become null bytes, and the data offset and length are read behind them.
\<close>

definition db_parseidx :: "DB \<Rightarrow> DB res" where
  "db_parseidx db =
     (let buf = idxbuf db in
      if buf ! (idxlen db - 1) \<noteq> NL then Inl (Err_dump ''_db_readidx: missing newline'')
      else let buf = buf[idxlen db - 1 := NUL] in
      case strchr buf SEP of
        None \<Rightarrow> Inl (Err_dump ''_db_readidx: missing first separator'')
      | Some i1 \<Rightarrow>
          let buf = buf[i1 := NUL]; ptr1 = i1 + 1 in
          case strchr (drop ptr1 buf) SEP of
            None \<Rightarrow> Inl (Err_dump ''_db_readidx: missing second separator'')
          | Some j \<Rightarrow>
              let buf = buf[ptr1 + j := NUL]; ptr2 = ptr1 + j + 1 in
              if strchr (drop ptr2 buf) SEP \<noteq> None
              then Inl (Err_dump ''_db_readidx: too many separators'')
              else let off = atol (drop ptr1 buf); len = to_size_t (atol (drop ptr2 buf)) in
                if off < 0 then Inl (Err_dump ''_db_readidx: starting offset < 0'')
                else if len = 0 \<or> len > DATLEN_MAX then Inl (Err_dump ''_db_readidx: invalid length'')
                else Inr (db\<lparr>idxbuf := buf, datoff := off, datlen := len\<rparr>))"

definition db_readidx :: "kernel \<Rightarrow> DB \<Rightarrow> int \<Rightarrow> (int \<times> kernel \<times> DB) res" where
  "db_readidx k db offset =
     (let (r, k) = sys_lseek k (idxfd db) offset (if offset = 0 then SEEK_CUR else SEEK_SET);
          db = db\<lparr>idxoff := r\<rparr> in
      if r = -1 then Inl (Err_dump ''_db_readidx: lseek error'')
      else let (i, bs, k) = sys_read k (idxfd db) (PTR_SZ + IDXLEN_SZ) in
      if i \<noteq> int (PTR_SZ + IDXLEN_SZ)
      then (if i = 0 \<and> offset = 0 then Inr (-1, k, db)
            else Inl (Err_dump ''_db_readidx: readv error of index record''))
      else let asciiptr = take PTR_SZ bs; asciilen = drop PTR_SZ bs;
               db = db\<lparr>ptrval := atol asciiptr, idxlen := to_size_t (atol asciilen)\<rparr> in
      if idxlen db < IDXLEN_MIN \<or> idxlen db > IDXLEN_MAX
      then Inl (Err_dump ''_db_readidx: invalid length'')
      else let (i, bs, k) = sys_read k (idxfd db) (idxlen db) in
      if i \<noteq> int (idxlen db) then Inl (Err_dump ''_db_readidx: read error of index record'')
      else res_bind (db_parseidx (db\<lparr>idxbuf := patch (idxbuf db) 0 bs\<rparr>))
             (\<lambda>db. Inr (ptrval db, k, db)))"

definition db_readdat :: "kernel \<Rightarrow> DB \<Rightarrow> (string \<times> kernel \<times> DB) res" where
  "db_readdat k db =
     (let (r, k) = sys_lseek k (datfd db) (datoff db) SEEK_SET in
      if r = -1 then Inl (Err_dump ''_db_readdat: lseek error'')
      else let (i, bs, k) = sys_read k (datfd db) (datlen db) in
      if i \<noteq> int (datlen db) then Inl (Err_dump ''_db_readdat: read error'')
      else let buf = patch (datbuf db) 0 bs in
      if buf ! (datlen db - 1) \<noteq> NL then Inl (Err_dump ''_db_readdat: missing newline'')
      else let buf = buf[datlen db - 1 := NUL] in
        Inr (cstr buf, k, db\<lparr>datbuf := buf\<rparr>))"

section \<open>Searching\<close>

text \<open>More steps than there are record offsets in the index file.\<close>

definition idx_fuel :: "kernel \<Rightarrow> DB \<Rightarrow> nat" where
  "idx_fuel k db = Suc (Suc (length (fd_content k (idxfd db))))"

primrec db_find_loop :: "nat \<Rightarrow> kernel \<Rightarrow> DB \<Rightarrow> string \<Rightarrow> int \<Rightarrow> (int \<times> kernel \<times> DB) res" where
  "db_find_loop 0 k db key offset = Inl Loops"
| "db_find_loop (Suc n) k db key offset =
     (if offset = 0 then Inr (offset, k, db)
      else res_bind (db_readidx k db offset) (\<lambda>(nextoffset, k, db).
        if cstr (idxbuf db) = key then Inr (offset, k, db)
        else db_find_loop n k (db\<lparr>ptroff := offset\<rparr>) key nextoffset))"

definition db_find_and_lock :: "kernel \<Rightarrow> DB \<Rightarrow> string \<Rightarrow> bool \<Rightarrow> (int \<times> kernel \<times> DB) res" where
  "db_find_and_lock k db key writelock =
     (let coff = sint (db_hash db key * of_nat PTR_SZ + word_of_int (hashoff db));
          db = db\<lparr>chainoff := coff, ptroff := coff\<rparr> in
      res_bind
        (if writelock
         then must_lock (writew_lock k (idxfd db) (chainoff db) SEEK_SET 1)
                ''_db_find_and_lock: writew_lock error''
         else must_lock (readw_lock k (idxfd db) (chainoff db) SEEK_SET 1)
                ''_db_find_and_lock: readw_lock error'') (\<lambda>k.
      res_bind (db_readptr k db (ptroff db)) (\<lambda>(offset, k).
      res_bind (db_find_loop (idx_fuel k db) k db key offset) (\<lambda>(offset, k, db).
      Inr (if offset = 0 then -1 else 0, k, db)))))"

definition db_fetch :: "kernel \<Rightarrow> DB \<Rightarrow> string \<Rightarrow> (string option \<times> kernel \<times> DB) res" where
  "db_fetch k db key =
     res_bind (db_find_and_lock k db key False) (\<lambda>(rc, k, db).
     res_bind
       (if rc < 0 then Inr (None, k, db\<lparr>cnt_fetcherr := cnt_fetcherr db + 1\<rparr>)
        else res_bind (db_readdat k db) (\<lambda>(ptr, k, db).
               Inr (Some ptr, k, db\<lparr>cnt_fetchok := cnt_fetchok db + 1\<rparr>))) (\<lambda>(ptr, k, db).
     res_bind (must_lock (un_lock k (idxfd db) (chainoff db) SEEK_SET 1) ''db_fetch: un_lock error'') (\<lambda>k.
     Inr (ptr, k, db))))"

section \<open>Writing\<close>

definition db_writedat :: "kernel \<Rightarrow> DB \<Rightarrow> string \<Rightarrow> int \<Rightarrow> whence \<Rightarrow> (kernel \<times> DB) res" where
  "db_writedat k db data offset w =
     res_bind
       (if w = SEEK_END
        then must_lock (writew_lock k (datfd db) 0 SEEK_SET 0) ''_db_writedat: writew_lock error''
        else Inr k) (\<lambda>k.
     let (r, k) = sys_lseek k (datfd db) offset w; db = db\<lparr>datoff := r\<rparr> in
     if r = -1 then Inl (Err_dump ''_db_writedat: lseek error'')
     else let db = db\<lparr>datlen := length data + 1\<rparr>;
              (n, k) = sys_write k (datfd db) (data @ [NL]) in
     if n \<noteq> int (datlen db) then Inl (Err_dump ''_db_writedat: writev error of data record'')
     else res_bind
       (if w = SEEK_END
        then must_lock (un_lock k (datfd db) 0 SEEK_SET 0) ''_db_writedat: un_lock error''
        else Inr k) (\<lambda>k. Inr (k, db)))"

definition db_writeidx :: "kernel \<Rightarrow> DB \<Rightarrow> string \<Rightarrow> int \<Rightarrow> whence \<Rightarrow> int \<Rightarrow> (kernel \<times> DB) res" where
  "db_writeidx k db key offset w pv =
     (let db = db\<lparr>ptrval := pv\<rparr> in
      if pv < 0 \<or> pv > PTR_MAX then Inl (Err_quit ''_db_writeidx: invalid ptr'')
      else let rec = key @ [SEP] @ dec_int (datoff db) @ [SEP] @ dec (datlen db) @ [NL]; len = length rec in
      if len + 1 > IDXLEN_MAX + 2 then Inl (Overrun ''_db_writeidx: idxbuf'')
      else let db = db\<lparr>idxbuf := patch (idxbuf db) 0 (rec @ [NUL])\<rparr> in
      if len < IDXLEN_MIN \<or> len > IDXLEN_MAX then Inl (Err_dump ''_db_writeidx: invalid length'')
      else let asciiptrlen = pad PTR_SZ (dec_int pv) @ pad IDXLEN_SZ (dec len) in
      res_bind
        (if w = SEEK_END
         then must_lock (writew_lock k (idxfd db) (sint ((nhash db + 1) * of_nat PTR_SZ) + 1) SEEK_SET 0)
                ''_db_writeidx: writew_lock error''
         else Inr k) (\<lambda>k.
      let (r, k) = sys_lseek k (idxfd db) offset w; db = db\<lparr>idxoff := r\<rparr> in
      if r = -1 then Inl (Err_dump ''_db_writeidx: lseek error'')
      else let (n, k) = sys_write k (idxfd db) (asciiptrlen @ rec) in
      if n \<noteq> int (PTR_SZ + IDXLEN_SZ + len)
      then Inl (Err_dump ''_db_writeidx: writev error of index record'')
      else res_bind
        (if w = SEEK_END
         then must_lock (un_lock k (idxfd db) (sint ((nhash db + 1) * of_nat PTR_SZ) + 1) SEEK_SET 0)
                ''_db_writeidx: un_lock error''
         else Inr k) (\<lambda>k. Inr (k, db))))"

definition db_writeptr :: "kernel \<Rightarrow> DB \<Rightarrow> int \<Rightarrow> int \<Rightarrow> kernel res" where
  "db_writeptr k db offset pv =
     (if pv < 0 \<or> pv > PTR_MAX then Inl (Err_quit ''_db_writeptr: invalid ptr'')
      else let asciiptr = pad PTR_SZ (dec_int pv); (r, k) = sys_lseek k (idxfd db) offset SEEK_SET in
      if r = -1 then Inl (Err_dump ''_db_writeptr: lseek error to ptr field'')
      else let (n, k) = sys_write k (idxfd db) (take PTR_SZ asciiptr) in
      if n \<noteq> int PTR_SZ then Inl (Err_dump ''_db_writeptr: write error of ptr field'')
      else Inr k)"

section \<open>Deleting\<close>

text \<open>
  Data and key are overwritten with blanks; the record goes to the head of the free list
  and its predecessor on the hash chain skips it.
\<close>

definition db_dodelete :: "kernel \<Rightarrow> DB \<Rightarrow> (kernel \<times> DB) res" where
  "db_dodelete k db =
     (let blanks = replicate (datlen db - 1) SPACE;
          db = db\<lparr>datbuf := patch (datbuf db) 0 (blanks @ [NUL]),
                  idxbuf := patch (idxbuf db) 0 (replicate (length (cstr (idxbuf db))) SPACE)\<rparr> in
      res_bind (must_lock (writew_lock k (idxfd db) FREE_OFF SEEK_SET 1) ''_db_dodelete: writew_lock error'') (\<lambda>k.
      res_bind (db_writedat k db (cstr (datbuf db)) (datoff db) SEEK_SET) (\<lambda>(k, db).
      res_bind (db_readptr k db FREE_OFF) (\<lambda>(freeptr, k).
      let saveptr = ptrval db in
      res_bind (db_writeidx k db (cstr (idxbuf db)) (idxoff db) SEEK_SET freeptr) (\<lambda>(k, db).
      res_bind (db_writeptr k db FREE_OFF (idxoff db)) (\<lambda>k.
      res_bind (db_writeptr k db (ptroff db) saveptr) (\<lambda>k.
      res_bind (must_lock (un_lock k (idxfd db) FREE_OFF SEEK_SET 1) ''_db_dodelete: un_lock error'') (\<lambda>k.
      Inr (k, db)))))))))"

definition db_delete :: "kernel \<Rightarrow> DB \<Rightarrow> string \<Rightarrow> (int \<times> kernel \<times> DB) res" where
  "db_delete k db key =
     res_bind (db_find_and_lock k db key True) (\<lambda>(r, k, db).
     res_bind
       (if r = 0
        then res_bind (db_dodelete k db) (\<lambda>(k, db). Inr (0, k, db\<lparr>cnt_delok := cnt_delok db + 1\<rparr>))
        else Inr (-1, k, db\<lparr>cnt_delerr := cnt_delerr db + 1\<rparr>)) (\<lambda>(rc, k, db).
     res_bind (must_lock (un_lock k (idxfd db) (chainoff db) SEEK_SET 1) ''db_delete: un_lock error'') (\<lambda>k.
     Inr (rc, k, db))))"

section \<open>Storing\<close>

primrec db_findfree_loop ::
  "nat \<Rightarrow> kernel \<Rightarrow> DB \<Rightarrow> nat \<Rightarrow> nat \<Rightarrow> int \<Rightarrow> int \<Rightarrow> (int \<times> int \<times> kernel \<times> DB) res" where
  "db_findfree_loop 0 k db keylen dlen saveoffset offset = Inl Loops"
| "db_findfree_loop (Suc n) k db keylen dlen saveoffset offset =
     (if offset = 0 then Inr (saveoffset, offset, k, db)
      else res_bind (db_readidx k db offset) (\<lambda>(nextoffset, k, db).
        if length (cstr (idxbuf db)) = keylen \<and> datlen db = dlen then Inr (saveoffset, offset, k, db)
        else db_findfree_loop n k db keylen dlen offset nextoffset))"

definition db_findfree :: "kernel \<Rightarrow> DB \<Rightarrow> nat \<Rightarrow> nat \<Rightarrow> (int \<times> kernel \<times> DB) res" where
  "db_findfree k db keylen dlen =
     res_bind (must_lock (writew_lock k (idxfd db) FREE_OFF SEEK_SET 1) ''_db_findfree: writew_lock error'') (\<lambda>k.
     res_bind (db_readptr k db FREE_OFF) (\<lambda>(offset, k).
     res_bind (db_findfree_loop (idx_fuel k db) k db keylen dlen FREE_OFF offset) (\<lambda>(saveoffset, offset, k, db).
     res_bind
       (if offset = 0 then Inr (-1, k)
        else res_bind (db_writeptr k db saveoffset (ptrval db)) (\<lambda>k. Inr (0, k))) (\<lambda>(rc, k).
     res_bind (must_lock (un_lock k (idxfd db) FREE_OFF SEEK_SET 1) ''_db_findfree: un_lock error'') (\<lambda>k.
     Inr (rc, k, db))))))"

text \<open>The two ways a record is written: at the end of both files, or over a free record.\<close>

definition db_append :: "kernel \<Rightarrow> DB \<Rightarrow> string \<Rightarrow> string \<Rightarrow> int \<Rightarrow> (kernel \<times> DB) res" where
  "db_append k db key data pv =
     res_bind (db_writedat k db data 0 SEEK_END) (\<lambda>(k, db).
     res_bind (db_writeidx k db key 0 SEEK_END pv) (\<lambda>(k, db).
     res_bind (db_writeptr k db (chainoff db) (idxoff db)) (\<lambda>k. Inr (k, db))))"

definition db_reuse :: "kernel \<Rightarrow> DB \<Rightarrow> string \<Rightarrow> string \<Rightarrow> int \<Rightarrow> (kernel \<times> DB) res" where
  "db_reuse k db key data pv =
     res_bind (db_writedat k db data (datoff db) SEEK_SET) (\<lambda>(k, db).
     res_bind (db_writeidx k db key (idxoff db) SEEK_SET pv) (\<lambda>(k, db).
     res_bind (db_writeptr k db (chainoff db) (idxoff db)) (\<lambda>k. Inr (k, db))))"

definition db_store_new :: "kernel \<Rightarrow> DB \<Rightarrow> string \<Rightarrow> string \<Rightarrow> (kernel \<times> DB) res" where
  "db_store_new k db key data =
     res_bind (db_readptr k db (chainoff db)) (\<lambda>(pv, k).
     res_bind (db_findfree k db (length key) (length data + 1)) (\<lambda>(rc, k, db).
     if rc < 0
     then res_bind (db_append k db key data pv) (\<lambda>(k, db). Inr (k, db\<lparr>cnt_stor1 := cnt_stor1 db + 1\<rparr>))
     else res_bind (db_reuse k db key data pv) (\<lambda>(k, db). Inr (k, db\<lparr>cnt_stor2 := cnt_stor2 db + 1\<rparr>))))"

definition db_store_old :: "kernel \<Rightarrow> DB \<Rightarrow> string \<Rightarrow> string \<Rightarrow> (kernel \<times> DB) res" where
  "db_store_old k db key data =
     (if length data + 1 \<noteq> datlen db
      then res_bind (db_dodelete k db) (\<lambda>(k, db).
           res_bind (db_readptr k db (chainoff db)) (\<lambda>(pv, k).
           res_bind (db_append k db key data pv) (\<lambda>(k, db).
           Inr (k, db\<lparr>cnt_stor3 := cnt_stor3 db + 1\<rparr>))))
      else res_bind (db_writedat k db data (datoff db) SEEK_SET) (\<lambda>(k, db).
           Inr (k, db\<lparr>cnt_stor4 := cnt_stor4 db + 1\<rparr>)))"

definition db_store :: "kernel \<Rightarrow> DB \<Rightarrow> string \<Rightarrow> string \<Rightarrow> int \<Rightarrow> (int \<times> kernel \<times> DB) res" where
  "db_store k db key data flag =
     (if flag \<noteq> DB_INSERT \<and> flag \<noteq> DB_REPLACE \<and> flag \<noteq> DB_STORE
      then Inr (-1, k\<lparr>k_errno := EINVAL\<rparr>, db)
      else if length data + 1 < DATLEN_MIN \<or> length data + 1 > DATLEN_MAX
      then Inl (Err_dump ''db_store: invalid data length'')
      else res_bind (db_find_and_lock k db key True) (\<lambda>(r, k, db).
      res_bind
        (if r < 0
         then (if flag = DB_REPLACE
               then Inr (-1, k\<lparr>k_errno := ENOENT\<rparr>, db\<lparr>cnt_storerr := cnt_storerr db + 1\<rparr>)
               else res_bind (db_store_new k db key data) (\<lambda>(k, db). Inr (0, k, db)))
         else (if flag = DB_INSERT
               then Inr (1, k, db\<lparr>cnt_storerr := cnt_storerr db + 1\<rparr>)
               else res_bind (db_store_old k db key data) (\<lambda>(k, db). Inr (0, k, db)))) (\<lambda>(rc, k, db).
      res_bind (must_lock (un_lock k (idxfd db) (chainoff db) SEEK_SET 1) ''db_store: un_lock error'') (\<lambda>k.
      Inr (rc, k, db)))))"

section \<open>Sequential access\<close>

definition db_rewind :: "kernel \<Rightarrow> DB \<Rightarrow> (kernel \<times> DB) res" where
  "db_rewind k db =
     (let offset = sint ((nhash db + 1) * of_nat PTR_SZ);
          (r, k) = sys_lseek k (idxfd db) (offset + 1) SEEK_SET; db = db\<lparr>idxoff := r\<rparr> in
      if r = -1 then Inl (Err_dump ''db_rewind: lseek error'') else Inr (k, db))"

text \<open>Skip index records whose key is all blank; \<open>None\<close> at the end of the index file.\<close>

primrec db_next_loop :: "nat \<Rightarrow> kernel \<Rightarrow> DB \<Rightarrow> (bool \<times> kernel \<times> DB) res" where
  "db_next_loop 0 k db = Inl Loops"
| "db_next_loop (Suc n) k db =
     res_bind (db_readidx k db 0) (\<lambda>(r, k, db).
       if r < 0 then Inr (False, k, db)
       else if dropWhile (\<lambda>c. c = SPACE) (cstr (idxbuf db)) = [] then db_next_loop n k db
       else Inr (True, k, db))"

definition db_nextrec :: "kernel \<Rightarrow> DB \<Rightarrow> ((string \<times> string) option \<times> kernel \<times> DB) res" where
  "db_nextrec k db =
     res_bind (must_lock (readw_lock k (idxfd db) FREE_OFF SEEK_SET 1) ''db_nextrec: readw_lock error'') (\<lambda>k.
     res_bind (db_next_loop (idx_fuel k db) k db) (\<lambda>(found, k, db).
     res_bind
       (if found
        then let key = cstr (idxbuf db) in
          res_bind (db_readdat k db) (\<lambda>(ptr, k, db).
          Inr (Some (key, ptr), k, db\<lparr>cnt_nextrec := cnt_nextrec db + 1\<rparr>))
        else Inr (None, k, db)) (\<lambda>(res, k, db).
     res_bind (must_lock (un_lock k (idxfd db) FREE_OFF SEEK_SET 1) ''db_nextrec: un_lock error'') (\<lambda>k.
     Inr (res, k, db)))))"

section \<open>Opening and closing\<close>

text \<open>
  The two buffers come from \<open>malloc\<close>, which leaves their contents open: they are arguments
  (\<open>ibuf\<close> of \<open>IDXLEN_MAX + 2\<close> bytes, \<open>dbuf\<close> of \<open>DATLEN_MAX + 2\<close> bytes).
\<close>

definition db_alloc :: "bytes \<Rightarrow> bytes \<Rightarrow> DB" where
  "db_alloc ibuf dbuf =
     \<lparr>idxfd = -1, datfd = -1, idxbuf = ibuf, datbuf = dbuf, db_name = [], idxoff = 0, idxlen = 0,
      datoff = 0, datlen = 0, ptrval = 0, ptroff = 0, chainoff = 0, hashoff = 0, nhash = 0,
      cnt_delok = 0, cnt_delerr = 0, cnt_fetchok = 0, cnt_fetcherr = 0, cnt_nextrec = 0,
      cnt_stor1 = 0, cnt_stor2 = 0, cnt_stor3 = 0, cnt_stor4 = 0, cnt_storerr = 0\<rparr>"

definition db_free :: "kernel \<Rightarrow> DB \<Rightarrow> kernel" where
  "db_free k db =
     (let k = (if idxfd db \<ge> 0 then snd (sys_close k (idxfd db)) else k) in
      if datfd db \<ge> 0 then snd (sys_close k (datfd db)) else k)"

definition db_close :: "kernel \<Rightarrow> DB \<Rightarrow> kernel" where
  "db_close k db = db_free k db"

text \<open>The initial index file: the free-list pointer and \<open>NHASH_DEF\<close> chain pointers, all 0, and a newline.\<close>

definition db_init_hash :: bytes where
  "db_init_hash = foldl (\<lambda>h i. h @ pad PTR_SZ (dec_int 0)) [] [0..<NHASH_DEF + 1] @ [NL]"

definition db_init :: "kernel \<Rightarrow> DB \<Rightarrow> kernel res" where
  "db_init k db =
     res_bind (must_lock (writew_lock k (idxfd db) 0 SEEK_SET 0) ''db_open: writew_lock error'') (\<lambda>k.
     case sys_fstat_size k (idxfd db) of
       None \<Rightarrow> Inl (Err_sys ''db_open: fstat error'')
     | Some sz \<Rightarrow>
         res_bind
           (if sz = 0
            then let (n, k) = sys_write k (idxfd db) db_init_hash in
              if n \<noteq> int (length db_init_hash) then Inl (Err_dump ''db_open: index file init write error'')
              else Inr k
            else Inr k) (\<lambda>k.
         must_lock (un_lock k (idxfd db) 0 SEEK_SET 0) ''db_open: un_lock error''))"

definition db_open :: "kernel \<Rightarrow> bytes \<Rightarrow> bytes \<Rightarrow> string \<Rightarrow> 32 word \<Rightarrow> (DB option \<times> kernel) res" where
  "db_open k ibuf dbuf pathname oflag =
     (let db = (db_alloc ibuf dbuf)\<lparr>nhash := of_nat NHASH_DEF, hashoff := HASH_OFF\<rparr>;
          (fd1, k) = sys_open k (pathname @ ''.idx'') oflag;
          (fd2, k) = sys_open k (pathname @ ''.dat'') oflag;
          db = db\<lparr>db_name := pathname @ ''.dat'', idxfd := fd1, datfd := fd2\<rparr> in
      if idxfd db < 0 \<or> datfd db < 0 then Inr (None, db_free k db)
      else res_bind
        (if oflag AND (O_CREAT OR O_TRUNC) = O_CREAT OR O_TRUNC then db_init k db else Inr k) (\<lambda>k.
      res_bind (db_rewind k db) (\<lambda>(k, db). Inr (Some db, k))))"

end
