(* ===== verification/Db_Format.thy ===== *)
theory Db_Format
  imports Db_Model
begin

text \<open>
  The bytes of the two files seen as fields.  An index file of the database is a table of
  pointer field_set (the free-list head and the hash chain heads), a newline, and records in
  sequence, each a pointer field followed by a length and the text \<open>key:offset:length\<close>.
  The lemmas here say what each primitive of the library (\<open>_db_readptr\<close>, \<open>_db_readidx\<close>,
  \<open>_db_writeptr\<close>, \<open>_db_writeidx\<close>, \<open>_db_readdat\<close>, \<open>_db_writedat\<close> and the locks) does to
  that view; the operations of the database are verified over it.
\<close>

section \<open>Open files\<close>

text \<open>Descriptors \<open>a\<close> and \<open>b\<close> are open for reading and writing on the inodes \<open>i\<close> and \<open>j\<close>.\<close>

definition opened :: "kernel \<Rightarrow> int \<Rightarrow> int \<Rightarrow> nat \<Rightarrow> nat \<Rightarrow> bool" where
  "opened k a b i j \<longleftrightarrow> a \<noteq> b \<and> i \<noteq> j \<and>
     (\<exists>f. fd_get k a = Some f \<and> of_ino f = i \<and> of_rd f \<and> of_wr f) \<and>
     (\<exists>f. fd_get k b = Some f \<and> of_ino f = j \<and> of_rd f \<and> of_wr f)"

definition fd_pos :: "kernel \<Rightarrow> int \<Rightarrow> nat" where
  "fd_pos k fd = (case fd_get k fd of None \<Rightarrow> 0 | Some f \<Rightarrow> of_pos f)"

text \<open>What no primitive changes: names, process, errors of opens, and the state of other descriptors.\<close>

definition kframe :: "kernel \<Rightarrow> int \<Rightarrow> int \<Rightarrow> kernel \<Rightarrow> bool" where
  "kframe k a b k' \<longleftrightarrow> k_pid k' = k_pid k \<and> k_dir k' = k_dir k \<and> k_next k' = k_next k \<and> k_deny k' = k_deny k \<and>
     (\<forall>fd. fd \<noteq> a \<longrightarrow> fd \<noteq> b \<longrightarrow> fd_get k' fd = fd_get k fd) \<and>
     (\<forall>fd f. fd_get k fd = Some f \<longrightarrow> (\<exists>p. fd_get k' fd = Some (f\<lparr>of_pos := p\<rparr>)))"

section \<open>Index records\<close>

record arec =
  a_key :: string
  a_off :: nat
  a_len :: nat

definition enc_rec :: "arec \<Rightarrow> bytes" where
  "enc_rec r = a_key r @ [SEP] @ dec (a_off r) @ [SEP] @ dec (a_len r) @ [NL]"

definition rec_size :: "arec \<Rightarrow> nat" where
  "rec_size r = PTR_SZ + IDXLEN_SZ + length (enc_rec r)"

definition rec_ok :: "arec \<Rightarrow> bool" where
  "rec_ok r \<longleftrightarrow> SEP \<notin> set (a_key r) \<and> NUL \<notin> set (a_key r) \<and>
     IDXLEN_MIN \<le> length (enc_rec r) \<and> length (enc_rec r) \<le> IDXLEN_MAX \<and>
     0 < a_len r \<and> a_len r \<le> DATLEN_MAX"

definition enc_ptr :: "nat \<Rightarrow> bytes" where
  "enc_ptr p = pad PTR_SZ (dec p)"

definition enc_full :: "nat \<Rightarrow> arec \<Rightarrow> bytes" where
  "enc_full p r = enc_ptr p @ pad IDXLEN_SZ (dec (length (enc_rec r))) @ enc_rec r"

text \<open>Records \<open>R\<close> at the offsets \<open>os\<close> follow each other without a gap from \<open>p\<close> to \<open>e\<close>.\<close>

primrec layout :: "(nat \<Rightarrow> arec) \<Rightarrow> nat \<Rightarrow> nat list \<Rightarrow> nat \<Rightarrow> bool" where
  "layout R p [] e \<longleftrightarrow> p = e"
| "layout R p (x # xs) e \<longleftrightarrow> x = p \<and> layout R (p + rec_size (R p)) xs e"

definition HDR :: nat where
  "HDR = (NHASH_DEF + 1) * PTR_SZ + 1"

definition head_fields :: "nat set" where
  "head_fields = (\<lambda>h. h * PTR_SZ) ` {0..NHASH_DEF}"

text \<open>The index file \<open>idx\<close> holds the pointers \<open>P\<close> and the records \<open>R\<close> at \<open>offs\<close>.\<close>

definition idx_rep :: "bytes \<Rightarrow> (nat \<Rightarrow> nat) \<Rightarrow> (nat \<Rightarrow> arec) \<Rightarrow> nat list \<Rightarrow> bool" where
  "idx_rep idx P R offs \<longleftrightarrow> HDR \<le> length idx \<and>
     (\<forall>p \<in> head_fields. seg idx p PTR_SZ = enc_ptr (P p) \<and> P p \<le> nat PTR_MAX) \<and>
     layout R HDR offs (length idx) \<and>
     (\<forall>p \<in> set offs. rec_ok (R p) \<and> P p \<le> nat PTR_MAX \<and> seg idx p (rec_size (R p)) = enc_full (P p) (R p))"

section \<open>Kernel steps\<close>

lemma fd_get_set [simp]:
  "fd_get k fd = Some g \<Longrightarrow> fd_get (fd_set k fd f) fd = f"
  "fd \<noteq> fd' \<Longrightarrow> 0 \<le> fd \<Longrightarrow> fd_get (fd_set k fd f) fd' = fd_get k fd'"
  by (auto simp: fd_get_def fd_set_def split: if_splits)

lemma fd_get_nonneg: "fd_get k fd = Some f \<Longrightarrow> 0 \<le> fd"
  by (simp add: fd_get_def split: if_splits)

lemma fd_set_simps [simp]:
  "k_data (fd_set k fd f) = k_data k" "k_locks (fd_set k fd f) = k_locks k" "k_pid (fd_set k fd f) = k_pid k"
  "k_dir (fd_set k fd f) = k_dir k" "k_next (fd_set k fd f) = k_next k" "k_deny (fd_set k fd f) = k_deny k"
  by (simp_all add: fd_set_def)

lemma fd_get_simps [simp]:
  "fd_get (k\<lparr>k_data := d\<rparr>) fd = fd_get k fd" "fd_get (k\<lparr>k_locks := l\<rparr>) fd = fd_get k fd"
  "fd_get (k\<lparr>k_errno := e\<rparr>) fd = fd_get k fd"
  by (simp_all add: fd_get_def)

lemma kframe_refl [simp]: "kframe k a b k"
  unfolding kframe_def by (auto, rule_tac x = "of_pos f" in exI, simp)

lemma kframe_trans: "kframe k a b k' \<Longrightarrow> kframe k' a b k'' \<Longrightarrow> kframe k a b k''"
  unfolding kframe_def by fastforce

lemma kframe_fields [simp]:
  "kframe k a b (k'\<lparr>k_data := d\<rparr>) = kframe k a b k'" "kframe k a b (k'\<lparr>k_locks := l\<rparr>) = kframe k a b k'"
  "kframe k a b (k'\<lparr>k_errno := e\<rparr>) = kframe k a b k'"
  by (simp_all add: kframe_def)

lemma kframe_pos:
  assumes "fd_get k fd = Some f" "fd = a \<or> fd = b"
  shows "kframe k a b (fd_set k fd (Some (f\<lparr>of_pos := p\<rparr>)))"
proof -
  have "\<exists>q. fd_get (fd_set k fd (Some (f\<lparr>of_pos := p\<rparr>))) fd' = Some (g\<lparr>of_pos := q\<rparr>)"
    if "fd_get k fd' = Some g" for fd' g
  proof (cases "fd' = fd")
    case True
    with assms that show ?thesis by auto
  next
    case False
    with assms that have "fd_get (fd_set k fd (Some (f\<lparr>of_pos := p\<rparr>))) fd' = Some (g\<lparr>of_pos := of_pos g\<rparr>)"
      using fd_get_nonneg by auto
    then show ?thesis by blast
  qed
  with assms show ?thesis by (auto simp: kframe_def fd_get_nonneg)
qed

lemma kframe_same: "fd_get k fd = Some f \<Longrightarrow> fd = a \<or> fd = b \<Longrightarrow> kframe k a b (fd_set k fd (Some f))"
  using kframe_pos [of k fd f a b "of_pos f"] by simp

lemma opened_kframe: "opened k a b i j \<Longrightarrow> kframe k a b k' \<Longrightarrow> opened k' a b i j"
  unfolding opened_def kframe_def by fastforce

lemma opened_fields [simp]:
  "opened (k\<lparr>k_data := d\<rparr>) a b i j = opened k a b i j" "opened (k\<lparr>k_locks := l\<rparr>) a b i j = opened k a b i j"
  "opened (k\<lparr>k_errno := e\<rparr>) a b i j = opened k a b i j"
  by (simp_all add: opened_def)

lemma kframe_pid: "kframe k a b k' \<Longrightarrow> k_pid k' = k_pid k"
  by (simp add: kframe_def)

text \<open>
  One system call on an open descriptor.  Each result names the kernel after the call by
  the frame, its data and locks, and the offset of the descriptor.
\<close>

definition on_fd :: "kernel \<Rightarrow> int \<Rightarrow> int \<Rightarrow> int \<Rightarrow> nat \<Rightarrow> bool" where
  "on_fd k fd a b i \<longleftrightarrow> (fd = a \<or> fd = b) \<and> (\<exists>f. fd_get k fd = Some f \<and> of_ino f = i \<and> of_rd f \<and> of_wr f)"

lemma opened_on_fd: "opened k a b i j \<Longrightarrow> on_fd k a a b i" "opened k a b i j \<Longrightarrow> on_fd k b a b j"
  by (auto simp: opened_def on_fd_def)

lemma on_fd_kframe: "on_fd k fd a b i \<Longrightarrow> kframe k a b k' \<Longrightarrow> on_fd k' fd a b i"
  unfolding on_fd_def kframe_def by fastforce

lemma lseek_set:
  assumes "on_fd k fd a b i" "sys_lseek k fd (int p) SEEK_SET = (r, k')"
  shows "r = int p" "kframe k a b k'" "k_data k' = k_data k" "k_locks k' = k_locks k" "fd_pos k' fd = p"
  using assms kframe_pos
  by (auto simp: on_fd_def sys_lseek_def seek_base_def fd_pos_def)

lemma lseek_cur:
  assumes "on_fd k fd a b i" "sys_lseek k fd 0 SEEK_CUR = (r, k')"
  shows "r = int (fd_pos k fd)" "kframe k a b k'" "k_data k' = k_data k" "k_locks k' = k_locks k"
    "fd_pos k' fd = fd_pos k fd"
  using assms kframe_same
  by (auto simp: on_fd_def sys_lseek_def seek_base_def fd_pos_def)

lemma lseek_end:
  assumes "on_fd k fd a b i" "sys_lseek k fd 0 SEEK_END = (r, k')"
  shows "r = int (length (k_data k i))" "kframe k a b k'" "k_data k' = k_data k" "k_locks k' = k_locks k"
    "fd_pos k' fd = length (k_data k i)"
  using assms kframe_pos
  by (auto simp: on_fd_def sys_lseek_def seek_base_def fd_pos_def)

lemma read_on:
  assumes "on_fd k fd a b i" "sys_read k fd n = (r, bs, k')"
  shows "r = int (length bs)" "bs = seg (k_data k i) (fd_pos k fd) n" "kframe k a b k'"
    "k_data k' = k_data k" "k_locks k' = k_locks k" "fd_pos k' fd = fd_pos k fd + length bs"
  using assms kframe_pos
  by (auto simp: on_fd_def sys_read_def fd_pos_def Let_def)

lemma write_on:
  assumes "on_fd k fd a b i" "sys_write k fd bs = (r, k')"
  shows "r = int (length bs)" "kframe k a b k'" "k_locks k' = k_locks k"
    "k_data k' = (k_data k)(i := write_at (k_data k i) (fd_pos k fd) bs)"
proof -
  from assms(1) obtain f where f: "fd_get k fd = Some f" "of_ino f = i" "of_wr f" and ab: "fd = a \<or> fd = b"
    by (auto simp: on_fd_def)
  with assms(2) have k': "r = int (length bs)"
    "k' = fd_set (k\<lparr>k_data := (k_data k)(i := write_at (k_data k i) (of_pos f) bs)\<rparr>) fd
            (Some (f\<lparr>of_pos := of_pos f + length bs\<rparr>))"
    by (auto simp: sys_write_def)
  then show "r = int (length bs)" "k_locks k' = k_locks k"
    "k_data k' = (k_data k)(i := write_at (k_data k i) (fd_pos k fd) bs)"
    using f by (simp_all add: fd_pos_def)
  have "kframe (k\<lparr>k_data := (k_data k)(i := write_at (k_data k i) (of_pos f) bs)\<rparr>) a b k'"
    unfolding k' by (rule kframe_pos) (use f ab in auto)
  then show "kframe k a b k'" by (simp add: kframe_def)
qed

lemma write_at_patch: "p \<le> length c \<Longrightarrow> bs \<noteq> [] \<Longrightarrow> write_at c p bs = patch c p bs"
  by (simp add: write_at_def)

section \<open>Layout\<close>

lemma rec_size_pos: "0 < rec_size r"
  by (simp add: rec_size_def)

lemma length_enc_ptr [simp]: "p \<le> nat PTR_MAX \<Longrightarrow> length (enc_ptr p) = 6"
  using length_dec_le [of p 6] by (simp add: enc_ptr_def max_def)

lemma length_enc_full [simp]:
  "p \<le> nat PTR_MAX \<Longrightarrow> rec_ok r \<Longrightarrow> length (enc_full p r) = rec_size r"
  using length_dec_le [of "length (enc_rec r)" 4]
  by (simp add: enc_full_def rec_size_def rec_ok_def max_def)

lemma layout_ge: "layout R p xs e \<Longrightarrow> x \<in> set xs \<Longrightarrow> p \<le> x"
  by (induction xs arbitrary: p) (fastforce simp: rec_size_def)+

lemma layout_le: "layout R p xs e \<Longrightarrow> p \<le> e"
  by (induction xs arbitrary: p) (fastforce simp: rec_size_def)+

lemma layout_end: "layout R p xs e \<Longrightarrow> x \<in> set xs \<Longrightarrow> x + rec_size (R x) \<le> e"
  by (induction xs arbitrary: p) (auto dest: layout_le)

lemma layout_disjoint:
  "layout R p xs e \<Longrightarrow> x \<in> set xs \<Longrightarrow> y \<in> set xs \<Longrightarrow> x < y \<Longrightarrow> x + rec_size (R x) \<le> y"
  by (induction xs arbitrary: p) (auto dest: layout_ge)

lemma layout_distinct: "layout R p xs e \<Longrightarrow> distinct xs"
proof (induction xs arbitrary: p)
  case Nil
  then show ?case by simp
next
  case (Cons x xs)
  have "x \<notin> set xs"
    using Cons.prems layout_ge [of R "p + rec_size (R p)" xs e x] rec_size_pos [of "R p"] by auto
  with Cons show ?case by auto
qed

lemma layout_append: "layout R p xs e \<Longrightarrow> layout R p (xs @ [e]) (e + rec_size (R e))"
  by (induction xs arbitrary: p) auto

lemma layout_cong: "layout R p xs e \<Longrightarrow> (\<And>x. x \<in> set xs \<Longrightarrow> rec_size (R' x) = rec_size (R x)) \<Longrightarrow> layout R' p xs e"
  by (induction xs arbitrary: p) auto

lemma length_layout: "layout R p xs e \<Longrightarrow> p + length xs \<le> e"
proof (induction xs arbitrary: p)
  case Nil
  then show ?case by simp
next
  case (Cons x xs)
  then have "p + rec_size (R p) + length xs \<le> e" by simp
  with rec_size_pos [of "R p"] show ?case by simp
qed

lemma layout_split:
  "layout R p (xs @ ys) e \<longleftrightarrow> (\<exists>q. layout R p xs q \<and> layout R q ys e)"
  by (induction xs arbitrary: p) auto

lemma head_fields_bound: "p \<in> head_fields \<Longrightarrow> p + 6 < HDR"
  by (auto simp: head_fields_def HDR_def)

lemma head_fields_disjoint: "p \<in> head_fields \<Longrightarrow> q \<in> head_fields \<Longrightarrow> p \<noteq> q \<Longrightarrow> p + 6 \<le> q \<or> q + 6 \<le> p"
  by (auto simp: head_fields_def)

definition field_set :: "nat list \<Rightarrow> nat set" where
  "field_set offs = head_fields \<union> set offs"

lemma idx_repD:
  assumes "idx_rep idx P R offs"
  shows "HDR \<le> length idx" "layout R HDR offs (length idx)"
    "p \<in> head_fields \<Longrightarrow> seg idx p 6 = enc_ptr (P p)"
    "p \<in> field_set offs \<Longrightarrow> P p \<le> 999999"
    "p \<in> set offs \<Longrightarrow> rec_ok (R p)"
    "p \<in> set offs \<Longrightarrow> seg idx p (rec_size (R p)) = enc_full (P p) (R p)"
    "p \<in> set offs \<Longrightarrow> HDR \<le> p"
    "p \<in> set offs \<Longrightarrow> p + rec_size (R p) \<le> length idx"
  using assms layout_ge [of R HDR offs "length idx" p] layout_end [of R HDR offs "length idx" p]
  by (auto simp: idx_rep_def field_set_def)

lemma idx_rep_field:
  assumes "idx_rep idx P R offs" "p \<in> field_set offs"
  shows "seg idx p 6 = enc_ptr (P p)" "p + 6 \<le> length idx"
proof -
  show "p + 6 \<le> length idx"
    using assms head_fields_bound [of p] idx_repD(1,8) [OF assms(1)]
    by (fastforce simp: field_set_def rec_size_def)
  show "seg idx p 6 = enc_ptr (P p)"
  proof (cases "p \<in> head_fields")
    case True
    with assms idx_repD(3) show ?thesis by blast
  next
    case False
    with assms have p: "p \<in> set offs" by (simp add: field_set_def)
    have "seg idx p 6 = seg (seg idx p (rec_size (R p))) 0 6"
      by (subst seg_seg) (simp_all add: rec_size_def)
    also have "\<dots> = enc_ptr (P p)"
      using idx_repD(4,6) [OF assms(1)] p assms(2)
      by (simp add: enc_full_def seg_def)
    finally show ?thesis .
  qed
qed

section \<open>Round trip of an index record\<close>

lemma enc_ptr_atol [simp]: "atol (enc_ptr p) = int p"
  by (simp add: enc_ptr_def)

text \<open>Parsing the text of a record gives back its key, data offset and data length.\<close>

lemma parseidx_enc:
  assumes "rec_ok r" "idxlen db = length (enc_rec r)" "idxbuf db = enc_rec r @ rest"
  shows "\<exists>buf. db_parseidx db = Inr (db\<lparr>idxbuf := buf, datoff := int (a_off r), datlen := a_len r\<rparr>) \<and>
           cstr buf = a_key r \<and> length buf = length (idxbuf db)"
proof -
  let ?K = "a_key r" and ?O = "dec (a_off r)" and ?L = "dec (a_len r)"
  have ok: "SEP \<notin> set ?K" "NUL \<notin> set ?K" "0 < a_len r" "a_len r \<le> 1024"
    using assms(1) by (auto simp: rec_ok_def)
  have buf: "idxbuf db = (?K @ SEP # ?O @ SEP # ?L) @ NL # rest"
    using assms(3) by (simp add: enc_rec_def)
  have len: "idxlen db - 1 = length (?K @ SEP # ?O @ SEP # ?L)"
    using assms(2) by (simp add: enc_rec_def)
  have nl: "idxbuf db ! (idxlen db - 1) = NL" unfolding buf len by (rule nth_append_length)
  have b1: "(idxbuf db)[idxlen db - 1 := NUL] = ?K @ SEP # (?O @ SEP # ?L @ NUL # rest)"
    unfolding buf len list_update_length by simp
  have s1: "strchr (?K @ SEP # (?O @ SEP # ?L @ NUL # rest)) SEP = Some (length ?K)"
    using ok by (intro strchr_found) auto
  have b2: "(?K @ SEP # (?O @ SEP # ?L @ NUL # rest))[length ?K := NUL] = (?K @ [NUL]) @ (?O @ SEP # ?L @ NUL # rest)"
    by (simp add: list_update_append)
  have s2: "strchr (drop (length ?K + 1) ((?K @ [NUL]) @ (?O @ SEP # ?L @ NUL # rest))) SEP = Some (length ?O)"
    by (simp add: strchr_found)
  have b3: "((?K @ [NUL]) @ (?O @ SEP # ?L @ NUL # rest))[length ?K + 1 + length ?O := NUL]
      = (?K @ [NUL] @ ?O @ [NUL]) @ ?L @ NUL # rest"
    by (simp add: list_update_append)
  have s3: "strchr (drop (length ?K + 1 + length ?O + 1) ((?K @ [NUL] @ ?O @ [NUL]) @ ?L @ NUL # rest)) SEP = None"
    by (simp add: strchr_none)
  have o: "atol (drop (length ?K + 1) ((?K @ [NUL] @ ?O @ [NUL]) @ ?L @ NUL # rest)) = int (a_off r)"
    by (simp add: atol_dec_append isdigit_def)
  have l: "atol (drop (length ?K + 1 + length ?O + 1) ((?K @ [NUL] @ ?O @ [NUL]) @ ?L @ NUL # rest)) = int (a_len r)"
    by (simp add: atol_dec_append isdigit_def)
  have sz: "to_size_t (int (a_len r)) = a_len r" using ok by simp
  have "db_parseidx db = Inr (db\<lparr>idxbuf := (?K @ [NUL] @ ?O @ [NUL]) @ ?L @ NUL # rest,
      datoff := int (a_off r), datlen := a_len r\<rparr>)"
    unfolding db_parseidx_def Let_def nl b1 s1 b2 option.case s2 b3 s3 o l sz
    using ok by simp
  moreover have "cstr ((?K @ [NUL] @ ?O @ [NUL]) @ ?L @ NUL # rest) = ?K"
    using cstr_append_NUL [of ?K] ok by simp
  moreover have "length ((?K @ [NUL] @ ?O @ [NUL]) @ ?L @ NUL # rest) = length (idxbuf db)"
    unfolding buf by simp
  ultimately show ?thesis by blast
qed

section \<open>Updates of the index file\<close>

lemma extents_disjoint:
  assumes "idx_rep idx P R offs" "p \<in> set offs" "q \<in> set offs" "p \<noteq> q"
  shows "q + rec_size (R q) \<le> p \<or> p + rec_size (R p) \<le> q"
  using assms layout_disjoint [OF idx_repD(2) [OF assms(1)], of p q] layout_disjoint [OF idx_repD(2) [OF assms(1)], of q p]
  by (cases "p < q") auto

lemma idx_rep_writeptr:
  assumes rep: "idx_rep idx P R offs" and p: "p \<in> field_set offs" and v: "v \<le> 999999"
  shows "idx_rep (patch idx p (enc_ptr v)) (P(p := v)) R offs"
proof -
  let ?idx = "patch idx p (enc_ptr v)"
  have v6: "length (enc_ptr v) = 6" using v by simp
  have pl: "p + length (enc_ptr v) \<le> length idx" using idx_rep_field(2) [OF rep p] v6 by simp
  have len: "length ?idx = length idx" using pl by simp
  have heads: "seg ?idx q 6 = enc_ptr ((P(p := v)) q)" if q: "q \<in> head_fields" for q
  proof (cases "q = p")
    case True
    then show ?thesis using seg_patch_same [OF pl] v6 by simp
  next
    case False
    have "q + 6 \<le> p \<or> p + length (enc_ptr v) \<le> q"
      using p q False head_fields_disjoint [of q p] head_fields_bound [of q] idx_repD(7) [OF rep, of p] v6
      by (auto simp: field_set_def)
    then show ?thesis using seg_patch_disj [OF _ pl] idx_repD(3) [OF rep q] False by simp
  qed
  have recs: "seg ?idx q (rec_size (R q)) = enc_full ((P(p := v)) q) (R q)" if q: "q \<in> set offs" for q
  proof (cases "q = p")
    case True
    have sz: "rec_size (R p) = 6 + (rec_size (R p) - 6)" by (simp add: rec_size_def)
    have "seg ?idx p (rec_size (R p)) = enc_ptr v @ seg idx (p + 6) (rec_size (R p) - 6)"
      by (subst sz, subst seg_add) (use seg_patch_same [OF pl] seg_patch_above [of p "enc_ptr v" "p + 6" idx] v6 pl in simp)
    moreover have "enc_ptr (P p) @ seg idx (p + 6) (rec_size (R p) - 6) = enc_full (P p) (R p)"
      using idx_repD(6) [OF rep q] idx_rep_field(1) [OF rep p] True sz seg_add [of idx p 6 "rec_size (R p) - 6"] by simp
    ultimately show ?thesis using True by (simp add: enc_full_def)
  next
    case False
    have "q + rec_size (R q) \<le> p \<or> p + length (enc_ptr v) \<le> q"
      using p q False extents_disjoint [OF rep, of p q] head_fields_bound [of p] idx_repD(7) [OF rep q] v6
      by (auto simp: field_set_def rec_size_def)
    then show ?thesis using seg_patch_disj [OF _ pl] idx_repD(6) [OF rep q] False by simp
  qed
  from rep have "P q \<le> 999999" if "q \<in> field_set offs" for q using idx_repD(4) that by blast
  with heads recs rep v show ?thesis unfolding idx_rep_def len by (auto simp: field_set_def)
qed

lemma idx_rep_writeidx:
  assumes rep: "idx_rep idx P R offs" and p: "p \<in> set offs" and v: "v \<le> 999999"
    and r: "rec_ok r" "rec_size r = rec_size (R p)"
  shows "idx_rep (patch idx p (enc_full v r)) (P(p := v)) (R(p := r)) offs"
proof -
  let ?idx = "patch idx p (enc_full v r)"
  have vl: "length (enc_full v r) = rec_size r" using v r by simp
  have pl: "p + length (enc_full v r) \<le> length idx" using idx_repD(8) [OF rep p] vl r by simp
  have len: "length ?idx = length idx" using pl by simp
  have heads: "seg ?idx q 6 = enc_ptr ((P(p := v)) q)" if q: "q \<in> head_fields" for q
    using seg_patch_below [of q 6 p idx "enc_full v r"] idx_repD(3,7) [OF rep] q p head_fields_bound [OF q] pl by fastforce
  have recs: "seg ?idx q (rec_size ((R(p := r)) q)) = enc_full ((P(p := v)) q) ((R(p := r)) q)" if q: "q \<in> set offs" for q
  proof (cases "q = p")
    case True
    then show ?thesis using seg_patch_same [OF pl] vl by simp
  next
    case False
    then show ?thesis
      using extents_disjoint [OF rep p q] seg_patch_disj [OF _ pl, of q "rec_size (R q)"] idx_repD(6) [OF rep q] vl r by auto
  qed
  have "layout (R(p := r)) HDR offs (length idx)"
    using layout_cong [OF idx_repD(2) [OF rep]] r(2) by simp
  with heads recs rep v r show ?thesis unfolding idx_rep_def len by (auto simp: field_set_def)
qed

lemma idx_rep_append:
  assumes rep: "idx_rep idx P R offs" and v: "v \<le> 999999" and r: "rec_ok r"
  shows "idx_rep (idx @ enc_full v r) (P(length idx := v)) (R(length idx := r)) (offs @ [length idx])"
proof -
  have new: "length idx \<notin> set offs" "length idx \<notin> head_fields"
    using idx_repD(1) [OF rep] idx_repD(8) [OF rep, of "length idx"] rec_size_pos [of "R (length idx)"] head_fields_bound [of "length idx"]
    by (auto simp: not_le)
  have "layout (R(length idx := r)) HDR offs (length idx)"
    by (rule layout_cong [OF idx_repD(2) [OF rep]]) (use new in auto)
  then have "layout (R(length idx := r)) HDR (offs @ [length idx]) (length idx + rec_size r)"
    using layout_append by fastforce
  moreover have "seg (idx @ enc_full v r) q 6 = enc_ptr (P q)" if "q \<in> head_fields" for q
    using idx_repD(1,3) [OF rep] head_fields_bound [OF that] that by simp
  moreover have "seg (idx @ enc_full v r) q (rec_size (R q)) = enc_full (P q) (R q)" if "q \<in> set offs" for q
    using idx_repD(6,8) [OF rep that] by simp
  moreover have "seg (idx @ enc_full v r) (length idx) (rec_size r) = enc_full v r"
    using seg_append_end [of idx "enc_full v r"] v r by simp
  ultimately show ?thesis using rep new v r unfolding idx_rep_def by auto
qed

end
