(* ===== verification/Db_Prims.thy ===== *)
theory Db_Prims
  imports Db_Format
begin

text \<open>
  What the internal functions of \<open>db.c\<close> that touch the files do, stated over the field
  view of \<open>Db_Format\<close>: each call returns, changes only the bytes it is meant to change,
  and leaves descriptors and locks as they were.
\<close>

section \<open>Postconditions\<close>

text \<open>Nothing but file offsets changed; or, in \<open>wrote\<close>, the contents of one inode as well.\<close>

definition quiet :: "kernel \<Rightarrow> int \<Rightarrow> int \<Rightarrow> kernel \<Rightarrow> bool" where
  "quiet k a b k' \<longleftrightarrow> kframe k a b k' \<and> k_data k' = k_data k \<and> k_locks k' = k_locks k"

definition wrote :: "kernel \<Rightarrow> int \<Rightarrow> int \<Rightarrow> nat \<Rightarrow> bytes \<Rightarrow> kernel \<Rightarrow> bool" where
  "wrote k a b i c k' \<longleftrightarrow> kframe k a b k' \<and> k_data k' = (k_data k)(i := c) \<and> k_locks k' = k_locks k"

text \<open>The \<open>DB\<close> structure after the index record \<open>r\<close> at \<open>off\<close> has been read into it.\<close>

definition loaded :: "DB \<Rightarrow> nat \<Rightarrow> nat \<Rightarrow> arec \<Rightarrow> bytes \<Rightarrow> DB" where
  "loaded db off p r buf = db\<lparr>idxoff := int off, ptrval := int p, idxlen := length (enc_rec r),
     idxbuf := buf, datoff := int (a_off r), datlen := a_len r\<rparr>"

lemma quiet_refl [simp]: "quiet k a b k"
  by (simp add: quiet_def)

lemma quiet_trans: "quiet k a b k' \<Longrightarrow> quiet k' a b k'' \<Longrightarrow> quiet k a b k''"
  by (auto simp: quiet_def intro: kframe_trans)

lemma quiet_opened: "quiet k a b k' \<Longrightarrow> opened k a b i j \<Longrightarrow> opened k' a b i j"
  by (auto simp: quiet_def intro: opened_kframe)

lemma wrote_opened: "wrote k a b n c k' \<Longrightarrow> opened k a b i j \<Longrightarrow> opened k' a b i j"
  by (auto simp: wrote_def intro: opened_kframe)

lemma lseek_quiet:
  assumes "on_fd k fd a b i"
  shows "\<exists>k'. sys_lseek k fd (int p) SEEK_SET = (int p, k') \<and> quiet k a b k' \<and> fd_pos k' fd = p \<and> on_fd k' fd a b i"
proof -
  obtain r k' where e: "sys_lseek k fd (int p) SEEK_SET = (r, k')" by (cases "sys_lseek k fd (int p) SEEK_SET")
  note f = lseek_set [OF assms e]
  with e on_fd_kframe [OF assms f(2)] show ?thesis by (auto simp: quiet_def)
qed

lemma lseek_cur_quiet:
  assumes "on_fd k fd a b i"
  shows "\<exists>k'. sys_lseek k fd 0 SEEK_CUR = (int (fd_pos k fd), k') \<and> quiet k a b k' \<and>
     fd_pos k' fd = fd_pos k fd \<and> on_fd k' fd a b i"
proof -
  obtain r k' where e: "sys_lseek k fd 0 SEEK_CUR = (r, k')" by (cases "sys_lseek k fd 0 SEEK_CUR")
  note f = lseek_cur [OF assms e]
  with e on_fd_kframe [OF assms f(2)] show ?thesis by (auto simp: quiet_def)
qed

lemma lseek_end_quiet:
  assumes "on_fd k fd a b i"
  shows "\<exists>k'. sys_lseek k fd 0 SEEK_END = (int (length (k_data k i)), k') \<and> quiet k a b k' \<and>
     fd_pos k' fd = length (k_data k i) \<and> on_fd k' fd a b i"
proof -
  obtain r k' where e: "sys_lseek k fd 0 SEEK_END = (r, k')" by (cases "sys_lseek k fd 0 SEEK_END")
  note f = lseek_end [OF assms e]
  with e on_fd_kframe [OF assms f(2)] show ?thesis by (auto simp: quiet_def)
qed

lemma read_quiet:
  assumes "on_fd k fd a b i"
  shows "\<exists>k'. sys_read k fd n = (int (length (seg (k_data k i) (fd_pos k fd) n)), seg (k_data k i) (fd_pos k fd) n, k') \<and>
     quiet k a b k' \<and> fd_pos k' fd = fd_pos k fd + length (seg (k_data k i) (fd_pos k fd) n) \<and> on_fd k' fd a b i"
proof -
  obtain r bs k' where e: "sys_read k fd n = (r, bs, k')" by (metis prod_cases3)
  note f = read_on [OF assms e]
  with e on_fd_kframe [OF assms f(3)] show ?thesis by (auto simp: quiet_def)
qed

lemma write_wrote:
  assumes "on_fd k fd a b i" "fd_pos k fd \<le> length (k_data k i)" "bs \<noteq> []"
  shows "\<exists>k'. sys_write k fd bs = (int (length bs), k') \<and>
     wrote k a b i (patch (k_data k i) (fd_pos k fd) bs) k'"
proof -
  obtain r k' where e: "sys_write k fd bs = (r, k')" by (cases "sys_write k fd bs")
  note f = write_on [OF assms(1) e]
  with e write_at_patch [OF assms(2,3)] show ?thesis by (auto simp: wrote_def)
qed

lemma quiet_wrote: "quiet k a b k' \<Longrightarrow> wrote k' a b i c k'' \<Longrightarrow> wrote k a b i c k''"
  by (auto simp: quiet_def wrote_def intro: kframe_trans)

lemma quiet_data: "quiet k a b k' \<Longrightarrow> k_data k' = k_data k"
  by (simp add: quiet_def)

section \<open>Reading\<close>

lemma readptr_ok:
  assumes op: "opened k (idxfd db) (datfd db) i j" and rep: "idx_rep (k_data k i) P R offs" and p: "p \<in> field_set offs"
  shows "okp (db_readptr k db (int p)) (\<lambda>(v, k'). v = int (P p) \<and> quiet k (idxfd db) (datfd db) k')"
proof -
  note on = opened_on_fd(1) [OF op]
  obtain k1 where k1: "sys_lseek k (idxfd db) (int p) SEEK_SET = (int p, k1)" "quiet k (idxfd db) (datfd db) k1"
    "fd_pos k1 (idxfd db) = p" "on_fd k1 (idxfd db) (idxfd db) (datfd db) i"
    using lseek_quiet [OF on] by blast
  have sg: "seg (k_data k1 i) p 6 = enc_ptr (P p)" "length (enc_ptr (P p)) = 6"
    using idx_rep_field(1) [OF rep p] idx_repD(4) [OF rep p] quiet_data [OF k1(2)] by simp_all
  obtain k2 where k2: "sys_read k1 (idxfd db) 6 = (6, enc_ptr (P p), k2)" "quiet k1 (idxfd db) (datfd db) k2"
    using read_quiet [OF k1(4), of 6] unfolding k1(3) sg by auto
  show ?thesis
    using k1(1,2) k2 by (auto simp: db_readptr_def intro: quiet_trans)
qed

lemma enc_full_parts:
  assumes "p \<le> 999999" "rec_ok r"
  shows "take 10 (enc_full p r) = enc_ptr p @ pad 4 (dec (length (enc_rec r)))"
    "drop 10 (enc_full p r) = enc_rec r" "rec_size r = 10 + length (enc_rec r)"
    "length (pad 4 (dec (length (enc_rec r)))) = 4"
  using length_dec_le [of "length (enc_rec r)" 4] assms
  by (simp_all add: enc_full_def rec_ok_def max_def rec_size_def)

text \<open>The body of \<open>_db_readidx\<close> once the offset is set: both reads and the parse.\<close>

lemma readidx_body:
  assumes on: "on_fd k (idxfd db) (idxfd db) (datfd db) i" and rep: "idx_rep (k_data k i) P R offs"
    and p: "p \<in> set offs" and pos: "fd_pos k (idxfd db) = p" and buf: "length (idxbuf db) = 1026"
  shows "\<exists>k1 k2 bs. sys_read k (idxfd db) 10 = (10, bs, k1) \<and> take 6 bs = enc_ptr (P p) \<and>
     atol (drop 6 bs) = int (length (enc_rec (R p))) \<and>
     sys_read k1 (idxfd db) (length (enc_rec (R p))) = (int (length (enc_rec (R p))), enc_rec (R p), k2) \<and>
     quiet k (idxfd db) (datfd db) k2 \<and> fd_pos k2 (idxfd db) = p + rec_size (R p)"
proof -
  let ?r = "R p" and ?c = "k_data k i"
  have ok: "rec_ok ?r" "P p \<le> 999999" using idx_repD(4,5) [OF rep] p by (auto simp: field_set_def)
  note parts = enc_full_parts [OF ok(2,1)]
  have whole: "seg ?c p (10 + length (enc_rec ?r)) = enc_full (P p) ?r"
    using idx_repD(6) [OF rep p] parts(3) by simp
  have len: "length (enc_full (P p) ?r) = 10 + length (enc_rec ?r)" using ok parts(3) by simp
  have "seg ?c p 10 = seg (enc_full (P p) ?r) 0 10"
    unfolding whole [symmetric] by (subst seg_seg) simp_all
  then have s1: "seg ?c p 10 = enc_ptr (P p) @ pad 4 (dec (length (enc_rec ?r)))"
    using parts(1) by (simp add: seg_def)
  have "seg ?c (p + 10) (length (enc_rec ?r)) = seg (enc_full (P p) ?r) 10 (length (enc_rec ?r))"
    unfolding whole [symmetric] by (subst seg_seg) simp_all
  then have s2: "seg ?c (p + 10) (length (enc_rec ?r)) = enc_rec ?r"
    using parts(2) by (simp add: seg_def)
  have l1: "length (seg ?c p 10) = 10" unfolding s1 using ok(2) parts(4) by simp
  obtain k1 where k1: "sys_read k (idxfd db) 10 = (10, seg ?c p 10, k1)" "quiet k (idxfd db) (datfd db) k1"
    "fd_pos k1 (idxfd db) = p + 10" "on_fd k1 (idxfd db) (idxfd db) (datfd db) i"
    using read_quiet [OF on, of 10] unfolding pos l1 by auto
  have d1: "k_data k1 = k_data k" using quiet_data [OF k1(2)] .
  obtain k2 where k2: "sys_read k1 (idxfd db) (length (enc_rec ?r)) = (int (length (enc_rec ?r)), enc_rec ?r, k2)"
    "quiet k1 (idxfd db) (datfd db) k2" "fd_pos k2 (idxfd db) = p + 10 + length (enc_rec ?r)"
    using read_quiet [OF k1(4), of "length (enc_rec ?r)"] unfolding k1(3) d1 s2 by auto
  have "take 6 (seg ?c p 10) = enc_ptr (P p)" "drop 6 (seg ?c p 10) = pad 4 (dec (length (enc_rec ?r)))"
    unfolding s1 using ok(2) by simp_all
  then show ?thesis
    using k1(1) k2 quiet_trans [OF k1(2) k2(2)] parts(3) by (auto simp: add.assoc)
qed

text \<open>\<open>_db_readidx\<close> reads the record at an offset, or at the current position when the offset is 0.\<close>

lemma readidx_ok:
  assumes op: "opened k (idxfd db) (datfd db) i j" and rep: "idx_rep (k_data k i) P R offs" and p: "p \<in> set offs"
    and buf: "length (idxbuf db) = 1026" and at: "off = int p \<or> off = 0 \<and> fd_pos k (idxfd db) = p"
  shows "okp (db_readidx k db off) (\<lambda>(v, k', db'). v = int (P p) \<and> quiet k (idxfd db) (datfd db) k' \<and>
     fd_pos k' (idxfd db) = p + rec_size (R p) \<and>
     (\<exists>buf. db' = loaded db p (P p) (R p) buf \<and> cstr buf = a_key (R p) \<and> length buf = 1026))"
proof -
  note on = opened_on_fd(1) [OF op]
  have p0: "p \<noteq> 0" using idx_repD(7) [OF rep p] by (auto simp: HDR_def)
  obtain k0 where k0: "sys_lseek k (idxfd db) off (if off = 0 then SEEK_CUR else SEEK_SET) = (int p, k0)"
    "quiet k (idxfd db) (datfd db) k0" "fd_pos k0 (idxfd db) = p" "on_fd k0 (idxfd db) (idxfd db) (datfd db) i"
    using at lseek_quiet [OF on, of p] lseek_cur_quiet [OF on] p0 by (cases "off = 0") auto
  have rep0: "idx_rep (k_data k0 i) P R offs" using rep quiet_data [OF k0(2)] by simp
  let ?db = "db\<lparr>idxoff := int p, ptrval := int (P p), idxlen := length (enc_rec (R p))\<rparr>"
  obtain k1 k2 bs where rd: "sys_read k0 (idxfd db) 10 = (10, bs, k1)" "take 6 bs = enc_ptr (P p)"
    "atol (drop 6 bs) = int (length (enc_rec (R p)))"
    "sys_read k1 (idxfd db) (length (enc_rec (R p))) = (int (length (enc_rec (R p))), enc_rec (R p), k2)"
    "quiet k0 (idxfd db) (datfd db) k2" "fd_pos k2 (idxfd db) = p + rec_size (R p)"
    using readidx_body [OF k0(4) rep0 p k0(3) buf] by (elim exE conjE) (rule that)
  have ok: "rec_ok (R p)" using idx_repD(5) [OF rep p] .
  then have len: "6 \<le> length (enc_rec (R p))" "length (enc_rec (R p)) \<le> 1024" by (simp_all add: rec_ok_def)
  obtain buf where buf: "db_parseidx (?db\<lparr>idxbuf := patch (idxbuf db) 0 (enc_rec (R p))\<rparr>) =
      Inr (?db\<lparr>idxbuf := buf, datoff := int (a_off (R p)), datlen := a_len (R p)\<rparr>)"
    "cstr buf = a_key (R p)" "length buf = 1026"
    using parseidx_enc [OF ok, of "?db\<lparr>idxbuf := patch (idxbuf db) 0 (enc_rec (R p))\<rparr>"] buf len by (auto simp: patch_def)
  have "db_readidx k db off = Inr (int (P p), k2, loaded db p (P p) (R p) buf)"
    using k0(1) rd(1-4) buf(1) len by (simp add: db_readidx_def loaded_def)
  then show ?thesis using rd(5,6) quiet_trans [OF k0(2) rd(5)] buf by auto
qed

lemma readidx_eof:
  assumes op: "opened k (idxfd db) (datfd db) i j" and pos: "fd_pos k (idxfd db) = length (k_data k i)"
  shows "okp (db_readidx k db 0) (\<lambda>(v, k', db'). v = -1 \<and> quiet k (idxfd db) (datfd db) k' \<and>
     db' = db\<lparr>idxoff := int (fd_pos k (idxfd db))\<rparr> \<and> fd_pos k' (idxfd db) = length (k_data k i))"
proof -
  note on = opened_on_fd(1) [OF op]
  obtain k0 where k0: "sys_lseek k (idxfd db) 0 SEEK_CUR = (int (fd_pos k (idxfd db)), k0)"
    "quiet k (idxfd db) (datfd db) k0" "fd_pos k0 (idxfd db) = fd_pos k (idxfd db)"
    "on_fd k0 (idxfd db) (idxfd db) (datfd db) i"
    using lseek_cur_quiet [OF on] by blast
  have "seg (k_data k0 i) (fd_pos k0 (idxfd db)) 10 = []"
    using quiet_data [OF k0(2)] pos k0(3) by (simp add: seg_def)
  then obtain k1 where k1: "sys_read k0 (idxfd db) 10 = (0, [], k1)" "quiet k0 (idxfd db) (datfd db) k1"
    "fd_pos k1 (idxfd db) = fd_pos k0 (idxfd db)"
    using read_quiet [OF k0(4), of 10] by auto
  then show ?thesis
    using k0 k1 quiet_trans [OF k0(2) k1(2)] pos by (simp add: db_readidx_def)
qed

section \<open>Writing\<close>

lemma dec_int_of_nat [simp]: "dec_int (int n) = dec n"
  by (simp add: dec_int_def)

lemma writeptr_ok:
  assumes op: "opened k (idxfd db) (datfd db) i j" and rep: "idx_rep (k_data k i) P R offs" and p: "p \<in> field_set offs"
    and v: "v \<le> 999999"
  shows "okp (db_writeptr k db (int p) (int v)) (\<lambda>k'. wrote k (idxfd db) (datfd db) i (patch (k_data k i) p (enc_ptr v)) k' \<and>
     idx_rep (k_data k' i) (P(p := v)) R offs \<and> length (k_data k' i) = length (k_data k i))"
proof -
  note on = opened_on_fd(1) [OF op]
  have pl: "p + 6 \<le> length (k_data k i)" using idx_rep_field(2) [OF rep p] .
  obtain k1 where k1: "sys_lseek k (idxfd db) (int p) SEEK_SET = (int p, k1)" "quiet k (idxfd db) (datfd db) k1"
    "fd_pos k1 (idxfd db) = p" "on_fd k1 (idxfd db) (idxfd db) (datfd db) i"
    using lseek_quiet [OF on] by blast
  have vl: "length (enc_ptr v) = 6" using v by simp
  then have ne: "enc_ptr v \<noteq> []" by auto
  have pos: "fd_pos k1 (idxfd db) \<le> length (k_data k1 i)" using k1(3) quiet_data [OF k1(2)] pl by simp
  obtain k2 where k2: "sys_write k1 (idxfd db) (enc_ptr v) = (6, k2)"
    "wrote k1 (idxfd db) (datfd db) i (patch (k_data k i) p (enc_ptr v)) k2"
    using write_wrote [OF k1(4) pos ne] vl k1(3) quiet_data [OF k1(2)] by auto
  have "db_writeptr k db (int p) (int v) = Inr k2"
    using k1(1) k2(1) v vl by (simp add: db_writeptr_def enc_ptr_def)
  moreover have "wrote k (idxfd db) (datfd db) i (patch (k_data k i) p (enc_ptr v)) k2"
    using quiet_wrote [OF k1(2) k2(2)] .
  ultimately show ?thesis
    using idx_rep_writeptr [OF rep p v] vl pl by (simp add: wrote_def)
qed

text \<open>The text \<open>_db_writeidx\<close> builds is the encoded record.\<close>

lemma writeidx_text:
  assumes "datoff db = int (a_off r)" "datlen db = a_len r" "key = a_key r"
  shows "key @ [SEP] @ dec_int (datoff db) @ [SEP] @ dec (datlen db) @ [NL] = enc_rec r"
  using assms by (simp add: enc_rec_def)

lemma writeidx_eq:
  assumes v: "v \<le> 999999" and r: "rec_ok r" and d: "datoff db = int (a_off r)" "datlen db = a_len r" "key = a_key r"
  shows "db_writeidx k db key off w (int v) =
     res_bind
       (if w = SEEK_END
        then must_lock (writew_lock k (idxfd db) (sint ((nhash db + 1) * of_nat PTR_SZ) + 1) SEEK_SET 0)
               ''_db_writeidx: writew_lock error''
        else Inr k) (\<lambda>k.
     let (q, k) = sys_lseek k (idxfd db) off w in
     if q = -1 then Inl (Err_dump ''_db_writeidx: lseek error'')
     else let (n, k) = sys_write k (idxfd db) (enc_full v r) in
     if n \<noteq> int (rec_size r) then Inl (Err_dump ''_db_writeidx: writev error of index record'')
     else res_bind
       (if w = SEEK_END
        then must_lock (un_lock k (idxfd db) (sint ((nhash db + 1) * of_nat PTR_SZ) + 1) SEEK_SET 0)
               ''_db_writeidx: un_lock error''
        else Inr k) (\<lambda>k.
     Inr (k, db\<lparr>ptrval := int v, idxbuf := patch (idxbuf db) 0 (enc_rec r @ [NUL]), idxoff := q\<rparr>)))"
proof -
  note txt_eq = writeidx_text [OF d]
  have tl: "length key + (length (dec_int (datoff db)) + length (dec (datlen db))) + 3 = length (enc_rec r)"
    using arg_cong [OF txt_eq, of length] by simp
  have len: "6 \<le> length (enc_rec r)" "length (enc_rec r) \<le> 1024" using r by (simp_all add: rec_ok_def)
  have le: "\<not> 1022 < length key + (length (dec_int (datoff db)) + length (dec (datlen db)))"
    using tl len by linarith
  show ?thesis
    unfolding db_writeidx_def Let_def
    using v len txt_eq le
    by (simp add: enc_full_def enc_ptr_def rec_size_def case_prod_beta cong: if_cong)
qed

lemma length_patch_0: "length bs \<le> length c \<Longrightarrow> length (patch c 0 bs) = length c"
  by (simp add: patch_def)

lemma cstr_patch_text: "NUL \<notin> set t \<Longrightarrow> cstr (patch c 0 (t @ [NUL])) = t"
  using cstr_append_NUL [of t] by (simp add: patch_def)

lemma NUL_enc_rec: "rec_ok r \<Longrightarrow> NUL \<notin> set (enc_rec r)"
  by (simp add: enc_rec_def rec_ok_def)

text \<open>Overwriting the record at \<open>p\<close> with one of the same size.\<close>

lemma writeidx_set_ok:
  assumes op: "opened k (idxfd db) (datfd db) i j" and rep: "idx_rep (k_data k i) P R offs" and p: "p \<in> set offs"
    and v: "v \<le> 999999" and r: "rec_ok r" "rec_size r = rec_size (R p)"
    and d: "datoff db = int (a_off r)" "datlen db = a_len r" "key = a_key r" "length (idxbuf db) = 1026"
  shows "okp (db_writeidx k db key (int p) SEEK_SET (int v)) (\<lambda>(k', db').
     wrote k (idxfd db) (datfd db) i (patch (k_data k i) p (enc_full v r)) k' \<and>
     idx_rep (k_data k' i) (P(p := v)) (R(p := r)) offs \<and> length (k_data k' i) = length (k_data k i) \<and>
     (\<exists>buf. db' = db\<lparr>ptrval := int v, idxbuf := buf, idxoff := int p\<rparr> \<and> length buf = 1026))"
proof -
  note on = opened_on_fd(1) [OF op]
  have pl: "p + rec_size r \<le> length (k_data k i)" using idx_repD(8) [OF rep p] r by simp
  obtain k1 where k1: "sys_lseek k (idxfd db) (int p) SEEK_SET = (int p, k1)" "quiet k (idxfd db) (datfd db) k1"
    "fd_pos k1 (idxfd db) = p" "on_fd k1 (idxfd db) (idxfd db) (datfd db) i"
    using lseek_quiet [OF on] by blast
  have vl: "length (enc_full v r) = rec_size r" using v r by simp
  then have ne: "enc_full v r \<noteq> []" using rec_size_pos [of r] by auto
  have pos: "fd_pos k1 (idxfd db) \<le> length (k_data k1 i)" using k1(3) quiet_data [OF k1(2)] pl by simp
  obtain k2 where k2: "sys_write k1 (idxfd db) (enc_full v r) = (int (rec_size r), k2)"
    "wrote k1 (idxfd db) (datfd db) i (patch (k_data k i) p (enc_full v r)) k2"
    using write_wrote [OF k1(4) pos ne] vl k1(3) quiet_data [OF k1(2)] by auto
  have len: "6 \<le> length (enc_rec r)" "length (enc_rec r) \<le> 1024" using r by (simp_all add: rec_ok_def)
  let ?buf = "patch (idxbuf db) 0 (enc_rec r @ [NUL])"
  have "db_writeidx k db key (int p) SEEK_SET (int v) = Inr (k2, db\<lparr>ptrval := int v, idxbuf := ?buf, idxoff := int p\<rparr>)"
    using k1(1) k2(1) by (simp add: writeidx_eq [OF v r(1) d(1-3)])
  moreover have "wrote k (idxfd db) (datfd db) i (patch (k_data k i) p (enc_full v r)) k2"
    using quiet_wrote [OF k1(2) k2(2)] .
  moreover have "length ?buf = 1026" using len d(4) by (simp add: length_patch_0)
  ultimately show ?thesis
    using idx_rep_writeidx [OF rep p v r] vl pl by (auto simp: wrote_def)
qed

section \<open>Locks\<close>

definition lock_ent :: "nat \<Rightarrow> nat \<Rightarrow> bool \<Rightarrow> nat \<Rightarrow> nat option \<Rightarrow> flock_ent" where
  "lock_ent pid ino wr lo hi = \<lparr>fl_pid = pid, fl_ino = ino, fl_wr = wr, fl_start = lo, fl_end = hi\<rparr>"

definition no_overlap :: "flock_ent list \<Rightarrow> nat \<Rightarrow> nat \<Rightarrow> nat option \<Rightarrow> bool" where
  "no_overlap ls ino lo hi \<longleftrightarrow> (\<forall>l \<in> set ls. \<not> (fl_ino l = ino \<and> overlaps lo hi l))"

text \<open>The range of the requests the library makes: one byte, or from a byte to the end.\<close>

definition lock_end :: "nat \<Rightarrow> int \<Rightarrow> nat option" where
  "lock_end c len = (if len = 0 then None else Some (c + nat len))"

lemma flock_range_of: "0 \<le> len \<Longrightarrow> flock_range (int c) len = Some (c, lock_end c len)"
  by (auto simp: flock_range_def lock_end_def nat_add_distrib)

lemma in_range_lock_end: "0 \<le> len \<Longrightarrow> in_range c c (lock_end c len)"
  by (simp add: in_range_def lock_end_def)

lemma lock_grant:
  assumes on: "on_fd k fd a b i" and len: "0 \<le> len" and free: "no_overlap (k_locks k) i c (lock_end c len)"
  shows "must_lock (writew_lock k fd (int c) SEEK_SET len) m =
           Inr (k\<lparr>k_locks := lock_ent (k_pid k) i True c (lock_end c len) # k_locks k\<rparr>)"
    "must_lock (readw_lock k fd (int c) SEEK_SET len) m =
           Inr (k\<lparr>k_locks := lock_ent (k_pid k) i False c (lock_end c len) # k_locks k\<rparr>)"
proof -
  have nc: "\<not> (\<exists>l \<in> set (k_locks k). conflicts (k_pid k) i w c (lock_end c len) l)" for w
    using free by (auto simp: no_overlap_def conflicts_def)
  have m: "map (carve (k_pid k) i c (lock_end c len)) (k_locks k) = map (\<lambda>l. [l]) (k_locks k)"
    using free by (auto simp: no_overlap_def carve_def)
  have "concat (map (carve (k_pid k) i c (lock_end c len)) (k_locks k)) = k_locks k"
    unfolding m by (induction "k_locks k") simp_all
  then have s: "t \<noteq> F_UNLCK \<Longrightarrow> set_locks (k_pid k) i t c (lock_end c len) (k_locks k) =
      lock_ent (k_pid k) i (t = F_WRLCK) c (lock_end c len) # k_locks k" for t
    by (simp add: set_locks_def lock_ent_def)
  show "must_lock (writew_lock k fd (int c) SEEK_SET len) m =
           Inr (k\<lparr>k_locks := lock_ent (k_pid k) i True c (lock_end c len) # k_locks k\<rparr>)"
    using on nc [of True] s [of F_WRLCK] flock_range_of [OF len, of c]
    by (auto simp: on_fd_def must_lock_def writew_lock_def lock_reg_def sys_fcntl_lock_def seek_base_def)
  show "must_lock (readw_lock k fd (int c) SEEK_SET len) m =
           Inr (k\<lparr>k_locks := lock_ent (k_pid k) i False c (lock_end c len) # k_locks k\<rparr>)"
    using on nc [of False] s [of F_RDLCK] flock_range_of [OF len, of c]
    by (auto simp: on_fd_def must_lock_def readw_lock_def lock_reg_def sys_fcntl_lock_def seek_base_def)
qed

lemma unlock_ok:
  assumes on: "on_fd k fd a b i" and len: "0 \<le> len" and free: "no_overlap ls i c (lock_end c len)"
    and held: "k_locks k = lock_ent (k_pid k) i w c (lock_end c len) # ls"
  shows "must_lock (un_lock k fd (int c) SEEK_SET len) m = Inr (k\<lparr>k_locks := ls\<rparr>)"
proof -
  have mm: "map (carve (k_pid k) i c (lock_end c len)) ls = map (\<lambda>l. [l]) ls"
    using free by (auto simp: no_overlap_def carve_def)
  have c1: "concat (map (carve (k_pid k) i c (lock_end c len)) ls) = ls"
    unfolding mm by (induction ls) simp_all
  have "overlaps c (lock_end c len) (lock_ent (k_pid k) i w c (lock_end c len))"
    using in_range_lock_end [OF len, of c] by (auto simp: overlaps_iff lock_ent_def)
  then have c2: "carve (k_pid k) i c (lock_end c len) (lock_ent (k_pid k) i w c (lock_end c len)) = []"
    by (auto simp: carve_def lock_ent_def split: option.splits)
  have "set_locks (k_pid k) i F_UNLCK c (lock_end c len) (k_locks k) = ls"
    unfolding held set_locks_def using c1 c2 by simp
  then show ?thesis
    using on flock_range_of [OF len, of c]
    by (auto simp: on_fd_def must_lock_def un_lock_def lock_reg_def sys_fcntl_lock_def seek_base_def)
qed

lemma on_fd_locks [simp]: "on_fd (k\<lparr>k_locks := l\<rparr>) fd a b i = on_fd k fd a b i"
  by (simp add: on_fd_def)

lemma kframe_src [simp]: "kframe (k\<lparr>k_locks := l\<rparr>) a b k' = kframe k a b k'"
  by (simp add: kframe_def)

lemma sint_of_small:
  assumes "w = of_nat n" "n < 1000000"
  shows "sint (w :: 64 word) = int n"
proof -
  have "sint (word_of_int (int n) :: 64 word) = signed_take_bit (LENGTH(64) - 1) (int n)"
    by (rule sint_sbintrunc')
  also have "\<dots> = int n" using assms(2) by (intro signed_take_bit_int_eq_self) simp_all
  finally show ?thesis using assms(1) by simp
qed

text \<open>The chain of a key, and the offset of its head in the hash table.\<close>

definition hashk :: "string \<Rightarrow> nat" where
  "hashk key = unat (hash_loop 0 1 key mod (137 :: 64 word))"

definition chain_head :: "nat \<Rightarrow> nat" where
  "chain_head h = h * 6 + 6"

lemma hashk_less: "hashk key < 137"
  by (simp add: hashk_def unat_mod)

lemma chainoff_eq:
  assumes "nhash db = 137" "hashoff db = 6"
  shows "sint (db_hash db key * of_nat PTR_SZ + word_of_int (hashoff db)) = int (chain_head (hashk key))"
proof (rule sint_of_small)
  have "db_hash db key = of_nat (hashk key)"
    using assms(1) by (simp add: db_hash_def hashk_def)
  then show "db_hash db key * of_nat PTR_SZ + word_of_int (hashoff db) = of_nat (chain_head (hashk key))"
    using assms(2) by (simp add: chain_head_def)
  show "chain_head (hashk key) < 1000000" using hashk_less [of key] by (simp add: chain_head_def)
qed

lemma chain_head_field: "h < 137 \<Longrightarrow> chain_head h \<in> head_fields"
  by (auto simp: chain_head_def head_fields_def intro!: image_eqI [of _ _ "Suc h"])

lemma free_head_field: "0 \<in> head_fields"
  by (auto simp: head_fields_def intro!: image_eqI [of _ _ 0])

lemma tail_off:
  assumes "nhash db = 137"
  shows "sint ((nhash db + 1) * of_nat PTR_SZ) + 1 = int HDR"
proof -
  have "sint ((nhash db + 1) * of_nat PTR_SZ) = int 828"
    by (rule sint_of_small) (simp_all add: assms)
  then show ?thesis by (simp add: HDR_def)
qed

section \<open>Appending\<close>

lemma writeidx_end_ok:
  assumes op: "opened k (idxfd db) (datfd db) i j" and rep: "idx_rep (k_data k i) P R offs"
    and v: "v \<le> 999999" and r: "rec_ok r" and n: "nhash db = 137"
    and d: "datoff db = int (a_off r)" "datlen db = a_len r" "key = a_key r" "length (idxbuf db) = 1026"
    and free: "no_overlap (k_locks k) i HDR None"
  shows "okp (db_writeidx k db key 0 SEEK_END (int v)) (\<lambda>(k', db').
     wrote k (idxfd db) (datfd db) i (k_data k i @ enc_full v r) k' \<and>
     idx_rep (k_data k' i) (P(length (k_data k i) := v)) (R(length (k_data k i) := r)) (offs @ [length (k_data k i)]) \<and>
     (\<exists>buf. db' = db\<lparr>ptrval := int v, idxbuf := buf, idxoff := int (length (k_data k i))\<rparr> \<and> length buf = 1026))"
proof -
  note on = opened_on_fd(1) [OF op]
  let ?L = "lock_ent (k_pid k) i True HDR None # k_locks k" and ?c = "k_data k i"
  let ?k0 = "k\<lparr>k_locks := ?L\<rparr>"
  have free': "no_overlap (k_locks k) i HDR (lock_end HDR 0)" using free by (simp add: lock_end_def)
  have lk: "must_lock (writew_lock k (idxfd db) (int HDR) SEEK_SET 0) m = Inr ?k0" for m
    using lock_grant(1) [OF on _ free'] by (simp add: lock_end_def)
  have on0: "on_fd ?k0 (idxfd db) (idxfd db) (datfd db) i" using on by simp
  obtain k1 where k1: "sys_lseek ?k0 (idxfd db) 0 SEEK_END = (int (length ?c), k1)"
    "quiet ?k0 (idxfd db) (datfd db) k1" "fd_pos k1 (idxfd db) = length ?c" "on_fd k1 (idxfd db) (idxfd db) (datfd db) i"
    using lseek_end_quiet [OF on0] by auto
  have d1: "k_data k1 = k_data k" using quiet_data [OF k1(2)] by simp
  have vl: "length (enc_full v r) = rec_size r" using v r by simp
  then have ne: "enc_full v r \<noteq> []" using rec_size_pos [of r] by auto
  obtain k2 where k2: "sys_write k1 (idxfd db) (enc_full v r) = (int (rec_size r), k2)"
    "wrote k1 (idxfd db) (datfd db) i (?c @ enc_full v r) k2"
    using write_wrote [OF k1(4) _ ne] vl k1(3) d1 by auto
  have w2: "wrote ?k0 (idxfd db) (datfd db) i (?c @ enc_full v r) k2" using quiet_wrote [OF k1(2) k2(2)] .
  have "on_fd k2 (idxfd db) (idxfd db) (datfd db) i"
    using on0 w2 by (auto simp: wrote_def intro: on_fd_kframe)
  moreover have "k_locks k2 = lock_ent (k_pid k2) i True HDR (lock_end HDR 0) # k_locks k"
    using w2 kframe_pid by (auto simp: wrote_def lock_end_def)
  ultimately have ul: "must_lock (un_lock k2 (idxfd db) (int HDR) SEEK_SET 0) m = Inr (k2\<lparr>k_locks := k_locks k\<rparr>)" for m
    using free' by (intro unlock_ok) simp_all
  let ?buf = "patch (idxbuf db) 0 (enc_rec r @ [NUL])"
  have "db_writeidx k db key 0 SEEK_END (int v) = Inr (k2\<lparr>k_locks := k_locks k\<rparr>,
      db\<lparr>ptrval := int v, idxbuf := ?buf, idxoff := int (length ?c)\<rparr>)"
    unfolding writeidx_eq [OF v r d(1-3)] tail_off [OF n] using k1(1) k2(1) lk ul by simp
  moreover have "wrote k (idxfd db) (datfd db) i (?c @ enc_full v r) (k2\<lparr>k_locks := k_locks k\<rparr>)"
    using w2 by (simp add: wrote_def)
  moreover have "length ?buf = 1026" using r d(4) by (simp add: length_patch_0 rec_ok_def)
  moreover have "k_data k2 i = ?c @ enc_full v r" using w2 by (simp add: wrote_def)
  ultimately show ?thesis using idx_rep_append [OF rep v r] by auto
qed

section \<open>The data file\<close>

lemma writedat_set_ok:
  assumes op: "opened k (idxfd db) (datfd db) i j" and q: "q \<le> length (k_data k j)"
  shows "okp (db_writedat k db data (int q) SEEK_SET) (\<lambda>(k', db').
     wrote k (idxfd db) (datfd db) j (patch (k_data k j) q (data @ [NL])) k' \<and>
     db' = db\<lparr>datoff := int q, datlen := length data + 1\<rparr>)"
proof -
  note on = opened_on_fd(2) [OF op]
  obtain k1 where k1: "sys_lseek k (datfd db) (int q) SEEK_SET = (int q, k1)" "quiet k (idxfd db) (datfd db) k1"
    "fd_pos k1 (datfd db) = q" "on_fd k1 (datfd db) (idxfd db) (datfd db) j"
    using lseek_quiet [OF on] by blast
  have pos: "fd_pos k1 (datfd db) \<le> length (k_data k1 j)" using k1(3) quiet_data [OF k1(2)] q by simp
  obtain k2 where k2: "sys_write k1 (datfd db) (data @ [NL]) = (int (length data) + 1, k2)"
    "wrote k1 (idxfd db) (datfd db) j (patch (k_data k j) q (data @ [NL])) k2"
    using write_wrote [OF k1(4) pos, of "data @ [NL]"] k1(3) quiet_data [OF k1(2)] by auto
  show ?thesis
    using k1(1) k2 quiet_wrote [OF k1(2) k2(2)] by (simp add: db_writedat_def)
qed

lemma writedat_end_ok:
  assumes op: "opened k (idxfd db) (datfd db) i j" and free: "no_overlap (k_locks k) j 0 None"
  shows "okp (db_writedat k db data 0 SEEK_END) (\<lambda>(k', db').
     wrote k (idxfd db) (datfd db) j (k_data k j @ data @ [NL]) k' \<and>
     db' = db\<lparr>datoff := int (length (k_data k j)), datlen := length data + 1\<rparr>)"
proof -
  note on = opened_on_fd(2) [OF op]
  let ?k0 = "k\<lparr>k_locks := lock_ent (k_pid k) j True 0 None # k_locks k\<rparr>" and ?c = "k_data k j"
  have free': "no_overlap (k_locks k) j 0 (lock_end 0 0)" using free by (simp add: lock_end_def)
  have lk: "must_lock (writew_lock k (datfd db) 0 SEEK_SET 0) m = Inr ?k0" for m
    using lock_grant(1) [OF on _ free'] by (simp add: lock_end_def)
  have on0: "on_fd ?k0 (datfd db) (idxfd db) (datfd db) j" using on by simp
  obtain k1 where k1: "sys_lseek ?k0 (datfd db) 0 SEEK_END = (int (length ?c), k1)"
    "quiet ?k0 (idxfd db) (datfd db) k1" "fd_pos k1 (datfd db) = length ?c" "on_fd k1 (datfd db) (idxfd db) (datfd db) j"
    using lseek_end_quiet [OF on0] by auto
  have d1: "k_data k1 = k_data k" using quiet_data [OF k1(2)] by simp
  obtain k2 where k2: "sys_write k1 (datfd db) (data @ [NL]) = (int (length data) + 1, k2)"
    "wrote k1 (idxfd db) (datfd db) j (?c @ data @ [NL]) k2"
    using write_wrote [OF k1(4), of "data @ [NL]"] k1(3) d1 by auto
  have w2: "wrote ?k0 (idxfd db) (datfd db) j (?c @ data @ [NL]) k2" using quiet_wrote [OF k1(2) k2(2)] .
  have "on_fd k2 (datfd db) (idxfd db) (datfd db) j"
    using on0 w2 by (auto simp: wrote_def intro: on_fd_kframe)
  moreover have "k_locks k2 = lock_ent (k_pid k2) j True 0 (lock_end 0 0) # k_locks k"
    using w2 kframe_pid by (auto simp: wrote_def lock_end_def)
  ultimately have ul: "must_lock (un_lock k2 (datfd db) 0 SEEK_SET 0) m = Inr (k2\<lparr>k_locks := k_locks k\<rparr>)" for m
    using unlock_ok [of k2 "datfd db" "idxfd db" "datfd db" j 0 "k_locks k" 0 True] free' by simp
  show ?thesis
    using k1(1) k2(1) lk ul w2 by (simp add: db_writedat_def wrote_def)
qed

lemma readdat_ok:
  assumes op: "opened k (idxfd db) (datfd db) i j"
    and d: "datoff db = int q" "datlen db = length t + 1" "length t \<le> 1023" "length (datbuf db) = 1026"
    and sg: "seg (k_data k j) q (length t + 1) = t @ [NL]" "NUL \<notin> set t"
  shows "okp (db_readdat k db) (\<lambda>(s, k', db'). s = t \<and> quiet k (idxfd db) (datfd db) k' \<and>
     fd_pos k' (idxfd db) = fd_pos k (idxfd db) \<and> (\<exists>buf. db' = db\<lparr>datbuf := buf\<rparr> \<and> length buf = 1026))"
proof -
  note on = opened_on_fd(2) [OF op]
  obtain k1 where k1: "sys_lseek k (datfd db) (int q) SEEK_SET = (int q, k1)" "quiet k (idxfd db) (datfd db) k1"
    "fd_pos k1 (datfd db) = q" "on_fd k1 (datfd db) (idxfd db) (datfd db) j"
    using lseek_quiet [OF on] by blast
  obtain k2 where k2: "sys_read k1 (datfd db) (length t + 1) = (int (length t) + 1, t @ [NL], k2)"
    "quiet k1 (idxfd db) (datfd db) k2"
    using read_quiet [OF k1(4), of "length t + 1"] unfolding k1(3) quiet_data [OF k1(2)] sg(1) by auto
  have ab: "idxfd db \<noteq> datfd db" "0 \<le> datfd db" using op fd_get_nonneg by (auto simp: opened_def)
  have "fd_get k1 (idxfd db) = fd_get k (idxfd db)"
    using k1(1) ab by (auto simp: sys_lseek_def Let_def split: option.splits if_splits)
  moreover have "fd_get k2 (idxfd db) = fd_get k1 (idxfd db)"
    using k2(1) ab by (auto simp: sys_read_def Let_def split: option.splits if_splits)
  ultimately have pos: "fd_pos k2 (idxfd db) = fd_pos k (idxfd db)" by (simp add: fd_pos_def)
  let ?buf = "t @ NUL # drop (length t + 1) (datbuf db)"
  have b: "patch (datbuf db) 0 (t @ [NL]) = t @ NL # drop (length t + 1) (datbuf db)" by (simp add: patch_def)
  have "db_readdat k db = Inr (t, k2, db\<lparr>datbuf := ?buf\<rparr>)"
    using k1(1) k2(1) d sg(2) cstr_append_NUL [OF sg(2)] by (simp add: db_readdat_def b)
  moreover have "length ?buf = 1026" using d by simp
  ultimately show ?thesis using quiet_trans [OF k1(2) k2(2)] pos by auto
qed

end
