(* ===== verification/Db_Inv.thy ===== *)
theory Db_Inv
  imports Db_Prims
begin

text \<open>
  The invariant of a database and the map it stands for.  A \<open>shape\<close> names the parts of
  the index file: the pointer fields, the records and their order in the file, the free
  list and the hash chains.  \<open>shape_ok\<close> says that the bytes of both files are those of
  the shape; \<open>db_map\<close> is the finite map from keys to data the database represents.
\<close>

section \<open>Shapes\<close>

record shape =
  s_ptr :: "nat \<Rightarrow> nat"
  s_rec :: "nat \<Rightarrow> arec"
  s_offs :: "nat list"
  s_free :: "nat list"
  s_chain :: "nat \<Rightarrow> nat list"

text \<open>The pointer fields of the index file form chains.\<close>

interpretation cf: ptr_fields "\<lambda>P p. P p" "\<lambda>P p v. P(p := v)" "0 :: nat"
  by unfold_locales auto

definition data_of :: "bytes \<Rightarrow> arec \<Rightarrow> string" where
  "data_of dat r = butlast (seg dat (a_off r) (a_len r))"

definition dat_ok :: "bytes \<Rightarrow> arec \<Rightarrow> bool" where
  "dat_ok dat r \<longleftrightarrow> a_off r + a_len r \<le> length dat \<and>
     seg dat (a_off r) (a_len r) = data_of dat r @ [NL] \<and> NUL \<notin> set (data_of dat r)"

definition dat_disj :: "arec \<Rightarrow> arec \<Rightarrow> bool" where
  "dat_disj r r' \<longleftrightarrow> a_off r + a_len r \<le> a_off r' \<or> a_off r' + a_len r' \<le> a_off r"

definition blank :: "string \<Rightarrow> bool" where
  "blank key \<longleftrightarrow> (\<forall>c \<in> set key. c = SPACE)"

abbreviation key_at :: "shape \<Rightarrow> nat \<Rightarrow> string" where
  "key_at s p \<equiv> a_key (s_rec s p)"

definition shape_ok :: "bytes \<Rightarrow> bytes \<Rightarrow> shape \<Rightarrow> bool" where
  "shape_ok idx dat s \<longleftrightarrow>
     idx_rep idx (s_ptr s) (s_rec s) (s_offs s) \<and>
     cf.chain (s_ptr s) 0 (s_free s) \<and>
     (\<forall>h<137. cf.chain (s_ptr s) (chain_head h) (s_chain s h)) \<and>
     set (s_offs s) = set (s_free s) \<union> (\<Union>h<137. set (s_chain s h)) \<and>
     (\<forall>h<137. set (s_free s) \<inter> set (s_chain s h) = {}) \<and>
     (\<forall>h<137. \<forall>p \<in> set (s_chain s h). hashk (key_at s p) = h \<and> \<not> blank (key_at s p)) \<and>
     (\<forall>h<137. inj_on (key_at s) (set (s_chain s h))) \<and>
     (\<forall>p \<in> set (s_free s). blank (key_at s p)) \<and>
     (\<forall>p \<in> set (s_offs s). dat_ok dat (s_rec s p)) \<and>
     (\<forall>p \<in> set (s_offs s). \<forall>q \<in> set (s_offs s). p \<noteq> q \<longrightarrow> dat_disj (s_rec s p) (s_rec s q))"

definition db_map :: "bytes \<Rightarrow> shape \<Rightarrow> string \<Rightarrow> string option" where
  "db_map dat s key =
     map_option (\<lambda>p. data_of dat (s_rec s p)) (List.find (\<lambda>p. key_at s p = key) (s_chain s (hashk key)))"

section \<open>Consequences of the invariant\<close>

lemma shape_okD:
  assumes "shape_ok idx dat s"
  shows "idx_rep idx (s_ptr s) (s_rec s) (s_offs s)"
    "cf.chain (s_ptr s) 0 (s_free s)"
    "h < 137 \<Longrightarrow> cf.chain (s_ptr s) (chain_head h) (s_chain s h)"
    "set (s_offs s) = set (s_free s) \<union> (\<Union>h<137. set (s_chain s h))"
    "h < 137 \<Longrightarrow> set (s_free s) \<inter> set (s_chain s h) = {}"
    "h < 137 \<Longrightarrow> p \<in> set (s_chain s h) \<Longrightarrow> hashk (key_at s p) = h"
    "h < 137 \<Longrightarrow> p \<in> set (s_chain s h) \<Longrightarrow> \<not> blank (key_at s p)"
    "h < 137 \<Longrightarrow> inj_on (key_at s) (set (s_chain s h))"
    "p \<in> set (s_free s) \<Longrightarrow> blank (key_at s p)"
    "p \<in> set (s_offs s) \<Longrightarrow> dat_ok dat (s_rec s p)"
    "p \<in> set (s_offs s) \<Longrightarrow> q \<in> set (s_offs s) \<Longrightarrow> p \<noteq> q \<Longrightarrow> dat_disj (s_rec s p) (s_rec s q)"
  using assms unfolding shape_ok_def by simp_all

lemma shape_fields:
  assumes "shape_ok idx dat s"
  shows "0 \<in> field_set (s_offs s)" "h < 137 \<Longrightarrow> chain_head h \<in> field_set (s_offs s)"
    "p \<in> set (s_free s) \<Longrightarrow> p \<in> set (s_offs s)" "h < 137 \<Longrightarrow> p \<in> set (s_chain s h) \<Longrightarrow> p \<in> set (s_offs s)"
    "p \<in> set (s_offs s) \<Longrightarrow> p \<in> field_set (s_offs s)"
  using shape_okD(4) [OF assms] free_head_field chain_head_field by (auto simp: field_set_def)

lemma offs_not_heads:
  assumes "shape_ok idx dat s" "p \<in> set (s_offs s)"
  shows "p \<noteq> 0" "h < 137 \<Longrightarrow> p \<noteq> chain_head h" "p \<notin> head_fields"
proof -
  have "HDR \<le> p" using idx_repD(7) [OF shape_okD(1) [OF assms(1)] assms(2)] .
  then show "p \<notin> head_fields" using head_fields_bound [of p] by auto
  then show "p \<noteq> 0" "h < 137 \<Longrightarrow> p \<noteq> chain_head h"
    using free_head_field chain_head_field [of h] by metis+
qed

lemma chains_disjoint:
  assumes "shape_ok idx dat s" "h < 137" "h' < 137" "h \<noteq> h'"
  shows "set (s_chain s h) \<inter> set (s_chain s h') = {}"
  using shape_okD(6) [OF assms(1,2)] shape_okD(6) [OF assms(1,3)] assms(4) by blast

lemma chain_head_eq: "chain_head h = chain_head h' \<longleftrightarrow> h = h'" "chain_head h \<noteq> 0"
  by (simp_all add: chain_head_def)

lemma length_chain_le:
  assumes "shape_ok idx dat s" "set xs \<subseteq> set (s_offs s)" "distinct xs"
  shows "length xs \<le> length idx"
proof -
  have "length xs \<le> card (set (s_offs s))"
    using assms(2,3) by (metis List.finite_set card_mono distinct_card)
  also have "\<dots> \<le> length (s_offs s)" by (rule card_length)
  also have "\<dots> \<le> length idx"
    using length_layout [OF idx_repD(2) [OF shape_okD(1) [OF assms(1)]]] by simp
  finally show ?thesis .
qed

lemma dat_ok_len:
  assumes "dat_ok dat r" "rec_ok r"
  shows "length (data_of dat r) + 1 = a_len r" "length (data_of dat r) \<le> 1023"
proof -
  have "length (data_of dat r @ [NL]) = a_len r" using assms(1) by (metis dat_ok_def length_seg add_diff_cancel_left' diff_le_mono min.absorb1)
  then show "length (data_of dat r) + 1 = a_len r" by simp
  with assms(2) show "length (data_of dat r) \<le> 1023" by (simp add: rec_ok_def)
qed

section \<open>The map\<close>

lemma find_Some_in: "List.find Q xs = Some x \<Longrightarrow> x \<in> set xs \<and> Q x"
  by (auto simp: find_Some_iff)

lemma db_map_SomeI:
  assumes "inj_on (key_at s) (set (s_chain s (hashk key)))" "p \<in> set (s_chain s (hashk key))" "key_at s p = key"
  shows "db_map dat s key = Some (data_of dat (s_rec s p))"
proof -
  have "List.find (\<lambda>p. key_at s p = key) (s_chain s (hashk key)) \<noteq> None"
    using assms(2,3) unfolding find_None_iff by blast
  then obtain q where q: "List.find (\<lambda>p. key_at s p = key) (s_chain s (hashk key)) = Some q" by blast
  from find_Some_in [OF q] have "q = p" using assms(2,3) inj_onD [OF assms(1), of q p] by simp
  with q show ?thesis by (simp add: db_map_def)
qed

lemma db_map_NoneI: "\<forall>p \<in> set (s_chain s (hashk key)). key_at s p \<noteq> key \<Longrightarrow> db_map dat s key = None"
  by (simp add: db_map_def find_None_iff)

lemma db_map_cong:
  assumes "inj_on (key_at s) (set (s_chain s (hashk key)))" "inj_on (key_at s') (set (s_chain s' (hashk key)))"
    and "\<And>p. p \<in> set (s_chain s' (hashk key)) \<and> key_at s' p = key \<longleftrightarrow> p \<in> set (s_chain s (hashk key)) \<and> key_at s p = key"
    and "\<And>p. p \<in> set (s_chain s (hashk key)) \<Longrightarrow> key_at s p = key \<Longrightarrow> data_of dat' (s_rec s' p) = data_of dat (s_rec s p)"
  shows "db_map dat' s' key = db_map dat s key"
proof (cases "\<exists>p \<in> set (s_chain s (hashk key)). key_at s p = key")
  case True
  then obtain p where p: "p \<in> set (s_chain s (hashk key))" "key_at s p = key" by blast
  moreover from p assms(3) have "p \<in> set (s_chain s' (hashk key))" "key_at s' p = key" by blast+
  ultimately show ?thesis
    using db_map_SomeI [OF assms(1), of p dat] db_map_SomeI [OF assms(2), of p dat'] assms(4) by simp
next
  case False
  then have "\<forall>p \<in> set (s_chain s (hashk key)). key_at s p \<noteq> key"
    "\<forall>p \<in> set (s_chain s' (hashk key)). key_at s' p \<noteq> key" using assms(3) by blast+
  then show ?thesis by (simp add: db_map_NoneI)
qed

section \<open>The data file under a write\<close>

lemma data_of_same: "seg dat' (a_off r) (a_len r) = seg dat (a_off r) (a_len r) \<Longrightarrow> data_of dat' r = data_of dat r"
  by (simp add: data_of_def)

lemma dat_ok_patch_other:
  assumes "dat_ok dat r" "dat_disj r r0" "a_off r0 + length bs \<le> length dat" "length bs = a_len r0"
  shows "dat_ok (patch dat (a_off r0) bs) r" "data_of (patch dat (a_off r0) bs) r = data_of dat r"
proof -
  have sg: "seg (patch dat (a_off r0) bs) (a_off r) (a_len r) = seg dat (a_off r) (a_len r)"
    using assms(2-4) by (intro seg_patch_disj) (auto simp: dat_disj_def)
  show d: "data_of (patch dat (a_off r0) bs) r = data_of dat r" by (rule data_of_same [OF sg])
  show "dat_ok (patch dat (a_off r0) bs) r"
    using assms(1,3) unfolding dat_ok_def d sg by simp
qed

lemma dat_ok_patch_same:
  assumes "a_off r + a_len r \<le> length dat" "length t + 1 = a_len r" "NUL \<notin> set t"
  shows "dat_ok (patch dat (a_off r) (t @ [NL])) r" "data_of (patch dat (a_off r) (t @ [NL])) r = t"
proof -
  have "seg (patch dat (a_off r) (t @ [NL])) (a_off r) (a_len r) = t @ [NL]"
    using seg_patch_same [of "a_off r" "t @ [NL]" dat] assms by simp
  then show "data_of (patch dat (a_off r) (t @ [NL])) r = t" "dat_ok (patch dat (a_off r) (t @ [NL])) r"
    using assms by (auto simp: dat_ok_def data_of_def)
qed

lemma dat_ok_append:
  assumes "dat_ok dat r"
  shows "dat_ok (dat @ bs) r" "data_of (dat @ bs) r = data_of dat r"
proof -
  have sg: "seg (dat @ bs) (a_off r) (a_len r) = seg dat (a_off r) (a_len r)"
    using assms by (simp add: dat_ok_def)
  show d: "data_of (dat @ bs) r = data_of dat r" by (rule data_of_same [OF sg])
  show "dat_ok (dat @ bs) r" using assms unfolding dat_ok_def d sg by simp
qed

lemma dat_ok_new:
  assumes "a_off r = length dat" "a_len r = length t + 1" "NUL \<notin> set t"
  shows "dat_ok (dat @ t @ [NL]) r" "data_of (dat @ t @ [NL]) r = t"
  using assms seg_append_end [of dat "t @ [NL]"] by (simp_all add: dat_ok_def data_of_def)

section \<open>Changes of the shape\<close>

text \<open>
  The three structural changes: a record moves from its chain to the free list, a free
  record leaves the free list, and a record enters a chain at its head.  Each is stated
  for the pointer fields as the library writes them.
\<close>

lemma chains_frame:
  assumes "cf.chain P p xs" "\<forall>q \<in> Q. q \<noteq> p \<and> q \<notin> set xs" "\<And>q. q \<notin> Q \<Longrightarrow> P' q = P q"
  shows "cf.chain P' p xs"
  using assms(1,2)
proof (induction xs arbitrary: p)
  case Nil
  then show ?case using assms(3) [of p] by auto
next
  case (Cons x xs)
  then show ?case using assms(3) [of p] by auto
qed

lemma shape_okI:
  assumes "idx_rep idx (s_ptr s) (s_rec s) (s_offs s)" "cf.chain (s_ptr s) 0 (s_free s)"
    and "\<And>h. h < 137 \<Longrightarrow> cf.chain (s_ptr s) (chain_head h) (s_chain s h)"
    and "set (s_offs s) = set (s_free s) \<union> (\<Union>h<137. set (s_chain s h))"
    and "\<And>h. h < 137 \<Longrightarrow> set (s_free s) \<inter> set (s_chain s h) = {}"
    and "\<And>h p. h < 137 \<Longrightarrow> p \<in> set (s_chain s h) \<Longrightarrow> hashk (key_at s p) = h \<and> \<not> blank (key_at s p)"
    and "\<And>h. h < 137 \<Longrightarrow> inj_on (key_at s) (set (s_chain s h))"
    and "\<And>p. p \<in> set (s_free s) \<Longrightarrow> blank (key_at s p)"
    and "\<And>p. p \<in> set (s_offs s) \<Longrightarrow> dat_ok dat (s_rec s p)"
    and "\<And>p q. p \<in> set (s_offs s) \<Longrightarrow> q \<in> set (s_offs s) \<Longrightarrow> p \<noteq> q \<Longrightarrow> dat_disj (s_rec s p) (s_rec s q)"
  shows "shape_ok idx dat s"
  unfolding shape_ok_def using assms by blast

lemma dat_disj_sym: "dat_disj r r' \<longleftrightarrow> dat_disj r' r"
  by (auto simp: dat_disj_def)

lemma dat_disj_cong: "a_off r1 = a_off r2 \<Longrightarrow> a_len r1 = a_len r2 \<Longrightarrow> dat_disj r1 r \<longleftrightarrow> dat_disj r2 r"
  by (simp add: dat_disj_def)

lemma UN_chain_upd:
  fixes n h :: nat and f :: "nat \<Rightarrow> 'a list"
  assumes "h < n"
  shows "(\<Union>i<n. set ((f(h := xs)) i)) = set xs \<union> (\<Union>i \<in> {..<n} - {h}. set (f i))"
    "(\<Union>i<n. set (f i)) = set (f h) \<union> (\<Union>i \<in> {..<n} - {h}. set (f i))"
proof -
  have i: "{..<n} = insert h ({..<n} - {h})" using assms by auto
  show u: "(\<Union>i<n. set (f i)) = set (f h) \<union> (\<Union>i \<in> {..<n} - {h}. set (f i))"
    for f :: "nat \<Rightarrow> 'a list" by (subst i) (simp only: UN_insert)
  have "(\<Union>i \<in> {..<n} - {h}. set ((f(h := xs)) i)) = (\<Union>i \<in> {..<n} - {h}. set (f i))"
    by (rule SUP_cong) auto
  then show "(\<Union>i<n. set ((f(h := xs)) i)) = set xs \<union> (\<Union>i \<in> {..<n} - {h}. set (f i))"
    unfolding u [of "f(h := xs)"] by simp
qed

lemma prev_cases: "cf.prev_field p as = p \<and> as = [] \<or> cf.prev_field p as \<in> set as"
  by (simp add: cf.prev_field_def)

text \<open>
  One record \<open>x\<close> changes: its place (free list or chain \<open>h\<close>), its text, or its data.  All
  other records stay where they are.
\<close>

definition move_rec :: "shape \<Rightarrow> shape \<Rightarrow> nat \<Rightarrow> nat \<Rightarrow> bool" where
  "move_rec s s' h x \<longleftrightarrow> h < 137 \<and> (\<forall>h'<137. h' \<noteq> h \<longrightarrow> s_chain s' h' = s_chain s h') \<and>
     (\<forall>p. p \<noteq> x \<longrightarrow> s_rec s' p = s_rec s p) \<and> set (s_offs s') = insert x (set (s_offs s)) \<and>
     (x \<in> set (s_offs s) \<longrightarrow> x \<in> set (s_free s) \<union> set (s_chain s h)) \<and>
     set (s_free s') - {x} = set (s_free s) - {x} \<and> set (s_chain s' h) - {x} = set (s_chain s h) - {x} \<and>
     (x \<in> set (s_free s') \<longleftrightarrow> x \<notin> set (s_chain s' h))"

lemma move_recD:
  assumes "move_rec s s' h x"
  shows "h < 137" "h' < 137 \<Longrightarrow> h' \<noteq> h \<Longrightarrow> s_chain s' h' = s_chain s h'"
    "p \<noteq> x \<Longrightarrow> s_rec s' p = s_rec s p" "set (s_offs s') = insert x (set (s_offs s))"
    "x \<in> set (s_offs s) \<Longrightarrow> x \<in> set (s_free s) \<union> set (s_chain s h)"
    "p \<noteq> x \<Longrightarrow> p \<in> set (s_free s') \<longleftrightarrow> p \<in> set (s_free s)"
    "p \<noteq> x \<Longrightarrow> p \<in> set (s_chain s' h) \<longleftrightarrow> p \<in> set (s_chain s h)"
    "x \<in> set (s_free s') \<longleftrightarrow> x \<notin> set (s_chain s' h)"
  using assms unfolding move_rec_def by auto

text \<open>The changed record is not on a chain other than \<open>h\<close>.\<close>

lemma move_rec_other:
  assumes "shape_ok idx dat s" "move_rec s s' h x" "h' < 137" "h' \<noteq> h"
  shows "x \<notin> set (s_chain s h')"
  using move_recD(5) [OF assms(2)] shape_fields(4) [OF assms(1,3), of x] shape_okD(5) [OF assms(1,3)]
    chains_disjoint [OF assms(1) move_recD(1) [OF assms(2)] assms(3)] assms(4) by blast

lemma set_move:
  assumes "A' - {x} = A - {x}" "B' - {x} = B - {x}" "x \<in> A' \<longleftrightarrow> x \<notin> B'"
  shows "insert x ((A \<union> (B \<union> U))) = A' \<union> (B' \<union> U)"
proof -
  have "insert x A = insert x A'" "insert x B = insert x B'" using assms(1,2) by (metis insert_Diff_single)+
  then have "insert x (A \<union> (B \<union> U)) = insert x (A' \<union> (B' \<union> U))" by (metis Un_insert_left Un_insert_right)
  also have "\<dots> = A' \<union> (B' \<union> U)" using assms(3) by (cases "x \<in> A'") auto
  finally show ?thesis .
qed

lemma move_rec_partition:
  assumes ok: "shape_ok idx dat s" and mv: "move_rec s s' h x"
  shows "set (s_offs s') = set (s_free s') \<union> (\<Union>h<137. set (s_chain s' h))"
proof -
  note h = move_recD(1) [OF mv]
  have eq: "(\<Union>i \<in> {..<137} - {h}. set (s_chain s' i)) = (\<Union>i \<in> {..<137} - {h}. set (s_chain s i))"
    by (rule SUP_cong) (use move_recD(2) [OF mv] in auto)
  show ?thesis
    unfolding move_recD(4) [OF mv] shape_okD(4) [OF ok] UN_chain_upd(2) [OF h, of "s_chain s"]
      UN_chain_upd(2) [OF h, of "s_chain s'"] eq
    using mv by (intro set_move) (simp_all add: move_rec_def)
qed

lemma move_rec_disjoint:
  assumes ok: "shape_ok idx dat s" and mv: "move_rec s s' h x" and h': "h' < 137"
  shows "set (s_free s') \<inter> set (s_chain s' h') = {}"
proof -
  have "p \<notin> set (s_chain s' h')" if p: "p \<in> set (s_free s')" for p
  proof (cases "p = x")
    case True
    then show ?thesis
      using p move_recD(8) [OF mv] move_rec_other [OF ok mv h'] move_recD(2) [OF mv h'] by (cases "h' = h") auto
  next
    case False
    then have "p \<notin> set (s_chain s h')" using p move_recD(6) [OF mv False] shape_okD(5) [OF ok h'] by blast
    then show ?thesis using move_recD(7) [OF mv False] move_recD(2) [OF mv h'] by (cases "h' = h") auto
  qed
  then show ?thesis by blast
qed

definition fits_chain :: "shape \<Rightarrow> nat \<Rightarrow> nat \<Rightarrow> string \<Rightarrow> bool" where
  "fits_chain s h x key \<longleftrightarrow> hashk key = h \<and> \<not> blank key \<and> (\<forall>p \<in> set (s_chain s h). p \<noteq> x \<longrightarrow> key_at s p \<noteq> key)"

lemma move_rec_keys:
  assumes ok: "shape_ok idx dat s" and mv: "move_rec s s' h x"
    and xC: "x \<in> set (s_chain s' h) \<Longrightarrow> fits_chain s h x (key_at s' x)" and h': "h' < 137"
  shows "inj_on (key_at s') (set (s_chain s' h'))"
    "p \<in> set (s_chain s' h') \<Longrightarrow> hashk (key_at s' p) = h' \<and> \<not> blank (key_at s' p)"
proof -
  have here: "inj_on (key_at s') (set (s_chain s' h))"
  proof (rule inj_onI)
    fix p q
    assume pq: "p \<in> set (s_chain s' h)" "q \<in> set (s_chain s' h)" "key_at s' p = key_at s' q"
    show "p = q"
      using pq move_recD(3,7) [OF mv, of p] move_recD(3,7) [OF mv, of q] xC
        inj_onD [OF shape_okD(8) [OF ok move_recD(1) [OF mv]], of p q]
      unfolding fits_chain_def by (cases "p = x"; cases "q = x") auto
  qed
  have there: "inj_on (key_at s') (set (s_chain s' h'))" if ne: "h' \<noteq> h"
  proof -
    have "x \<notin> set (s_chain s h')" by (rule move_rec_other [OF ok mv h' ne])
    then have "\<And>p. p \<in> set (s_chain s h') \<Longrightarrow> s_rec s' p = s_rec s p" using move_recD(3) [OF mv] by metis
    then show ?thesis using shape_okD(8) [OF ok h'] move_recD(2) [OF mv h' ne] by (simp add: inj_on_def)
  qed
  show "inj_on (key_at s') (set (s_chain s' h'))" using here there by blast
  show "hashk (key_at s' p) = h' \<and> \<not> blank (key_at s' p)" if p: "p \<in> set (s_chain s' h')"
  proof (cases "p = x")
    case True
    then have "h' = h" using p move_rec_other [OF ok mv h'] move_recD(2) [OF mv h'] by metis
    then show ?thesis using xC p True by (simp add: fits_chain_def)
  next
    case False
    have "p \<in> set (s_chain s h')" using p move_recD(2) [OF mv h'] move_recD(7) [OF mv False] by (cases "h' = h") auto
    then show ?thesis using shape_okD(6,7) [OF ok h', of p] move_recD(3) [OF mv False] by simp
  qed
qed

lemma shape_move:
  assumes ok: "shape_ok idx dat s" and mv: "move_rec s s' h x"
    and rep: "idx_rep idx' (s_ptr s') (s_rec s') (s_offs s')" and F: "cf.chain (s_ptr s') 0 (s_free s')"
    and C: "\<And>h'. h' < 137 \<Longrightarrow> cf.chain (s_ptr s') (chain_head h') (s_chain s' h')"
    and xF: "x \<in> set (s_free s') \<Longrightarrow> blank (key_at s' x)"
    and xC: "x \<in> set (s_chain s' h) \<Longrightarrow> fits_chain s h x (key_at s' x)"
    and dat: "\<And>p. p \<in> set (s_offs s) \<Longrightarrow> p \<noteq> x \<Longrightarrow> dat_ok dat' (s_rec s p)" "dat_ok dat' (s_rec s' x)"
      "\<And>p. p \<in> set (s_offs s) \<Longrightarrow> p \<noteq> x \<Longrightarrow> dat_disj (s_rec s' x) (s_rec s p)"
  shows "shape_ok idx' dat' s'"
proof (rule shape_okI)
  show "blank (key_at s' p)" if "p \<in> set (s_free s')" for p
    using that xF move_recD(3,6) [OF mv, of p] shape_okD(9) [OF ok, of p] by (cases "p = x") auto
  show "dat_ok dat' (s_rec s' p)" if "p \<in> set (s_offs s')" for p
    using that dat move_recD(3) [OF mv, of p] move_recD(4) [OF mv] by (cases "p = x") auto
  show "dat_disj (s_rec s' p) (s_rec s' q)" if "p \<in> set (s_offs s')" "q \<in> set (s_offs s')" "p \<noteq> q" for p q
    using that dat(3) [of p] dat(3) [of q] move_recD(3) [OF mv, of p] move_recD(3) [OF mv, of q] move_recD(4) [OF mv]
      shape_okD(11) [OF ok, of p q] dat_disj_sym by (cases "p = x"; cases "q = x") auto
qed (use rep F C move_rec_partition [OF ok mv] move_rec_disjoint [OF ok mv] move_rec_keys [OF ok mv xC] in blast)+

lemma db_map_move:
  assumes ok: "shape_ok idx dat s" "shape_ok idx' dat' s'" and mv: "move_rec s s' h x"
    and dat: "\<And>p. p \<in> set (s_offs s) \<Longrightarrow> p \<noteq> x \<Longrightarrow> data_of dat' (s_rec s p) = data_of dat (s_rec s p)"
    and k: "x \<in> set (s_chain s h) \<Longrightarrow> key_at s x \<noteq> key" "x \<in> set (s_chain s' h) \<Longrightarrow> key_at s' x \<noteq> key"
  shows "db_map dat' s' key = db_map dat s key"
proof (rule db_map_cong)
  let ?c = "hashk key"
  have c: "?c < 137" by (rule hashk_less)
  show "inj_on (key_at s) (set (s_chain s ?c))" "inj_on (key_at s') (set (s_chain s' ?c))"
    using shape_okD(8) [OF ok(1) c] shape_okD(8) [OF ok(2) c] by blast+
  have x: "key_at s x = key \<Longrightarrow> x \<notin> set (s_chain s ?c)" "key_at s' x = key \<Longrightarrow> x \<notin> set (s_chain s' ?c)"
    using k move_rec_other [OF ok(1) mv c] move_recD(2) [OF mv c] by (cases "?c = h"; auto)+
  show "p \<in> set (s_chain s' ?c) \<and> key_at s' p = key \<longleftrightarrow> p \<in> set (s_chain s ?c) \<and> key_at s p = key" for p
    using x move_recD(3,7) [OF mv, of p] move_recD(2) [OF mv c] by (cases "p = x"; cases "?c = h") auto
  show "data_of dat' (s_rec s' p) = data_of dat (s_rec s p)" if "p \<in> set (s_chain s ?c)" "key_at s p = key" for p
    using that x(1) move_recD(3) [OF mv, of p] dat [of p] shape_fields(4) [OF ok(1) c, of p] by (cases "p = x") auto
qed

definition off_chain :: "shape \<Rightarrow> nat \<Rightarrow> nat \<Rightarrow> bool" where
  "off_chain s h q \<longleftrightarrow> q \<noteq> chain_head h \<and> q \<notin> set (s_chain s h)"

lemma off_chainI:
  assumes ok: "shape_ok idx dat s" and h: "h < 137"
  shows "off_chain s h 0" "q \<in> set (s_free s) \<Longrightarrow> off_chain s h q"
    "h' < 137 \<Longrightarrow> h' \<noteq> h \<Longrightarrow> off_chain s h (chain_head h')"
    "h' < 137 \<Longrightarrow> h' \<noteq> h \<Longrightarrow> q \<in> set (s_chain s h') \<Longrightarrow> off_chain s h q"
    "q \<notin> field_set (s_offs s) \<Longrightarrow> off_chain s h q"
proof -
  have on: "q \<in> set (s_chain s h) \<Longrightarrow> q \<in> set (s_offs s)" for q using shape_fields(4) [OF ok h] .
  show "off_chain s h 0"
    using offs_not_heads(1) [OF ok on] chain_head_eq(2) [of h] by (auto simp: off_chain_def)
  show "q \<in> set (s_free s) \<Longrightarrow> off_chain s h q"
    using shape_okD(5) [OF ok h] offs_not_heads(2) [OF ok shape_fields(3) [OF ok], of q h] h by (auto simp: off_chain_def)
  show "h' < 137 \<Longrightarrow> h' \<noteq> h \<Longrightarrow> off_chain s h (chain_head h')"
    using offs_not_heads(2) [OF ok on, of "chain_head h'" h'] chain_head_eq(1) by (auto simp: off_chain_def)
  show "h' < 137 \<Longrightarrow> h' \<noteq> h \<Longrightarrow> q \<in> set (s_chain s h') \<Longrightarrow> off_chain s h q"
    using chains_disjoint [OF ok, of h' h] offs_not_heads(2) [OF ok shape_fields(4) [OF ok, of h' q], of h] h
    by (auto simp: off_chain_def)
  show "q \<notin> field_set (s_offs s) \<Longrightarrow> off_chain s h q"
    using shape_fields(2) [OF ok h] shape_fields(5) [OF ok on, of q] by (auto simp: off_chain_def)
qed

lemma other_chain:
  assumes "shape_ok idx dat s" "h < 137" "\<forall>q \<in> Q. off_chain s h q" "\<And>q. q \<notin> Q \<Longrightarrow> P' q = s_ptr s q"
  shows "cf.chain P' (chain_head h) (s_chain s h)"
  by (rule chains_frame [OF shape_okD(3) [OF assms(1,2)] _ assms(4)]) (use assms(3) in \<open>auto simp: off_chain_def\<close>)

text \<open>The record \<open>x\<close> of chain \<open>h\<close> is blanked and goes to the head of the free list.\<close>

definition shape_delete :: "shape \<Rightarrow> nat \<Rightarrow> nat list \<Rightarrow> nat \<Rightarrow> nat list \<Rightarrow> shape" where
  "shape_delete s h as x bs =
     s\<lparr>s_ptr := (s_ptr s)(x := s_ptr s 0, 0 := x, cf.prev_field (chain_head h) as := s_ptr s x),
       s_rec := (s_rec s)(x := (s_rec s x)\<lparr>a_key := replicate (length (key_at s x)) SPACE\<rparr>),
       s_free := x # s_free s, s_chain := (s_chain s)(h := as @ bs)\<rparr>"

text \<open>A new record \<open>r\<close> at \<open>x\<close> enters chain \<open>h\<close> at its head.\<close>

definition shape_append :: "shape \<Rightarrow> nat \<Rightarrow> nat \<Rightarrow> arec \<Rightarrow> shape" where
  "shape_append s h x r =
     s\<lparr>s_ptr := (s_ptr s)(x := s_ptr s (chain_head h), chain_head h := x), s_rec := (s_rec s)(x := r),
       s_offs := s_offs s @ [x], s_chain := (s_chain s)(h := x # s_chain s h)\<rparr>"

text \<open>The free record \<open>x\<close> leaves the free list, becomes \<open>r\<close>, and enters chain \<open>h\<close> at its head.\<close>

definition shape_reuse :: "shape \<Rightarrow> nat \<Rightarrow> nat list \<Rightarrow> nat \<Rightarrow> nat list \<Rightarrow> arec \<Rightarrow> shape" where
  "shape_reuse s h as x bs r =
     s\<lparr>s_ptr := (s_ptr s)(cf.prev_field 0 as := s_ptr s x, x := s_ptr s (chain_head h), chain_head h := x),
       s_rec := (s_rec s)(x := r), s_free := as @ bs, s_chain := (s_chain s)(h := x # s_chain s h)\<rparr>"

lemma delete_move:
  assumes ok: "shape_ok idx dat s" and h: "h < 137" and ch: "s_chain s h = as @ x # bs"
  shows "move_rec s (shape_delete s h as x bs) h x"
proof -
  have "distinct (as @ x # bs)" using cf.chain_distinct [OF shape_okD(3) [OF ok h]] ch by simp
  moreover have "x \<in> set (s_offs s)" "x \<notin> set (s_free s)"
    using shape_fields(4) [OF ok h] shape_okD(5) [OF ok h] ch by auto
  ultimately show ?thesis using h ch by (auto simp: move_rec_def shape_delete_def)
qed

text \<open>The field before \<open>x\<close> on chain \<open>h\<close>.\<close>

lemma prev_on_chain:
  assumes ok: "shape_ok idx dat s" and h: "h < 137" and ch: "s_chain s h = as @ x # bs"
  defines "pr \<equiv> cf.prev_field (chain_head h) as"
  shows "pr \<noteq> 0" "pr \<noteq> x" "pr \<notin> set (s_free s)" "h' < 137 \<Longrightarrow> h' \<noteq> h \<Longrightarrow> off_chain s h' pr"
    "pr \<in> field_set (s_offs s)" "s_ptr s pr = x"
proof -
  have pr: "pr = chain_head h \<or> pr \<in> set as" using prev_cases unfolding pr_def by blast
  have off: "q \<in> set as \<Longrightarrow> q \<in> set (s_offs s)" "x \<in> set (s_offs s)" for q
    using ch shape_fields(4) [OF ok h] by auto
  have dist: "distinct (as @ x # bs)" using cf.chain_distinct [OF shape_okD(3) [OF ok h]] ch by simp
  show "pr \<noteq> 0" "pr \<noteq> x"
    using pr chain_head_eq(2) offs_not_heads(1) [OF ok off(1)] dist offs_not_heads(2) [OF ok off(2) h] by auto
  show "pr \<notin> set (s_free s)"
    using pr shape_okD(5) [OF ok h] ch offs_not_heads(2) [OF ok shape_fields(3) [OF ok] h] by auto
  show "off_chain s h' pr" if "h' < 137" "h' \<noteq> h"
    using pr
  proof
    assume "pr = chain_head h"
    then show ?thesis using off_chainI(3) [OF ok that(1) h] that(2) by simp
  next
    assume "pr \<in> set as"
    then show ?thesis using off_chainI(4) [OF ok that(1) h] that(2) ch by auto
  qed
  show "pr \<in> field_set (s_offs s)" using pr shape_fields(2) [OF ok h] shape_fields(5) [OF ok off(1)] by auto
  show "s_ptr s pr = x" using cf.chain_prev [of "s_ptr s" "chain_head h" as x bs] shape_okD(3) [OF ok h] ch
    by (simp add: pr_def)
qed

lemma delete_chains:
  assumes ok: "shape_ok idx dat s" and h: "h < 137" and ch: "s_chain s h = as @ x # bs"
  defines "s' \<equiv> shape_delete s h as x bs"
  shows "cf.chain (s_ptr s') 0 (s_free s')" "h' < 137 \<Longrightarrow> cf.chain (s_ptr s') (chain_head h') (s_chain s' h')"
proof -
  let ?pr = "cf.prev_field (chain_head h) as"
  note pr = prev_on_chain [OF ok h ch]
  have x: "x \<in> set (s_chain s h)" "x \<in> set (s_offs s)" using ch shape_fields(4) [OF ok h] by auto
  have heads: "x \<noteq> 0" "x \<noteq> chain_head h" using offs_not_heads [OF ok x(2)] h by auto
  have dist: "distinct (as @ x # bs)" using cf.chain_distinct [OF shape_okD(3) [OF ok h]] ch by simp
  have "x \<notin> set (s_free s)" using x(1) shape_okD(5) [OF ok h] by blast
  then have "cf.chain ((s_ptr s)(x := s_ptr s 0, 0 := x)) 0 (x # s_free s)"
    using cf.chain_push [OF shape_okD(2) [OF ok], of x] heads(1) by simp
  then have "cf.chain (s_ptr s') 0 (x # s_free s)"
    by (rule chains_frame [where Q = "{?pr}"]) (use pr(1-3) in \<open>auto simp: s'_def shape_delete_def\<close>)
  then show "cf.chain (s_ptr s') 0 (s_free s')" by (simp add: s'_def shape_delete_def)
  have "chain_head h \<notin> set (as @ x # bs)" using offs_not_heads(2) [OF ok shape_fields(4) [OF ok h]] h ch by metis
  then have "cf.chain ((s_ptr s)(?pr := s_ptr s x)) (chain_head h) (as @ bs)"
    using cf.chain_unlink [of "s_ptr s" "chain_head h" as x bs] shape_okD(3) [OF ok h] ch by simp
  then have here: "cf.chain (s_ptr s') (chain_head h) (as @ bs)"
  proof (rule chains_frame [where Q = "{x, 0}"])
    show "\<forall>q \<in> {x, 0}. q \<noteq> chain_head h \<and> q \<notin> set (as @ bs)"
      using dist heads(2) chain_head_eq(2) [of h] offs_not_heads(1) [OF ok shape_fields(4) [OF ok h]] ch by auto
  qed (use pr(1,2) in \<open>auto simp: s'_def shape_delete_def\<close>)
  show "cf.chain (s_ptr s') (chain_head h') (s_chain s' h')" if h': "h' < 137"
  proof (cases "h' = h")
    case True
    with here show ?thesis by (simp add: s'_def shape_delete_def)
  next
    case False
    have "cf.chain (s_ptr s') (chain_head h') (s_chain s h')"
    proof (rule other_chain [OF ok h', where Q = "{x, 0, ?pr}"])
      show "\<forall>q \<in> {x, 0, ?pr}. off_chain s h' q"
        using off_chainI(1) [OF ok h'] off_chainI(4) [OF ok h' h _ x(1)] False pr(4) [OF h'] by auto
    qed (simp add: s'_def shape_delete_def)
    with False show ?thesis by (simp add: s'_def shape_delete_def)
  qed
qed

text \<open>The data file after the bytes of record \<open>x\<close> are replaced by \<open>t\<close> and a newline.\<close>

lemma overwrite_data:
  assumes ok: "shape_ok idx dat s" and x: "x \<in> set (s_offs s)" and t: "length t + 1 = a_len (s_rec s x)" "NUL \<notin> set t"
  defines "dat' \<equiv> patch dat (a_off (s_rec s x)) (t @ [NL])"
  shows "p \<in> set (s_offs s) \<Longrightarrow> p \<noteq> x \<Longrightarrow> dat_ok dat' (s_rec s p)"
    "p \<in> set (s_offs s) \<Longrightarrow> p \<noteq> x \<Longrightarrow> data_of dat' (s_rec s p) = data_of dat (s_rec s p)"
    "a_off r = a_off (s_rec s x) \<Longrightarrow> a_len r = a_len (s_rec s x) \<Longrightarrow> dat_ok dat' r"
    "a_off r = a_off (s_rec s x) \<Longrightarrow> a_len r = a_len (s_rec s x) \<Longrightarrow> data_of dat' r = t"
    "a_off r = a_off (s_rec s x) \<Longrightarrow> a_len r = a_len (s_rec s x) \<Longrightarrow> p \<in> set (s_offs s) \<Longrightarrow> p \<noteq> x \<Longrightarrow> dat_disj r (s_rec s p)"
    "length dat' = length dat"
proof -
  have len: "a_off (s_rec s x) + a_len (s_rec s x) \<le> length dat" "length (t @ [NL]) = a_len (s_rec s x)"
    using shape_okD(10) [OF ok x] t(1) by (auto simp: dat_ok_def)
  show "p \<in> set (s_offs s) \<Longrightarrow> p \<noteq> x \<Longrightarrow> dat_ok dat' (s_rec s p)"
    "p \<in> set (s_offs s) \<Longrightarrow> p \<noteq> x \<Longrightarrow> data_of dat' (s_rec s p) = data_of dat (s_rec s p)"
    using dat_ok_patch_other [OF shape_okD(10) [OF ok] shape_okD(11) [OF ok _ x], of p "t @ [NL]"] len
    by (simp_all add: dat'_def)
  show "a_off r = a_off (s_rec s x) \<Longrightarrow> a_len r = a_len (s_rec s x) \<Longrightarrow> dat_ok dat' r"
    "a_off r = a_off (s_rec s x) \<Longrightarrow> a_len r = a_len (s_rec s x) \<Longrightarrow> data_of dat' r = t"
    using dat_ok_patch_same [of r dat t] len t by (simp_all add: dat'_def)
  show "a_off r = a_off (s_rec s x) \<Longrightarrow> a_len r = a_len (s_rec s x) \<Longrightarrow> p \<in> set (s_offs s) \<Longrightarrow> p \<noteq> x \<Longrightarrow> dat_disj r (s_rec s p)"
    using shape_okD(11) [OF ok x, of p] dat_disj_cong [of r "s_rec s x" "s_rec s p"] by simp
  show "length dat' = length dat" using len by (simp add: dat'_def)
qed

lemma shape_delete_ok:
  assumes ok: "shape_ok idx dat s" and h: "h < 137" and ch: "s_chain s h = as @ x # bs"
    and rep: "idx_rep idx' (s_ptr (shape_delete s h as x bs)) (s_rec (shape_delete s h as x bs)) (s_offs s)"
  defines "dat' \<equiv> patch dat (a_off (s_rec s x)) (replicate (a_len (s_rec s x) - 1) SPACE @ [NL])"
    and "s' \<equiv> shape_delete s h as x bs"
  shows "shape_ok idx' dat' s'" "db_map dat' s' = (db_map dat s)(key_at s x := None)"
proof -
  have x: "x \<in> set (s_chain s h)" "x \<in> set (s_offs s)" using ch shape_fields(4) [OF ok h] by auto
  have t: "length (replicate (a_len (s_rec s x) - 1) SPACE) + 1 = a_len (s_rec s x)"
    "NUL \<notin> set (replicate (a_len (s_rec s x) - 1) SPACE)"
    using idx_repD(5) [OF shape_okD(1) [OF ok] x(2)] by (auto simp: rec_ok_def)
  note mv = delete_move [OF ok h ch, folded s'_def]
  note dat = overwrite_data [OF ok x(2) t, folded dat'_def]
  have x': "x \<notin> set (s_chain s' h)" using move_recD(8) [OF mv] by (simp add: s'_def shape_delete_def)
  show ok': "shape_ok idx' dat' s'"
  proof (rule shape_move [OF ok mv])
    show "idx_rep idx' (s_ptr s') (s_rec s') (s_offs s')" using rep by (simp add: s'_def shape_delete_def)
    show "blank (key_at s' x)" by (simp add: s'_def shape_delete_def blank_def)
    show "dat_ok dat' (s_rec s' x)" by (rule dat(3)) (simp_all add: s'_def shape_delete_def)
    show "dat_disj (s_rec s' x) (s_rec s p)" if "p \<in> set (s_offs s)" "p \<noteq> x" for p
      using that by (intro dat(5)) (simp_all add: s'_def shape_delete_def)
  qed (use delete_chains [OF ok h ch, folded s'_def] dat(1) x' in \<open>simp_all\<close>)
  have "hashk (key_at s x) = h" using shape_okD(6) [OF ok h x(1)] .
  moreover have "key_at s' p \<noteq> key_at s x" if p: "p \<in> set (s_chain s' h)" for p
  proof -
    have "p \<noteq> x" using p x' by auto
    moreover from this p have "p \<in> set (s_chain s h)" "s_rec s' p = s_rec s p" using move_recD(3,7) [OF mv] by auto
    ultimately show ?thesis using inj_onD [OF shape_okD(8) [OF ok h], of p x] x(1) by auto
  qed
  ultimately have "db_map dat' s' (key_at s x) = None" by (simp add: db_map_NoneI)
  moreover have "db_map dat' s' key = db_map dat s key" if "key \<noteq> key_at s x" for key
    using db_map_move [OF ok ok' mv dat(2)] x' that by auto
  ultimately show "db_map dat' s' = (db_map dat s)(key_at s x := None)" by auto
qed

lemma new_offset:
  assumes ok: "shape_ok idx dat s"
  shows "length idx \<notin> field_set (s_offs s)" "length idx \<noteq> 0"
proof -
  note rep = shape_okD(1) [OF ok]
  have "length idx \<notin> set (s_offs s)"
    using idx_repD(8) [OF rep, of "length idx"] rec_size_pos [of "s_rec s (length idx)"] by auto
  moreover have "length idx \<notin> head_fields"
    using idx_repD(1) [OF rep] head_fields_bound [of "length idx"] by auto
  ultimately show "length idx \<notin> field_set (s_offs s)" by (simp add: field_set_def)
  show "length idx \<noteq> 0" using idx_repD(1) [OF rep] by (auto simp: HDR_def)
qed

lemma field_setE:
  assumes "x \<notin> field_set (s_offs s)" "shape_ok idx dat s" "h < 137"
  shows "x \<noteq> chain_head h" "x \<notin> set (s_chain s h)" "x \<notin> set (s_free s)" "x \<notin> set (s_offs s)"
  using assms(1) shape_fields(2-5) [OF assms(2)] assms(3) by auto

text \<open>A record put at the head of chain \<open>h\<close>, from outside or from the free list.\<close>

lemma push_chain:
  assumes ok: "shape_ok idx dat s" and h: "h < 137"
    and x: "x \<noteq> 0" "x \<noteq> chain_head h" "x \<notin> set (s_chain s h)"
    and Q: "\<forall>q \<in> Q. off_chain s h q \<and> q \<noteq> x"
    and P': "P' x = s_ptr s (chain_head h)" "P' (chain_head h) = x"
      "\<And>q. q \<notin> Q \<Longrightarrow> q \<noteq> x \<Longrightarrow> q \<noteq> chain_head h \<Longrightarrow> P' q = s_ptr s q"
  shows "cf.chain P' (chain_head h) (x # s_chain s h)"
proof -
  have "cf.chain ((s_ptr s)(x := s_ptr s (chain_head h), chain_head h := x)) (chain_head h) (x # s_chain s h)"
    using cf.chain_push [OF shape_okD(3) [OF ok h], of x] x by simp
  then show ?thesis
    by (rule chains_frame [where Q = Q]) (use Q P' x(2) in \<open>auto simp: off_chain_def\<close>)
qed

lemma append_chains:
  fixes r :: arec
  assumes ok: "shape_ok idx dat s" and h: "h < 137"
  defines "s' \<equiv> shape_append s h (length idx) r"
  shows "cf.chain (s_ptr s') 0 (s_free s')" "h' < 137 \<Longrightarrow> cf.chain (s_ptr s') (chain_head h') (s_chain s' h')"
proof -
  let ?x = "length idx"
  note x = new_offset [OF ok] field_setE [OF new_offset(1) [OF ok] ok h]
  have P': "s_ptr s' = (s_ptr s)(?x := s_ptr s (chain_head h), chain_head h := ?x)"
    by (simp add: s'_def shape_append_def)
  have "cf.chain (s_ptr s') 0 (s_free s)"
    by (rule chains_frame [OF shape_okD(2) [OF ok], where Q = "{?x, chain_head h}"])
      (use x chain_head_eq(2) [of h] offs_not_heads(2) [OF ok shape_fields(3) [OF ok] h] in \<open>auto simp: P'\<close>)
  then show "cf.chain (s_ptr s') 0 (s_free s')" by (simp add: s'_def shape_append_def)
  show "cf.chain (s_ptr s') (chain_head h') (s_chain s' h')" if h': "h' < 137"
  proof (cases "h' = h")
    case True
    have "cf.chain (s_ptr s') (chain_head h) (?x # s_chain s h)"
      by (rule push_chain [OF ok h, where Q = "{}"]) (use x in \<open>auto simp: P'\<close>)
    with True show ?thesis by (simp add: s'_def shape_append_def)
  next
    case False
    have "cf.chain (s_ptr s') (chain_head h') (s_chain s h')"
      by (rule other_chain [OF ok h', where Q = "{?x, chain_head h}"])
        (use off_chainI(3) [OF ok h' h] off_chainI(5) [OF ok h' x(1)] False in \<open>auto simp: P'\<close>)
    with False show ?thesis by (simp add: s'_def shape_append_def)
  qed
qed

lemma shape_append_ok:
  assumes ok: "shape_ok idx dat s" and h: "h = hashk (a_key r)" and b: "\<not> blank (a_key r)"
    and new: "db_map dat s (a_key r) = None"
    and r: "a_off r = length dat" "a_len r = length t + 1" "NUL \<notin> set t"
    and rep: "idx_rep idx' (s_ptr (shape_append s h (length idx) r)) (s_rec (shape_append s h (length idx) r))
                (s_offs s @ [length idx])"
  defines "dat' \<equiv> dat @ t @ [NL]" and "s' \<equiv> shape_append s h (length idx) r"
  shows "shape_ok idx' dat' s'" "db_map dat' s' = (db_map dat s)(a_key r \<mapsto> t)"
proof -
  let ?x = "length idx"
  have hl: "h < 137" using h hashk_less by simp
  note x = field_setE [OF new_offset(1) [OF ok] ok hl]
  have mv: "move_rec s s' h ?x" using x hl by (auto simp: move_rec_def s'_def shape_append_def)
  have xr: "s_rec s' ?x = r" "?x \<in> set (s_chain s' h)" by (simp_all add: s'_def shape_append_def)
  have old: "dat_ok dat' (s_rec s p)" "data_of dat' (s_rec s p) = data_of dat (s_rec s p)" if "p \<in> set (s_offs s)" for p
    using dat_ok_append [OF shape_okD(10) [OF ok that]] by (simp_all add: dat'_def)
  have nk: "\<forall>p \<in> set (s_chain s h). key_at s p \<noteq> a_key r"
    using new by (auto simp: db_map_def find_None_iff h)
  show ok': "shape_ok idx' dat' s'"
  proof (rule shape_move [OF ok mv])
    show "idx_rep idx' (s_ptr s') (s_rec s') (s_offs s')" using rep by (simp add: s'_def shape_append_def)
    show "dat_ok dat' (s_rec s' ?x)" using dat_ok_new(1) [of r dat t] r by (simp add: xr dat'_def)
    show "dat_disj (s_rec s' ?x) (s_rec s p)" if "p \<in> set (s_offs s)" "p \<noteq> ?x" for p
      using shape_okD(10) [OF ok that(1)] r(1) by (auto simp: xr dat_disj_def dat_ok_def)
    show "fits_chain s h ?x (key_at s' ?x)" using nk b h by (simp add: xr fits_chain_def)
    show "blank (key_at s' ?x)" if "?x \<in> set (s_free s')" using that move_recD(8) [OF mv] xr(2) by simp
  qed (use append_chains [OF ok hl, where r = r, folded s'_def] old(1) in simp_all)
  have "db_map dat' s' (a_key r) = Some t"
    using db_map_SomeI [of s' "a_key r" ?x dat'] shape_okD(8) [OF ok' hl] xr dat_ok_new(2) [of r dat t] r h
    by (simp add: dat'_def)
  moreover have "db_map dat' s' key = db_map dat s key" if "key \<noteq> a_key r" for key
    using db_map_move [OF ok ok' mv old(2)] x that xr(1) by auto
  ultimately show "db_map dat' s' = (db_map dat s)(a_key r \<mapsto> t)" by auto
qed

text \<open>The field before a record on the free list.\<close>

lemma prev_on_free:
  assumes ok: "shape_ok idx dat s" and fr: "s_free s = as @ x # bs"
  defines "pr \<equiv> cf.prev_field 0 as"
  shows "pr \<noteq> x" "h < 137 \<Longrightarrow> off_chain s h pr" "pr \<in> field_set (s_offs s)"
proof -
  have pr: "pr = 0 \<or> pr \<in> set as" using prev_cases unfolding pr_def by blast
  have off: "q \<in> set as \<Longrightarrow> q \<in> set (s_offs s)" "x \<in> set (s_offs s)" for q
    using fr shape_fields(3) [OF ok] by auto
  have dist: "distinct (as @ x # bs)" using cf.chain_distinct [OF shape_okD(2) [OF ok]] fr by simp
  show "pr \<noteq> x" using pr dist offs_not_heads(1) [OF ok off(2)] by auto
  show "h < 137 \<Longrightarrow> off_chain s h pr" using pr off_chainI(1,2) [OF ok, of h] fr by auto
  show "pr \<in> field_set (s_offs s)" using pr shape_fields(1) [OF ok] shape_fields(5) [OF ok off(1)] by auto
qed

lemma reuse_chains:
  fixes r :: arec
  assumes ok: "shape_ok idx dat s" and h: "h < 137" and fr: "s_free s = as @ x # bs"
  defines "s' \<equiv> shape_reuse s h as x bs r"
  shows "cf.chain (s_ptr s') 0 (s_free s')" "h' < 137 \<Longrightarrow> cf.chain (s_ptr s') (chain_head h') (s_chain s' h')"
proof -
  let ?pr = "cf.prev_field 0 as"
  note pr = prev_on_free [OF ok fr]
  have x: "x \<in> set (s_free s)" "x \<in> set (s_offs s)" using fr shape_fields(3) [OF ok] by auto
  have dist: "distinct (as @ x # bs)" using cf.chain_distinct [OF shape_okD(2) [OF ok]] fr by simp
  have ph: "?pr \<noteq> chain_head h" using pr(2) [OF h] by (simp add: off_chain_def)
  have P': "s_ptr s' = (s_ptr s)(?pr := s_ptr s x, x := s_ptr s (chain_head h), chain_head h := x)"
    by (simp add: s'_def shape_reuse_def)
  have n0: "0 \<notin> set (as @ x # bs)" using cf.chain_not_null [OF shape_okD(2) [OF ok]] fr by simp
  then have "cf.chain ((s_ptr s)(?pr := s_ptr s x)) 0 (as @ bs)"
    using cf.chain_unlink [of "s_ptr s" 0 as x bs] shape_okD(2) [OF ok] fr by simp
  then have "cf.chain (s_ptr s') 0 (as @ bs)"
  proof (rule chains_frame [where Q = "{x, chain_head h}"])
    show "\<forall>q \<in> {x, chain_head h}. q \<noteq> 0 \<and> q \<notin> set (as @ bs)"
      using dist n0 chain_head_eq(2) [of h] offs_not_heads(2) [OF ok shape_fields(3) [OF ok] h] fr by auto
  qed (simp add: P')
  then show "cf.chain (s_ptr s') 0 (s_free s')" by (simp add: s'_def shape_reuse_def)
  show "cf.chain (s_ptr s') (chain_head h') (s_chain s' h')" if h': "h' < 137"
  proof (cases "h' = h")
    case True
    have "cf.chain (s_ptr s') (chain_head h) (x # s_chain s h)"
      by (rule push_chain [OF ok h, where Q = "{?pr}"])
        (use offs_not_heads [OF ok x(2)] h off_chainI(2) [OF ok h x(1)] pr ph in \<open>auto simp: P' off_chain_def\<close>)
    with True show ?thesis by (simp add: s'_def shape_reuse_def)
  next
    case False
    have "cf.chain (s_ptr s') (chain_head h') (s_chain s h')"
      by (rule other_chain [OF ok h', where Q = "{?pr, x, chain_head h}"])
        (use off_chainI(3) [OF ok h' h] off_chainI(2) [OF ok h' x(1)] pr(2) [OF h'] False in \<open>auto simp: P'\<close>)
    with False show ?thesis by (simp add: s'_def shape_reuse_def)
  qed
qed

lemma shape_reuse_ok:
  assumes ok: "shape_ok idx dat s" and h: "h = hashk (a_key r)" and b: "\<not> blank (a_key r)"
    and new: "db_map dat s (a_key r) = None" and fr: "s_free s = as @ x # bs"
    and r: "a_off r = a_off (s_rec s x)" "a_len r = a_len (s_rec s x)" "length t + 1 = a_len (s_rec s x)" "NUL \<notin> set t"
    and rep: "idx_rep idx' (s_ptr (shape_reuse s h as x bs r)) (s_rec (shape_reuse s h as x bs r)) (s_offs s)"
  defines "dat' \<equiv> patch dat (a_off (s_rec s x)) (t @ [NL])" and "s' \<equiv> shape_reuse s h as x bs r"
  shows "shape_ok idx' dat' s'" "db_map dat' s' = (db_map dat s)(a_key r \<mapsto> t)"
proof -
  have hl: "h < 137" using h hashk_less by simp
  have x: "x \<in> set (s_free s)" "x \<in> set (s_offs s)" "x \<notin> set (s_chain s h)"
    using fr shape_fields(3) [OF ok] shape_okD(5) [OF ok hl] by auto
  have dist: "distinct (as @ x # bs)" using cf.chain_distinct [OF shape_okD(2) [OF ok]] fr by simp
  have mv: "move_rec s s' h x" using x hl fr dist by (auto simp: move_rec_def s'_def shape_reuse_def)
  have xr: "s_rec s' x = r" "x \<in> set (s_chain s' h)" by (simp_all add: s'_def shape_reuse_def)
  note dat = overwrite_data [OF ok x(2) r(3,4), folded dat'_def]
  have nk: "\<forall>p \<in> set (s_chain s h). key_at s p \<noteq> a_key r"
    using new by (auto simp: db_map_def find_None_iff h)
  show ok': "shape_ok idx' dat' s'"
  proof (rule shape_move [OF ok mv])
    show "idx_rep idx' (s_ptr s') (s_rec s') (s_offs s')" using rep by (simp add: s'_def shape_reuse_def)
    show "fits_chain s h x (key_at s' x)" using nk b h by (simp add: xr fits_chain_def)
    show "blank (key_at s' x)" if "x \<in> set (s_free s')" using that move_recD(8) [OF mv] xr(2) by simp
  qed (use reuse_chains [OF ok hl fr, where r = r, folded s'_def] dat(1,3,5) r(1,2) xr(1) in simp_all)
  have "db_map dat' s' (a_key r) = Some t"
    using db_map_SomeI [of s' "a_key r" x dat'] shape_okD(8) [OF ok' hl] xr dat(4) r h by simp
  moreover have "db_map dat' s' key = db_map dat s key" if "key \<noteq> a_key r" for key
    using db_map_move [OF ok ok' mv dat(2)] x that xr(1) by auto
  ultimately show "db_map dat' s' = (db_map dat s)(a_key r \<mapsto> t)" by auto
qed

text \<open>The data of a record is replaced in place.\<close>

lemma shape_overwrite_ok:
  assumes ok: "shape_ok idx dat s" and h: "h < 137" and x: "x \<in> set (s_chain s h)"
    and t: "length t + 1 = a_len (s_rec s x)" "NUL \<notin> set t"
  defines "dat' \<equiv> patch dat (a_off (s_rec s x)) (t @ [NL])"
  shows "shape_ok idx dat' s" "db_map dat' s = (db_map dat s)(key_at s x \<mapsto> t)"
proof -
  have xo: "x \<in> set (s_offs s)" by (rule shape_fields(4) [OF ok h x])
  have xf: "x \<notin> set (s_free s)" using shape_okD(5) [OF ok h] x by blast
  have mv: "move_rec s s h x" using x h xo xf by (auto simp: move_rec_def)
  note dat = overwrite_data [OF ok xo t, folded dat'_def]
  have hk: "hashk (key_at s x) = h" by (rule shape_okD(6) [OF ok h x])
  show ok': "shape_ok idx dat' s"
  proof (rule shape_move [OF ok mv])
    show "fits_chain s h x (key_at s x)"
      using inj_onD [OF shape_okD(8) [OF ok h]] x hk shape_okD(7) [OF ok h x] by (auto simp: fits_chain_def)
  qed (use shape_okD [OF ok] xo dat(1,3,5) xf in simp_all)
  have "db_map dat' s (key_at s x) = Some t"
    using db_map_SomeI [of s "key_at s x" x dat'] shape_okD(8) [OF ok h] x hk dat(4) by simp
  moreover have "db_map dat' s key = db_map dat s key" if "key \<noteq> key_at s x" for key
    using db_map_move [OF ok ok' mv dat(2)] that by auto
  ultimately show "db_map dat' s = (db_map dat s)(key_at s x \<mapsto> t)" by auto
qed

end
