(* ===== verification/Db_Ops.thy ===== *)
theory Db_Ops
  imports Db_Inv
begin

text \<open>
  The operations of the library against the invariant: search along a chain under its lock,
  deletion, the search of the free list, and the four ways a record is stored.  Each lemma
  says that the call returns, what it returns, and which shape both files have after it.
\<close>

section \<open>The handle\<close>

text \<open>What the search and the writes keep of a handle, and the statistics counters.\<close>

definition counters :: "DB \<Rightarrow> 64 word list" where
  "counters db = [cnt_delok db, cnt_delerr db, cnt_fetchok db, cnt_fetcherr db, cnt_nextrec db,
     cnt_stor1 db, cnt_stor2 db, cnt_stor3 db, cnt_stor4 db, cnt_storerr db]"

definition db_wf :: "DB \<Rightarrow> bool" where
  "db_wf db \<longleftrightarrow> nhash db = 137 \<and> hashoff db = 6 \<and> length (idxbuf db) = 1026 \<and> length (datbuf db) = 1026"

definition same_files :: "DB \<Rightarrow> DB \<Rightarrow> bool" where
  "same_files db db' \<longleftrightarrow> idxfd db' = idxfd db \<and> datfd db' = datfd db \<and> db_wf db'"

definition same_handle :: "DB \<Rightarrow> DB \<Rightarrow> bool" where
  "same_handle db db' \<longleftrightarrow> same_files db db' \<and> chainoff db' = chainoff db \<and> counters db' = counters db"

text \<open>The handle holds the index record of \<open>x\<close>, found behind \<open>as\<close> on chain \<open>h\<close>.\<close>

definition at_record :: "shape \<Rightarrow> DB \<Rightarrow> nat \<Rightarrow> nat list \<Rightarrow> nat \<Rightarrow> nat list \<Rightarrow> bool" where
  "at_record s db h as x bs \<longleftrightarrow> s_chain s h = as @ x # bs \<and> idxoff db = int x \<and> ptrval db = int (s_ptr s x) \<and>
     datoff db = int (a_off (s_rec s x)) \<and> datlen db = a_len (s_rec s x) \<and>
     ptroff db = int (cf.prev_field (chain_head h) as)"

definition located :: "shape \<Rightarrow> DB \<Rightarrow> nat \<Rightarrow> nat list \<Rightarrow> nat \<Rightarrow> nat list \<Rightarrow> bool" where
  "located s db h as x bs \<longleftrightarrow> at_record s db h as x bs \<and> cstr (idxbuf db) = key_at s x"

lemmas handle_defs = same_handle_def same_files_def db_wf_def counters_def

lemma same_handle_trans: "same_handle db db1 \<Longrightarrow> same_handle db1 db2 \<Longrightarrow> same_handle db db2"
  by (simp add: same_handle_def same_files_def)

lemma same_handle_refl: "db_wf db \<Longrightarrow> same_handle db db"
  by (simp add: same_handle_def same_files_def)

section \<open>Searching a chain\<close>

lemma find_loop_ok:
  assumes "opened k (idxfd db) (datfd db) i j" "shape_ok (k_data k i) dat s" "h < 137" "s_chain s h = as @ xs"
    "db_wf db" "ptroff db = int (cf.prev_field (chain_head h) as)" "length xs < n"
  shows "okp (db_find_loop n k db key (int (s_ptr s (cf.prev_field (chain_head h) as)))) (\<lambda>(off, k', db').
     quiet k (idxfd db) (datfd db) k' \<and> same_handle db db' \<and>
     (case List.find (\<lambda>p. key_at s p = key) xs of None \<Rightarrow> off = 0
      | Some x \<Rightarrow> off = int x \<and> x \<noteq> 0 \<and> (\<exists>as' bs. located s db' h as' x bs)))"
  using assms
proof (induction xs arbitrary: n k db as)
  case Nil
  have "s_ptr s (cf.prev_field (chain_head h) as) = 0"
    using shape_okD(3) [OF Nil(2,3)] Nil(4) cf.chain_end [of "s_ptr s" "chain_head h" as] by simp
  then show ?case using Nil(5,7) by (cases n) (auto simp: same_handle_refl)
next
  case (Cons x xs)
  note rep = shape_okD(1) [OF Cons(3)]
  from Cons(8) obtain m where n: "n = Suc m" "length xs < m" by (cases n) auto
  have x: "x \<in> set (s_offs s)" using shape_fields(4) [OF Cons(3,4)] Cons(5) by simp
  have px: "s_ptr s (cf.prev_field (chain_head h) as) = x"
    using cf.chain_prev [of "s_ptr s" "chain_head h" as x xs] shape_okD(3) [OF Cons(3,4)] Cons(5) by simp
  have x0: "x \<noteq> 0" using offs_not_heads(1) [OF Cons(3) x] .
  have buf: "length (idxbuf db) = 1026" using Cons(6) by (simp add: db_wf_def)
  obtain k1 b where rd: "db_readidx k db (int x) = Inr (int (s_ptr s x), k1, loaded db x (s_ptr s x) (s_rec s x) b)"
    "quiet k (idxfd db) (datfd db) k1" "cstr b = key_at s x" "length b = 1026"
    using readidx_ok [OF Cons(2) rep x buf, of "int x"] by (auto simp: okp_def)
  let ?db = "loaded db x (s_ptr s x) (s_rec s x) b"
  have same: "same_handle db ?db" using Cons(6) rd(4) by (simp add: handle_defs loaded_def)
  show ?case
  proof (cases "key_at s x = key")
    case True
    have "located s ?db h as x xs" using Cons(5,7) rd(3) by (simp add: located_def at_record_def loaded_def)
    with True rd same x0 show ?thesis by (auto simp: n px loaded_def)
  next
    case False
    let ?db1 = "?db\<lparr>ptroff := int x\<rparr>"
    have pre: "opened k1 (idxfd ?db1) (datfd ?db1) i j" "shape_ok (k_data k1 i) dat s" "s_chain s h = (as @ [x]) @ xs"
      "db_wf ?db1" "ptroff ?db1 = int (cf.prev_field (chain_head h) (as @ [x]))"
      using quiet_opened [OF rd(2) Cons(2)] quiet_data [OF rd(2)] Cons(3,5,6) rd(4)
      by (simp_all add: loaded_def db_wf_def cf.prev_field_def)
    have "same_handle db ?db1" using same by (simp add: handle_defs)
    then have tr: "\<And>d. same_handle ?db1 d \<Longrightarrow> same_handle db d" using same_handle_trans by blast
    have step: "cf.prev_field (chain_head h) (as @ [x]) = x" by (simp add: cf.prev_field_def)
    have fds: "idxfd ?db1 = idxfd db" "datfd ?db1 = datfd db" by (simp_all add: loaded_def)
    note IH = Cons.IH [OF pre(1,2) Cons(4) pre(3-5) n(2), unfolded step fds]
    have f: "find (\<lambda>p. key_at s p = key) (x # xs) = find (\<lambda>p. key_at s p = key) xs" using False by simp
    have "db_find_loop n k db key (int x) = db_find_loop m k1 ?db1 key (int (s_ptr s x))"
      using False x0 rd by (simp add: n loaded_def)
    then show ?thesis
      unfolding px f by (simp only:) (rule okp_mono [OF IH], use tr quiet_trans [OF rd(2)] in \<open>auto\<close>)
  qed
qed

text \<open>No process holds a lock on either file.\<close>

definition idle :: "flock_ent list \<Rightarrow> nat \<Rightarrow> nat \<Rightarrow> bool" where
  "idle ls i j \<longleftrightarrow> (\<forall>l \<in> set ls. fl_ino l \<noteq> i \<and> fl_ino l \<noteq> j)"

definition chain_lock :: "kernel \<Rightarrow> nat \<Rightarrow> bool \<Rightarrow> nat \<Rightarrow> flock_ent" where
  "chain_lock k i w h = lock_ent (k_pid k) i w (chain_head h) (Some (chain_head h + 1))"

lemma idle_no_overlap: "idle ls i j \<Longrightarrow> no_overlap ls i lo hi" "idle ls i j \<Longrightarrow> no_overlap ls j lo hi"
  by (auto simp: idle_def no_overlap_def)

lemma chain_lock_apart:
  assumes "idle ls i j" "i \<noteq> j" "h < 137"
  shows "no_overlap (chain_lock k i w h # ls) i 0 (Some 1)" "no_overlap (chain_lock k i w h # ls) i HDR None"
    "no_overlap (chain_lock k i w h # ls) j lo hi"
  using assms
  by (auto simp: idle_def no_overlap_def chain_lock_def lock_ent_def overlaps_iff in_range_def before_end_def
      chain_head_def HDR_def)

lemma idx_fuel_eq: "opened k (idxfd db) b i j \<Longrightarrow> idx_fuel k db = Suc (Suc (length (k_data k i)))"
  by (auto simp: idx_fuel_def opened_def fd_content_def)

lemma find_and_lock_ok:
  assumes op: "opened k (idxfd db) (datfd db) i j" and ok: "shape_ok (k_data k i) dat s" and wf: "db_wf db"
    and idle: "idle (k_locks k) i j"
  shows "okp (db_find_and_lock k db key w) (\<lambda>(r, k', db').
     kframe k (idxfd db) (datfd db) k' \<and> k_data k' = k_data k \<and>
     k_locks k' = chain_lock k i w (hashk key) # k_locks k \<and>
     same_files db db' \<and> counters db' = counters db \<and> chainoff db' = int (chain_head (hashk key)) \<and>
     (case List.find (\<lambda>p. key_at s p = key) (s_chain s (hashk key)) of None \<Rightarrow> r = -1
      | Some x \<Rightarrow> r = 0 \<and> (\<exists>as bs. located s db' (hashk key) as x bs)))"
proof -
  let ?h = "hashk key" and ?c = "chain_head (hashk key)"
  let ?db = "db\<lparr>chainoff := int ?c, ptroff := int ?c\<rparr>" and ?k = "k\<lparr>k_locks := chain_lock k i w (hashk key) # k_locks k\<rparr>"
  have h: "?h < 137" by (rule hashk_less)
  have coff: "sint (db_hash db key * of_nat PTR_SZ + word_of_int (hashoff db)) = int ?c"
    using wf by (intro chainoff_eq) (simp_all add: db_wf_def)
  have lk: "(if w then must_lock (writew_lock k (idxfd db) (int ?c) SEEK_SET 1) m
             else must_lock (readw_lock k (idxfd db) (int ?c) SEEK_SET 1) m') = Inr ?k" for m m'
    using lock_grant [OF opened_on_fd(1) [OF op] _ idle_no_overlap(1) [OF idle], of 1 ?c]
    by (simp add: lock_end_def chain_lock_def)
  have op1: "opened ?k (idxfd ?db) (datfd ?db) i j" and ok1: "shape_ok (k_data ?k i) dat s" using op ok by simp_all
  obtain k1 where rp: "db_readptr ?k ?db (int ?c) = Inr (int (s_ptr s ?c), k1)" "quiet ?k (idxfd db) (datfd db) k1"
    using readptr_ok [OF op1 shape_okD(1) [OF ok1] shape_fields(2) [OF ok1 h]] by (auto simp: okp_def)
  have k1: "opened k1 (idxfd ?db) (datfd ?db) i j" "shape_ok (k_data k1 i) dat s" "db_wf ?db"
    "s_chain s ?h = [] @ s_chain s ?h" "ptroff ?db = int (cf.prev_field ?c [])"
    using quiet_opened [OF rp(2)] quiet_data [OF rp(2)] op ok wf by (simp_all add: db_wf_def cf.prev_field_def)
  have dist: "distinct (s_chain s ?h)" "set (s_chain s ?h) \<subseteq> set (s_offs s)"
    using cf.chain_distinct [OF shape_okD(3) [OF ok h]] shape_fields(4) [OF ok h] by blast+
  have fuel: "length (s_chain s ?h) < idx_fuel k1 ?db"
    using length_chain_le [OF k1(2) dist(2,1)] idx_fuel_eq [OF k1(1)] by simp
  note loop = find_loop_ok [OF k1(1,2) h k1(4,3,5) fuel, of key]
  have eq: "db_find_and_lock k db key w = res_bind (db_find_loop (idx_fuel k1 ?db) k1 ?db key (int (s_ptr s ?c)))
      (\<lambda>(offset, k, db). Inr (if offset = 0 then -1 else 0, k, db))"
    unfolding db_find_and_lock_def coff Let_def using lk rp(1) by (cases w) simp_all
  have p0: "cf.prev_field ?c [] = ?c" by (simp add: cf.prev_field_def)
  have fin: "kframe k (idxfd db) (datfd db) k'" "k_data k' = k_data k" "k_locks k' = chain_lock k i w ?h # k_locks k"
    if "quiet k1 (idxfd db) (datfd db) k'" for k'
    using quiet_trans [OF rp(2) that] by (simp_all add: quiet_def)
  have hd: "same_files db d \<and> counters d = counters db \<and> chainoff d = int ?c" if "same_handle ?db d" for d
    using that by (simp add: handle_defs)
  show ?thesis
    unfolding eq okp_bind
    by (rule okp_mono [OF loop [unfolded p0]], cases "List.find (\<lambda>p. key_at s p = key) (s_chain s ?h)")
      (use fin hd in \<open>auto intro!: exI\<close>)
qed

section \<open>Deleting\<close>

lemma takeWhile_dropWhile: "takeWhile P (dropWhile P xs) = []"
  by (induction xs) simp_all

lemma cstr_blanked: "cstr (patch b 0 (replicate (length (cstr b)) SPACE)) = replicate (length (cstr b)) SPACE"
proof -
  have "drop (length (cstr b)) b = dropWhile (\<lambda>c. c \<noteq> NUL) b"
    unfolding cstr_def by (rule dropWhile_eq_drop [symmetric])
  then have "cstr (patch b 0 (replicate (length (cstr b)) SPACE)) =
      takeWhile (\<lambda>c. c \<noteq> NUL) (replicate (length (cstr b)) SPACE @ dropWhile (\<lambda>c. c \<noteq> NUL) b)"
    by (simp add: patch_def cstr_def)
  also have "\<dots> = replicate (length (cstr b)) SPACE @ takeWhile (\<lambda>c. c \<noteq> NUL) (dropWhile (\<lambda>c. c \<noteq> NUL) b)"
    by (rule takeWhile_append2) auto
  also have "takeWhile (\<lambda>c. c \<noteq> NUL) (dropWhile (\<lambda>c. c \<noteq> NUL) b) = []"
    by (rule takeWhile_dropWhile)
  finally show ?thesis by simp
qed

lemma blank_rec:
  assumes "rec_ok r"
  shows "rec_ok (r\<lparr>a_key := replicate (length (a_key r)) SPACE\<rparr>)"
    "rec_size (r\<lparr>a_key := replicate (length (a_key r)) SPACE\<rparr>) = rec_size r"
proof -
  have "length (enc_rec (r\<lparr>a_key := replicate (length (a_key r)) SPACE\<rparr>)) = length (enc_rec r)"
    by (simp add: enc_rec_def)
  then show "rec_ok (r\<lparr>a_key := replicate (length (a_key r)) SPACE\<rparr>)"
    "rec_size (r\<lparr>a_key := replicate (length (a_key r)) SPACE\<rparr>) = rec_size r"
    using assms by (auto simp: rec_ok_def rec_size_def)
qed

text \<open>What an operation leaves alone: every other file and descriptor.\<close>

definition db_frame :: "kernel \<Rightarrow> DB \<Rightarrow> nat \<Rightarrow> nat \<Rightarrow> kernel \<Rightarrow> bool" where
  "db_frame k db i j k' \<longleftrightarrow> kframe k (idxfd db) (datfd db) k' \<and> (\<forall>l. l \<noteq> i \<longrightarrow> l \<noteq> j \<longrightarrow> k_data k' l = k_data k l)"

lemma db_frame_trans: "db_frame k db i j k1 \<Longrightarrow> db_frame k1 db i j k2 \<Longrightarrow> db_frame k db i j k2"
  by (auto simp: db_frame_def intro: kframe_trans)

lemma db_frame_same: "idxfd db' = idxfd db \<Longrightarrow> datfd db' = datfd db \<Longrightarrow> db_frame k db' i j k' = db_frame k db i j k'"
  by (simp add: db_frame_def)

lemma db_frame_quiet: "quiet k (idxfd db) (datfd db) k' \<Longrightarrow> db_frame k db i j k'"
  by (simp add: quiet_def db_frame_def)

lemma db_frame_wrote: "wrote k (idxfd db) (datfd db) l c k' \<Longrightarrow> l = i \<or> l = j \<Longrightarrow> db_frame k db i j k'"
  by (auto simp: wrote_def db_frame_def)

lemma db_frame_opened: "db_frame k db i j k' \<Longrightarrow> opened k (idxfd db) (datfd db) i j \<Longrightarrow> opened k' (idxfd db) (datfd db) i j"
  by (auto simp: db_frame_def intro: opened_kframe)

lemma db_frame_locks [simp]:
  "db_frame (k\<lparr>k_locks := l\<rparr>) db i j k' = db_frame k db i j k'" "db_frame k db i j (k'\<lparr>k_locks := l\<rparr>) = db_frame k db i j k'"
  by (simp_all add: db_frame_def)

lemma db_frame_pid: "db_frame k db i j k' \<Longrightarrow> k_pid k' = k_pid k"
  by (simp add: db_frame_def kframe_def)

lemma ptr_bound:
  assumes "shape_ok idx dat s" "p \<in> field_set (s_offs s)"
  shows "s_ptr s p \<le> 999999"
  using idx_repD(4) [OF shape_okD(1) [OF assms(1)] assms(2)] .

text \<open>The writes of a deletion, with the free-list lock held.\<close>

definition db_dodelete_writes :: "kernel \<Rightarrow> DB \<Rightarrow> string \<Rightarrow> (kernel \<times> DB) res" where
  "db_dodelete_writes k db t =
     res_bind (db_writedat k db t (datoff db) SEEK_SET) (\<lambda>(k, db).
     res_bind (db_readptr k db FREE_OFF) (\<lambda>(freeptr, k).
     let saveptr = ptrval db in
     res_bind (db_writeidx k db (cstr (idxbuf db)) (idxoff db) SEEK_SET freeptr) (\<lambda>(k, db).
     res_bind (db_writeptr k db FREE_OFF (idxoff db)) (\<lambda>k.
     res_bind (db_writeptr k db (ptroff db) saveptr) (\<lambda>k. Inr (k, db))))))"

lemma dodelete_writes:
  assumes op: "opened k (idxfd db) (datfd db) i j" and ok: "shape_ok (k_data k i) (k_data k j) s" and wf: "db_wf db"
    and h: "h < 137" and loc: "at_record s db h as x bs" and t: "t = replicate (a_len (s_rec s x) - 1) SPACE"
    and key: "cstr (idxbuf db) = replicate (length (key_at s x)) SPACE"
  shows "okp (db_dodelete_writes k db t) (\<lambda>(k', db'). db_frame k db i j k' \<and> k_locks k' = k_locks k \<and> same_handle db db' \<and>
       length (k_data k' i) = length (k_data k i) \<and>
       idx_rep (k_data k' i) (s_ptr (shape_delete s h as x bs)) (s_rec (shape_delete s h as x bs)) (s_offs s) \<and>
       k_data k' j = patch (k_data k j) (a_off (s_rec s x)) (t @ [NL]))"
proof -
  let ?r = "s_rec s x" and ?a = "idxfd db" and ?b = "datfd db" and ?P = "s_ptr s" and ?R = "s_rec s"
  let ?key = "cstr (idxbuf db)"
  let ?r' = "?r\<lparr>a_key := ?key\<rparr>" and ?pr = "cf.prev_field (chain_head h) as"
  note l = loc [unfolded at_record_def]
  have ij: "i \<noteq> j" using op by (simp add: opened_def)
  have x: "x \<in> set (s_offs s)" using shape_fields(4) [OF ok h] l by auto
  have r: "rec_ok ?r" using idx_repD(5) [OF shape_okD(1) [OF ok] x] .
  have tl: "length t + 1 = a_len ?r" using r by (simp add: t rec_ok_def)
  have ch: "s_chain s h = as @ x # bs" using l by simp
  note pr = prev_on_chain [OF ok h ch]
  have b: "?P 0 \<le> 999999" "x \<le> 999999" "?P x \<le> 999999"
    using ptr_bound [OF ok shape_fields(1) [OF ok]] ptr_bound [OF ok pr(5)] pr(6)
      ptr_bound [OF ok shape_fields(5) [OF ok x]] by simp_all
  have fs: "0 \<in> field_set (s_offs s)" "?pr \<in> field_set (s_offs s)" using shape_fields(1) [OF ok] pr(5) by auto
  have q: "a_off ?r \<le> length (k_data k j)" using shape_okD(10) [OF ok x] by (simp add: dat_ok_def)
  let ?db1 = "db\<lparr>datoff := int (a_off ?r), datlen := length t + 1\<rparr>"
  obtain k1 where s1: "db_writedat k db t (datoff db) SEEK_SET = Inr (k1, ?db1)"
    "wrote k ?a ?b j (patch (k_data k j) (a_off ?r) (t @ [NL])) k1"
    using writedat_set_ok [OF op q, of t] l by (auto simp: okp_def)
  have op1: "opened k1 (idxfd ?db1) (datfd ?db1) i j" using wrote_opened [OF s1(2) op] by simp
  have rep1: "idx_rep (k_data k1 i) ?P ?R (s_offs s)" using s1(2) shape_okD(1) [OF ok] ij by (simp add: wrote_def)
  obtain k2 where s2: "db_readptr k1 ?db1 FREE_OFF = Inr (int (?P 0), k2)" "quiet k1 ?a ?b k2"
    using readptr_ok [OF op1 rep1 fs(1)] by (auto simp: okp_def)
  have op2: "opened k2 (idxfd ?db1) (datfd ?db1) i j" using quiet_opened [OF s2(2)] op1 by simp
  have rep2: "idx_rep (k_data k2 i) ?P ?R (s_offs s)" using rep1 quiet_data [OF s2(2)] by simp
  have rr: "rec_ok ?r'" "rec_size ?r' = rec_size (?R x)" using blank_rec [OF r] by (simp_all add: key)
  have d2: "datoff ?db1 = int (a_off ?r')" "datlen ?db1 = a_len ?r'" "?key = a_key ?r'" "length (idxbuf ?db1) = 1026"
    using tl wf by (simp_all add: db_wf_def)
  obtain k3 buf where s3: "db_writeidx k2 ?db1 ?key (int x) SEEK_SET (int (?P 0)) =
        Inr (k3, ?db1\<lparr>ptrval := int (?P 0), idxbuf := buf, idxoff := int x\<rparr>)"
    "wrote k2 ?a ?b i (patch (k_data k2 i) x (enc_full (?P 0) ?r')) k3"
    "idx_rep (k_data k3 i) (?P(x := ?P 0)) (?R(x := ?r')) (s_offs s)" "length (k_data k3 i) = length (k_data k2 i)"
    "length buf = 1026"
    using writeidx_set_ok [OF op2 rep2 x b(1) rr d2] by (auto simp: okp_def)
  let ?db3 = "?db1\<lparr>ptrval := int (?P 0), idxbuf := buf, idxoff := int x\<rparr>"
  have op3: "opened k3 (idxfd ?db3) (datfd ?db3) i j" using wrote_opened [OF s3(2)] op2 by simp
  obtain k4 where s4: "db_writeptr k3 ?db3 0 (int x) = Inr k4"
    "wrote k3 ?a ?b i (patch (k_data k3 i) 0 (enc_ptr x)) k4"
    "idx_rep (k_data k4 i) (?P(x := ?P 0, 0 := x)) (?R(x := ?r')) (s_offs s)" "length (k_data k4 i) = length (k_data k3 i)"
    using writeptr_ok [OF op3 s3(3) fs(1) b(2)] by (auto simp: okp_def)
  have op4: "opened k4 (idxfd ?db3) (datfd ?db3) i j" using wrote_opened [OF s4(2)] op3 by simp
  obtain k5 where s5: "db_writeptr k4 ?db3 (int ?pr) (int (?P x)) = Inr k5"
    "wrote k4 ?a ?b i (patch (k_data k4 i) ?pr (enc_ptr (?P x))) k5"
    "idx_rep (k_data k5 i) (?P(x := ?P 0, 0 := x, ?pr := ?P x)) (?R(x := ?r')) (s_offs s)"
    "length (k_data k5 i) = length (k_data k4 i)"
    using writeptr_ok [OF op4 s4(3) fs(2) b(3)] by (auto simp: okp_def)
  have "db_frame k db i j k5"
    using db_frame_wrote [OF s1(2), of i] db_frame_quiet [OF s2(2), of i j] db_frame_wrote [OF s3(2), of i j]
      db_frame_wrote [OF s4(2), of i j] db_frame_wrote [OF s5(2), of i j] by (blast intro: db_frame_trans)
  moreover have "k_locks k5 = k_locks k" "length (k_data k5 i) = length (k_data k i)"
    "k_data k5 j = patch (k_data k j) (a_off ?r) (t @ [NL])"
    using s1(2) s2(2) s3(2,4) s4(2,4) s5(2,4) ij by (simp_all add: wrote_def quiet_def)
  moreover have "same_handle db ?db3" using wf s3(5) by (simp add: handle_defs)
  ultimately show ?thesis
    using s1(1) s2(1) s3(1) s4(1) s5(1,3) l by (simp add: db_dodelete_writes_def shape_delete_def key)
qed

lemma okp_case_prod: "okp (case x of (a, b) \<Rightarrow> f a b) Q \<longleftrightarrow> (case x of (a, b) \<Rightarrow> okp (f a b) Q)"
  by (simp add: case_prod_beta)

text \<open>The free-list lock is taken and given back around \<open>m\<close>.\<close>

lemma free_locked:
  assumes op: "opened k (idxfd db) (datfd db) i j" and free: "no_overlap (k_locks k) i 0 (Some 1)"
  shows "must_lock (writew_lock k (idxfd db) FREE_OFF SEEK_SET 1) m =
           Inr (k\<lparr>k_locks := lock_ent (k_pid k) i True 0 (Some 1) # k_locks k\<rparr>)"
    "must_lock (readw_lock k (idxfd db) FREE_OFF SEEK_SET 1) m =
           Inr (k\<lparr>k_locks := lock_ent (k_pid k) i False 0 (Some 1) # k_locks k\<rparr>)"
    "db_frame k db i j k' \<Longrightarrow> k_locks k' = lock_ent (k_pid k) i w 0 (Some 1) # k_locks k \<Longrightarrow>
       must_lock (un_lock k' (idxfd db) FREE_OFF SEEK_SET 1) m = Inr (k'\<lparr>k_locks := k_locks k\<rparr>)"
proof -
  note on = opened_on_fd(1) [OF op]
  have free': "no_overlap (k_locks k) i 0 (lock_end 0 1)" using free by (simp add: lock_end_def)
  show "must_lock (writew_lock k (idxfd db) FREE_OFF SEEK_SET 1) m =
           Inr (k\<lparr>k_locks := lock_ent (k_pid k) i True 0 (Some 1) # k_locks k\<rparr>)"
    "must_lock (readw_lock k (idxfd db) FREE_OFF SEEK_SET 1) m =
           Inr (k\<lparr>k_locks := lock_ent (k_pid k) i False 0 (Some 1) # k_locks k\<rparr>)"
    using lock_grant [OF on _ free', of m] by (simp_all add: lock_end_def)
  show "must_lock (un_lock k' (idxfd db) FREE_OFF SEEK_SET 1) m = Inr (k'\<lparr>k_locks := k_locks k\<rparr>)"
    if "db_frame k db i j k'" "k_locks k' = lock_ent (k_pid k) i w 0 (Some 1) # k_locks k"
    using unlock_ok [OF opened_on_fd(1) [OF db_frame_opened [OF that(1) op]] _ free', of w m] that db_frame_pid [OF that(1)]
    by (simp add: lock_end_def)
qed

lemma dodelete_ok:
  assumes op: "opened k (idxfd db) (datfd db) i j" and ok: "shape_ok (k_data k i) (k_data k j) s" and wf: "db_wf db"
    and h: "h < 137" and loc: "located s db h as x bs" and free: "no_overlap (k_locks k) i 0 (Some 1)"
  shows "okp (db_dodelete k db) (\<lambda>(k', db'). db_frame k db i j k' \<and> k_locks k' = k_locks k \<and> same_handle db db' \<and>
     length (k_data k' i) = length (k_data k i) \<and> length (k_data k' j) = length (k_data k j) \<and>
     shape_ok (k_data k' i) (k_data k' j) (shape_delete s h as x bs) \<and>
     db_map (k_data k' j) (shape_delete s h as x bs) = (db_map (k_data k j) s)(key_at s x := None))"
proof -
  let ?t = "replicate (a_len (s_rec s x) - 1) SPACE" and ?key = "replicate (length (key_at s x)) SPACE"
  let ?db = "db\<lparr>datbuf := patch (datbuf db) 0 (?t @ [NUL]), idxbuf := patch (idxbuf db) 0 ?key\<rparr>"
  let ?k = "k\<lparr>k_locks := lock_ent (k_pid k) i True 0 (Some 1) # k_locks k\<rparr>"
  note l = loc [unfolded located_def at_record_def]
  have x: "x \<in> set (s_offs s)" using shape_fields(4) [OF ok h] l by auto
  have r: "rec_ok (s_rec s x)" using idx_repD(5) [OF shape_okD(1) [OF ok] x] .
  have len: "length ?t < 1026" "length ?key \<le> 1026" using r by (auto simp: rec_ok_def enc_rec_def)
  have wf1: "db_wf ?db" "same_handle db ?db" using wf len by (simp_all add: handle_defs length_patch_0)
  have c: "cstr (datbuf ?db) = ?t" "cstr (idxbuf ?db) = ?key"
    using cstr_patch_text [of ?t "datbuf db"] cstr_blanked [of "idxbuf db"] l by auto
  have at: "at_record s ?db h as x bs" using l by (simp add: at_record_def)
  note lk = free_locked [OF op free]
  have op1: "opened ?k (idxfd ?db) (datfd ?db) i j" and ok1: "shape_ok (k_data ?k i) (k_data ?k j) s" using op ok by simp_all
  have fr: "db_frame k ?db i j k' = db_frame k db i j k'" for k k' by (simp add: db_frame_def)
  have eq: "okp (db_dodelete k db) Q \<longleftrightarrow> okp (db_dodelete_writes ?k ?db ?t)
      (\<lambda>(k, db). okp (must_lock (un_lock k (idxfd db) FREE_OFF SEEK_SET 1) ''_db_dodelete: un_lock error'') (\<lambda>k. Q (k, db)))" for Q
    unfolding db_dodelete_def db_dodelete_writes_def Let_def
    using lk(1) l c by (simp only: okp_bind okp_Inr okp_case_prod) simp
  have "s_chain s h = as @ x # bs" using l by simp
  note del = shape_delete_ok [OF ok h this]
  obtain k1 db1 where w: "db_dodelete_writes ?k ?db ?t = Inr (k1, db1)" "db_frame k db i j k1"
    "k_locks k1 = lock_ent (k_pid k) i True 0 (Some 1) # k_locks k" "same_handle ?db db1"
    "length (k_data k1 i) = length (k_data k i)"
    "idx_rep (k_data k1 i) (s_ptr (shape_delete s h as x bs)) (s_rec (shape_delete s h as x bs)) (s_offs s)"
    "k_data k1 j = patch (k_data k j) (a_off (s_rec s x)) (?t @ [NL])"
    using dodelete_writes [OF op1 ok1 wf1(1) h at refl c(2)] fr by (auto simp: okp_def)
  have "idxfd db1 = idxfd db" using w(4) by (simp add: handle_defs)
  with lk(3) [OF w(2,3)] have un: "must_lock (un_lock k1 (idxfd db1) FREE_OFF SEEK_SET 1) m = Inr (k1\<lparr>k_locks := k_locks k\<rparr>)" for m
    by simp
  have "length ?t + 1 = a_len (s_rec s x)" "NUL \<notin> set ?t" using r by (auto simp: rec_ok_def)
  from overwrite_data(6) [OF ok x this] w(7) have "length (k_data k1 j) = length (k_data k j)" by simp
  then show ?thesis
    unfolding eq using w(1,2,5,7) un same_handle_trans [OF wf1(2) w(4)] del [OF w(6)] by simp
qed

section \<open>The free list\<close>

definition free_at :: "shape \<Rightarrow> DB \<Rightarrow> nat list \<Rightarrow> nat \<Rightarrow> nat list \<Rightarrow> bool" where
  "free_at s db as x bs \<longleftrightarrow> s_free s = as @ x # bs \<and> idxoff db = int x \<and> ptrval db = int (s_ptr s x) \<and>
     datoff db = int (a_off (s_rec s x))"

abbreviation slot_fits :: "shape \<Rightarrow> nat \<Rightarrow> nat \<Rightarrow> nat \<Rightarrow> bool" where
  "slot_fits s kl dl p \<equiv> length (key_at s p) = kl \<and> a_len (s_rec s p) = dl"

lemma findfree_loop_ok:
  assumes "opened k (idxfd db) (datfd db) i j" "shape_ok (k_data k i) dat s" "s_free s = as @ xs" "db_wf db" "length xs < n"
  shows "okp (db_findfree_loop n k db kl dl (int (cf.prev_field 0 as)) (int (s_ptr s (cf.prev_field 0 as)))) (\<lambda>(sv, off, k', db').
     quiet k (idxfd db) (datfd db) k' \<and> same_handle db db' \<and>
     (case List.find (slot_fits s kl dl) xs of None \<Rightarrow> off = 0
      | Some x \<Rightarrow> off = int x \<and> x \<noteq> 0 \<and> (\<exists>as' bs. sv = int (cf.prev_field 0 as') \<and> free_at s db' as' x bs)))"
  using assms
proof (induction xs arbitrary: n k db as)
  case Nil
  have "s_ptr s (cf.prev_field 0 as) = 0"
    using shape_okD(2) [OF Nil(2)] Nil(3) cf.chain_end [of "s_ptr s" 0 as] by simp
  then show ?case using Nil(4,5) by (cases n) (auto simp: same_handle_refl)
next
  case (Cons x xs)
  note rep = shape_okD(1) [OF Cons(3)]
  from Cons(6) obtain m where n: "n = Suc m" "length xs < m" by (cases n) auto
  have x: "x \<in> set (s_offs s)" using shape_fields(3) [OF Cons(3)] Cons(4) by simp
  have px: "s_ptr s (cf.prev_field 0 as) = x"
    using cf.chain_prev [of "s_ptr s" 0 as x xs] shape_okD(2) [OF Cons(3)] Cons(4) by simp
  have x0: "x \<noteq> 0" using offs_not_heads(1) [OF Cons(3) x] .
  have buf: "length (idxbuf db) = 1026" using Cons(5) by (simp add: db_wf_def)
  obtain k1 b where rd: "db_readidx k db (int x) = Inr (int (s_ptr s x), k1, loaded db x (s_ptr s x) (s_rec s x) b)"
    "quiet k (idxfd db) (datfd db) k1" "cstr b = key_at s x" "length b = 1026"
    using readidx_ok [OF Cons(2) rep x buf, of "int x"] by (auto simp: okp_def)
  let ?db = "loaded db x (s_ptr s x) (s_rec s x) b"
  have same: "same_handle db ?db" using Cons(5) rd(4) by (simp add: handle_defs loaded_def)
  show ?case
  proof (cases "slot_fits s kl dl x")
    case True
    have "free_at s ?db as x xs" using Cons(4) by (simp add: free_at_def loaded_def)
    with True rd same x0 show ?thesis by (auto simp: n px loaded_def)
  next
    case False
    have pre: "opened k1 (idxfd ?db) (datfd ?db) i j" "shape_ok (k_data k1 i) dat s" "s_free s = (as @ [x]) @ xs" "db_wf ?db"
      using quiet_opened [OF rd(2) Cons(2)] quiet_data [OF rd(2)] Cons(3-5) rd(4) by (simp_all add: loaded_def db_wf_def)
    have step: "cf.prev_field 0 (as @ [x]) = x" by (simp add: cf.prev_field_def)
    have fds: "idxfd ?db = idxfd db" "datfd ?db = datfd db" by (simp_all add: loaded_def)
    note IH = Cons.IH [OF pre n(2), unfolded step fds]
    have f: "find (slot_fits s kl dl) (x # xs) = find (slot_fits s kl dl) xs" unfolding find.simps(2) using False by (rule if_not_P)
    have "db_findfree_loop n k db kl dl sv (int x) = db_findfree_loop m k1 ?db kl dl (int x) (int (s_ptr s x))" for sv
      using False x0 rd by (auto simp: n loaded_def)
    then show ?thesis
      unfolding px f
      by (simp only:) (rule okp_mono [OF IH], use same_handle_trans [OF same] quiet_trans [OF rd(2)] in \<open>auto\<close>)
  qed
qed

text \<open>
  \<open>_db_findfree\<close> takes the first free record of the right sizes off the free list; its
  pointer fields are then those of the shape with \<open>x\<close> skipped.
\<close>

lemma findfree_ok:
  assumes op: "opened k (idxfd db) (datfd db) i j" and ok: "shape_ok (k_data k i) dat s" and wf: "db_wf db"
    and free: "no_overlap (k_locks k) i 0 (Some 1)"
  shows "okp (db_findfree k db kl dl) (\<lambda>(rc, k', db').
     db_frame k db i j k' \<and> k_locks k' = k_locks k \<and> k_data k' j = k_data k j \<and> same_handle db db' \<and>
     length (k_data k' i) = length (k_data k i) \<and>
     (case List.find (slot_fits s kl dl) (s_free s) of None \<Rightarrow> rc = -1 \<and> k_data k' = k_data k
      | Some x \<Rightarrow> rc = 0 \<and> (\<exists>as bs. free_at s db' as x bs \<and>
          idx_rep (k_data k' i) ((s_ptr s)(cf.prev_field 0 as := s_ptr s x)) (s_rec s) (s_offs s))))"
proof -
  let ?k = "k\<lparr>k_locks := lock_ent (k_pid k) i True 0 (Some 1) # k_locks k\<rparr>" and ?a = "idxfd db" and ?b = "datfd db"
  note lk = free_locked [OF op free]
  have ij: "i \<noteq> j" using op by (simp add: opened_def)
  have op0: "opened ?k (idxfd db) (datfd db) i j" and ok0: "shape_ok (k_data ?k i) dat s" using op ok by simp_all
  obtain k1 where rp: "db_readptr ?k db FREE_OFF = Inr (int (s_ptr s 0), k1)" "quiet ?k ?a ?b k1"
    using readptr_ok [OF op0 shape_okD(1) [OF ok0] shape_fields(1) [OF ok0]] by (auto simp: okp_def)
  have k1: "opened k1 ?a ?b i j" "shape_ok (k_data k1 i) dat s" "s_free s = [] @ s_free s"
    using quiet_opened [OF rp(2) op0] quiet_data [OF rp(2)] ok by simp_all
  have "length (s_free s) < idx_fuel k1 db"
    using length_chain_le [OF ok, of "s_free s"] shape_fields(3) [OF ok] cf.chain_distinct [OF shape_okD(2) [OF ok]]
      idx_fuel_eq [OF k1(1)] quiet_data [OF rp(2)] by (auto simp: subset_iff)
  from findfree_loop_ok [OF k1 wf this, of kl dl] obtain sv off k2 db2 where
    lp: "db_findfree_loop (idx_fuel k1 db) k1 db kl dl FREE_OFF (int (s_ptr s 0)) = Inr (sv, off, k2, db2)"
      "quiet k1 ?a ?b k2" "same_handle db db2"
      "case List.find (slot_fits s kl dl) (s_free s) of None \<Rightarrow> off = 0
      | Some x \<Rightarrow> off = int x \<and> x \<noteq> 0 \<and> (\<exists>as' bs. sv = int (cf.prev_field 0 as') \<and> free_at s db2 as' x bs)"
    by (auto simp: okp_def cf.prev_field_def)
  have fds: "idxfd db2 = ?a" "datfd db2 = ?b" using lp(3) by (simp_all add: handle_defs)
  note q2 = quiet_trans [OF rp(2) lp(2)]
  have f2: "db_frame k db i j k2" "k_locks k2 = lock_ent (k_pid k) i True 0 (Some 1) # k_locks k" "k_data k2 = k_data k"
    using db_frame_quiet [OF q2, of i j] q2 by (simp_all add: quiet_def)
  show ?thesis
  proof (cases "List.find (slot_fits s kl dl) (s_free s)")
    case None
    then show ?thesis using lk(1) rp(1) lp lk(3) [OF f2(1,2)] f2 fds by (simp add: db_findfree_def)
  next
    case (Some x)
    then obtain as bs where x: "off = int x" "x \<noteq> 0" "sv = int (cf.prev_field 0 as)" "free_at s db2 as x bs" using lp(4) by auto
    let ?pr = "cf.prev_field 0 as"
    have fr: "s_free s = as @ x # bs" using x(4) by (simp add: free_at_def)
    have op2: "opened k2 (idxfd db2) (datfd db2) i j" using db_frame_opened [OF f2(1) op] fds by simp
    have rep2: "idx_rep (k_data k2 i) (s_ptr s) (s_rec s) (s_offs s)" using shape_okD(1) [OF ok] f2(3) by simp
    have xb: "s_ptr s x \<le> 999999" using ptr_bound [OF ok] shape_fields(3,5) [OF ok, of x] fr by simp
    obtain k3 where wp: "db_writeptr k2 db2 (int ?pr) (int (s_ptr s x)) = Inr k3"
      "wrote k2 ?a ?b i (patch (k_data k2 i) ?pr (enc_ptr (s_ptr s x))) k3"
      "idx_rep (k_data k3 i) ((s_ptr s)(?pr := s_ptr s x)) (s_rec s) (s_offs s)" "length (k_data k3 i) = length (k_data k2 i)"
      using writeptr_ok [OF op2 rep2 prev_on_free(3) [OF ok fr] xb] fds by (auto simp: okp_def)
    have f3: "db_frame k db i j k3" "k_locks k3 = lock_ent (k_pid k) i True 0 (Some 1) # k_locks k" "k_data k3 j = k_data k j"
      using db_frame_trans [OF f2(1) db_frame_wrote [OF wp(2), of i j]] wp(2) f2 ij by (simp_all add: wrote_def)
    have "ptrval db2 = int (s_ptr s x)" using x(4) by (simp add: free_at_def)
    then show ?thesis
      using lk(1) rp(1) lp(1,3) lk(3) [OF f3(1,2)] f3 wp(1,3,4) x fds Some f2(3) by (auto simp: db_findfree_def)
  qed
qed

section \<open>Storing\<close>

definition new_rec :: "string \<Rightarrow> nat \<Rightarrow> string \<Rightarrow> arec" where
  "new_rec key off data = \<lparr>a_key = key, a_off = off, a_len = length data + 1\<rparr>"

lemma new_rec_simps [simp]:
  "a_key (new_rec key off data) = key" "a_off (new_rec key off data) = off" "a_len (new_rec key off data) = length data + 1"
  by (simp_all add: new_rec_def)

lemma append_ok:
  assumes op: "opened k (idxfd db) (datfd db) i j" and ok: "shape_ok (k_data k i) (k_data k j) s" and wf: "db_wf db"
    and h: "h = hashk key" and co: "chainoff db = int (chain_head h)"
    and r: "r = new_rec key (length (k_data k j)) data" "rec_ok r" "\<not> blank key" "NUL \<notin> set data"
    and new: "db_map (k_data k j) s key = None" and cap: "length (k_data k i) \<le> 999999"
    and lk: "no_overlap (k_locks k) i HDR None" "no_overlap (k_locks k) j 0 None"
  shows "okp (db_append k db key data (int (s_ptr s (chain_head h)))) (\<lambda>(k', db').
     db_frame k db i j k' \<and> k_locks k' = k_locks k \<and> same_handle db db' \<and>
     length (k_data k' i) = length (k_data k i) + rec_size r \<and> k_data k' j = k_data k j @ data @ [NL] \<and>
     shape_ok (k_data k' i) (k_data k' j) (shape_append s h (length (k_data k i)) r) \<and>
     db_map (k_data k' j) (shape_append s h (length (k_data k i)) r) = (db_map (k_data k j) s)(key \<mapsto> data))"
proof -
  let ?a = "idxfd db" and ?b = "datfd db" and ?P = "s_ptr s" and ?R = "s_rec s" and ?c = "chain_head h"
  let ?x = "length (k_data k i)"
  have ij: "i \<noteq> j" using op by (simp add: opened_def)
  have hl: "h < 137" using h hashk_less by simp
  have hf: "?c \<in> field_set (s_offs s @ [?x])" using shape_fields(2) [OF ok hl] by (auto simp: field_set_def)
  have b: "?P ?c \<le> 999999" by (rule ptr_bound [OF ok shape_fields(2) [OF ok hl]])
  let ?db1 = "db\<lparr>datoff := int (length (k_data k j)), datlen := length data + 1\<rparr>"
  obtain k1 where s1: "db_writedat k db data 0 SEEK_END = Inr (k1, ?db1)" "wrote k ?a ?b j (k_data k j @ data @ [NL]) k1"
    using writedat_end_ok [OF op lk(2), of data] by (auto simp: okp_def)
  have op1: "opened k1 (idxfd ?db1) (datfd ?db1) i j" using wrote_opened [OF s1(2) op] by simp
  have k1: "k_data k1 i = k_data k i" "k_locks k1 = k_locks k" using s1(2) ij by (simp_all add: wrote_def)
  have rep1: "idx_rep (k_data k1 i) ?P ?R (s_offs s)" using k1(1) shape_okD(1) [OF ok] by simp
  have pre: "nhash ?db1 = 137" "datoff ?db1 = int (a_off r)" "datlen ?db1 = a_len r" "key = a_key r" "length (idxbuf ?db1) = 1026"
    "no_overlap (k_locks k1) i HDR None"
    using wf r(1) lk(1) k1(2) by (simp_all add: db_wf_def)
  obtain k2 buf where s2: "db_writeidx k1 ?db1 key 0 SEEK_END (int (?P ?c)) =
        Inr (k2, ?db1\<lparr>ptrval := int (?P ?c), idxbuf := buf, idxoff := int ?x\<rparr>)"
    "wrote k1 ?a ?b i (k_data k i @ enc_full (?P ?c) r) k2"
    "idx_rep (k_data k2 i) (?P(?x := ?P ?c)) (?R(?x := r)) (s_offs s @ [?x])" "length buf = 1026"
    using writeidx_end_ok [OF op1 rep1 b r(2) pre] k1(1) by (auto simp: okp_def)
  let ?db2 = "?db1\<lparr>ptrval := int (?P ?c), idxbuf := buf, idxoff := int ?x\<rparr>"
  have op2: "opened k2 (idxfd ?db2) (datfd ?db2) i j" using wrote_opened [OF s2(2)] op1 by simp
  obtain k3 where s3: "db_writeptr k2 ?db2 (int ?c) (int ?x) = Inr k3" "wrote k2 ?a ?b i (patch (k_data k2 i) ?c (enc_ptr ?x)) k3"
    "idx_rep (k_data k3 i) (?P(?x := ?P ?c, ?c := ?x)) (?R(?x := r)) (s_offs s @ [?x])" "length (k_data k3 i) = length (k_data k2 i)"
    using writeptr_ok [OF op2 s2(3) hf cap] by (auto simp: okp_def)
  have fr: "db_frame k db i j k3"
    using db_frame_wrote [OF s1(2), of i j] db_frame_wrote [OF s2(2), of i j] db_frame_wrote [OF s3(2), of i j]
    by (blast intro: db_frame_trans)
  have st: "k_locks k3 = k_locks k" "k_data k3 j = k_data k j @ data @ [NL]" "length (k_data k3 i) = ?x + rec_size r"
    using s1(2) s2(2) s3(2,4) ij length_enc_full [OF _ r(2), of "?P ?c"] b by (simp_all add: wrote_def)
  have sh: "shape_ok (k_data k3 i) (k_data k j @ data @ [NL]) (shape_append s h ?x r)"
    "db_map (k_data k j @ data @ [NL]) (shape_append s h ?x r) = (db_map (k_data k j) s)(key \<mapsto> data)"
    using shape_append_ok [OF ok, of h r data "k_data k3 i"] h r new s3(3) by (simp_all add: shape_append_def)
  have "same_handle db ?db2" using wf s2(4) by (simp add: handle_defs)
  then show ?thesis using s1(1) s2(1) s3(1) co fr st sh by (simp add: db_append_def)
qed

lemma reuse_ok:
  assumes op: "opened k (idxfd db) (datfd db) i j" and ok: "shape_ok idx (k_data k j) s" and wf: "db_wf db"
    and h: "h = hashk key" and co: "chainoff db = int (chain_head h)" and x: "free_at s db as x bs"
    and rep: "idx_rep (k_data k i) ((s_ptr s)(cf.prev_field 0 as := s_ptr s x)) (s_rec s) (s_offs s)"
    and r: "r = new_rec key (a_off (s_rec s x)) data" "length key = length (key_at s x)" "length data + 1 = a_len (s_rec s x)"
    and key: "SEP \<notin> set key" "NUL \<notin> set key" "\<not> blank key" "NUL \<notin> set data"
    and new: "db_map (k_data k j) s key = None"
  shows "okp (db_reuse k db key data (int (s_ptr s (chain_head h)))) (\<lambda>(k', db').
     db_frame k db i j k' \<and> k_locks k' = k_locks k \<and> same_handle db db' \<and>
     length (k_data k' i) = length (k_data k i) \<and> length (k_data k' j) = length (k_data k j) \<and>
     shape_ok (k_data k' i) (k_data k' j) (shape_reuse s h as x bs r) \<and>
     db_map (k_data k' j) (shape_reuse s h as x bs r) = (db_map (k_data k j) s)(key \<mapsto> data))"
proof -
  let ?a = "idxfd db" and ?b = "datfd db" and ?P = "s_ptr s" and ?R = "s_rec s" and ?c = "chain_head h"
  let ?P1 = "?P(cf.prev_field 0 as := ?P x)"
  note xa = x [unfolded free_at_def]
  have fr: "s_free s = as @ x # bs" using xa by simp
  have ij: "i \<noteq> j" using op by (simp add: opened_def)
  have hl: "h < 137" using h hashk_less by simp
  have xo: "x \<in> set (s_offs s)" using shape_fields(3) [OF ok] fr by simp
  have hf: "?c \<in> field_set (s_offs s)" by (rule shape_fields(2) [OF ok hl])
  have b: "?P ?c \<le> 999999" "x \<le> 999999"
    using ptr_bound [OF ok hf] ptr_bound [OF ok prev_on_free(3) [OF ok fr]] cf.chain_prev [of ?P 0 as x bs] shape_okD(2) [OF ok] fr
    by simp_all
  have len: "length (enc_rec r) = length (enc_rec (?R x))" using r by (simp add: enc_rec_def)
  have rr: "rec_ok r" "rec_size r = rec_size (?R x)"
    using idx_repD(5) [OF shape_okD(1) [OF ok] xo] len r key by (simp_all add: rec_ok_def rec_size_def)
  have q: "a_off (?R x) \<le> length (k_data k j)" using shape_okD(10) [OF ok xo] by (simp add: dat_ok_def)
  let ?dat = "patch (k_data k j) (a_off (?R x)) (data @ [NL])"
  let ?db1 = "db\<lparr>datoff := int (a_off (?R x)), datlen := length data + 1\<rparr>"
  obtain k1 where s1: "db_writedat k db data (datoff db) SEEK_SET = Inr (k1, ?db1)" "wrote k ?a ?b j ?dat k1"
    using writedat_set_ok [OF op q, of data] xa by (auto simp: okp_def)
  have op1: "opened k1 (idxfd ?db1) (datfd ?db1) i j" using wrote_opened [OF s1(2) op] by simp
  have rep1: "idx_rep (k_data k1 i) ?P1 ?R (s_offs s)" using s1(2) rep ij by (simp add: wrote_def)
  have d1: "datoff ?db1 = int (a_off r)" "datlen ?db1 = a_len r" "key = a_key r" "length (idxbuf ?db1) = 1026"
    using wf r(1) by (simp_all add: db_wf_def)
  obtain k2 buf where s2: "db_writeidx k1 ?db1 key (int x) SEEK_SET (int (?P ?c)) =
        Inr (k2, ?db1\<lparr>ptrval := int (?P ?c), idxbuf := buf, idxoff := int x\<rparr>)"
    "wrote k1 ?a ?b i (patch (k_data k1 i) x (enc_full (?P ?c) r)) k2"
    "idx_rep (k_data k2 i) (?P1(x := ?P ?c)) (?R(x := r)) (s_offs s)" "length (k_data k2 i) = length (k_data k1 i)"
    "length buf = 1026"
    using writeidx_set_ok [OF op1 rep1 xo b(1) rr d1] by (auto simp: okp_def)
  let ?db2 = "?db1\<lparr>ptrval := int (?P ?c), idxbuf := buf, idxoff := int x\<rparr>"
  have op2: "opened k2 (idxfd ?db2) (datfd ?db2) i j" using wrote_opened [OF s2(2)] op1 by simp
  obtain k3 where s3: "db_writeptr k2 ?db2 (int ?c) (int x) = Inr k3" "wrote k2 ?a ?b i (patch (k_data k2 i) ?c (enc_ptr x)) k3"
    "idx_rep (k_data k3 i) (?P1(x := ?P ?c, ?c := x)) (?R(x := r)) (s_offs s)" "length (k_data k3 i) = length (k_data k2 i)"
    using writeptr_ok [OF op2 s2(3) hf b(2)] by (auto simp: okp_def)
  have fr3: "db_frame k db i j k3"
    using db_frame_wrote [OF s1(2), of i j] db_frame_wrote [OF s2(2), of i j] db_frame_wrote [OF s3(2), of i j]
    by (blast intro: db_frame_trans)
  have st: "k_locks k3 = k_locks k" "k_data k3 j = ?dat" "length (k_data k3 i) = length (k_data k i)"
    using s1(2) s2(2,4) s3(2,4) ij by (simp_all add: wrote_def)
  have dl: "length ?dat = length (k_data k j)" by (rule overwrite_data(6) [OF ok xo r(3) key(4)])
  have sh: "shape_ok (k_data k3 i) ?dat (shape_reuse s h as x bs r)"
    "db_map ?dat (shape_reuse s h as x bs r) = (db_map (k_data k j) s)(key \<mapsto> data)"
    using shape_reuse_ok [OF ok, of h r as x bs data "k_data k3 i"] h r key new s3(3) fr by (simp_all add: shape_reuse_def)
  have "same_handle db ?db2" using wf s2(5) by (simp add: handle_defs)
  then show ?thesis using s1(1) s2(1) s3(1) co fr3 st sh xa dl by (simp add: db_reuse_def)
qed

end
