(* ===== verification/Kv_Store.thy ===== *)
theory Kv_Store
  imports Prelude
begin

text \<open>
  The interface of a store of strings under string keys, as a client of the database library
  sees it: three operations on a state, the map a state represents, and the number of
  further stores it has room for.  The laws are about one call each; what follows from them
  holds for every sequence of calls.
\<close>

datatype kv_op = Op_fetch string | Op_store string string int | Op_delete string

datatype kv_res = Got "string option" | Returned int

type_synonym kv_map = "string \<Rightarrow> string option"

text \<open>Return value and new contents of a store with one of the three flags, and of a deletion.\<close>

definition spec_store :: "kv_map \<Rightarrow> string \<Rightarrow> string \<Rightarrow> int \<Rightarrow> int \<times> kv_map" where
  "spec_store m key data flag =
     (if m key = None
      then (if flag = 2 then (-1, m) else (0, m(key \<mapsto> data)))
      else (if flag = 1 then (1, m) else (0, m(key \<mapsto> data))))"

definition spec_delete :: "kv_map \<Rightarrow> string \<Rightarrow> int \<times> kv_map" where
  "spec_delete m key = (if m key = None then (-1, m) else (0, m(key := None)))"

fun spec_step :: "kv_op \<Rightarrow> kv_map \<Rightarrow> kv_res \<times> kv_map" where
  "spec_step (Op_fetch key) m = (Got (m key), m)"
| "spec_step (Op_store key data flag) m = (let (r, m') = spec_store m key data flag in (Returned r, m'))"
| "spec_step (Op_delete key) m = (let (r, m') = spec_delete m key in (Returned r, m'))"

primrec spec_run :: "kv_op list \<Rightarrow> kv_map \<Rightarrow> kv_res list \<times> kv_map" where
  "spec_run [] m = ([], m)"
| "spec_run (x # xs) m = (let (r, m1) = spec_step x m; (rs, m2) = spec_run xs m1 in (r # rs, m2))"

text \<open>The same sequence of calls on an implementation.\<close>

fun op_with ::
  "('s \<Rightarrow> string \<Rightarrow> (string option \<times> 's) res) \<Rightarrow> ('s \<Rightarrow> string \<Rightarrow> string \<Rightarrow> int \<Rightarrow> (int \<times> 's) res) \<Rightarrow>
   ('s \<Rightarrow> string \<Rightarrow> (int \<times> 's) res) \<Rightarrow> kv_op \<Rightarrow> 's \<Rightarrow> (kv_res \<times> 's) res" where
  "op_with f st d (Op_fetch key) s = res_bind (f s key) (\<lambda>(r, s). Inr (Got r, s))"
| "op_with f st d (Op_store key data flag) s = res_bind (st s key data flag) (\<lambda>(r, s). Inr (Returned r, s))"
| "op_with f st d (Op_delete key) s = res_bind (d s key) (\<lambda>(r, s). Inr (Returned r, s))"

primrec run_with ::
  "('s \<Rightarrow> string \<Rightarrow> (string option \<times> 's) res) \<Rightarrow> ('s \<Rightarrow> string \<Rightarrow> string \<Rightarrow> int \<Rightarrow> (int \<times> 's) res) \<Rightarrow>
   ('s \<Rightarrow> string \<Rightarrow> (int \<times> 's) res) \<Rightarrow> kv_op list \<Rightarrow> 's \<Rightarrow> (kv_res list \<times> 's) res" where
  "run_with f st d [] s = Inr ([], s)"
| "run_with f st d (x # xs) s =
     res_bind (op_with f st d x s) (\<lambda>(r, s).
     res_bind (run_with f st d xs s) (\<lambda>(rs, s). Inr (r # rs, s)))"

primrec op_valid :: "(string \<Rightarrow> string \<Rightarrow> bool) \<Rightarrow> kv_op \<Rightarrow> bool" where
  "op_valid v (Op_fetch key) \<longleftrightarrow> True"
| "op_valid v (Op_store key data flag) \<longleftrightarrow> v key data \<and> flag \<in> {1, 2, 3}"
| "op_valid v (Op_delete key) \<longleftrightarrow> True"

locale kv_store =
  fixes rep :: "'s \<Rightarrow> kv_map \<Rightarrow> nat \<Rightarrow> bool"
    and valid :: "string \<Rightarrow> string \<Rightarrow> bool"
    and fetch :: "'s \<Rightarrow> string \<Rightarrow> (string option \<times> 's) res"
    and store :: "'s \<Rightarrow> string \<Rightarrow> string \<Rightarrow> int \<Rightarrow> (int \<times> 's) res"
    and delete :: "'s \<Rightarrow> string \<Rightarrow> (int \<times> 's) res"
  assumes fetch_law: "rep s m n \<Longrightarrow> okp (fetch s key) (\<lambda>(r, s'). r = m key \<and> rep s' m n)"
    and store_law: "rep s m (Suc n) \<Longrightarrow> valid key data \<Longrightarrow> flag \<in> {1, 2, 3} \<Longrightarrow>
      okp (store s key data flag) (\<lambda>(r, s'). \<exists>m'. spec_store m key data flag = (r, m') \<and> rep s' m' n)"
    and delete_law: "rep s m n \<Longrightarrow> okp (delete s key) (\<lambda>(r, s'). \<exists>m'. spec_delete m key = (r, m') \<and> rep s' m' n)"
    and room_less: "rep s m (Suc n) \<Longrightarrow> rep s m n"
begin

lemma step_law:
  assumes "rep s m (Suc n)" "op_valid valid x"
  shows "okp (op_with fetch store delete x s) (\<lambda>(r, s'). \<exists>m'. spec_step x m = (r, m') \<and> rep s' m' n)"
proof (cases x)
  case (Op_fetch key)
  show ?thesis
    unfolding Op_fetch op_with.simps okp_bind
    by (rule okp_mono [OF fetch_law [OF room_less [OF assms(1)]]]) auto
next
  case (Op_store key data flag)
  then have "valid key data" "flag \<in> {1, 2, 3}" using assms(2) by simp_all
  from store_law [OF assms(1) this] show ?thesis
    unfolding Op_store op_with.simps okp_bind by (rule okp_mono) auto
next
  case (Op_delete key)
  show ?thesis
    unfolding Op_delete op_with.simps okp_bind
    by (rule okp_mono [OF delete_law [OF room_less [OF assms(1)]]]) auto
qed

text \<open>Any sequence of valid calls returns what the map returns.\<close>

lemma run_law:
  assumes "rep s m (length xs + n)" "\<forall>x \<in> set xs. op_valid valid x"
  shows "okp (run_with fetch store delete xs s) (\<lambda>(rs, s'). \<exists>m'. spec_run xs m = (rs, m') \<and> rep s' m' n)"
  using assms
proof (induction xs arbitrary: s m)
  case Nil
  then show ?case by simp
next
  case (Cons x xs)
  have "okp (op_with fetch store delete x s) (\<lambda>(r, s'). \<exists>m'. spec_step x m = (r, m') \<and> rep s' m' (length xs + n))"
    using Cons.prems by (intro step_law) simp_all
  then obtain r s1 m1 where s1: "op_with fetch store delete x s = Inr (r, s1)" "spec_step x m = (r, m1)" "rep s1 m1 (length xs + n)"
    by (auto simp: okp_def)
  have "okp (run_with fetch store delete xs s1) (\<lambda>(rs, s'). \<exists>m'. spec_run xs m1 = (rs, m') \<and> rep s' m' n)"
    using Cons.prems s1(3) by (intro Cons.IH) simp_all
  then show ?case using s1(1,2) by (auto simp: okp_def)
qed

text \<open>Insert and look up, through the state.\<close>

lemma fetch_after_store:
  assumes "rep s m (Suc n)" "valid key data" "m key = None"
  shows "okp (store s key data 1) (\<lambda>(r, s'). r = 0 \<and> okp (fetch s' key') (\<lambda>(v, s''). v = (if key' = key then Some data else m key')))"
proof -
  have "okp (store s key data 1) (\<lambda>(r, s'). \<exists>m'. spec_store m key data 1 = (r, m') \<and> rep s' m' n)"
    using assms by (intro store_law) simp_all
  then obtain s1 where s1: "store s key data 1 = Inr (0, s1)" "rep s1 (m(key \<mapsto> data)) n"
    using assms(3) by (auto simp: okp_def spec_store_def)
  from fetch_law [OF s1(2), of key'] s1(1) show ?thesis by (auto simp: okp_def)
qed

end

end
