(* ===== verification/Db_Refine.thy ===== *)
theory Db_Refine
  imports Db_Ops Kv_Store
begin

text \<open>
  The library as a finite map.  \<open>db_ok k db i j m\<close> says that the handle \<open>db\<close> is open on an
  index file \<open>i\<close> and a data file \<open>j\<close> which represent the map \<open>m\<close>, that no lock is left on
  either, and that both buffers have their size.  Every public operation keeps it and acts
  on \<open>m\<close> as the manual of the library says.
\<close>

section \<open>States of the database\<close>

definition db_inv :: "kernel \<Rightarrow> DB \<Rightarrow> nat \<Rightarrow> nat \<Rightarrow> shape \<Rightarrow> bool" where
  "db_inv k db i j s \<longleftrightarrow> opened k (idxfd db) (datfd db) i j \<and> db_wf db \<and> idle (k_locks k) i j \<and>
     shape_ok (k_data k i) (k_data k j) s"

definition db_ok :: "kernel \<Rightarrow> DB \<Rightarrow> nat \<Rightarrow> nat \<Rightarrow> (string \<Rightarrow> string option) \<Rightarrow> bool" where
  "db_ok k db i j m \<longleftrightarrow> (\<exists>s. db_inv k db i j s \<and> db_map (k_data k j) s = m)"

text \<open>Keys and data a record can hold, for a data file of \<open>n\<close> bytes.\<close>

definition storable :: "nat \<Rightarrow> string \<Rightarrow> string \<Rightarrow> bool" where
  "storable n key data \<longleftrightarrow> SEP \<notin> set key \<and> NUL \<notin> set key \<and> \<not> blank key \<and> NUL \<notin> set data \<and>
     DATLEN_MIN \<le> length data + 1 \<and> length data + 1 \<le> DATLEN_MAX \<and>
     length key + length (dec n) + length (dec (length data + 1)) + 3 \<le> IDXLEN_MAX"

section \<open>Shared steps\<close>

lemma storable_rec:
  assumes "storable n key data"
  shows "rec_ok (new_rec key n data)"
proof -
  have "key \<noteq> []" using assms by (auto simp: storable_def blank_def)
  then have k: "1 \<le> length key" by (cases key) auto
  have "1 \<le> length (dec m)" for m by (simp add: Suc_le_eq dec_nonempty)
  from k this [of n] this [of "Suc (length data)"]
  have "3 \<le> length key + (length (dec n) + length (dec (Suc (length data))))" by linarith
  then show ?thesis
    using assms unfolding storable_def rec_ok_def enc_rec_def by auto
qed

lemma rec_size_le: "rec_ok r \<Longrightarrow> rec_size r \<le> 1034"
  by (simp add: rec_ok_def rec_size_def)

lemma db_invD:
  assumes "db_inv k db i j s"
  shows "opened k (idxfd db) (datfd db) i j" "db_wf db" "idle (k_locks k) i j" "shape_ok (k_data k i) (k_data k j) s" "i \<noteq> j"
  using assms by (auto simp: db_inv_def opened_def)

lemma db_invI:
  assumes "opened k (idxfd db) (datfd db) i j" "db_frame k db i j k'" "same_files db db'" "idle (k_locks k') i j"
    "shape_ok (k_data k' i) (k_data k' j) s"
  shows "db_inv k' db' i j s"
  using assms db_frame_opened by (auto simp: db_inv_def same_files_def)

text \<open>The end of every operation on a chain: its lock is given back.\<close>

lemma chain_unlock:
  assumes op: "opened k (idxfd db) (datfd db) i j" and idle: "idle (k_locks k) i j" and fr: "db_frame k db i j k'"
    and held: "k_locks k' = chain_lock k i w h # k_locks k" and d: "chainoff db' = int (chain_head h)" "idxfd db' = idxfd db"
  shows "must_lock (un_lock k' (idxfd db') (chainoff db') SEEK_SET 1) m = Inr (k'\<lparr>k_locks := k_locks k\<rparr>)"
  using unlock_ok [OF opened_on_fd(1) [OF db_frame_opened [OF fr op]] _ idle_no_overlap(1) [OF idle],
      where w = w and len = 1 and c = "chain_head h" and m = m]
    held d db_frame_pid [OF fr] by (simp add: chain_lock_def lock_end_def)

lemma find_db_map:
  "List.find (\<lambda>p. key_at s p = key) (s_chain s (hashk key)) = None \<longleftrightarrow> db_map dat s key = None"
  by (simp add: db_map_def)

text \<open>A search under the chain lock, in the terms of the map.\<close>

lemma search_ok:
  assumes inv: "db_inv k db i j s"
  obtains (missing) k1 db1 where "db_find_and_lock k db key w = Inr (-1, k1, db1)" "db_map (k_data k j) s key = None"
      "db_frame k db i j k1" "k_data k1 = k_data k" "k_locks k1 = chain_lock k i w (hashk key) # k_locks k"
      "same_files db db1" "counters db1 = counters db" "chainoff db1 = int (chain_head (hashk key))"
  | (found) k1 db1 as x bs where "db_find_and_lock k db key w = Inr (0, k1, db1)" "located s db1 (hashk key) as x bs"
      "key_at s x = key" "db_map (k_data k j) s key = Some (data_of (k_data k j) (s_rec s x))"
      "db_frame k db i j k1" "k_data k1 = k_data k" "k_locks k1 = chain_lock k i w (hashk key) # k_locks k"
      "same_files db db1" "counters db1 = counters db" "chainoff db1 = int (chain_head (hashk key))"
proof -
  note i = db_invD [OF inv]
  obtain r k1 db1 where f: "db_find_and_lock k db key w = Inr (r, k1, db1)" "kframe k (idxfd db) (datfd db) k1"
    "k_data k1 = k_data k" "k_locks k1 = chain_lock k i w (hashk key) # k_locks k" "same_files db db1"
    "counters db1 = counters db" "chainoff db1 = int (chain_head (hashk key))"
    "case List.find (\<lambda>p. key_at s p = key) (s_chain s (hashk key)) of None \<Rightarrow> r = -1
      | Some x \<Rightarrow> r = 0 \<and> (\<exists>as bs. located s db1 (hashk key) as x bs)"
    using find_and_lock_ok [OF i(1,4,2,3), of key w] by (auto simp: okp_def)
  have fr: "db_frame k db i j k1" using f(2,3) by (simp add: db_frame_def)
  show thesis
  proof (cases "List.find (\<lambda>p. key_at s p = key) (s_chain s (hashk key))")
    case None
    then show ?thesis using f fr find_db_map by (intro missing) auto
  next
    case (Some x)
    then obtain as bs where l: "located s db1 (hashk key) as x bs" "r = 0" using f(8) by auto
    have "key_at s x = key" using find_Some_in [OF Some] by simp
    moreover have "db_map (k_data k j) s key = Some (data_of (k_data k j) (s_rec s x))" using Some by (simp add: db_map_def)
    ultimately show ?thesis using f(1,3-7) l fr by (intro found) auto
  qed
qed

section \<open>Fetching\<close>

lemma fetch_inv:
  assumes inv: "db_inv k db i j s"
  shows "okp (db_fetch k db key) (\<lambda>(r, k', db'). r = db_map (k_data k j) s key \<and> db_inv k' db' i j s \<and>
     k_data k' = k_data k \<and> k_locks k' = k_locks k \<and> db_frame k db i j k' \<and> same_files db db')"
  using inv
proof (cases rule: search_ok [of k db i j s key False])
  case (missing k1 db1)
  note i = db_invD [OF inv]
  let ?db = "db1\<lparr>cnt_fetcherr := cnt_fetcherr db1 + 1\<rparr>"
  have same: "same_files db ?db" using missing(6) by (simp add: handle_defs)
  have un: "must_lock (un_lock k1 (idxfd ?db) (chainoff ?db) SEEK_SET 1) m = Inr (k1\<lparr>k_locks := k_locks k\<rparr>)" for m
    using chain_unlock [OF i(1,3) missing(3,5), of ?db] missing(8) same by (simp add: same_files_def)
  have "db_inv (k1\<lparr>k_locks := k_locks k\<rparr>) ?db i j s"
    by (rule db_invI [OF i(1) _ same]) (use missing(3,4) i(3,4) in simp_all)
  then show ?thesis using missing(1-4) un same by (simp add: db_fetch_def)
next
  case (found k1 db1 as x bs)
  note i = db_invD [OF inv]
  note l = found(2) [unfolded located_def at_record_def]
  have x: "x \<in> set (s_offs s)" using shape_fields(4) [OF i(4) hashk_less [of key]] l by simp
  let ?t = "data_of (k_data k j) (s_rec s x)"
  have d: "dat_ok (k_data k j) (s_rec s x)" "rec_ok (s_rec s x)"
    using shape_okD(10) [OF i(4) x] idx_repD(5) [OF shape_okD(1) [OF i(4)] x] .
  note dl = dat_ok_len [OF d]
  have fds: "idxfd db1 = idxfd db" "datfd db1 = datfd db" "db_wf db1" using found(8) by (auto simp: same_files_def)
  have op1: "opened k1 (idxfd db1) (datfd db1) i j" using db_frame_opened [OF found(5) i(1)] fds by simp
  have pre: "datoff db1 = int (a_off (s_rec s x))" "datlen db1 = length ?t + 1" "length (datbuf db1) = 1026"
    "seg (k_data k1 j) (a_off (s_rec s x)) (length ?t + 1) = ?t @ [NL]" "NUL \<notin> set ?t"
    using l dl fds(3) d(1) found(6) by (simp_all add: db_wf_def dat_ok_def)
  obtain k2 buf where rd: "db_readdat k1 db1 = Inr (?t, k2, db1\<lparr>datbuf := buf\<rparr>)" "quiet k1 (idxfd db) (datfd db) k2"
    "length buf = 1026"
    using readdat_ok [OF op1 pre(1,2) dl(2) pre(3,4,5)] fds by (auto simp: okp_def)
  let ?db = "db1\<lparr>datbuf := buf, cnt_fetchok := cnt_fetchok db1 + 1\<rparr>"
  have same: "same_files db ?db" using found(8) rd(3) by (simp add: handle_defs)
  have k2: "db_frame k db i j k2" "k_data k2 = k_data k" "k_locks k2 = chain_lock k i False (hashk key) # k_locks k"
    using db_frame_trans [OF found(5) db_frame_quiet [OF rd(2)]] rd(2) found(6,7) by (simp_all add: quiet_def)
  have un: "must_lock (un_lock k2 (idxfd ?db) (chainoff ?db) SEEK_SET 1) m = Inr (k2\<lparr>k_locks := k_locks k\<rparr>)" for m
    using chain_unlock [OF i(1,3) k2(1,3), of ?db] found(10) same by (simp add: same_files_def)
  have "db_inv (k2\<lparr>k_locks := k_locks k\<rparr>) ?db i j s"
    by (rule db_invI [OF i(1) _ same]) (use k2(1,2) i(3,4) in simp_all)
  then show ?thesis using found(1,4) rd(1) un same k2(1,2) by (simp add: db_fetch_def)
qed

section \<open>Deleting\<close>

text \<open>The record that \<open>db_delete\<close> frees goes to the head of the free list.\<close>

lemma delete_inv:
  assumes inv: "db_inv k db i j s"
  shows "okp (db_delete k db key) (\<lambda>(r, k', db'). k_locks k' = k_locks k \<and> db_frame k db i j k' \<and> same_files db db' \<and>
     length (k_data k' i) = length (k_data k i) \<and> length (k_data k' j) = length (k_data k j) \<and>
     (case db_map (k_data k j) s key of
        None \<Rightarrow> r = -1 \<and> k_data k' = k_data k \<and> db_inv k' db' i j s
      | Some t \<Rightarrow> r = 0 \<and> (\<exists>s'. db_inv k' db' i j s' \<and> db_map (k_data k' j) s' = (db_map (k_data k j) s)(key := None) \<and>
          (\<exists>x bs. s_free s' = x # bs \<and> slot_fits s' (length key) (length t + 1) x))))"
  using inv
proof (cases rule: search_ok [of k db i j s key True])
  case (missing k1 db1)
  note i = db_invD [OF inv]
  let ?db = "db1\<lparr>cnt_delerr := cnt_delerr db1 + 1\<rparr>"
  have same: "same_files db ?db" using missing(6) by (simp add: handle_defs)
  have un: "must_lock (un_lock k1 (idxfd ?db) (chainoff ?db) SEEK_SET 1) m = Inr (k1\<lparr>k_locks := k_locks k\<rparr>)" for m
    using chain_unlock [OF i(1,3) missing(3,5), of ?db] missing(8) same by (simp add: same_files_def)
  have "db_inv (k1\<lparr>k_locks := k_locks k\<rparr>) ?db i j s"
    by (rule db_invI [OF i(1) _ same]) (use missing(3,4) i(3,4) in simp_all)
  then show ?thesis using missing(1-4) un same by (simp add: db_delete_def)
next
  case (found k1 db1 as x bs)
  note i = db_invD [OF inv]
  let ?h = "hashk key" and ?s = "shape_delete s (hashk key) as x bs"
  have ch: "s_chain s ?h = as @ x # bs" using found(2) by (simp add: located_def at_record_def)
  have x: "x \<in> set (s_offs s)" using shape_fields(4) [OF i(4) hashk_less [of key]] ch by simp
  have fds: "idxfd db1 = idxfd db" "datfd db1 = datfd db" "db_wf db1" using found(8) by (auto simp: same_files_def)
  have op1: "opened k1 (idxfd db1) (datfd db1) i j" using db_frame_opened [OF found(5) i(1)] fds by simp
  have ok1: "shape_ok (k_data k1 i) (k_data k1 j) s" using i(4) found(6) by simp
  have free: "no_overlap (k_locks k1) i 0 (Some 1)" using chain_lock_apart(1) [OF i(3,5) hashk_less] found(7) by simp
  obtain k2 db2 where d: "db_dodelete k1 db1 = Inr (k2, db2)" "db_frame k1 db1 i j k2" "k_locks k2 = k_locks k1"
    "same_handle db1 db2" "length (k_data k2 i) = length (k_data k1 i)" "shape_ok (k_data k2 i) (k_data k2 j) ?s"
    "db_map (k_data k2 j) ?s = (db_map (k_data k1 j) s)(key_at s x := None)" "length (k_data k2 j) = length (k_data k1 j)"
    using dodelete_ok [OF op1 ok1 fds(3) hashk_less found(2) free] by (auto simp: okp_def)
  let ?db = "db2\<lparr>cnt_delok := cnt_delok db2 + 1\<rparr>"
  have same: "same_files db ?db" "chainoff ?db = int (chain_head ?h)" using d(4) fds found(10) by (simp_all add: handle_defs)
  have k2: "db_frame k db i j k2" "k_locks k2 = chain_lock k i True ?h # k_locks k"
    using db_frame_trans [OF found(5)] d(2,3) found(7) fds by (simp_all add: db_frame_def)
  have un: "must_lock (un_lock k2 (idxfd ?db) (chainoff ?db) SEEK_SET 1) m = Inr (k2\<lparr>k_locks := k_locks k\<rparr>)" for m
    using chain_unlock [OF i(1,3) k2 same(2)] same by (simp add: same_files_def)
  have inv': "db_inv (k2\<lparr>k_locks := k_locks k\<rparr>) ?db i j ?s"
    by (rule db_invI [OF i(1) _ same(1)]) (use k2(1) d(6) i(3) in simp_all)
  have sl: "s_free ?s = x # s_free s" "slot_fits ?s (length key) (length (data_of (k_data k j) (s_rec s x)) + 1) x"
    using dat_ok_len(1) [OF shape_okD(10) [OF i(4) x] idx_repD(5) [OF shape_okD(1) [OF i(4)] x]] found(3)
    by (simp_all add: shape_delete_def)
  show ?thesis
    using found(1,3,4,6) d(1,5,7,8) un same k2(1) inv' sl by (auto simp: db_delete_def intro!: exI [of _ ?s])
qed

section \<open>Storing\<close>

lemma find_fits:
  assumes "List.find (slot_fits s kl dl) (s_free s) = Some x"
  shows "length (key_at s x) = kl" "a_len (s_rec s x) = dl"
  using find_Some_in [OF assms] by simp_all

text \<open>A key that is not there: a fitting free record is reused, else both files grow.\<close>

lemma store_new_ok:
  assumes op: "opened k (idxfd db) (datfd db) i j" and ok: "shape_ok (k_data k i) (k_data k j) s" and wf: "db_wf db"
    and co: "chainoff db = int (chain_head (hashk key))" and st: "storable (length (k_data k j)) key data"
    and new: "db_map (k_data k j) s key = None" and cap: "length (k_data k i) \<le> 999999"
    and lk: "k_locks k = chain_lock k0 i True (hashk key) # ls" "idle ls i j"
  shows "okp (db_store_new k db key data) (\<lambda>(k', db'). db_frame k db i j k' \<and> k_locks k' = k_locks k \<and>
     same_files db db' \<and> chainoff db' = chainoff db \<and>
     length (k_data k' i) \<le> length (k_data k i) + 1034 \<and> length (k_data k' j) \<le> length (k_data k j) + 1024 \<and>
     (\<exists>s'. shape_ok (k_data k' i) (k_data k' j) s' \<and> db_map (k_data k' j) s' = (db_map (k_data k j) s)(key \<mapsto> data)) \<and>
     (List.find (slot_fits s (length key) (length data + 1)) (s_free s) \<noteq> None \<longrightarrow>
        length (k_data k' i) = length (k_data k i) \<and> length (k_data k' j) = length (k_data k j)))"
proof -
  let ?a = "idxfd db" and ?b = "datfd db" and ?h = "hashk key" and ?kl = "length key" and ?dl = "length data + 1"
  have ij: "i \<noteq> j" using op by (simp add: opened_def)
  have hl: "?h < 137" by (rule hashk_less)
  have key: "SEP \<notin> set key" "NUL \<notin> set key" "\<not> blank key" "NUL \<notin> set data" using st by (auto simp: storable_def)
  obtain k1 where s1: "db_readptr k db (int (chain_head ?h)) = Inr (int (s_ptr s (chain_head ?h)), k1)" "quiet k ?a ?b k1"
    using readptr_ok [OF op shape_okD(1) [OF ok] shape_fields(2) [OF ok hl]] by (auto simp: okp_def)
  have k1: "opened k1 ?a ?b i j" "k_data k1 = k_data k" "k_locks k1 = k_locks k"
    using quiet_opened [OF s1(2) op] s1(2) by (simp_all add: quiet_def)
  have free: "no_overlap (k_locks k1) i 0 (Some 1)" "no_overlap (k_locks k) i HDR None" "no_overlap (k_locks k) j 0 None"
    using chain_lock_apart [OF lk(2) ij hl] lk(1) k1(3) by simp_all
  have ok1: "shape_ok (k_data k1 i) (k_data k1 j) s" using ok k1(2) by simp
  obtain rc k2 db2 where s2: "db_findfree k1 db ?kl ?dl = Inr (rc, k2, db2)" "db_frame k1 db i j k2" "k_locks k2 = k_locks k1"
    "k_data k2 j = k_data k1 j" "same_handle db db2" "length (k_data k2 i) = length (k_data k1 i)"
    "case List.find (slot_fits s ?kl ?dl) (s_free s) of None \<Rightarrow> rc = -1 \<and> k_data k2 = k_data k1
      | Some x \<Rightarrow> rc = 0 \<and> (\<exists>as bs. free_at s db2 as x bs \<and>
          idx_rep (k_data k2 i) ((s_ptr s)(cf.prev_field 0 as := s_ptr s x)) (s_rec s) (s_offs s))"
    using findfree_ok [OF k1(1) ok1 wf free(1), of ?kl ?dl] by (auto simp: okp_def)
  have d2: "idxfd db2 = ?a" "datfd db2 = ?b" "db_wf db2" "chainoff db2 = chainoff db" using s2(5) by (auto simp: handle_defs)
  have op2: "opened k2 (idxfd db2) (datfd db2) i j" using db_frame_opened [OF s2(2) k1(1)] d2 by simp
  have fr2: "db_frame k db i j k2" using db_frame_trans [OF db_frame_quiet [OF s1(2)] s2(2)] .
  show ?thesis
  proof (cases "List.find (slot_fits s ?kl ?dl) (s_free s)")
    case None
    let ?r = "new_rec key (length (k_data k j)) data"
    have k2: "rc = -1" "k_data k2 = k_data k" "k_locks k2 = k_locks k" using None s2(3,7) k1 by simp_all
    have "okp (db_append k2 db2 key data (int (s_ptr s (chain_head ?h)))) (\<lambda>(k', db').
       db_frame k2 db2 i j k' \<and> k_locks k' = k_locks k2 \<and> same_handle db2 db' \<and>
       length (k_data k' i) = length (k_data k2 i) + rec_size ?r \<and> k_data k' j = k_data k2 j @ data @ [NL] \<and>
       shape_ok (k_data k' i) (k_data k' j) (shape_append s ?h (length (k_data k2 i)) ?r) \<and>
       db_map (k_data k' j) (shape_append s ?h (length (k_data k2 i)) ?r) = (db_map (k_data k2 j) s)(key \<mapsto> data))"
      by (rule append_ok [OF op2]) (use ok d2 co new cap free key k2 storable_rec [OF st] in simp_all)
    then obtain k3 db3 where s3: "db_append k2 db2 key data (int (s_ptr s (chain_head ?h))) = Inr (k3, db3)"
      "db_frame k2 db2 i j k3" "k_locks k3 = k_locks k2" "same_handle db2 db3"
      "length (k_data k3 i) = length (k_data k2 i) + rec_size ?r" "length (k_data k3 j) = length (k_data k2 j) + length data + 1"
      "\<exists>s'. shape_ok (k_data k3 i) (k_data k3 j) s' \<and> db_map (k_data k3 j) s' = (db_map (k_data k2 j) s)(key \<mapsto> data)"
      by (auto simp: okp_def) blast
    have "db_frame k db i j k3" using db_frame_trans [OF fr2] s3(2) d2 by (simp add: db_frame_def)
    moreover have "same_files db (db3\<lparr>cnt_stor1 := cnt_stor1 db3 + 1\<rparr>)" "chainoff db3 = chainoff db"
      using s3(4) d2 by (simp_all add: handle_defs)
    moreover have "length (k_data k3 i) \<le> length (k_data k i) + 1034" "length (k_data k3 j) \<le> length (k_data k j) + 1024"
      using s3(5,6) k2(2) rec_size_le [OF storable_rec [OF st]] st by (simp_all add: storable_def)
    ultimately show ?thesis using s1(1) s2(1) s3(1,3,7) k2 co None by (simp add: db_store_new_def)
  next
    case (Some x)
    then obtain as bs where x: "rc = 0" "free_at s db2 as x bs"
      "idx_rep (k_data k2 i) ((s_ptr s)(cf.prev_field 0 as := s_ptr s x)) (s_rec s) (s_offs s)" using s2(7) by auto
    note fit = find_fits [OF Some]
    have ok2: "shape_ok (k_data k i) (k_data k2 j) s" "db_map (k_data k2 j) s key = None" "chainoff db2 = int (chain_head ?h)"
      using ok s2(4) k1(2) new d2(4) co by simp_all
    from reuse_ok [OF op2 ok2(1) d2(3) refl ok2(3) x(2,3) refl _ _ key ok2(2)] fit
    obtain k3 db3 where s3: "db_reuse k2 db2 key data (int (s_ptr s (chain_head ?h))) = Inr (k3, db3)"
      "db_frame k2 db2 i j k3" "k_locks k3 = k_locks k2" "same_handle db2 db3"
      "length (k_data k3 i) = length (k_data k2 i)" "length (k_data k3 j) = length (k_data k2 j)"
      "\<exists>s'. shape_ok (k_data k3 i) (k_data k3 j) s' \<and> db_map (k_data k3 j) s' = (db_map (k_data k2 j) s)(key \<mapsto> data)"
      by (auto simp: okp_def)
    have "db_frame k db i j k3" using db_frame_trans [OF fr2] s3(2) d2 by (simp add: db_frame_def)
    moreover have "same_files db (db3\<lparr>cnt_stor2 := cnt_stor2 db3 + 1\<rparr>)" "chainoff db3 = chainoff db"
      using s3(4) d2 by (simp_all add: handle_defs)
    ultimately show ?thesis
      using s1(1) s2(1,3,4,6) s3(1,3,5,6,7) k1(2,3) x(1) co by (simp add: db_store_new_def)
  qed
qed

text \<open>
  A key that is there: data of the same length is overwritten in place, else the old record
  is freed and a new one appended.
\<close>

lemma store_old_same:
  assumes op: "opened k (idxfd db) (datfd db) i j" and ok: "shape_ok (k_data k i) (k_data k j) s" and wf: "db_wf db"
    and st: "storable (length (k_data k j)) key data" and loc: "located s db (hashk key) as x bs" "key_at s x = key"
    and len: "length data + 1 = a_len (s_rec s x)"
  shows "okp (db_store_old k db key data) (\<lambda>(k', db'). db_frame k db i j k' \<and> k_locks k' = k_locks k \<and>
     same_files db db' \<and> chainoff db' = chainoff db \<and> length (k_data k' j) = length (k_data k j) \<and> k_data k' i = k_data k i \<and>
     shape_ok (k_data k' i) (k_data k' j) s \<and> db_map (k_data k' j) s = (db_map (k_data k j) s)(key \<mapsto> data))"
proof -
  have hl: "hashk key < 137" by (rule hashk_less)
  note l = loc(1) [unfolded located_def at_record_def]
  have ij: "i \<noteq> j" using op by (simp add: opened_def)
  have x: "x \<in> set (s_chain s (hashk key))" "x \<in> set (s_offs s)" using l shape_fields(4) [OF ok hl] by auto
  have dn: "NUL \<notin> set data" using st by (simp add: storable_def)
  have q: "a_off (s_rec s x) \<le> length (k_data k j)" using shape_okD(10) [OF ok x(2)] by (simp add: dat_ok_def)
  let ?db = "db\<lparr>datoff := int (a_off (s_rec s x)), datlen := length data + 1\<rparr>"
  let ?dat = "patch (k_data k j) (a_off (s_rec s x)) (data @ [NL])"
  obtain k1 where s1: "db_writedat k db data (datoff db) SEEK_SET = Inr (k1, ?db)" "wrote k (idxfd db) (datfd db) j ?dat k1"
    using writedat_set_ok [OF op q, of data] l by (auto simp: okp_def)
  have k1: "k_data k1 i = k_data k i" "k_data k1 j = ?dat" "k_locks k1 = k_locks k" using s1(2) ij by (simp_all add: wrote_def)
  have dl: "length ?dat = length (k_data k j)" by (rule overwrite_data(6) [OF ok x(2) len dn])
  note sh = shape_overwrite_ok [OF ok hl x(1) len dn]
  have same: "same_files db (?db\<lparr>cnt_stor4 := cnt_stor4 ?db + 1\<rparr>)" using wf by (simp add: handle_defs)
  show ?thesis
    using s1(1) l len k1 sh loc(2) db_frame_wrote [OF s1(2), of i j] dl same by (simp add: db_store_old_def)
qed

lemma store_old_moved:
  assumes op: "opened k (idxfd db) (datfd db) i j" and ok: "shape_ok (k_data k i) (k_data k j) s" and wf: "db_wf db"
    and co: "chainoff db = int (chain_head (hashk key))" and st: "storable (length (k_data k j)) key data"
    and loc: "located s db (hashk key) as x bs" "key_at s x = key" and cap: "length (k_data k i) \<le> 999999"
    and lk: "k_locks k = chain_lock k0 i True (hashk key) # ls" "idle ls i j" and len: "length data + 1 \<noteq> a_len (s_rec s x)"
  shows "okp (db_store_old k db key data) (\<lambda>(k', db'). db_frame k db i j k' \<and> k_locks k' = k_locks k \<and>
     same_files db db' \<and> chainoff db' = chainoff db \<and>
     length (k_data k' i) \<le> length (k_data k i) + 1034 \<and> length (k_data k' j) \<le> length (k_data k j) + 1024 \<and>
     (\<exists>s'. shape_ok (k_data k' i) (k_data k' j) s' \<and> db_map (k_data k' j) s' = (db_map (k_data k j) s)(key \<mapsto> data)))"
proof -
  let ?h = "hashk key" and ?s = "shape_delete s (hashk key) as x bs" and ?c = "chain_head (hashk key)"
  have hl: "?h < 137" by (rule hashk_less)
  have ij: "i \<noteq> j" using op by (simp add: opened_def)
  have key: "\<not> blank key" "NUL \<notin> set data" using st by (auto simp: storable_def)
  have free: "no_overlap (k_locks k) i 0 (Some 1)" "no_overlap (k_locks k) i HDR None" "no_overlap (k_locks k) j 0 None"
    using chain_lock_apart [OF lk(2) ij hl] lk(1) by simp_all
  obtain k1 db1 where d: "db_dodelete k db = Inr (k1, db1)" "db_frame k db i j k1" "k_locks k1 = k_locks k"
    "same_handle db db1" "length (k_data k1 i) = length (k_data k i)" "shape_ok (k_data k1 i) (k_data k1 j) ?s"
    "db_map (k_data k1 j) ?s = (db_map (k_data k j) s)(key := None)" "length (k_data k1 j) = length (k_data k j)"
    using dodelete_ok [OF op ok wf hl loc(1) free(1)] loc(2) by (auto simp: okp_def)
  have d1: "idxfd db1 = idxfd db" "datfd db1 = datfd db" "db_wf db1" "chainoff db1 = int ?c"
    using d(4) co by (auto simp: handle_defs)
  have op1: "opened k1 (idxfd db1) (datfd db1) i j" using db_frame_opened [OF d(2) op] d1 by simp
  obtain k2 where r: "db_readptr k1 db1 (int ?c) = Inr (int (s_ptr ?s ?c), k2)" "quiet k1 (idxfd db1) (datfd db1) k2"
    using readptr_ok [OF op1 shape_okD(1) [OF d(6)] shape_fields(2) [OF d(6) hl]] by (auto simp: okp_def)
  have op2: "opened k2 (idxfd db1) (datfd db1) i j" using quiet_opened [OF r(2) op1] .
  have k2: "k_data k2 = k_data k1" "k_locks k2 = k_locks k" using r(2) d(3) by (simp_all add: quiet_def)
  let ?r = "new_rec key (length (k_data k2 j)) data" and ?x = "length (k_data k2 i)"
  have "okp (db_append k2 db1 key data (int (s_ptr ?s ?c))) (\<lambda>(k', db').
       db_frame k2 db1 i j k' \<and> k_locks k' = k_locks k2 \<and> same_handle db1 db' \<and>
       length (k_data k' i) = ?x + rec_size ?r \<and> k_data k' j = k_data k2 j @ data @ [NL] \<and>
       shape_ok (k_data k' i) (k_data k' j) (shape_append ?s ?h ?x ?r) \<and>
       db_map (k_data k' j) (shape_append ?s ?h ?x ?r) = (db_map (k_data k2 j) ?s)(key \<mapsto> data))"
    by (rule append_ok [OF op2]) (use d d1 cap free key k2 storable_rec [OF st] in simp_all)
  then obtain k3 db3 where s3: "db_append k2 db1 key data (int (s_ptr ?s ?c)) = Inr (k3, db3)"
    "db_frame k2 db1 i j k3" "k_locks k3 = k_locks k2" "same_handle db1 db3"
    "length (k_data k3 i) = ?x + rec_size ?r" "length (k_data k3 j) = length (k_data k2 j) + length data + 1"
    "\<exists>s'. shape_ok (k_data k3 i) (k_data k3 j) s' \<and> db_map (k_data k3 j) s' = (db_map (k_data k2 j) ?s)(key \<mapsto> data)"
    by (auto simp: okp_def) blast
  have "db_frame k1 db i j k3" using db_frame_trans [OF db_frame_quiet [OF r(2)] s3(2)] d1 by (simp add: db_frame_def)
  then have fr: "db_frame k db i j k3" by (rule db_frame_trans [OF d(2)])
  have same: "same_files db (db3\<lparr>cnt_stor3 := cnt_stor3 db3 + 1\<rparr>)" "chainoff db3 = chainoff db"
    using s3(4) d1 co by (simp_all add: handle_defs)
  have "db_store_old k db key data = Inr (k3, db3\<lparr>cnt_stor3 := cnt_stor3 db3 + 1\<rparr>)"
    using loc(1) len d(1) r(1) s3(1) d1(4) by (simp add: db_store_old_def located_def at_record_def)
  moreover have "length (k_data k3 i) \<le> length (k_data k i) + 1034" "length (k_data k3 j) \<le> length (k_data k j) + 1024"
    using s3(5,6) k2(1) d(5,8) rec_size_le [OF storable_rec [OF st]] st by (simp_all add: storable_def)
  ultimately show ?thesis using fr s3(3,7) k2 same d(7) by simp
qed

lemma store_inv:
  assumes inv: "db_inv k db i j s" and st: "storable (length (k_data k j)) key data" and cap: "length (k_data k i) \<le> 999999"
    and fl: "flag = DB_INSERT \<or> flag = DB_REPLACE \<or> flag = DB_STORE"
  shows "okp (db_store k db key data flag) (\<lambda>(r, k', db'). k_locks k' = k_locks k \<and> db_frame k db i j k' \<and> same_files db db' \<and>
     (\<exists>s'. db_inv k' db' i j s' \<and> (r, db_map (k_data k' j) s') = spec_store (db_map (k_data k j) s) key data flag) \<and>
     (r = -1 \<longrightarrow> k_errno k' = ENOENT) \<and>
     length (k_data k' i) \<le> length (k_data k i) + 1034 \<and> length (k_data k' j) \<le> length (k_data k j) + 1024 \<and>
     (db_map (k_data k j) s key = None \<longrightarrow> List.find (slot_fits s (length key) (length data + 1)) (s_free s) \<noteq> None \<longrightarrow>
        length (k_data k' i) = length (k_data k i) \<and> length (k_data k' j) = length (k_data k j)))"
proof -
  note i = db_invD [OF inv]
  have len: "\<not> (length data + 1 < DATLEN_MIN \<or> length data + 1 > DATLEN_MAX)" using st by (auto simp: storable_def)
  have fl': "\<not> (flag \<noteq> DB_INSERT \<and> flag \<noteq> DB_REPLACE \<and> flag \<noteq> DB_STORE)" using fl by blast
  have start: "db_store k db key data flag = res_bind (db_find_and_lock k db key True) (\<lambda>(r, k, db).
      res_bind
        (if r < 0
         then (if flag = DB_REPLACE
               then Inr (-1, k\<lparr>k_errno := ENOENT\<rparr>, db\<lparr>cnt_storerr := cnt_storerr db + 1\<rparr>)
               else res_bind (db_store_new k db key data) (\<lambda>(k, db). Inr (0, k, db)))
         else (if flag = DB_INSERT
               then Inr (1, k, db\<lparr>cnt_storerr := cnt_storerr db + 1\<rparr>)
               else res_bind (db_store_old k db key data) (\<lambda>(k, db). Inr (0, k, db)))) (\<lambda>(rc, k, db).
      res_bind (must_lock (un_lock k (idxfd db) (chainoff db) SEEK_SET 1) ''db_store: un_lock error'') (\<lambda>k.
      Inr (rc, k, db))))"
    unfolding db_store_def if_not_P [OF fl'] if_not_P [OF len] ..
  have fin: "must_lock (un_lock k2 (idxfd db2) (chainoff db2) SEEK_SET 1) m = Inr (k2\<lparr>k_locks := k_locks k\<rparr>)"
    if "db_frame k db i j k2" "k_locks k2 = chain_lock k i True (hashk key) # k_locks k" "same_files db db2"
      "chainoff db2 = int (chain_head (hashk key))" for k2 db2 m
    using chain_unlock [OF i(1,3) that(1,2,4)] that(3) by (simp add: same_files_def)
  have keep: "db_inv (k2\<lparr>k_locks := k_locks k\<rparr>) db2 i j s2"
    if "db_frame k db i j k2" "same_files db db2" "shape_ok (k_data k2 i) (k_data k2 j) s2" for k2 db2 s2
    by (rule db_invI [OF i(1) _ that(2)]) (use that i(3) in simp_all)
  show ?thesis
    using inv
  proof (cases rule: search_ok [of k db i j s key True])
    case (missing k1 db1)
    have fds: "idxfd db1 = idxfd db" "datfd db1 = datfd db" "db_wf db1" using missing(6) by (auto simp: same_files_def)
    have op1: "opened k1 (idxfd db1) (datfd db1) i j" using db_frame_opened [OF missing(3) i(1)] fds by simp
    show ?thesis
    proof (cases "flag = DB_REPLACE")
      case True
      let ?k = "k1\<lparr>k_errno := ENOENT\<rparr>" and ?db = "db1\<lparr>cnt_storerr := cnt_storerr db1 + 1\<rparr>"
      have f: "db_frame k db i j ?k" "same_files db ?db" "chainoff ?db = int (chain_head (hashk key))"
        "k_locks ?k = chain_lock k i True (hashk key) # k_locks k" "shape_ok (k_data ?k i) (k_data ?k j) s"
        using missing i(4) by (simp_all add: handle_defs db_frame_def)
      show ?thesis
        unfolding start using missing(1,2,4) True fin [OF f(1,4,2,3)] f keep [OF f(1,2,5)]
        by (auto simp: spec_store_def)
    next
      case False
      have ok1: "shape_ok (k_data k1 i) (k_data k1 j) s" "storable (length (k_data k1 j)) key data"
        "db_map (k_data k1 j) s key = None" "length (k_data k1 i) \<le> 999999" using i(4) st missing(2,4) cap by simp_all
      obtain k2 db2 s2 where n: "db_store_new k1 db1 key data = Inr (k2, db2)" "db_frame k1 db1 i j k2" "k_locks k2 = k_locks k1"
        "same_files db1 db2" "chainoff db2 = chainoff db1" "shape_ok (k_data k2 i) (k_data k2 j) s2"
        "db_map (k_data k2 j) s2 = (db_map (k_data k1 j) s)(key \<mapsto> data)"
        "length (k_data k2 i) \<le> length (k_data k1 i) + 1034" "length (k_data k2 j) \<le> length (k_data k1 j) + 1024"
        "List.find (slot_fits s (length key) (length data + 1)) (s_free s) \<noteq> None \<longrightarrow>
           length (k_data k2 i) = length (k_data k1 i) \<and> length (k_data k2 j) = length (k_data k1 j)"
        using store_new_ok [OF op1 ok1(1) fds(3) missing(8) ok1(2,3,4) missing(5) i(3)] unfolding okp_def by blast
      have f: "db_frame k db i j k2" "same_files db db2"
        using db_frame_trans [OF missing(3)] n(2,4) fds by (simp_all add: db_frame_def same_files_def)
      show ?thesis
        unfolding start using missing(1,2,4,5,8) False n(1,3,5,7-10) fin [OF f(1) _ f(2)] f keep [OF f n(6)]
        by (auto simp: spec_store_def intro!: exI [of _ s2])
    qed
  next
    case (found k1 db1 as x bs)
    have fds: "idxfd db1 = idxfd db" "datfd db1 = datfd db" "db_wf db1" using found(8) by (auto simp: same_files_def)
    have op1: "opened k1 (idxfd db1) (datfd db1) i j" using db_frame_opened [OF found(5) i(1)] fds by simp
    show ?thesis
    proof (cases "flag = DB_INSERT")
      case True
      let ?db = "db1\<lparr>cnt_storerr := cnt_storerr db1 + 1\<rparr>"
      have f: "db_frame k db i j k1" "same_files db ?db" "chainoff ?db = int (chain_head (hashk key))"
        "k_locks k1 = chain_lock k i True (hashk key) # k_locks k" "shape_ok (k_data k1 i) (k_data k1 j) s"
        using found i(4) by (simp_all add: handle_defs)
      show ?thesis
        unfolding start using found(1,4,6) True fin [OF f(1,4,2,3)] f keep [OF f(1,2,5)]
        by (auto simp: spec_store_def)
    next
      case False
      have ok1: "shape_ok (k_data k1 i) (k_data k1 j) s" "storable (length (k_data k1 j)) key data"
        "length (k_data k1 i) \<le> 999999" using i(4) st found(6) cap by simp_all
      obtain k2 db2 s2 where n: "db_store_old k1 db1 key data = Inr (k2, db2)" "db_frame k1 db1 i j k2" "k_locks k2 = k_locks k1"
        "same_files db1 db2" "chainoff db2 = chainoff db1" "shape_ok (k_data k2 i) (k_data k2 j) s2"
        "db_map (k_data k2 j) s2 = (db_map (k_data k1 j) s)(key \<mapsto> data)"
        "length (k_data k2 i) \<le> length (k_data k1 i) + 1034" "length (k_data k2 j) \<le> length (k_data k1 j) + 1024"
      proof (cases "length data + 1 = a_len (s_rec s x)")
        case True
        show ?thesis
          using store_old_same [OF op1 ok1(1) fds(3) ok1(2) found(2,3) True] that [where ?s2.0 = s] by (auto simp: okp_def)
      next
        case False
        show ?thesis
          using store_old_moved [OF op1 ok1(1) fds(3) found(10) ok1(2) found(2,3) ok1(3) found(7) i(3) False] that
          unfolding okp_def by blast
      qed
      have f: "db_frame k db i j k2" "same_files db db2"
        using db_frame_trans [OF found(5)] n(2,4) fds by (simp_all add: db_frame_def same_files_def)
      show ?thesis
        unfolding start using found(1,4,6,7,10) False n(1,3,5,7-9) fin [OF f(1) _ f(2)] f keep [OF f n(6)]
        by (auto simp: spec_store_def intro!: exI [of _ s2])
    qed
  qed
qed

end
