(* ===== verification/Db_Scan.thy ===== *)
theory Db_Scan
  imports Db_Refine
begin

text \<open>
  Sequential access, creation and reopening.  \<open>db_rewind\<close> and \<open>db_nextrec\<close> walk the index
  file in the order of its records, free ones skipped; a full walk meets every entry of the
  map once.  A database created by \<open>db_open\<close> is empty, and one opened again holds what the
  files held.
\<close>

section \<open>Walking the index file\<close>

text \<open>The index file is positioned at the records \<open>todo\<close>, which reach to its end.\<close>

definition scan_at :: "kernel \<Rightarrow> DB \<Rightarrow> nat \<Rightarrow> shape \<Rightarrow> nat list \<Rightarrow> bool" where
  "scan_at k db i s todo \<longleftrightarrow> set todo \<subseteq> set (s_offs s) \<and>
     layout (s_rec s) (fd_pos k (idxfd db)) todo (length (k_data k i))"

definition entry_of :: "bytes \<Rightarrow> shape \<Rightarrow> nat \<Rightarrow> string \<times> string" where
  "entry_of dat s p = (key_at s p, data_of dat (s_rec s p))"

definition live :: "shape \<Rightarrow> nat \<Rightarrow> bool" where
  "live s p \<longleftrightarrow> \<not> blank (key_at s p)"

lemma blank_dropWhile: "dropWhile (\<lambda>c. c = SPACE) key = [] \<longleftrightarrow> blank key"
  by (auto simp: blank_def dropWhile_eq_Nil_conv)

declare dropWhile_eq_Nil_conv [simp del]

lemma next_loop_ok:
  assumes "opened k (idxfd db) (datfd db) i j" "shape_ok (k_data k i) dat s" "db_wf db" "scan_at k db i s todo" "length todo < n"
  shows "okp (db_next_loop n k db) (\<lambda>(found, k', db'). quiet k (idxfd db) (datfd db) k' \<and> same_handle db db' \<and>
     (case dropWhile (\<lambda>p. \<not> live s p) todo of
        [] \<Rightarrow> \<not> found \<and> scan_at k' db i s []
      | x # rest \<Rightarrow> found \<and> scan_at k' db i s rest \<and> cstr (idxbuf db') = key_at s x \<and>
          datoff db' = int (a_off (s_rec s x)) \<and> datlen db' = a_len (s_rec s x)))"
  using assms
proof (induction todo arbitrary: n k db)
  case Nil
  then obtain m where n: "n = Suc m" by (cases n) auto
  have pos: "fd_pos k (idxfd db) = length (k_data k i)" using Nil(4) by (simp add: scan_at_def)
  obtain k1 where rd: "db_readidx k db 0 = Inr (-1, k1, db\<lparr>idxoff := int (fd_pos k (idxfd db))\<rparr>)"
    "quiet k (idxfd db) (datfd db) k1" "fd_pos k1 (idxfd db) = length (k_data k i)"
    using readidx_eof [OF Nil(1) pos] by (auto simp: okp_def)
  then show ?case
    using Nil(3) quiet_data [OF rd(2)] by (simp add: n scan_at_def handle_defs)
next
  case (Cons x xs)
  note rep = shape_okD(1) [OF Cons(3)]
  from Cons(6) obtain m where n: "n = Suc m" "length xs < m" by (cases n) auto
  have x: "x \<in> set (s_offs s)" "fd_pos k (idxfd db) = x"
    "layout (s_rec s) (x + rec_size (s_rec s x)) xs (length (k_data k i))" "set xs \<subseteq> set (s_offs s)"
    using Cons(5) by (auto simp: scan_at_def)
  have buf: "length (idxbuf db) = 1026" using Cons(4) by (simp add: db_wf_def)
  obtain k1 b where rd: "db_readidx k db 0 = Inr (int (s_ptr s x), k1, loaded db x (s_ptr s x) (s_rec s x) b)"
    "quiet k (idxfd db) (datfd db) k1" "cstr b = key_at s x" "length b = 1026"
    "fd_pos k1 (idxfd db) = x + rec_size (s_rec s x)"
    using readidx_ok [OF Cons(2) rep x(1) buf, of 0] x(2) by (auto simp: okp_def)
  let ?db = "loaded db x (s_ptr s x) (s_rec s x) b"
  have same: "same_handle db ?db" using Cons(4) rd(4) by (simp add: handle_defs loaded_def)
  have at: "scan_at k1 db i s xs" using x(3,4) rd(5) quiet_data [OF rd(2)] by (simp add: scan_at_def)
  show ?case
  proof (cases "live s x")
    case True
    then have "dropWhile (\<lambda>c. c = SPACE) (key_at s x) \<noteq> []" using blank_dropWhile by (simp add: live_def)
    then have "db_next_loop n k db = Inr (True, k1, ?db)"
      using rd by (simp add: n loaded_def)
    with True rd same at show ?thesis by (simp add: loaded_def)
  next
    case False
    then have "dropWhile (\<lambda>c. c = SPACE) (key_at s x) = []" using blank_dropWhile by (simp add: live_def)
    then have eq: "db_next_loop n k db = db_next_loop m k1 ?db"
      using rd by (simp add: n loaded_def)
    have f: "idxfd ?db = idxfd db" "datfd ?db = datfd db" by (simp_all add: loaded_def)
    have pre: "opened k1 (idxfd ?db) (datfd ?db) i j" "shape_ok (k_data k1 i) dat s" "db_wf ?db" "scan_at k1 ?db i s xs"
      using quiet_opened [OF rd(2) Cons(2)] quiet_data [OF rd(2)] Cons(3) same at f
      by (simp_all add: scan_at_def same_handle_def same_files_def)
    have s: "scan_at k' ?db i s ys = scan_at k' db i s ys" for k' ys by (simp add: scan_at_def f)
    have dw: "dropWhile (\<lambda>p. \<not> live s p) (x # xs) = dropWhile (\<lambda>p. \<not> live s p) xs" using False by simp
    show ?thesis
      unfolding eq dw
      by (rule okp_mono [OF Cons.IH [OF pre n(2), unfolded s f]])
        (use same_handle_trans [OF same] quiet_trans [OF rd(2)] in auto)
  qed
qed

lemma nextrec_inv:
  assumes inv: "db_inv k db i j s" and at: "scan_at k db i s todo"
  shows "okp (db_nextrec k db) (\<lambda>(r, k', db'). db_inv k' db' i j s \<and> k_data k' = k_data k \<and> k_locks k' = k_locks k \<and>
     db_frame k db i j k' \<and> same_files db db' \<and>
     (case dropWhile (\<lambda>p. \<not> live s p) todo of
        [] \<Rightarrow> r = None \<and> scan_at k' db' i s []
      | x # rest \<Rightarrow> r = Some (entry_of (k_data k j) s x) \<and> scan_at k' db' i s rest))"
proof -
  note i = db_invD [OF inv]
  let ?a = "idxfd db" and ?b = "datfd db" and ?L = "lock_ent (k_pid k) i False 0 (Some 1) # k_locks k"
  let ?k = "k\<lparr>k_locks := ?L\<rparr>"
  note lk = free_locked [OF i(1) idle_no_overlap(1) [OF i(3)]]
  have pos: "fd_pos ?k ?a = fd_pos k ?a" by (simp add: fd_pos_def)
  have pre: "opened ?k ?a ?b i j" "shape_ok (k_data ?k i) (k_data k j) s" "scan_at ?k db i s todo"
    using i(1,4) at pos by (simp_all add: scan_at_def)
  have "length todo < idx_fuel ?k db"
    using length_layout [of "s_rec s" "fd_pos k ?a" todo "length (k_data k i)"] at idx_fuel_eq [OF pre(1)]
    by (simp add: scan_at_def)
  from next_loop_ok [OF pre(1,2) i(2) pre(3) this] obtain found k1 db1 where
    lp: "db_next_loop (idx_fuel ?k db) ?k db = Inr (found, k1, db1)" "quiet ?k ?a ?b k1" "same_handle db db1"
    "case dropWhile (\<lambda>p. \<not> live s p) todo of
        [] \<Rightarrow> \<not> found \<and> scan_at k1 db i s []
      | x # rest \<Rightarrow> found \<and> scan_at k1 db i s rest \<and> cstr (idxbuf db1) = key_at s x \<and>
          datoff db1 = int (a_off (s_rec s x)) \<and> datlen db1 = a_len (s_rec s x)" by (auto simp: okp_def)
  have d1: "idxfd db1 = ?a" "datfd db1 = ?b" "db_wf db1" "same_files db db1" using lp(3) by (auto simp: handle_defs)
  have k1: "db_frame k db i j k1" "k_locks k1 = ?L" "k_data k1 = k_data k" "opened k1 ?a ?b i j"
    using db_frame_quiet [OF lp(2), of i j] lp(2) quiet_opened [OF lp(2) pre(1)] by (simp_all add: quiet_def)
  have fin: "fd_pos (k2\<lparr>k_locks := l\<rparr>) fd = fd_pos k2 fd" for k2 l fd by (simp add: fd_pos_def)
  show ?thesis
  proof (cases "dropWhile (\<lambda>p. \<not> live s p) todo")
    case Nil
    have "db_inv (k1\<lparr>k_locks := k_locks k\<rparr>) db1 i j s"
      by (rule db_invI [OF i(1) _ d1(4)]) (use k1 i(3,4) in simp_all)
    then show ?thesis
      using lk(2) lp(1,4) Nil lk(3) [OF k1(1,2)] d1 k1(1,3) by (simp add: db_nextrec_def scan_at_def fin)
  next
    case (Cons x rest)
    let ?t = "data_of (k_data k j) (s_rec s x)"
    have x: "x \<in> set (s_offs s)"
      using Cons at set_dropWhileD [of x "\<lambda>p. \<not> live s p" todo] by (auto simp: scan_at_def)
    have d: "dat_ok (k_data k j) (s_rec s x)" "rec_ok (s_rec s x)"
      using shape_okD(10) [OF i(4) x] idx_repD(5) [OF shape_okD(1) [OF i(4)] x] .
    note dl = dat_ok_len [OF d]
    have f: "found" "scan_at k1 db i s rest" "cstr (idxbuf db1) = key_at s x" "datoff db1 = int (a_off (s_rec s x))"
      "datlen db1 = length ?t + 1" using lp(4) Cons dl by simp_all
    have r1: "opened k1 (idxfd db1) (datfd db1) i j" "length (datbuf db1) = 1026"
      "seg (k_data k1 j) (a_off (s_rec s x)) (length ?t + 1) = ?t @ [NL]" "NUL \<notin> set ?t"
      using k1(3,4) d1 dl d(1) by (simp_all add: db_wf_def dat_ok_def)
    obtain k2 buf where rd: "db_readdat k1 db1 = Inr (?t, k2, db1\<lparr>datbuf := buf\<rparr>)" "quiet k1 ?a ?b k2"
      "fd_pos k2 ?a = fd_pos k1 ?a" "length buf = 1026"
      using readdat_ok [OF r1(1) f(4,5) dl(2) r1(2-4)] d1 by (auto simp: okp_def)
    let ?db = "db1\<lparr>datbuf := buf, cnt_nextrec := cnt_nextrec db1 + 1\<rparr>"
    have k2: "db_frame k db i j k2" "k_locks k2 = ?L" "k_data k2 = k_data k"
      using db_frame_trans [OF k1(1) db_frame_quiet [OF rd(2)]] rd(2) k1(2,3) by (simp_all add: quiet_def)
    have same: "same_files db ?db" using d1(4) rd(4) by (simp add: handle_defs)
    have "db_inv (k2\<lparr>k_locks := k_locks k\<rparr>) ?db i j s"
      by (rule db_invI [OF i(1) _ same]) (use k2 i(3,4) in simp_all)
    then show ?thesis
      using lk(2) lp(1) Cons lk(3) [OF k2(1,2)] d1(1,2) f(1-3) k2 rd(1,3) k1(3) same
      by (simp add: db_nextrec_def scan_at_def fin entry_of_def)
  qed
qed

lemma rewind_inv:
  assumes inv: "db_inv k db i j s"
  shows "okp (db_rewind k db) (\<lambda>(k', db'). db_inv k' db' i j s \<and> k_data k' = k_data k \<and> k_locks k' = k_locks k \<and>
     db_frame k db i j k' \<and> same_files db db' \<and> scan_at k' db' i s (s_offs s))"
proof -
  note i = db_invD [OF inv]
  have n: "nhash db = 137" using i(2) by (simp add: db_wf_def)
  obtain k1 where ls: "sys_lseek k (idxfd db) (int HDR) SEEK_SET = (int HDR, k1)" "quiet k (idxfd db) (datfd db) k1"
    "fd_pos k1 (idxfd db) = HDR"
    using lseek_quiet [OF opened_on_fd(1) [OF i(1)], of HDR] by blast
  have eq: "db_rewind k db = Inr (k1, db\<lparr>idxoff := int HDR\<rparr>)"
    unfolding db_rewind_def Let_def tail_off [OF n] ls(1) by simp
  have same: "same_files db (db\<lparr>idxoff := int HDR\<rparr>)" using i(2) by (simp add: handle_defs)
  have "db_inv k1 (db\<lparr>idxoff := int HDR\<rparr>) i j s"
    by (rule db_invI [OF i(1) db_frame_quiet [OF ls(2)] same]) (use ls(2) i(3,4) in \<open>simp_all add: quiet_def\<close>)
  then show ?thesis
    using eq same ls(2,3) db_frame_quiet [OF ls(2), of i j] idx_repD(2) [OF shape_okD(1) [OF i(4)]]
    by (simp add: scan_at_def quiet_def)
qed

text \<open>A walk to the end, as a caller of the library does it: \<open>db_nextrec\<close> until it returns a null pointer.\<close>

primrec nextrec_all :: "nat \<Rightarrow> kernel \<Rightarrow> DB \<Rightarrow> ((string \<times> string) list \<times> kernel \<times> DB) res" where
  "nextrec_all 0 k db = Inl Loops"
| "nextrec_all (Suc n) k db =
     res_bind (db_nextrec k db) (\<lambda>(r, k, db). case r of
       None \<Rightarrow> Inr ([], k, db)
     | Some e \<Rightarrow> res_bind (nextrec_all n k db) (\<lambda>(es, k, db). Inr (e # es, k, db)))"

lemma nextrec_all_inv:
  assumes "db_inv k db i j s" "scan_at k db i s todo" "length todo < n"
  shows "okp (nextrec_all n k db) (\<lambda>(es, k', db'). es = map (entry_of (k_data k j) s) (filter (live s) todo) \<and>
     db_inv k' db' i j s \<and> k_data k' = k_data k \<and> k_locks k' = k_locks k)"
  using assms
proof (induction n arbitrary: k db todo)
  case 0
  then show ?case by simp
next
  case (Suc n)
  obtain r k1 db1 where nx: "db_nextrec k db = Inr (r, k1, db1)" "db_inv k1 db1 i j s" "k_data k1 = k_data k"
    "k_locks k1 = k_locks k" "case dropWhile (\<lambda>p. \<not> live s p) todo of
        [] \<Rightarrow> r = None \<and> scan_at k1 db1 i s []
      | x # rest \<Rightarrow> r = Some (entry_of (k_data k j) s x) \<and> scan_at k1 db1 i s rest"
    using nextrec_inv [OF Suc.prems(1,2)] by (auto simp: okp_def)
  have fl: "filter (live s) todo = filter (live s) (dropWhile (\<lambda>p. \<not> live s p) todo)"
    by (induction todo) auto
  show ?case
  proof (cases "dropWhile (\<lambda>p. \<not> live s p) todo")
    case Nil
    then show ?thesis using nx fl by simp
  next
    case (Cons x rest)
    have "length (x # rest) \<le> length todo" unfolding Cons [symmetric] by (rule length_dropWhile_le)
    then have len: "length rest < n" using Suc.prems(3) by simp
    have x: "live s x" using hd_dropWhile [of "\<lambda>p. \<not> live s p" todo] Cons by auto
    have nx5: "r = Some (entry_of (k_data k j) s x)" "scan_at k1 db1 i s rest" using nx(5) Cons by simp_all
    obtain es k2 db2 where r2: "nextrec_all n k1 db1 = Inr (es, k2, db2)"
      "es = map (entry_of (k_data k1 j) s) (filter (live s) rest)" "db_inv k2 db2 i j s" "k_data k2 = k_data k1" "k_locks k2 = k_locks k1"
      using Suc.IH [OF nx(2) nx5(2) len] by (auto simp: okp_def)
    then show ?thesis using nx(1,3,4) nx5(1) fl Cons x by simp
  qed
qed

text \<open>The entries a full walk meets are those of the map, each once.\<close>

lemma live_chain:
  assumes ok: "shape_ok idx dat s" and p: "p \<in> set (s_offs s)" and l: "live s p"
  shows "p \<in> set (s_chain s (hashk (key_at s p)))"
proof -
  have "p \<notin> set (s_free s)" using shape_okD(9) [OF ok] l by (auto simp: live_def)
  then obtain h where h: "h < 137" "p \<in> set (s_chain s h)" using p shape_okD(4) [OF ok] by auto
  then show ?thesis using shape_okD(6) [OF ok h] by simp
qed

lemma walk_distinct:
  assumes ok: "shape_ok idx dat s"
  shows "distinct (map fst (map (entry_of dat s) (filter (live s) (s_offs s))))"
proof -
  have "distinct (s_offs s)" by (rule layout_distinct [OF idx_repD(2) [OF shape_okD(1) [OF ok]]])
  moreover have "inj_on (key_at s) (set (filter (live s) (s_offs s)))"
  proof (rule inj_onI)
    fix p q
    assume p: "p \<in> set (filter (live s) (s_offs s))" and q: "q \<in> set (filter (live s) (s_offs s))" and e: "key_at s p = key_at s q"
    have "p \<in> set (s_chain s (hashk (key_at s p)))" using live_chain [OF ok, of p] p by simp
    moreover have "q \<in> set (s_chain s (hashk (key_at s p)))" using live_chain [OF ok, of q] q e by simp
    ultimately show "p = q" using inj_onD [OF shape_okD(8) [OF ok hashk_less] e] by blast
  qed
  ultimately show ?thesis by (simp add: distinct_map entry_of_def comp_def)
qed

lemma walk_map:
  assumes ok: "shape_ok idx dat s"
  shows "map_of (map (entry_of dat s) (filter (live s) (s_offs s))) = db_map dat s"
proof
  fix key
  let ?es = "map (entry_of dat s) (filter (live s) (s_offs s))"
  show "map_of ?es key = db_map dat s key"
  proof (cases "\<exists>p \<in> set (s_chain s (hashk key)). key_at s p = key")
    case True
    then obtain p where p: "p \<in> set (s_chain s (hashk key))" "key_at s p = key" by blast
    have "p \<in> set (s_offs s)" "live s p"
      using shape_fields(4) [OF ok hashk_less p(1)] shape_okD(7) [OF ok hashk_less p(1)] by (auto simp: live_def)
    then have "(key, data_of dat (s_rec s p)) \<in> set ?es" using p(2) by (force simp: entry_of_def)
    then have "map_of ?es key = Some (data_of dat (s_rec s p))" using walk_distinct [OF ok] by (rule map_of_is_SomeI [rotated])
    then show ?thesis using db_map_SomeI [OF shape_okD(8) [OF ok hashk_less] p, of dat] by simp
  next
    case False
    have "key \<notin> fst ` set ?es"
    proof
      assume "key \<in> fst ` set ?es"
      then obtain p where "p \<in> set (s_offs s)" "live s p" "key_at s p = key" by (auto simp: entry_of_def)
      then show False using live_chain [OF ok, of p] False by auto
    qed
    moreover have "db_map dat s key = None" using False by (intro db_map_NoneI) blast
    ultimately show ?thesis by (metis map_of_eq_None_iff)
  qed
qed

section \<open>Opening\<close>

lemma alloc_fd_ok:
  assumes "alloc_fd k f = (fd, k')"
  shows "0 \<le> fd" "fd_get k fd = None" "fd_get k' fd = Some f" "fd' \<noteq> fd \<Longrightarrow> fd_get k' fd' = fd_get k fd'"
    "k_data k' = k_data k" "k_locks k' = k_locks k" "k_dir k' = k_dir k" "k_next k' = k_next k" "k_deny k' = k_deny k" "k_pid k' = k_pid k"
proof -
  define n where "n = length (takeWhile (\<lambda>x. x \<noteq> None) (k_fds k))"
  have le: "n \<le> length (k_fds k)" unfolding n_def by (rule length_takeWhile_le)
  have n: "n < length (k_fds k) \<Longrightarrow> k_fds k ! n = None"
    using nth_length_takeWhile [of "\<lambda>x. x \<noteq> None" "k_fds k"] unfolding n_def by simp
  have fd: "fd = int n" and k': "k' = (if n < length (k_fds k) then k\<lparr>k_fds := (k_fds k)[n := Some f]\<rparr> else k\<lparr>k_fds := k_fds k @ [Some f]\<rparr>)"
    using assms unfolding n_def by (auto simp: alloc_fd_def Let_def)
  have eq: "\<not> n < length (k_fds k) \<Longrightarrow> n = length (k_fds k)" using le by simp
  show "0 \<le> fd" "fd_get k fd = None" "fd_get k' fd = Some f" using n eq by (auto simp: fd fd_get_def k' nth_append)
  show "fd_get k' fd' = fd_get k fd'" if "fd' \<noteq> fd"
  proof (cases "n < length (k_fds k)")
    case True
    then show ?thesis using that by (auto simp: fd fd_get_def k' nth_list_update)
  next
    case False
    have "nat fd' \<noteq> length (k_fds k)" if "0 \<le> fd'" using that \<open>fd' \<noteq> fd\<close> eq [OF False] fd by auto
    then show ?thesis using False by (auto simp: fd_get_def k' nth_append)
  qed
  show "k_data k' = k_data k" "k_locks k' = k_locks k" "k_dir k' = k_dir k" "k_next k' = k_next k" "k_deny k' = k_deny k" "k_pid k' = k_pid k"
    by (simp_all add: k')
qed

definition open_rdwr :: "32 word" where "open_rdwr = O_RDWR"
definition open_create :: "32 word" where "open_create = O_RDWR OR O_CREAT OR O_TRUNC"

lemmas oflag_defs = open_rdwr_def open_create_def O_RDWR_def O_CREAT_def O_TRUNC_def O_EXCL_def O_ACCMODE_def
  O_WRONLY_def O_RDONLY_def

text \<open>The inode a path names, or the one a creating open gives it.\<close>

definition ino_of :: "kernel \<Rightarrow> string \<Rightarrow> nat" where
  "ino_of k path = (case k_dir k path of Some i \<Rightarrow> i | None \<Rightarrow> k_next k)"

definition fresh_fd :: "kernel \<Rightarrow> int \<Rightarrow> nat \<Rightarrow> kernel \<Rightarrow> bool" where
  "fresh_fd k fd i k' \<longleftrightarrow> 0 \<le> fd \<and> fd_get k fd = None \<and>
     fd_get k' fd = Some \<lparr>of_ino = i, of_pos = 0, of_rd = True, of_wr = True\<rparr> \<and>
     (\<forall>fd'. fd' \<noteq> fd \<longrightarrow> fd_get k' fd' = fd_get k fd') \<and> k_locks k' = k_locks k \<and> k_deny k' = k_deny k \<and> k_pid k' = k_pid k"

lemma sys_open_create:
  assumes "\<not> k_deny k path"
  obtains fd k' where "sys_open k path open_create = (fd, k')" "fresh_fd k fd (ino_of k path) k'"
    "k_data k' = (k_data k)(ino_of k path := [])" "k_dir k' = (k_dir k)(path \<mapsto> ino_of k path)"
    "k_next k' = (if k_dir k path = None then Suc (k_next k) else k_next k)"
proof (cases "k_dir k path")
  case None
  let ?f = "\<lparr>of_ino = k_next k, of_pos = 0, of_rd = True, of_wr = True\<rparr>"
  let ?k = "k\<lparr>k_dir := (k_dir k)(path \<mapsto> k_next k), k_data := (k_data k)(k_next k := []), k_next := Suc (k_next k)\<rparr>"
  obtain fd k' where a: "alloc_fd ?k ?f = (fd, k')" by (cases "alloc_fd ?k ?f")
  have g: "fd_get ?k x = fd_get k x" for x by (simp add: fd_get_def)
  show ?thesis
    by (rule that [of fd k']) (use None assms a alloc_fd_ok [OF a] g in \<open>simp_all add: sys_open_def oflag_defs ino_of_def fresh_fd_def\<close>)
next
  case (Some i)
  let ?f = "\<lparr>of_ino = i, of_pos = 0, of_rd = True, of_wr = True\<rparr>" and ?k = "k\<lparr>k_data := (k_data k)(i := [])\<rparr>"
  obtain fd k' where a: "alloc_fd ?k ?f = (fd, k')" by (cases "alloc_fd ?k ?f")
  have u: "(k_dir k)(path \<mapsto> i) = k_dir k" using Some by auto
  show ?thesis
    by (rule that [of fd k']) (use Some assms a alloc_fd_ok [OF a] u in \<open>simp_all add: sys_open_def oflag_defs ino_of_def fresh_fd_def\<close>)
qed

lemma sys_open_rdwr:
  assumes "\<not> k_deny k path" "k_dir k path = Some i"
  obtains fd k' where "sys_open k path open_rdwr = (fd, k')" "fresh_fd k fd i k'" "k_data k' = k_data k" "k_dir k' = k_dir k"
proof -
  let ?f = "\<lparr>of_ino = i, of_pos = 0, of_rd = True, of_wr = True\<rparr>"
  obtain fd k' where a: "alloc_fd k ?f = (fd, k')" by (cases "alloc_fd k ?f")
  show ?thesis
    by (rule that [of fd k']) (use assms a alloc_fd_ok [OF a] in \<open>simp_all add: sys_open_def oflag_defs fresh_fd_def\<close>)
qed

lemma fresh_opened:
  assumes "fresh_fd k a i k1" "fresh_fd k1 b j k2" "i \<noteq> j"
  shows "opened k2 a b i j" "fd_pos k2 a = 0" "k_locks k2 = k_locks k"
proof -
  have "a \<noteq> b" using assms by (auto simp: fresh_fd_def)
  then show "opened k2 a b i j" "fd_pos k2 a = 0" using assms by (auto simp: fresh_fd_def opened_def fd_pos_def)
  show "k_locks k2 = k_locks k" using assms by (simp add: fresh_fd_def)
qed

lemma foldl_append_const: "foldl (\<lambda>h i. h @ z) acc xs = acc @ concat (replicate (length xs) z)"
  by (induction xs arbitrary: acc) simp_all

lemma seg_replicate:
  assumes "h < n" "length z = w"
  shows "seg (concat (replicate n z) @ t) (h * w) w = z"
proof -
  obtain m where n: "n = h + Suc m" using assms(1) by (metis add_Suc_right less_imp_Suc_add)
  have "concat (replicate n z) = concat (replicate h z) @ z @ concat (replicate m z)"
    unfolding n replicate_add concat_append by simp
  moreover have "length (concat (replicate h z)) = h * w" using assms(2) by (induction h) simp_all
  ultimately show ?thesis using assms(2) by (simp add: seg_def)
qed

definition shape0 :: shape where
  "shape0 = \<lparr>s_ptr = \<lambda>_. 0, s_rec = \<lambda>_. new_rec [] 0 [], s_offs = [], s_free = [], s_chain = \<lambda>_. []\<rparr>"

lemma init_hash_eq: "db_init_hash = concat (replicate 138 (enc_ptr 0)) @ [NL]"
  unfolding db_init_hash_def foldl_append_const by (simp add: enc_ptr_def dec_int_def)

lemma shape0_ok: "shape_ok db_init_hash [] shape0"
proof (rule shape_okI)
  have len: "length (enc_ptr 0) = 6" by simp
  have "length (concat (replicate n (enc_ptr 0))) = n * 6" for n using len by (induction n) simp_all
  then have "length db_init_hash = HDR" by (simp add: init_hash_eq HDR_def)
  moreover have "seg db_init_hash (h * 6) 6 = enc_ptr 0" if "h \<le> 137" for h
    using seg_replicate [OF _ len, of h 138 "[NL]"] that by (simp add: init_hash_eq)
  ultimately show "idx_rep db_init_hash (s_ptr shape0) (s_rec shape0) (s_offs shape0)"
    by (auto simp: idx_rep_def shape0_def head_fields_def)
qed (simp_all add: shape0_def)

lemma db_map_shape0: "db_map dat shape0 = Map.empty"
  by (rule ext) (simp add: db_map_def shape0_def)

text \<open>Initialisation of an index file, under a lock of the whole file.\<close>

lemma init_ok:
  assumes op: "opened k (idxfd db) (datfd db) i j" and pos: "fd_pos k (idxfd db) = 0" and c: "k_data k i = []"
    and idle: "idle (k_locks k) i j"
  shows "okp (db_init k db) (\<lambda>k'. kframe k (idxfd db) (datfd db) k' \<and> k_data k' = (k_data k)(i := db_init_hash) \<and> k_locks k' = k_locks k)"
proof -
  let ?L = "lock_ent (k_pid k) i True 0 None # k_locks k" and ?a = "idxfd db" and ?b = "datfd db"
  let ?k = "k\<lparr>k_locks := ?L\<rparr>"
  note on = opened_on_fd(1) [OF op] and free = idle_no_overlap(1) [OF idle]
  have lk: "must_lock (writew_lock k ?a 0 SEEK_SET 0) m = Inr ?k" for m
    using lock_grant(1) [OF on _ free, of 0 0 m] by (simp add: lock_end_def)
  have on0: "on_fd ?k ?a ?a ?b i" using on by simp
  have ne: "db_init_hash \<noteq> []" by (simp add: db_init_hash_def)
  obtain n k1 where w: "sys_write ?k ?a db_init_hash = (n, k1)" by (cases "sys_write ?k ?a db_init_hash")
  note w1 = write_on [OF on0 w]
  have p0: "fd_pos ?k ?a = 0" using pos by (simp add: fd_pos_def)
  have d1: "k_data k1 = (k_data k)(i := db_init_hash)" using w1(4) c ne p0 by (simp add: write_at_def patch_def)
  have fr: "kframe k ?a ?b k1" using w1(2) by simp
  have un: "must_lock (un_lock k1 ?a 0 SEEK_SET 0) m = Inr (k1\<lparr>k_locks := k_locks k\<rparr>)" for m
    using unlock_ok [OF on_fd_kframe [OF on fr] _ free, where len = 0 and c = 0 and w = True and m = m] w1(3) kframe_pid [OF fr]
    by (simp add: lock_end_def)
  have st: "sys_fstat_size ?k ?a = Some 0" using on c by (auto simp: on_fd_def sys_fstat_size_def)
  show ?thesis using lk st w w1(1) un fr d1 by (simp add: db_init_def)
qed

lemma rewind_ok:
  assumes on: "on_fd k (idxfd db) (idxfd db) (datfd db) i" and n: "nhash db = 137"
  obtains k' where "db_rewind k db = Inr (k', db\<lparr>idxoff := int HDR\<rparr>)" "quiet k (idxfd db) (datfd db) k'"
proof -
  obtain k1 where ls: "sys_lseek k (idxfd db) (int HDR) SEEK_SET = (int HDR, k1)" "quiet k (idxfd db) (datfd db) k1"
    using lseek_quiet [OF on, of HDR] by blast
  have "db_rewind k db = Inr (k1, db\<lparr>idxoff := int HDR\<rparr>)"
    unfolding db_rewind_def Let_def tail_off [OF n] ls(1) by simp
  then show ?thesis using that ls(2) by blast
qed

text \<open>The handle of a database just opened.\<close>

definition opened_db :: "bytes \<Rightarrow> bytes \<Rightarrow> string \<Rightarrow> int \<Rightarrow> int \<Rightarrow> DB" where
  "opened_db ibuf dbuf path a b = (db_alloc ibuf dbuf)\<lparr>nhash := 137, hashoff := 6, db_name := path @ ''.dat'', idxfd := a, datfd := b\<rparr>"

lemma opened_db_simps:
  "idxfd (opened_db ib dbf path a b) = a" "datfd (opened_db ib dbf path a b) = b" "nhash (opened_db ib dbf path a b) = 137"
  "length ib = 1026 \<Longrightarrow> length dbf = 1026 \<Longrightarrow> db_wf (opened_db ib dbf path a b)"
  by (simp_all add: opened_db_def db_wf_def db_alloc_def)

lemma open_inv:
  assumes "sys_open k (path @ ''.idx'') flags = (a, k1)" "sys_open k1 (path @ ''.dat'') flags = (b, k2)"
    and fresh: "fresh_fd k a i k1" "fresh_fd k1 b j k2" "i \<noteq> j" and idle: "idle (k_locks k) i j"
    and buf: "length ibuf = 1026" "length dbuf = 1026"
    and ini: "if flags AND (O_CREAT OR O_TRUNC) = O_CREAT OR O_TRUNC then k_data k2 i = [] \<and> s = shape0 \<and> k_data k2 j = []
              else shape_ok (k_data k2 i) (k_data k2 j) s"
  shows "okp (db_open k ibuf dbuf path flags) (\<lambda>(r, k'). \<exists>db. r = Some db \<and> db_inv k' db i j s \<and>
     k_dir k' = k_dir k2 \<and> k_locks k' = k_locks k \<and> k_deny k' = k_deny k2 \<and> k_data k' j = k_data k2 j)"
proof -
  let ?db = "opened_db ibuf dbuf path a b"
  note o = fresh_opened [OF fresh]
  have pos: "0 \<le> a" "0 \<le> b" using fresh by (simp_all add: fresh_fd_def)
  have op: "opened k2 (idxfd ?db) (datfd ?db) i j" using o(1) by (simp add: opened_db_simps)
  let ?m = "if flags AND (O_CREAT OR O_TRUNC) = O_CREAT OR O_TRUNC then db_init k2 ?db else Inr k2"
  have "okp ?m (\<lambda>k3. kframe k2 a b k3 \<and> shape_ok (k_data k3 i) (k_data k3 j) s \<and> k_locks k3 = k_locks k \<and> k_data k3 j = k_data k2 j)"
  proof (cases "flags AND (O_CREAT OR O_TRUNC) = O_CREAT OR O_TRUNC")
    case True
    have "okp (db_init k2 ?db) (\<lambda>k'. kframe k2 a b k' \<and> k_data k' = (k_data k2)(i := db_init_hash) \<and> k_locks k' = k_locks k2)"
      using init_ok [OF op] o(2,3) ini True idle by (simp add: opened_db_simps)
    then show ?thesis
      unfolding if_P [OF True] by (rule okp_mono) (use ini True o(3) fresh(3) shape0_ok in auto)
  next
    case False
    then show ?thesis using ini o(3) by simp
  qed
  then obtain k3 where m: "?m = Inr k3" "kframe k2 a b k3" "shape_ok (k_data k3 i) (k_data k3 j) s" "k_locks k3 = k_locks k"
    "k_data k3 j = k_data k2 j" by (auto simp: okp_def)
  have on: "on_fd k3 (idxfd ?db) (idxfd ?db) (datfd ?db) i"
    using on_fd_kframe [OF opened_on_fd(1) [OF o(1)] m(2)] by (simp add: opened_db_simps)
  obtain k4 where r: "db_rewind k3 ?db = Inr (k4, ?db\<lparr>idxoff := int HDR\<rparr>)" "quiet k3 a b k4"
    using rewind_ok [OF on] by (auto simp: opened_db_simps)
  have fr: "kframe k2 a b k4" using kframe_trans [OF m(2)] r(2) by (simp add: quiet_def)
  have wf: "db_wf (?db\<lparr>idxoff := int HDR\<rparr>)" using opened_db_simps(4) [OF buf] by (simp add: db_wf_def)
  have inv: "db_inv k4 (?db\<lparr>idxoff := int HDR\<rparr>) i j s"
    using opened_kframe [OF o(1) fr] wf idle r(2) m(3,4) by (simp add: db_inv_def opened_db_simps quiet_def)
  have "db_open k ibuf dbuf path flags = res_bind ?m (\<lambda>k. res_bind (db_rewind k ?db) (\<lambda>(k, db). Inr (Some db, k)))"
    using assms(1,2) pos by (simp add: db_open_def opened_db_def Let_def)
  also have "\<dots> = Inr (Some (?db\<lparr>idxoff := int HDR\<rparr>), k4)" unfolding m(1) using r(1) by simp
  finally show ?thesis using inv fr r(2) m(4,5) by (simp add: kframe_def quiet_def)
qed

end
