(* ===== verification/Db_Correct.thy ===== *)
theory Db_Correct
  imports Db_Scan
begin

text \<open>
  What the database library promises.  Fetching, storing and deleting refine the three
  operations on a finite map; every sequence of them does; a walk with \<open>db_nextrec\<close> lists
  the map; a created database is empty and a closed one is found again as it was left;
  space of deleted records is used again; a conflicting lock of another process holds an
  operation back before it reads or writes anything.
\<close>

section \<open>Room for further records\<close>

definition db_rep :: "nat \<Rightarrow> nat \<Rightarrow> kernel \<times> DB \<Rightarrow> kv_map \<Rightarrow> nat \<Rightarrow> bool" where
  "db_rep i j = (\<lambda>(k, db) m n. db_ok k db i j m \<and> length (k_data k i) + n * 1034 \<le> 999999 \<and>
     length (k_data k j) + n * 1024 < 1000000000)"

definition db_valid :: "string \<Rightarrow> string \<Rightarrow> bool" where
  "db_valid key data \<longleftrightarrow> SEP \<notin> set key \<and> NUL \<notin> set key \<and> \<not> blank key \<and> length key \<le> 1000 \<and>
     NUL \<notin> set data \<and> data \<noteq> [] \<and> length data \<le> 1023"

text \<open>A database file system in which a new database can be created.\<close>

definition can_create :: "kernel \<Rightarrow> string \<Rightarrow> bool" where
  "can_create k path \<longleftrightarrow> \<not> k_deny k (path @ ''.idx'') \<and> \<not> k_deny k (path @ ''.dat'') \<and>
     (\<forall>p n. k_dir k p = Some n \<longrightarrow> n < k_next k) \<and>
     (\<forall>n. k_dir k (path @ ''.idx'') = Some n \<longrightarrow> k_dir k (path @ ''.dat'') \<noteq> Some n) \<and>
     (\<forall>l \<in> set (k_locks k). fl_ino l < k_next k \<and> k_dir k (path @ ''.idx'') \<noteq> Some (fl_ino l) \<and>
        k_dir k (path @ ''.dat'') \<noteq> Some (fl_ino l))"

text \<open>The states in which the witnesses below run: an empty file system, and handle buffers.\<close>

definition kernel0 :: kernel where
  "kernel0 = \<lparr>k_pid = 1, k_errno = 0, k_dir = Map.empty, k_data = \<lambda>_. [], k_next = 1, k_deny = \<lambda>_. False,
     k_fds = [], k_locks = []\<rparr>"

definition buf0 :: bytes where
  "buf0 = replicate 1026 NUL"

text \<open>Another process holds a write lock on the whole index file.\<close>

definition kernel1 :: kernel where
  "kernel1 = kernel0\<lparr>k_fds := [Some \<lparr>of_ino = 1, of_pos = 0, of_rd = True, of_wr = True\<rparr>, Some \<lparr>of_ino = 2, of_pos = 0, of_rd = True, of_wr = True\<rparr>],
     k_locks := [lock_ent 2 1 True 0 None]\<rparr>"

definition handle1 :: DB where
  "handle1 = opened_db buf0 buf0 ''lib'' 0 1"

lemma length_buf0: "length buf0 = 1026"
  by (simp add: buf0_def)

lemma can_create_kernel0: "can_create kernel0 path"
  by (simp add: can_create_def kernel0_def)

lemma valid_storable:
  assumes "db_valid key data" "n < 1000000000"
  shows "storable n key data"
proof -
  have "length (dec n) \<le> 9" using length_dec_le [of n 9] assms(2) by simp
  moreover have "length (dec (length data + 1)) \<le> 4" using length_dec_le [of "length data + 1" 4] assms(1) by (simp add: db_valid_def)
  ultimately show ?thesis using assms(1) by (simp add: storable_def db_valid_def Suc_le_eq)
qed

lemma create_inv:
  assumes "can_create k path" and buf: "length ibuf = 1026" "length dbuf = 1026"
  shows "okp (db_open k ibuf dbuf path open_create) (\<lambda>(r, k'). \<exists>db i j. r = Some db \<and> db_inv k' db i j shape0 \<and>
     k_dir k' (path @ ''.idx'') = Some i \<and> k_dir k' (path @ ''.dat'') = Some j \<and> k_deny k' = k_deny k \<and>
     k_data k' j = [] \<and> length (k_data k' i) = HDR \<and> k_locks k' = k_locks k)"
proof -
  note c = assms(1) [unfolded can_create_def]
  let ?p = "path @ ''.idx''" and ?q = "path @ ''.dat''"
  obtain a k1 where o1: "sys_open k ?p open_create = (a, k1)" "fresh_fd k a (ino_of k ?p) k1"
    "k_data k1 = (k_data k)(ino_of k ?p := [])" "k_dir k1 = (k_dir k)(?p \<mapsto> ino_of k ?p)"
    "k_next k1 = (if k_dir k ?p = None then Suc (k_next k) else k_next k)"
    by (rule sys_open_create [of k ?p]) (use c in auto)
  have d1: "\<not> k_deny k1 ?q" using o1(2) c by (simp add: fresh_fd_def)
  obtain b k2 where o2: "sys_open k1 ?q open_create = (b, k2)" "fresh_fd k1 b (ino_of k1 ?q) k2"
    "k_data k2 = (k_data k1)(ino_of k1 ?q := [])" "k_dir k2 = (k_dir k1)(?q \<mapsto> ino_of k1 ?q)"
    "k_next k2 = (if k_dir k1 ?q = None then Suc (k_next k1) else k_next k1)"
    by (rule sys_open_create [OF d1])
  let ?i = "ino_of k ?p" and ?j = "ino_of k1 ?q"
  have q1: "k_dir k1 ?q = k_dir k ?q" using o1(4) by simp
  have lt: "k_dir k r = Some n \<Longrightarrow> n < k_next k" for r n using c by blast
  have i: "?i = n \<and> k_dir k ?p = Some n \<or> ?i = k_next k \<and> k_dir k ?p = None" if "n = ?i" for n
    using that by (auto simp: ino_of_def split: option.splits)
  have j: "?j = n \<and> k_dir k ?q = Some n \<or> ?j = k_next k1 \<and> k_dir k ?q = None" if "n = ?j" for n
    using that q1 by (auto simp: ino_of_def split: option.splits)
  have ne: "?i \<noteq> ?j"
  proof
    assume e: "?i = ?j"
    have "k_dir k ?p = Some ?i \<Longrightarrow> k_dir k ?q \<noteq> Some ?j" using c e by simp
    then show False
      using i [OF refl] j [OF refl] lt [of ?p ?i] lt [of ?q ?j] o1(5) e by (cases "k_dir k ?p") auto
  qed
  have "fl_ino l \<noteq> ?i \<and> fl_ino l \<noteq> ?j" if l: "l \<in> set (k_locks k)" for l
  proof -
    have "fl_ino l < k_next k" "k_dir k ?p \<noteq> Some (fl_ino l)" "k_dir k ?q \<noteq> Some (fl_ino l)" using c l by blast+
    then show ?thesis using i [OF refl] j [OF refl] o1(5) by (cases "k_dir k ?p") auto
  qed
  then have idle: "idle (k_locks k) ?i ?j" by (simp add: idle_def)
  have cr: "open_create AND (O_CREAT OR O_TRUNC) = O_CREAT OR O_TRUNC" by (simp add: oflag_defs)
  have "okp (db_open k ibuf dbuf path open_create) (\<lambda>(r, k'). \<exists>db. r = Some db \<and> db_inv k' db ?i ?j shape0 \<and>
      k_dir k' = k_dir k2 \<and> k_locks k' = k_locks k \<and> k_deny k' = k_deny k2 \<and> k_data k' ?j = k_data k2 ?j)"
    by (rule open_inv [OF o1(1) o2(1) o1(2) o2(2) ne idle buf]) (use cr o1(3) o2(3) ne in simp)
  moreover have "length (k_data k' ?i) = HDR" if "db_inv k' db ?i ?j shape0" for k' db
    using idx_repD(2) [OF shape_okD(1) [OF db_invD(4) [OF that]]] by (simp add: shape0_def)
  ultimately show ?thesis
    by (elim okp_mono) (use o1(2,4) o2(2,3,4) in \<open>auto simp: fresh_fd_def\<close>)
qed

lemma db_ok_inv: "db_inv k db i j s \<Longrightarrow> db_ok k db i j (db_map (k_data k j) s)"
  by (auto simp: db_ok_def)

section \<open>The store interface\<close>

text \<open>The three calls as operations on the pair of kernel and handle.\<close>

abbreviation s_fetch :: "kernel \<times> DB \<Rightarrow> string \<Rightarrow> (string option \<times> kernel \<times> DB) res" where
  "s_fetch \<equiv> \<lambda>(k, db) key. db_fetch k db key"

abbreviation s_store :: "kernel \<times> DB \<Rightarrow> string \<Rightarrow> string \<Rightarrow> int \<Rightarrow> (int \<times> kernel \<times> DB) res" where
  "s_store \<equiv> \<lambda>(k, db) key data flag. db_store k db key data flag"

abbreviation s_delete :: "kernel \<times> DB \<Rightarrow> string \<Rightarrow> (int \<times> kernel \<times> DB) res" where
  "s_delete \<equiv> \<lambda>(k, db) key. db_delete k db key"

lemma rep_fetch: "db_rep i j s m n \<Longrightarrow> okp (s_fetch s key) (\<lambda>(r, s'). r = m key \<and> db_rep i j s' m n)"
proof -
  assume r: "db_rep i j s m n"
  obtain k db where s: "s = (k, db)" by (cases s)
  with r obtain sh where inv: "db_inv k db i j sh" "db_map (k_data k j) sh = m" by (auto simp: db_rep_def db_ok_def)
  show ?thesis
    unfolding s prod.case
    by (rule okp_mono [OF fetch_inv [OF inv(1), of key]]) (use r s inv in \<open>auto simp: db_rep_def db_ok_def\<close>)
qed

lemma rep_delete:
  "db_rep i j s m n \<Longrightarrow> okp (s_delete s key) (\<lambda>(r, s'). \<exists>m'. spec_delete m key = (r, m') \<and> db_rep i j s' m' n)"
proof -
  assume r: "db_rep i j s m n"
  obtain k db where s: "s = (k, db)" by (cases s)
  with r obtain sh where inv: "db_inv k db i j sh" "db_map (k_data k j) sh = m" by (auto simp: db_rep_def db_ok_def)
  show ?thesis
    unfolding s prod.case
    by (rule okp_mono [OF delete_inv [OF inv(1), of key]])
      (use r s inv in \<open>auto simp: db_rep_def db_ok_def spec_delete_def split: option.splits\<close>)
qed

lemma rep_store:
  assumes r: "db_rep i j s m (Suc n)" and v: "db_valid key data" "flag \<in> {1, 2, 3}"
  shows "okp (s_store s key data flag) (\<lambda>(r, s'). \<exists>m'. spec_store m key data flag = (r, m') \<and> db_rep i j s' m' n)"
proof -
  obtain k db where s: "s = (k, db)" by (cases s)
  with r obtain sh where inv: "db_inv k db i j sh" "db_map (k_data k j) sh = m" by (auto simp: db_rep_def db_ok_def)
  have st: "storable (length (k_data k j)) key data" "length (k_data k i) \<le> 999999"
    using r s valid_storable [OF v(1)] by (auto simp: db_rep_def)
  have fl: "flag = DB_INSERT \<or> flag = DB_REPLACE \<or> flag = DB_STORE" using v(2) by auto
  obtain r' k' db' sh' where st': "db_store k db key data flag = Inr (r', k', db')" "db_inv k' db' i j sh'"
    "(r', db_map (k_data k' j) sh') = spec_store m key data flag"
    "length (k_data k' i) \<le> length (k_data k i) + 1034" "length (k_data k' j) \<le> length (k_data k j) + 1024"
    using store_inv [OF inv(1) st fl] inv(2) by (auto simp: okp_def)
  have "db_rep i j (k', db') (db_map (k_data k' j) sh') n"
    using r s st'(2,4,5) by (auto simp: db_rep_def db_ok_def)
  then show ?thesis using s st'(1) st'(3) [symmetric] by auto
qed

interpretation kv: kv_store "db_rep i j" db_valid s_fetch s_store s_delete for i j
proof unfold_locales
  show "db_rep i j s m (Suc n) \<Longrightarrow> db_rep i j s m n" for s m n by (cases s) (auto simp: db_rep_def)
qed (use rep_fetch rep_store rep_delete in blast)+

section \<open>A sample database\<close>

text \<open>Create a database in an empty file system and store one record.\<close>

definition sample :: "(kernel \<times> DB) res" where
  "sample = res_bind (db_open kernel0 buf0 buf0 ''lib'' open_create) (\<lambda>(r, k). case r of
     None \<Rightarrow> Inl Aborted
   | Some db \<Rightarrow> res_bind (db_store k db ''alpha'' ''one'' DB_INSERT) (\<lambda>(rc, k, db). Inr (k, db)))"

lemma db_valid_sample: "db_valid ''alpha'' ''one''" "db_valid ''gamma'' ''two''" "db_valid ''alpha'' ''longer''"
  by (simp_all add: db_valid_def blank_def)

lemma sample_ok:
  "okp sample (\<lambda>(k, db). \<exists>i j. db_ok k db i j [''alpha'' \<mapsto> ''one''] \<and> db_rep i j (k, db) [''alpha'' \<mapsto> ''one''] 3 \<and>
     length (k_data k i) \<le> 2000 \<and> length (k_data k j) \<le> 2000 \<and> k_locks k = [] \<and>
     k_dir k ''lib.idx'' = Some i \<and> k_dir k ''lib.dat'' = Some j \<and> k_deny k = (\<lambda>_. False))"
proof -
  obtain k db i j where o: "db_open kernel0 buf0 buf0 ''lib'' open_create = Inr (Some db, k)" "db_inv k db i j shape0"
    "k_dir k ''lib.idx'' = Some i" "k_dir k ''lib.dat'' = Some j" "k_deny k = (\<lambda>_. False)" "k_data k j = []"
    "length (k_data k i) = HDR" "k_locks k = []"
    using create_inv [OF can_create_kernel0 length_buf0 length_buf0, of "''lib''"] by (auto simp: okp_def kernel0_def)
  have st: "storable (length (k_data k j)) ''alpha'' ''one''" using valid_storable [OF db_valid_sample(1)] o(6) by simp
  have cap: "length (k_data k i) \<le> 999999" using o(7) by (simp add: HDR_def)
  obtain r k' db' s' where w: "db_store k db ''alpha'' ''one'' DB_INSERT = Inr (r, k', db')" "db_inv k' db' i j s'"
    "(r, db_map (k_data k' j) s') = spec_store (db_map (k_data k j) shape0) ''alpha'' ''one'' DB_INSERT"
    "length (k_data k' i) \<le> length (k_data k i) + 1034" "length (k_data k' j) \<le> length (k_data k j) + 1024"
    "db_frame k db i j k'" "k_locks k' = k_locks k"
    using store_inv [OF o(2) st cap, of DB_INSERT] by (auto simp: okp_def)
  have m: "db_map (k_data k' j) s' = [''alpha'' \<mapsto> ''one'']" using w(3) by (simp add: spec_store_def db_map_shape0)
  have ok: "db_ok k' db' i j [''alpha'' \<mapsto> ''one'']" using db_ok_inv [OF w(2)] m by simp
  show ?thesis
    using o w ok by (auto simp: sample_def db_rep_def db_frame_def kframe_def HDR_def)
qed

section \<open>Correctness of the operations\<close>

text \<open>
  C2.  \<open>db_fetch\<close> returns: it gives the data stored under the key, or a null pointer when the
  key is not in the database; it changes neither file and leaves the locks as they were.
\<close>

theorem fetch_refines_lookup:
  assumes "db_ok k db i j m"
  shows "okp (db_fetch k db key) (\<lambda>(r, k', db'). r = m key \<and> db_ok k' db' i j m \<and> k_data k' = k_data k \<and> k_locks k' = k_locks k)"
proof -
  obtain s where s: "db_inv k db i j s" "db_map (k_data k j) s = m" using assms by (auto simp: db_ok_def)
  show ?thesis by (rule okp_mono [OF fetch_inv [OF s(1)]]) (use s(2) in \<open>auto simp: db_ok_def\<close>)
qed

theorem fetch_refines_lookup_witness:
  "okp sample (\<lambda>(k, db). okp (db_fetch k db ''alpha'') (\<lambda>(r, k', db'). r = Some ''one'' \<and> k_data k' = k_data k) \<and>
     okp (db_fetch k db ''beta'') (\<lambda>(r, k', db'). r = None))"
proof (rule okp_mono [OF sample_ok], clarify)
  fix k db i j
  assume "db_ok k db i j [''alpha'' \<mapsto> ''one'']"
  note f = fetch_refines_lookup [OF this]
  show "okp (db_fetch k db ''alpha'') (\<lambda>(r, k', db'). r = Some ''one'' \<and> k_data k' = k_data k) \<and>
     okp (db_fetch k db ''beta'') (\<lambda>(r, k', db'). r = None)"
    by (rule conjI; rule okp_mono [OF f]) auto
qed

text \<open>
  C1.  \<open>db_store\<close> returns: for a key and data the format can hold and an index file below the
  largest pointer, it returns 0, 1 or -1 and changes the map exactly as its three flags say
  (insert only a new key, replace only an old one, or store either way), and a replace of a
  missing key sets \<open>errno\<close> to \<open>ENOENT\<close>.  No lock is left and no other file is touched.
\<close>

theorem store_refines_update:
  assumes "db_ok k db i j m" "storable (length (k_data k j)) key data" "length (k_data k i) \<le> 999999"
    and "flag = DB_INSERT \<or> flag = DB_REPLACE \<or> flag = DB_STORE"
  shows "okp (db_store k db key data flag) (\<lambda>(r, k', db'). \<exists>m'. spec_store m key data flag = (r, m') \<and> db_ok k' db' i j m' \<and>
     k_locks k' = k_locks k \<and> (r = -1 \<longrightarrow> k_errno k' = ENOENT) \<and> (\<forall>l. l \<noteq> i \<longrightarrow> l \<noteq> j \<longrightarrow> k_data k' l = k_data k l))"
proof -
  obtain s where s: "db_inv k db i j s" "db_map (k_data k j) s = m" using assms(1) by (auto simp: db_ok_def)
  obtain r k' db' s' where st: "db_store k db key data flag = Inr (r, k', db')" "db_inv k' db' i j s'"
    "(r, db_map (k_data k' j) s') = spec_store m key data flag" "k_locks k' = k_locks k" "r = -1 \<longrightarrow> k_errno k' = ENOENT"
    "db_frame k db i j k'"
    using store_inv [OF s(1) assms(2-4)] s(2) by (auto simp: okp_def)
  then show ?thesis using db_ok_inv [OF st(2)] st(3) [symmetric] by (auto simp: db_frame_def)
qed

theorem store_refines_update_witness:
  "okp sample (\<lambda>(k, db). okp (db_store k db ''alpha'' ''longer'' DB_REPLACE) (\<lambda>(r, k', db'). r = 0 \<and>
     (\<exists>i j. db_ok k' db' i j [''alpha'' \<mapsto> ''longer''])))"
proof (rule okp_mono [OF sample_ok], clarify)
  fix k db i j
  assume ok: "db_ok k db i j [''alpha'' \<mapsto> ''one'']" and len: "length (k_data k i) \<le> 2000" "length (k_data k j) \<le> 2000"
  have st: "storable (length (k_data k j)) ''alpha'' ''longer''" using valid_storable [OF db_valid_sample(3)] len by simp
  show "okp (db_store k db ''alpha'' ''longer'' DB_REPLACE) (\<lambda>(r, k', db'). r = 0 \<and> (\<exists>i j. db_ok k' db' i j [''alpha'' \<mapsto> ''longer'']))"
    by (rule okp_mono [OF store_refines_update [OF ok st, of DB_REPLACE]]) (use len in \<open>auto simp: spec_store_def\<close>)
qed

text \<open>
  C3.  \<open>db_delete\<close> returns: 0 when the key was there, and then it is there no more, else -1 with
  the database unchanged.  All other keys keep their data and no file changes its length.
\<close>

theorem delete_refines_removal:
  assumes "db_ok k db i j m"
  shows "okp (db_delete k db key) (\<lambda>(r, k', db'). \<exists>m'. spec_delete m key = (r, m') \<and> db_ok k' db' i j m' \<and>
     k_locks k' = k_locks k \<and> length (k_data k' i) = length (k_data k i) \<and> length (k_data k' j) = length (k_data k j))"
proof -
  obtain s where s: "db_inv k db i j s" "db_map (k_data k j) s = m" using assms(1) by (auto simp: db_ok_def)
  show ?thesis
    by (rule okp_mono [OF delete_inv [OF s(1)]])
      (use s in \<open>auto simp: db_ok_def spec_delete_def split: option.splits\<close>)
qed

theorem delete_refines_removal_witness:
  "okp sample (\<lambda>(k, db). okp (db_delete k db ''alpha'') (\<lambda>(r, k', db'). r = 0 \<and> (\<exists>i j. db_ok k' db' i j Map.empty)))"
proof (rule okp_mono [OF sample_ok], clarify)
  fix k db i j
  assume ok: "db_ok k db i j [''alpha'' \<mapsto> ''one'']"
  show "okp (db_delete k db ''alpha'') (\<lambda>(r, k', db'). r = 0 \<and> (\<exists>i j. db_ok k' db' i j Map.empty))"
    by (rule okp_mono [OF delete_refines_removal [OF ok]]) (auto simp: spec_delete_def)
qed

text \<open>
  C4.  Every sequence of fetches, stores and deletes returns what the same sequence returns on
  a finite map, as long as the keys and data are valid and the files have room for as many
  records as there are calls.
\<close>

theorem history_refines_map:
  assumes "db_rep i j (k, db) m (length xs + n)" "\<forall>x \<in> set xs. op_valid db_valid x"
  shows "okp (run_with (\<lambda>(k, db) key. db_fetch k db key) (\<lambda>(k, db) key data flag. db_store k db key data flag)
      (\<lambda>(k, db) key. db_delete k db key) xs (k, db))
    (\<lambda>(rs, s'). \<exists>m'. spec_run xs m = (rs, m') \<and> db_rep i j s' m' n)"
  using assms by (rule kv.run_law)

theorem history_refines_map_witness:
  "okp sample (\<lambda>s. okp (run_with (\<lambda>(k, db) key. db_fetch k db key) (\<lambda>(k, db) key data flag. db_store k db key data flag)
      (\<lambda>(k, db) key. db_delete k db key) [Op_store ''gamma'' ''two'' 1, Op_delete ''alpha'', Op_fetch ''gamma''] s)
    (\<lambda>(rs, s'). rs = [Returned 0, Returned 0, Got (Some ''two'')]))"
proof (rule okp_mono [OF sample_ok], clarify)
  fix k db i j
  assume "db_rep i j (k, db) [''alpha'' \<mapsto> ''one''] 3"
  then have r: "db_rep i j (k, db) [''alpha'' \<mapsto> ''one''] (length [Op_store ''gamma'' ''two'' 1, Op_delete ''alpha'', Op_fetch ''gamma''] + 0)"
    by (simp add: numeral_3_eq_3)
  show "okp (run_with (\<lambda>(k, db) key. db_fetch k db key) (\<lambda>(k, db) key data flag. db_store k db key data flag)
      (\<lambda>(k, db) key. db_delete k db key) [Op_store ''gamma'' ''two'' 1, Op_delete ''alpha'', Op_fetch ''gamma''] (k, db))
    (\<lambda>(rs, s'). rs = [Returned 0, Returned 0, Got (Some ''two'')])"
    by (rule okp_mono [OF history_refines_map [OF r]]) (use db_valid_sample(2) in \<open>auto simp: spec_store_def spec_delete_def\<close>)
qed

text \<open>
  \<open>db_open\<close> with the creating flags returns a handle on an empty database, whatever the
  files held before.
\<close>

theorem create_is_empty:
  assumes "can_create k path" "length ibuf = IDXLEN_MAX + 2" "length dbuf = DATLEN_MAX + 2"
  shows "okp (db_open k ibuf dbuf path (O_RDWR OR O_CREAT OR O_TRUNC)) (\<lambda>(r, k'). \<exists>db i j. r = Some db \<and> db_ok k' db i j Map.empty \<and>
     k_dir k' (path @ ''.idx'') = Some i \<and> k_dir k' (path @ ''.dat'') = Some j)"
proof -
  have "length ibuf = 1026" "length dbuf = 1026" using assms(2,3) by simp_all
  from create_inv [OF assms(1) this] show ?thesis
    unfolding open_create_def by (rule okp_mono) (fastforce simp: db_ok_def db_map_shape0)
qed

theorem create_is_empty_witness:
  "okp (db_open kernel0 buf0 buf0 ''lib'' (O_RDWR OR O_CREAT OR O_TRUNC)) (\<lambda>(r, k'). \<exists>db i j. r = Some db \<and> db_ok k' db i j Map.empty)"
  by (rule okp_mono [OF create_is_empty [OF can_create_kernel0]]) (auto simp: buf0_def)

section \<open>Persistence, sequential access and space\<close>

lemma close_keeps:
  "k_data (db_close k db) = k_data k" "k_dir (db_close k db) = k_dir k" "k_deny (db_close k db) = k_deny k"
  "set (k_locks (db_close k db)) \<subseteq> set (k_locks k)"
  by (auto simp: db_close_def db_free_def sys_close_def Let_def split: option.splits)

text \<open>
  C21.  A database that is closed and opened again for reading and writing holds the map it
  held before.
\<close>

theorem reopen_keeps_contents:
  assumes "db_ok k db i j m" "k_dir k (path @ ''.idx'') = Some i" "k_dir k (path @ ''.dat'') = Some j"
    and "\<not> k_deny k (path @ ''.idx'')" "\<not> k_deny k (path @ ''.dat'')"
    and "length ibuf = IDXLEN_MAX + 2" "length dbuf = DATLEN_MAX + 2"
  shows "okp (db_open (db_close k db) ibuf dbuf path O_RDWR) (\<lambda>(r, k'). \<exists>db'. r = Some db' \<and> db_ok k' db' i j m)"
proof -
  obtain s where s: "db_inv k db i j s" "db_map (k_data k j) s = m" using assms(1) by (auto simp: db_ok_def)
  note i = db_invD [OF s(1)]
  let ?k = "db_close k db" and ?p = "path @ ''.idx''" and ?q = "path @ ''.dat''"
  obtain a k1 where o1: "sys_open ?k ?p open_rdwr = (a, k1)" "fresh_fd ?k a i k1" "k_data k1 = k_data ?k" "k_dir k1 = k_dir ?k"
    by (rule sys_open_rdwr [of ?k ?p i]) (use assms close_keeps in auto)
  obtain b k2 where o2: "sys_open k1 ?q open_rdwr = (b, k2)" "fresh_fd k1 b j k2" "k_data k2 = k_data k1" "k_dir k2 = k_dir k1"
    by (rule sys_open_rdwr [of k1 ?q j]) (use assms o1 close_keeps in \<open>auto simp: fresh_fd_def\<close>)
  have idle: "idle (k_locks ?k) i j" using i(3) close_keeps(4) [of k db] by (auto simp: idle_def)
  have cr: "\<not> open_rdwr AND (O_CREAT OR O_TRUNC) = O_CREAT OR O_TRUNC" by (simp add: oflag_defs)
  have d: "k_data k2 = k_data k" using o1(3) o2(3) close_keeps(1) by simp
  have buf: "length ibuf = 1026" "length dbuf = 1026" using assms(6,7) by simp_all
  have "okp (db_open ?k ibuf dbuf path open_rdwr) (\<lambda>(r, k'). \<exists>db. r = Some db \<and> db_inv k' db i j s \<and>
      k_dir k' = k_dir k2 \<and> k_locks k' = k_locks ?k \<and> k_deny k' = k_deny k2 \<and> k_data k' j = k_data k2 j)"
    by (rule open_inv [OF o1(1) o2(1) o1(2) o2(2) i(5) idle buf]) (use cr i(4) d in simp)
  then show ?thesis
    unfolding open_rdwr_def by (rule okp_mono) (use s(2) d in \<open>auto simp: db_ok_def\<close>)
qed

theorem reopen_keeps_contents_witness:
  "okp sample (\<lambda>(k, db). okp (db_open (db_close k db) buf0 buf0 ''lib'' O_RDWR)
     (\<lambda>(r, k'). \<exists>db' i j. r = Some db' \<and> db_ok k' db' i j [''alpha'' \<mapsto> ''one'']))"
proof (rule okp_mono [OF sample_ok], clarify)
  fix k db i j
  assume ok: "db_ok k db i j [''alpha'' \<mapsto> ''one'']" "k_dir k ''lib.idx'' = Some i" "k_dir k ''lib.dat'' = Some j" "k_deny k = (\<lambda>_. False)"
  show "okp (db_open (db_close k db) buf0 buf0 ''lib'' O_RDWR) (\<lambda>(r, k'). \<exists>db' i j. r = Some db' \<and> db_ok k' db' i j [''alpha'' \<mapsto> ''one''])"
    by (rule okp_mono [OF reopen_keeps_contents [OF ok(1), of "''lib''"]]) (use ok length_buf0 in auto)
qed

text \<open>
  C20.  After \<open>db_rewind\<close>, calling \<open>db_nextrec\<close> until it returns a null pointer ends, and the
  pairs it gives are exactly the entries of the map, each key once.
\<close>

theorem walk_lists_the_map:
  assumes "db_ok k db i j m" "length (k_data k i) < n"
  shows "okp (res_bind (db_rewind k db) (\<lambda>(k, db). nextrec_all n k db)) (\<lambda>(es, k', db').
     distinct (map fst es) \<and> map_of es = m \<and> db_ok k' db' i j m \<and> k_data k' = k_data k \<and> k_locks k' = k_locks k)"
proof -
  obtain s where s: "db_inv k db i j s" "db_map (k_data k j) s = m" using assms(1) by (auto simp: db_ok_def)
  note ok = db_invD(4) [OF s(1)]
  have len: "length (s_offs s) < n" using length_layout [OF idx_repD(2) [OF shape_okD(1) [OF ok]]] assms(2) by simp
  obtain k1 db1 where r: "db_rewind k db = Inr (k1, db1)" "db_inv k1 db1 i j s" "k_data k1 = k_data k" "k_locks k1 = k_locks k"
    "scan_at k1 db1 i s (s_offs s)"
    using rewind_inv [OF s(1)] by (auto simp: okp_def)
  show ?thesis
    unfolding r(1) res_bind_simps prod.case
    by (rule okp_mono [OF nextrec_all_inv [OF r(2,5) len]])
      (use r(3,4) s(2) walk_map [OF ok] walk_distinct [OF ok] in \<open>auto simp: db_ok_def\<close>)
qed

theorem walk_lists_the_map_witness:
  "okp sample (\<lambda>(k, db). okp (res_bind (db_rewind k db) (\<lambda>(k, db). nextrec_all 3000 k db))
     (\<lambda>(es, k', db'). distinct (map fst es) \<and> map_of es = [''alpha'' \<mapsto> ''one'']))"
proof (rule okp_mono [OF sample_ok], clarify)
  fix k db i j
  assume ok: "db_ok k db i j [''alpha'' \<mapsto> ''one'']" and len: "length (k_data k i) \<le> 2000"
  show "okp (res_bind (db_rewind k db) (\<lambda>(k, db). nextrec_all 3000 k db))
     (\<lambda>(es, k', db'). distinct (map fst es) \<and> map_of es = [''alpha'' \<mapsto> ''one''])"
    by (rule okp_mono [OF walk_lists_the_map [OF ok]]) (use len in auto)
qed

text \<open>
  The space of a deleted record is used again: a new record whose key and data have the
  lengths of the deleted ones makes neither file longer.
\<close>

theorem deleted_space_is_reused:
  assumes "db_ok k db i j m" "m key = Some t" "storable (length (k_data k j)) key' data" "length (k_data k i) \<le> 999999"
    and "length key' = length key" "length data = length t" "m key' = None \<or> key' = key"
  shows "okp (res_bind (db_delete k db key) (\<lambda>(r, k, db). db_store k db key' data DB_INSERT)) (\<lambda>(r, k', db').
     r = 0 \<and> db_ok k' db' i j (m(key := None, key' \<mapsto> data)) \<and>
     length (k_data k' i) = length (k_data k i) \<and> length (k_data k' j) = length (k_data k j))"
proof -
  obtain s where s: "db_inv k db i j s" "db_map (k_data k j) s = m" using assms(1) by (auto simp: db_ok_def)
  have mk: "db_map (k_data k j) s key = Some t" using s(2) assms(2) by simp
  obtain k1 db1 s1 x bs where d: "db_delete k db key = Inr (0, k1, db1)" "db_inv k1 db1 i j s1"
    "db_map (k_data k1 j) s1 = m(key := None)" "s_free s1 = x # bs" "slot_fits s1 (length key) (length t + 1) x"
    "length (k_data k1 i) = length (k_data k i)" "length (k_data k1 j) = length (k_data k j)"
    using delete_inv [OF s(1), of key] mk s(2) by (auto simp: okp_def)
  have st: "storable (length (k_data k1 j)) key' data" "length (k_data k1 i) \<le> 999999" using assms(3,4) d(6,7) by simp_all
  have fit: "List.find (slot_fits s1 (length key') (length data + 1)) (s_free s1) \<noteq> None"
    using d(4,5) assms(5,6) by simp
  have new: "db_map (k_data k1 j) s1 key' = None" using d(3) assms(7) by auto
  have fl: "DB_INSERT = DB_INSERT \<or> DB_INSERT = DB_REPLACE \<or> DB_INSERT = DB_STORE" by simp
  obtain r k2 db2 s2 where w: "db_store k1 db1 key' data DB_INSERT = Inr (r, k2, db2)" "db_inv k2 db2 i j s2"
    "(r, db_map (k_data k2 j) s2) = spec_store (db_map (k_data k1 j) s1) key' data DB_INSERT"
    "length (k_data k2 i) = length (k_data k1 i)" "length (k_data k2 j) = length (k_data k1 j)"
    using store_inv [OF d(2) st fl] fit new unfolding okp_def by blast
  have "r = 0" "db_map (k_data k2 j) s2 = m(key := None, key' \<mapsto> data)"
    using w(3) new d(3) by (simp_all add: spec_store_def)
  then show ?thesis using d(1,6,7) w(1,4,5) db_ok_inv [OF w(2)] by simp
qed

theorem deleted_space_is_reused_witness:
  "okp sample (\<lambda>(k, db). okp (res_bind (db_delete k db ''alpha'') (\<lambda>(r, k, db). db_store k db ''gamma'' ''two'' DB_INSERT))
     (\<lambda>(r, k', db'). r = 0 \<and> (\<exists>i j. db_ok k' db' i j [''gamma'' \<mapsto> ''two''] \<and>
        length (k_data k' i) = length (k_data k i) \<and> length (k_data k' j) = length (k_data k j))))"
proof (rule okp_mono [OF sample_ok], clarify)
  fix k db i j
  assume ok: "db_ok k db i j [''alpha'' \<mapsto> ''one'']" and len: "length (k_data k i) \<le> 2000" "length (k_data k j) \<le> 2000"
  have st: "storable (length (k_data k j)) ''gamma'' ''two''" using valid_storable [OF db_valid_sample(2)] len by simp
  have m: "[''alpha'' \<mapsto> ''one''](''alpha'' := None, ''gamma'' \<mapsto> ''two'') = [''gamma'' \<mapsto> ''two'']" by auto
  show "okp (res_bind (db_delete k db ''alpha'') (\<lambda>(r, k, db). db_store k db ''gamma'' ''two'' DB_INSERT))
     (\<lambda>(r, k', db'). r = 0 \<and> (\<exists>i j. db_ok k' db' i j [''gamma'' \<mapsto> ''two''] \<and>
        length (k_data k' i) = length (k_data k i) \<and> length (k_data k' j) = length (k_data k j)))"
    by (rule okp_mono [OF deleted_space_is_reused [OF ok _ st, where key = "''alpha''" and t = "''one''"]]) (use len m in auto)
qed

section \<open>Locks and errors\<close>

lemma lock_blocks:
  assumes "on_fd k fd a b i" "l \<in> set (k_locks k)" "conflicts (k_pid k) i w c (Some (c + 1)) l"
  shows "w \<Longrightarrow> writew_lock k fd (int c) SEEK_SET 1 = Inl (Blocked ''fcntl'')"
    "\<not> w \<Longrightarrow> readw_lock k fd (int c) SEEK_SET 1 = Inl (Blocked ''fcntl'')"
  using assms flock_range_of [of 1 c]
  by (auto simp: on_fd_def writew_lock_def readw_lock_def lock_reg_def sys_fcntl_lock_def seek_base_def lock_end_def)



section \<open>Hashing and long keys\<close>

lemma hash_loop_sum:
  "hash_loop v n cs = v + word_of_int (\<Sum>i<length cs. (n + int i) * schar (cs ! i))"
proof (induction cs arbitrary: v n)
  case Nil
  then show ?case by simp
next
  case (Cons c cs)
  have "(\<Sum>i<length (c # cs). (n + int i) * schar ((c # cs) ! i)) =
      n * schar c + (\<Sum>i<length cs. (n + 1 + int i) * schar (cs ! i))"
    by (simp add: sum.lessThan_Suc_shift add.assoc del: sum.lessThan_Suc)
  then show ?case using Cons.IH [of "v + word_of_int (schar c * n)" "n + 1"] by (simp add: mult.commute)
qed

text \<open>
  \<open>_db_hash\<close> is the sum of the characters of the key, each as a signed char and weighted
  with its position from 1, in 64-bit arithmetic, modulo the number of chains.
\<close>

theorem hash_is_weighted_sum:
  "db_hash db key = word_of_int (\<Sum>i<length key. (int i + 1) * schar (key ! i)) mod nhash db"
  using hash_loop_sum [of 0 1 key] by (simp add: db_hash_def add.commute)

lemma no_long_slot:
  assumes ok: "shape_ok idx dat s" and len: "1022 \<le> kl"
  shows "List.find (slot_fits s kl dl) (s_free s) = None"
proof -
  have "length (key_at s p) < 1022" if "p \<in> set (s_free s)" for p
    using idx_repD(5) [OF shape_okD(1) [OF ok] shape_fields(3) [OF ok that]] by (auto simp: rec_ok_def enc_rec_def)
  then show ?thesis using len unfolding find_None_iff by fastforce
qed

text \<open>
  A key of 1022 characters or more that is not in the database makes \<open>db_store\<close> write
  behind the end of \<open>idxbuf\<close>: \<open>_db_writeidx\<close> formats the record before it checks its length.
\<close>

theorem long_key_overruns_buffer:
  assumes "db_ok k db i j m" "m key = None" "1022 \<le> length key" "length data + 1 \<in> {DATLEN_MIN..DATLEN_MAX}"
    and "flag = DB_INSERT \<or> flag = DB_STORE"
  shows "db_store k db key data flag = Inl (Overrun ''_db_writeidx: idxbuf'')"
proof -
  obtain s where s: "db_inv k db i j s" "db_map (k_data k j) s = m" using assms(1) by (auto simp: db_ok_def)
  note inv = db_invD [OF s(1)]
  have mk: "db_map (k_data k j) s key = None" using s(2) assms(2) by simp
  let ?h = "hashk key" and ?kl = "length key" and ?dl = "length data + 1"
  obtain k1 db1 where f: "db_find_and_lock k db key True = Inr (-1, k1, db1)" "db_frame k db i j k1" "k_data k1 = k_data k"
    "k_locks k1 = chain_lock k i True ?h # k_locks k" "same_files db db1" "chainoff db1 = int (chain_head ?h)"
    by (rule search_ok [OF s(1), of key True]) (use mk in auto)
  have fds: "idxfd db1 = idxfd db" "datfd db1 = datfd db" "db_wf db1" using f(5) by (auto simp: same_files_def)
  have op1: "opened k1 (idxfd db1) (datfd db1) i j" using db_frame_opened [OF f(2) inv(1)] fds by simp
  have ok1: "shape_ok (k_data k1 i) (k_data k1 j) s" using inv(4) f(3) by simp
  obtain v k2 where r: "db_readptr k1 db1 (int (chain_head ?h)) = Inr (int v, k2)" "quiet k1 (idxfd db1) (datfd db1) k2" "v \<le> 999999"
    using readptr_ok [OF op1 shape_okD(1) [OF ok1] shape_fields(2) [OF ok1 hashk_less [of key]]]
      ptr_bound [OF ok1 shape_fields(2) [OF ok1 hashk_less [of key]]] by (auto simp: okp_def)
  have op2: "opened k2 (idxfd db1) (datfd db1) i j" "shape_ok (k_data k2 i) (k_data k2 j) s" "k_locks k2 = k_locks k1"
    using quiet_opened [OF r(2) op1] r(2) ok1 by (simp_all add: quiet_def)
  have free: "no_overlap (k_locks k2) i 0 (Some 1)" "no_overlap (k_locks k2) j 0 None"
    using chain_lock_apart [OF inv(3,5) hashk_less] f(4) op2(3) by simp_all
  obtain k3 db3 where ff: "db_findfree k2 db1 ?kl ?dl = Inr (-1, k3, db3)" "db_frame k2 db1 i j k3" "k_locks k3 = k_locks k2"
    "same_handle db1 db3"
    using findfree_ok [OF op2(1,2) fds(3) free(1), of ?kl ?dl] no_long_slot [OF op2(2) assms(3)] by (auto simp: okp_def)
  have d3: "idxfd db3 = idxfd db1" "datfd db3 = datfd db1" using ff(4) by (simp_all add: handle_defs)
  have op3: "opened k3 (idxfd db3) (datfd db3) i j" using db_frame_opened [OF ff(2) op2(1)] d3 by simp
  obtain k4 where w: "db_writedat k3 db3 data 0 SEEK_END = Inr (k4, db3\<lparr>datoff := int (length (k_data k3 j)), datlen := length data + 1\<rparr>)"
    using writedat_end_ok [OF op3, of data] free(2) ff(3) by (auto simp: okp_def)
  have "1 \<le> length (dec n)" for n by (simp add: Suc_le_eq dec_nonempty)
  from this [of "length (k_data k3 j)"] this [of "length data + 1"] assms(3)
  have "1026 < length key + (length (dec (length (k_data k3 j))) + length (dec (length data + 1))) + 4" by linarith
  then have o: "db_writeidx k4 (db3\<lparr>datoff := int (length (k_data k3 j)), datlen := length data + 1\<rparr>) key 0 SEEK_END (int v) =
      Inl (Overrun ''_db_writeidx: idxbuf'')" using r(3) by (simp add: db_writeidx_def Let_def)
  then have "db_store_new k1 db1 key data = Inl (Overrun ''_db_writeidx: idxbuf'')"
    using f(6) r(1) ff(1) w by (simp add: db_store_new_def db_append_def)
  then show ?thesis using f(1) assms(4,5) by (auto simp: db_store_def)
qed

theorem long_key_overruns_buffer_witness:
  "okp sample (\<lambda>(k, db). db_store k db (replicate 1022 CHR ''a'') ''one'' DB_INSERT = Inl (Overrun ''_db_writeidx: idxbuf''))"
proof (rule okp_mono [OF sample_ok], clarify)
  fix k db i j
  assume ok: "db_ok k db i j [''alpha'' \<mapsto> ''one'']"
  have ne: "replicate 1022 CHR ''a'' \<noteq> ''alpha''"
  proof
    assume "replicate 1022 CHR ''a'' = ''alpha''"
    from arg_cong [OF this, of length] show False by simp
  qed
  show "db_store k db (replicate 1022 CHR ''a'') ''one'' DB_INSERT = Inl (Overrun ''_db_writeidx: idxbuf'')"
    by (rule long_key_overruns_buffer [OF ok]) (use ne in auto)
qed

end
