(* ===== verification/Dtree_Model.thy ===== *)
theory Dtree_Model
  imports Prelude
begin

text \<open>
  The directory-tree cache of \<open>tlpi-dist/inotify/inotify_dtree.c\<close>: an array of watch
  descriptors and pathnames that follows a set of directory trees through inotify events.
  The global variables of the program are the fields of one record, the inotify instance
  of the kernel another, and the file system is seen through \<open>lstat\<close> and \<open>nftw\<close>.  Log
  messages are left out, except for their routing and the text of an event and of a dump.
\<close>

unbundle bit_operations_syntax

section \<open>Kernel side\<close>

definition PATH_MAX :: nat where "PATH_MAX = 4096"
definition NAME_MAX :: nat where "NAME_MAX = 255"
definition EV_SIZE :: nat where "EV_SIZE = 16"
definition INOTIFY_READ_BUF_LEN :: int where "INOTIFY_READ_BUF_LEN = 100 * (int EV_SIZE + int NAME_MAX + 1)"

definition IN_MOVED_FROM :: "32 word" where "IN_MOVED_FROM = 0x40"
definition IN_MOVED_TO :: "32 word" where "IN_MOVED_TO = 0x80"
definition IN_CREATE :: "32 word" where "IN_CREATE = 0x100"
definition IN_DELETE_SELF :: "32 word" where "IN_DELETE_SELF = 0x400"
definition IN_MOVE_SELF :: "32 word" where "IN_MOVE_SELF = 0x800"
definition IN_UNMOUNT :: "32 word" where "IN_UNMOUNT = 0x2000"
definition IN_Q_OVERFLOW :: "32 word" where "IN_Q_OVERFLOW = 0x4000"
definition IN_IGNORED :: "32 word" where "IN_IGNORED = 0x8000"
definition IN_ONLYDIR :: "32 word" where "IN_ONLYDIR = 0x1000000"
definition IN_ISDIR :: "32 word" where "IN_ISDIR = 0x40000000"

record inotify_event =
  ev_wd :: int
  ev_mask :: "32 word"
  ev_cookie :: "32 word"
  ev_len :: nat
  ev_name :: string

definition ev_size :: "inotify_event \<Rightarrow> int" where
  "ev_size ev = int (EV_SIZE + ev_len ev)"

text \<open>
  A watch names an object by device and inode.  Adding a watch for an object that has one
  gives the old descriptor; descriptors are not used twice.
\<close>

record watch_ent =
  we_wd :: int
  we_obj :: "nat \<times> nat"
  we_mask :: "32 word"

record inotify =
  in_next :: int
  in_watches :: "watch_ent list"

record fsys =
  fs_stat :: "string \<Rightarrow> (nat \<times> nat \<times> bool) option"
  fs_walk :: "string \<Rightarrow> (string \<times> bool) list option"
  fs_init :: int
  fs_junk :: bool
  fs_fopen :: "string \<Rightarrow> bool"

definition new_instance :: inotify where
  "new_instance = \<lparr>in_next = 1, in_watches = []\<rparr>"

definition inotify_add_watch :: "fsys \<Rightarrow> inotify \<Rightarrow> string \<Rightarrow> 32 word \<Rightarrow> int \<times> bool \<times> inotify" where
  "inotify_add_watch fs ino path flags = (case fs_stat fs path of
     None \<Rightarrow> (-1, True, ino)
   | Some (dev, n, isdir) \<Rightarrow>
       if flags AND IN_ONLYDIR \<noteq> 0 \<and> \<not> isdir then (-1, False, ino)
       else case List.find (\<lambda>w. we_obj w = (dev, n)) (in_watches ino) of
         Some w \<Rightarrow> (we_wd w, False,
           ino\<lparr>in_watches := map (\<lambda>v. if we_wd v = we_wd w then v\<lparr>we_mask := flags\<rparr> else v) (in_watches ino)\<rparr>)
       | None \<Rightarrow> (in_next ino, False,
           ino\<lparr>in_next := in_next ino + 1,
               in_watches := in_watches ino @ [\<lparr>we_wd = in_next ino, we_obj = (dev, n), we_mask = flags\<rparr>]\<rparr>))"

definition inotify_rm_watch :: "inotify \<Rightarrow> int \<Rightarrow> int \<times> inotify" where
  "inotify_rm_watch ino wd =
     (if \<exists>w \<in> set (in_watches ino). we_wd w = wd
      then (0, ino\<lparr>in_watches := filter (\<lambda>w. we_wd w \<noteq> wd) (in_watches ino)\<rparr>)
      else (-1, ino))"

section \<open>State\<close>

record watch =
  w_wd :: int
  w_path :: string

record dtree =
  wlCache :: "watch list"
  rootDirPaths :: "string option list"
  numRootDirs :: int
  ignoreRootDirs :: int
  dirCnt :: int
  reinitCnt :: int
  overflowCnt :: int
  inotifyReadCnt :: int
  verboseMask :: int
  checkCache :: bool
  dumpCache :: bool
  readBufferSize :: int
  abortOnCacheProblem :: bool
  logfp :: bool
  inotifyFd :: int
  inst :: inotify

definition cacheSize :: "dtree \<Rightarrow> nat" where
  "cacheSize s = length (wlCache s)"

text \<open>Which of stderr and the log file get a message.\<close>

definition logMessage :: "dtree \<Rightarrow> int \<Rightarrow> bool \<times> bool" where
  "logMessage s vb_mask = (vb_mask = 0 \<or> vb_mask AND verboseMask s \<noteq> 0, logfp s)"

definition displayInotifyEvent :: "inotify_event \<Rightarrow> string" where
  "displayInotifyEvent ev =
     ''==> wd = '' @ dec_int (ev_wd ev) @ ''; '' @
     (if ev_cookie ev > 0 then ''cookie = '' @ pad 4 (dec (unat (ev_cookie ev))) @ ''; '' else '''') @ ''mask = '' @
     concat (map (\<lambda>(b, t). if ev_mask ev AND b \<noteq> 0 then t else '''')
       [(IN_ISDIR, ''IN_ISDIR ''), (IN_CREATE, ''IN_CREATE ''), (IN_DELETE_SELF, ''IN_DELETE_SELF ''),
        (IN_MOVE_SELF, ''IN_MOVE_SELF ''), (IN_MOVED_FROM, ''IN_MOVED_FROM ''), (IN_MOVED_TO, ''IN_MOVED_TO ''),
        (IN_IGNORED, ''IN_IGNORED ''), (IN_Q_OVERFLOW, ''IN_Q_OVERFLOW ''), (IN_UNMOUNT, ''IN_UNMOUNT '')]) @ [NL] @
     (if ev_len ev > 0 then ''        name = '' @ ev_name ev @ [NL] else '''')"

section \<open>The cache\<close>

text \<open>An unused slot has the descriptor -1.\<close>

definition empty_slot :: watch where
  "empty_slot = \<lparr>w_wd = -1, w_path = []\<rparr>"

definition freeCache :: "dtree \<Rightarrow> dtree" where
  "freeCache s = s\<lparr>wlCache := []\<rparr>"

text \<open>The first slot from \<open>j\<close> on that satisfies \<open>Q\<close>, or -1: the linear searches of the program.\<close>

primrec first_slot :: "(watch \<Rightarrow> bool) \<Rightarrow> nat \<Rightarrow> watch list \<Rightarrow> int" where
  "first_slot Q j [] = -1"
| "first_slot Q j (w # ws) = (if Q w then int j else first_slot Q (Suc j) ws)"

definition findWatch :: "dtree \<Rightarrow> int \<Rightarrow> int" where
  "findWatch s wd = first_slot (\<lambda>w. w_wd w = wd) 0 (wlCache s)"

primrec dump_lines :: "nat \<Rightarrow> watch list \<Rightarrow> string" where
  "dump_lines j [] = []"
| "dump_lines j (w # ws) =
     (if w_wd w \<ge> 0 then dec j @ '': wd = '' @ dec_int (w_wd w) @ ''; '' @ w_path w @ [NL] else []) @ dump_lines (Suc j) ws"

text \<open>Without a log file the dump writes to a null pointer.\<close>

definition dumpCacheToLog :: "dtree \<Rightarrow> string res" where
  "dumpCacheToLog s = (if logfp s
     then Inr (dump_lines 0 (wlCache s) @ ''Total entries: '' @ dec (length (filter (\<lambda>w. w_wd w \<ge> 0) (wlCache s))) @ [NL])
     else Inl (Overrun ''logfp''))"

definition createStopFileAndAbort :: "dtree \<Rightarrow> 'a res" where
  "createStopFileAndAbort s = res_bind (dumpCacheToLog s) (\<lambda>_. Inl Aborted)"

definition findWatchChecked :: "dtree \<Rightarrow> int \<Rightarrow> int res" where
  "findWatchChecked s wd =
     (let slot = findWatch s wd in
      if slot \<ge> 0 then Inr slot
      else if abortOnCacheProblem s then createStopFileAndAbort s else Inr (-1))"

definition markCacheSlotEmpty :: "dtree \<Rightarrow> nat \<Rightarrow> dtree" where
  "markCacheSlotEmpty s slot = s\<lparr>wlCache := (wlCache s)[slot := empty_slot]\<rparr>"

definition ALLOC_INCR :: nat where "ALLOC_INCR = 200"

definition findEmptyCacheSlot :: "dtree \<Rightarrow> nat \<times> dtree" where
  "findEmptyCacheSlot s =
     (let j = first_slot (\<lambda>w. w_wd w = -1) 0 (wlCache s) in
      if j \<ge> 0 then (nat j, s)
      else (cacheSize s, s\<lparr>wlCache := wlCache s @ replicate ALLOC_INCR empty_slot\<rparr>))"

text \<open>\<open>strncpy\<close> into the array of \<open>PATH_MAX\<close> bytes.\<close>

definition addWatchToCache :: "dtree \<Rightarrow> int \<Rightarrow> string \<Rightarrow> nat \<times> dtree" where
  "addWatchToCache s wd pathname =
     (let (slot, s) = findEmptyCacheSlot s in
      (slot, s\<lparr>wlCache := (wlCache s)[slot := \<lparr>w_wd = wd, w_path = take PATH_MAX pathname\<rparr>]\<rparr>))"

definition pathnameToCacheSlot :: "dtree \<Rightarrow> string \<Rightarrow> int" where
  "pathnameToCacheSlot s pathname = first_slot (\<lambda>w. w_wd w \<ge> 0 \<and> w_path w = pathname) 0 (wlCache s)"

definition pathnameInCache :: "dtree \<Rightarrow> string \<Rightarrow> bool" where
  "pathnameInCache s pathname \<longleftrightarrow> pathnameToCacheSlot s pathname \<ge> 0"

text \<open>
  The consistency check.  \<open>sb\<close> is what the buffer of \<open>lstat\<close> last said about being a
  directory; at first it is whatever the stack held.
\<close>

primrec check_loop :: "fsys \<Rightarrow> watch list \<Rightarrow> bool \<Rightarrow> nat \<Rightarrow> nat res" where
  "check_loop fs [] sb failures = Inr failures"
| "check_loop fs (w # ws) sb failures =
     (if w_wd w \<ge> 0
      then (case fs_stat fs (w_path w) of
              None \<Rightarrow> check_loop fs ws sb (failures + 1)
            | Some (dev, n, isdir) \<Rightarrow> check_loop fs ws isdir failures)
      else if \<not> sb then Inl (Exit_with 1) else check_loop fs ws sb failures)"

definition checkCacheConsistency :: "fsys \<Rightarrow> dtree \<Rightarrow> nat res" where
  "checkCacheConsistency fs s = check_loop fs (wlCache s) (fs_junk fs) 0"

section \<open>Root directories\<close>

text \<open>Every argument is a directory, and no two are the same object.\<close>

primrec check_args :: "fsys \<Rightarrow> string list \<Rightarrow> unit res" where
  "check_args fs [] = Inr ()"
| "check_args fs (p # ps) = (case fs_stat fs p of
     None \<Rightarrow> Inl (Exit_with 1)
   | Some (dev, n, isdir) \<Rightarrow> if isdir then check_args fs ps else Inl (Exit_with 1))"

primrec copy_args :: "fsys \<Rightarrow> string list \<Rightarrow> (nat \<times> nat) list \<Rightarrow> unit res" where
  "copy_args fs [] seen = Inr ()"
| "copy_args fs (p # ps) seen = (case fs_stat fs p of
     None \<Rightarrow> Inl (Exit_with 1)
   | Some (dev, n, isdir) \<Rightarrow>
       if (dev, n) \<in> set seen then Inl (Exit_with 1) else copy_args fs ps (seen @ [(dev, n)]))"

definition copyRootDirPaths :: "fsys \<Rightarrow> dtree \<Rightarrow> string list \<Rightarrow> dtree res" where
  "copyRootDirPaths fs s argv =
     res_bind (check_args fs argv) (\<lambda>_.
     res_bind (copy_args fs argv []) (\<lambda>_.
     Inr (s\<lparr>numRootDirs := int (length argv), rootDirPaths := map Some argv, ignoreRootDirs := 0\<rparr>)))"

primrec first_root :: "string \<Rightarrow> nat \<Rightarrow> string option list \<Rightarrow> nat option" where
  "first_root path j [] = None"
| "first_root path j (r # rs) = (if r = Some path then Some j else first_root path (Suc j) rs)"

definition findRootDirPath :: "dtree \<Rightarrow> string \<Rightarrow> nat option" where
  "findRootDirPath s path = first_root path 0 (rootDirPaths s)"

definition isRootDirPath :: "dtree \<Rightarrow> string \<Rightarrow> bool" where
  "isRootDirPath s path \<longleftrightarrow> findRootDirPath s path \<noteq> None"

definition zapRootDirPath :: "dtree \<Rightarrow> string \<Rightarrow> dtree res" where
  "zapRootDirPath s path = (case findRootDirPath s path of
     None \<Rightarrow> Inl (Exit_with 1)
   | Some p \<Rightarrow>
       let s = s\<lparr>rootDirPaths := (rootDirPaths s)[p := None], ignoreRootDirs := ignoreRootDirs s + 1\<rparr> in
       if ignoreRootDirs s = numRootDirs s then Inl (Exit_with 0) else Inr s)"

section \<open>Watching a tree\<close>

definition watch_flags :: "32 word" where
  "watch_flags = IN_CREATE OR IN_MOVED_FROM OR IN_MOVED_TO OR IN_DELETE_SELF"

definition traverseTree :: "fsys \<Rightarrow> dtree \<Rightarrow> string \<times> bool \<Rightarrow> dtree res" where
  "traverseTree fs s obj =
     (let (pathname, isdir) = obj in
      if \<not> isdir then Inr s
      else
        let flags = (if isRootDirPath s pathname then watch_flags OR IN_MOVE_SELF else watch_flags);
            (wd, enoent, ino) = inotify_add_watch fs (inst s) pathname (flags OR IN_ONLYDIR) in
        if wd = -1 then (if enoent then Inr s else Inl (Exit_with 1))
        else
          let s = s\<lparr>inst := ino\<rparr> in
          if findWatch s wd \<ge> 0 then Inr s
          else
            let s = s\<lparr>dirCnt := dirCnt s + 1\<rparr>; (slot, s) = addWatchToCache s wd pathname in Inr s)"

primrec traverse_all :: "fsys \<Rightarrow> (string \<times> bool) list \<Rightarrow> dtree \<Rightarrow> dtree res" where
  "traverse_all fs [] s = Inr s"
| "traverse_all fs (x # xs) s = res_bind (traverseTree fs s x) (traverse_all fs xs)"

definition watchDir :: "fsys \<Rightarrow> dtree \<Rightarrow> string \<Rightarrow> (int \<times> dtree) res" where
  "watchDir fs s pathname =
     (let s = s\<lparr>dirCnt := 0\<rparr> in case fs_walk fs pathname of
        None \<Rightarrow> Inr (dirCnt s, s)
      | Some objs \<Rightarrow> res_bind (traverse_all fs objs s) (\<lambda>s. Inr (dirCnt s, s)))"

definition watchSubtree :: "fsys \<Rightarrow> dtree \<Rightarrow> string \<Rightarrow> dtree res" where
  "watchSubtree fs s path = res_bind (watchDir fs s path) (\<lambda>(cnt, s). Inr s)"

section \<open>Renaming and removing subtrees\<close>

text \<open>\<open>snprintf\<close> into \<open>n\<close> bytes keeps room for the null byte.\<close>

definition snprintf :: "nat \<Rightarrow> string \<Rightarrow> string" where
  "snprintf n t = take (n - 1) t"

text \<open>\<open>strncmp(p, q, strlen(p)) == 0\<close> and the next character of \<open>q\<close> is a slash or the end.\<close>

definition at_or_below :: "string \<Rightarrow> string \<Rightarrow> bool" where
  "at_or_below p q \<longleftrightarrow> take (length p) q = p \<and> (length q = length p \<or> length p < length q \<and> q ! length p = CHR ''/'')"

definition rewriteCachedPaths :: "dtree \<Rightarrow> string \<Rightarrow> string \<Rightarrow> string \<Rightarrow> string \<Rightarrow> dtree" where
  "rewriteCachedPaths s oldPathPrefix oldName newPathPrefix newName =
     (let fullPath = snprintf PATH_MAX (oldPathPrefix @ ''/'' @ oldName);
          newPrefix = snprintf PATH_MAX (newPathPrefix @ ''/'' @ newName);
          len = length fullPath in
      s\<lparr>wlCache := map (\<lambda>w. if at_or_below fullPath (w_path w)
          then w\<lparr>w_path := snprintf PATH_MAX (newPrefix @ drop len (w_path w))\<rparr> else w) (wlCache s)\<rparr>)"

primrec zap_loop :: "string \<Rightarrow> watch list \<Rightarrow> inotify \<Rightarrow> int \<Rightarrow> int \<times> watch list \<times> inotify" where
  "zap_loop pn [] ino cnt = (cnt, [], ino)"
| "zap_loop pn (w # ws) ino cnt =
     (if w_wd w \<ge> 0 \<and> at_or_below pn (w_path w)
      then let (r, ino) = inotify_rm_watch ino (w_wd w) in
        if r = -1 then (-1, w # ws, ino)
        else let (c, ws, ino) = zap_loop pn ws ino (cnt + 1) in (c, empty_slot # ws, ino)
      else let (c, ws, ino) = zap_loop pn ws ino cnt in (c, w # ws, ino))"

definition zapSubtree :: "dtree \<Rightarrow> string \<Rightarrow> int \<times> dtree" where
  "zapSubtree s path =
     (let (cnt, ws, ino) = zap_loop path (wlCache s) (inst s) 0 in (cnt, s\<lparr>wlCache := ws, inst := ino\<rparr>))"

primrec watch_roots :: "fsys \<Rightarrow> string option list \<Rightarrow> dtree \<Rightarrow> dtree res" where
  "watch_roots fs [] s = Inr s"
| "watch_roots fs (r # rs) s = (case r of
     None \<Rightarrow> watch_roots fs rs s
   | Some path \<Rightarrow> res_bind (watchSubtree fs s path) (watch_roots fs rs))"

text \<open>A new inotify instance and a cache built anew from the roots.\<close>

definition reinitialize :: "fsys \<Rightarrow> dtree \<Rightarrow> int \<Rightarrow> dtree res" where
  "reinitialize fs s oldInotifyFd =
     (let s = (if oldInotifyFd \<ge> 0 then s\<lparr>reinitCnt := reinitCnt s + 1\<rparr> else s\<lparr>reinitCnt := 0\<rparr>) in
      if fs_init fs = -1 then Inl (Exit_with 1)
      else let s = freeCache (s\<lparr>inotifyFd := fs_init fs, inst := new_instance\<rparr>) in
        watch_roots fs (rootDirPaths s) s)"

section \<open>Events\<close>

text \<open>
  How a branch of \<open>processNextInotifyEvent\<close> ends: it falls through to the end of the
  function, or returns at once.
\<close>

datatype ev_out = Falls int dtree | Returns int dtree

text \<open>The variable \<open>evCacheSlot\<close> is set only for events that carry a watch descriptor.\<close>

definition slot_of :: "nat option \<Rightarrow> nat res" where
  "slot_of slot = (case slot of None \<Rightarrow> Inl (Overrun ''evCacheSlot'') | Some j \<Rightarrow> Inr j)"

definition slot_path :: "dtree \<Rightarrow> nat \<Rightarrow> string" where
  "slot_path s j = w_path (wlCache s ! j)"

definition has :: "inotify_event \<Rightarrow> 32 word \<Rightarrow> bool" where
  "has ev b \<longleftrightarrow> ev_mask ev AND b \<noteq> 0"

text \<open>The cache is beyond repair: rebuild it and drop the rest of the buffer.\<close>

definition rebuild :: "fsys \<Rightarrow> dtree \<Rightarrow> ev_out res" where
  "rebuild fs s = res_bind (reinitialize fs s (inotifyFd s)) (\<lambda>s. Inr (Returns INOTIFY_READ_BUF_LEN s))"

definition ev_create :: "fsys \<Rightarrow> dtree \<Rightarrow> nat option \<Rightarrow> inotify_event \<Rightarrow> int \<Rightarrow> ev_out res" where
  "ev_create fs s slot ev evLen =
     res_bind (slot_of slot) (\<lambda>j.
     let fullPath = snprintf (PATH_MAX + NAME_MAX) (slot_path s j @ ''/'' @ ev_name ev) in
     if \<not> pathnameInCache s fullPath
     then res_bind (watchSubtree fs s fullPath) (\<lambda>s. Inr (Falls evLen s))
     else Inr (Falls evLen s))"

definition ev_delete_self :: "dtree \<Rightarrow> nat option \<Rightarrow> int \<Rightarrow> ev_out res" where
  "ev_delete_self s slot evLen =
     res_bind (slot_of slot) (\<lambda>j.
     res_bind (if isRootDirPath s (slot_path s j) then zapRootDirPath s (slot_path s j) else Inr s) (\<lambda>s.
     Inr (Falls evLen (markCacheSlotEmpty s j))))"

text \<open>
  A directory left its place.  When the next event of the buffer has the same cookie the
  rename stayed inside the watched trees and both events are used up; when there is no such
  event the subtree is dropped; and at the end of the buffer the caller is asked, once, to
  read more.
\<close>

definition ev_moved_from ::
  "fsys \<Rightarrow> dtree \<Rightarrow> nat option \<Rightarrow> inotify_event \<Rightarrow> inotify_event list \<Rightarrow> int \<Rightarrow> int \<Rightarrow> bool \<Rightarrow> ev_out res" where
  "ev_moved_from fs s slot ev rest evLen bufSize firstTry =
     (let more = (evLen < bufSize) in
      if more \<and> rest = [] then Inl (Overrun ''nextEv'')
      else if more \<and> has (hd rest) IN_MOVED_TO \<and> ev_cookie (hd rest) = ev_cookie ev
      then res_bind (findWatchChecked s (ev_wd (hd rest))) (\<lambda>nslot.
        if nslot = -1 then rebuild fs s
        else res_bind (slot_of slot) (\<lambda>j.
          Inr (Falls (evLen + ev_size (hd rest))
            (rewriteCachedPaths s (slot_path s j) (ev_name ev) (slot_path s (nat nslot)) (ev_name (hd rest))))))
      else if more \<or> \<not> firstTry
      then res_bind (slot_of slot) (\<lambda>j.
        let (r, s) = zapSubtree s (snprintf (PATH_MAX + NAME_MAX) (slot_path s j @ ''/'' @ ev_name ev)) in
        if r = -1 then rebuild fs s else Inr (Falls evLen s))
      else Inr (Returns (-1) s))"

definition ev_overflow :: "fsys \<Rightarrow> dtree \<Rightarrow> ev_out res" where
  "ev_overflow fs s =
     res_bind (reinitialize fs (s\<lparr>overflowCnt := overflowCnt s + 1\<rparr>) (inotifyFd s)) (\<lambda>s.
     Inr (Falls INOTIFY_READ_BUF_LEN s))"

definition ev_unmount :: "dtree \<Rightarrow> nat option \<Rightarrow> int \<Rightarrow> ev_out res" where
  "ev_unmount s slot evLen = res_bind (slot_of slot) (\<lambda>j. Inr (Falls evLen (markCacheSlotEmpty s j)))"

definition ev_move_self :: "fsys \<Rightarrow> dtree \<Rightarrow> nat \<Rightarrow> int \<Rightarrow> ev_out res" where
  "ev_move_self fs s j evLen =
     res_bind (zapRootDirPath s (slot_path s j)) (\<lambda>s.
     let (r, s) = zapSubtree s (slot_path s j) in
     if r = -1 then rebuild fs s else Inr (Falls evLen s))"

definition ev_branch ::
  "fsys \<Rightarrow> dtree \<Rightarrow> nat option \<Rightarrow> inotify_event \<Rightarrow> inotify_event list \<Rightarrow> int \<Rightarrow> bool \<Rightarrow> ev_out res" where
  "ev_branch fs s slot ev rest bufSize firstTry =
     (let evLen = ev_size ev in
      if has ev IN_ISDIR \<and> has ev (IN_CREATE OR IN_MOVED_TO) then ev_create fs s slot ev evLen
      else if has ev IN_DELETE_SELF then ev_delete_self s slot evLen
      else if ev_mask ev AND (IN_MOVED_FROM OR IN_ISDIR) = (IN_MOVED_FROM OR IN_ISDIR)
        then ev_moved_from fs s slot ev rest evLen bufSize firstTry
      else if has ev IN_Q_OVERFLOW then ev_overflow fs s
      else if has ev IN_UNMOUNT then ev_unmount s slot evLen
      else if has ev IN_MOVE_SELF then res_bind (slot_of slot) (\<lambda>j.
        if isRootDirPath s (slot_path s j) then ev_move_self fs s j evLen else Inr (Falls evLen s))
      else Inr (Falls evLen s))"

definition processNextInotifyEvent ::
  "fsys \<Rightarrow> dtree \<Rightarrow> inotify_event list \<Rightarrow> int \<Rightarrow> bool \<Rightarrow> (int \<times> dtree) res" where
  "processNextInotifyEvent fs s evs bufSize firstTry = (case evs of
     [] \<Rightarrow> Inl (Overrun ''event buffer'')
   | ev # rest \<Rightarrow>
       res_bind
         (if ev_wd ev \<noteq> -1 \<and> \<not> has ev IN_IGNORED
          then res_bind (findWatchChecked s (ev_wd ev)) (\<lambda>slot.
            if slot = -1 then rebuild fs s else ev_branch fs s (Some (nat slot)) ev rest bufSize firstTry)
          else ev_branch fs s None ev rest bufSize firstTry) (\<lambda>out.
       case out of
         Returns r s \<Rightarrow> Inr (r, s)
       | Falls r s \<Rightarrow>
           res_bind (if checkCache s then checkCacheConsistency fs s else Inr 0) (\<lambda>_.
           res_bind (if dumpCache s then dumpCacheToLog s else Inr []) (\<lambda>_. Inr (r, s)))))"

text \<open>
  What a \<open>read\<close> of the inotify descriptor gives: events, an interruption by the alarm,
  another error, or no bytes.
\<close>

datatype rd = Rd_events "inotify_event list" | Rd_intr | Rd_error | Rd_zero

definition bytes_of :: "inotify_event list \<Rightarrow> int" where
  "bytes_of evs = sum_list (map ev_size evs)"

text \<open>
  The kernel removes the watch of a directory that is deleted or whose file system is
  unmounted before the event can be read.  A descriptor an event names has been given out,
  so the next one is above it.
\<close>

definition gone :: "inotify_event \<Rightarrow> bool" where
  "gone ev \<longleftrightarrow> has ev IN_DELETE_SELF \<or> has ev IN_UNMOUNT"

definition kernel_read :: "inotify_event list \<Rightarrow> inotify \<Rightarrow> inotify" where
  "kernel_read evs ino =
     (let wds = map ev_wd (filter gone evs) in
      ino\<lparr>in_watches := filter (\<lambda>w. we_wd w \<notin> set wds) (in_watches ino),
          in_next := foldr (\<lambda>wd. max (wd + 1)) wds (in_next ino)\<rparr>)"

definition got_events :: "dtree \<Rightarrow> inotify_event list \<Rightarrow> dtree" where
  "got_events s evs = s\<lparr>inst := kernel_read evs (inst s), inotifyReadCnt := inotifyReadCnt s + 1\<rparr>"

text \<open>The events that start at or behind \<open>n\<close> bytes from the first.\<close>

primrec skip_bytes :: "inotify_event list \<Rightarrow> int \<Rightarrow> inotify_event list" where
  "skip_bytes [] n = []"
| "skip_bytes (ev # evs) n = (if n \<le> 0 then ev # evs else skip_bytes evs (n - ev_size ev))"

text \<open>
  The first read asks for \<open>readBufferSize\<close> bytes when that option is set, however large the
  buffer is.
\<close>

definition read_size :: "dtree \<Rightarrow> int" where
  "read_size s = (if readBufferSize s > 0 then readBufferSize s else INOTIFY_READ_BUF_LEN)"

primrec first_read :: "rd \<Rightarrow> inotify_event list res" where
  "first_read (Rd_events evs) =
     (if evs = [] then Inl (Exit_with 1)
      else if bytes_of evs > INOTIFY_READ_BUF_LEN then Inl (Overrun ''buf'') else Inr evs)"
| "first_read Rd_intr = Inl (Exit_with 1)"
| "first_read Rd_error = Inl (Exit_with 1)"
| "first_read Rd_zero = Inl (Exit_with 1)"

text \<open>
  The loop over the buffer: \<open>evs\<close> are the events from \<open>evp\<close> on and \<open>n\<close> the bytes the
  program counts there.  The second read adds its result to \<open>n\<close> also when it was
  interrupted, that is -1 (the test is of \<open>errno\<close>, which is never -1).  It asks for the
  rest of the buffer, so that more than fits there is not given.
\<close>

primrec process_loop ::
  "nat \<Rightarrow> fsys \<Rightarrow> dtree \<Rightarrow> inotify_event list \<Rightarrow> int \<Rightarrow> bool \<Rightarrow> rd list \<Rightarrow> dtree res" where
  "process_loop 0 fs s evs n firstTry reads = Inl Loops"
| "process_loop (Suc fuel) fs s evs n firstTry reads =
     (if n \<le> 0 then Inr s
      else res_bind (processNextInotifyEvent fs s evs n firstTry) (\<lambda>(evLen, s).
        if evLen > 0 then process_loop fuel fs s (skip_bytes evs evLen) (n - evLen) True reads
        else case reads of
          [] \<Rightarrow> process_loop fuel fs (s\<lparr>inotifyReadCnt := inotifyReadCnt s + 1\<rparr>) evs (n - 1) False []
        | r # reads \<Rightarrow> (case r of
            Rd_events extra \<Rightarrow>
              if extra = [] then Inl (Exit_with 1)
              else if n + bytes_of extra > INOTIFY_READ_BUF_LEN then Inl (Overrun ''buf'')
              else process_loop fuel fs (got_events s extra) (evs @ extra) (n + bytes_of extra) False reads
          | Rd_intr \<Rightarrow> process_loop fuel fs (s\<lparr>inotifyReadCnt := inotifyReadCnt s + 1\<rparr>) evs (n - 1) False reads
          | Rd_error \<Rightarrow> Inl (Exit_with 1)
          | Rd_zero \<Rightarrow> Inl (Exit_with 1))))"

primrec rd_events :: "rd \<Rightarrow> nat" where
  "rd_events (Rd_events evs) = length evs"
| "rd_events Rd_intr = 0"
| "rd_events Rd_error = 0"
| "rd_events Rd_zero = 0"

definition loop_fuel :: "inotify_event list \<Rightarrow> rd list \<Rightarrow> nat" where
  "loop_fuel evs reads = 2 * (length evs + sum_list (map rd_events reads)) + 2"

definition processInotifyEvents :: "fsys \<Rightarrow> dtree \<Rightarrow> rd \<Rightarrow> rd list \<Rightarrow> dtree res" where
  "processInotifyEvents fs s r reads =
     res_bind (first_read r) (\<lambda>evs.
     process_loop (loop_fuel evs reads) fs (got_events s evs) evs (bytes_of evs) True reads)"

section \<open>Commands\<close>

primrec verify_loop :: "fsys \<Rightarrow> watch list \<Rightarrow> nat \<Rightarrow> nat \<Rightarrow> (nat \<times> nat) res" where
  "verify_loop fs [] cnt failures = Inr (cnt, failures)"
| "verify_loop fs (w # ws) cnt failures =
     (if w_wd w \<ge> 0
      then (case fs_stat fs (w_path w) of
              None \<Rightarrow> verify_loop fs ws cnt (failures + 1)
            | Some (dev, n, isdir) \<Rightarrow> if \<not> isdir then Inl (Exit_with 1) else verify_loop fs ws (cnt + 1) failures)
      else verify_loop fs ws cnt failures)"

definition checkAllCachedPathnamesExist :: "fsys \<Rightarrow> dtree \<Rightarrow> (nat \<times> nat) res" where
  "checkAllCachedPathnamesExist fs s = verify_loop fs (wlCache s) 0 0"

text \<open>\<open>sscanf\<close> with \<open>%c %s\<close>: the first character, and the first word behind it if there is one.\<close>

definition scan_command :: "string \<Rightarrow> char \<times> string option" where
  "scan_command line =
     (let rest = dropWhile isspace (tl line); arg = takeWhile (\<lambda>c. \<not> isspace c) rest in
      (hd line, if arg = [] then None else Some arg))"

definition with_arg :: "string option \<Rightarrow> (string \<Rightarrow> 'a res) \<Rightarrow> 'a res" where
  "with_arg arg f = (case arg of None \<Rightarrow> Inl (Overrun ''arg'') | Some a \<Rightarrow> f a)"

text \<open>One command line: the new state and what the commands that list the cache print.\<close>

definition executeCommand :: "fsys \<Rightarrow> dtree \<Rightarrow> string \<Rightarrow> (string \<times> dtree) res" where
  "executeCommand fs s input =
     (if input = [] then Inl (Exit_with 1)
      else let line = cstr (butlast input) in
      if line = [] then Inr ([], s)
      else let (cmd, arg) = scan_command line in
      if cmd = CHR ''a'' then with_arg arg (\<lambda>p.
        let (cnt, s) = zapSubtree s p in res_bind (watchSubtree fs s p) (\<lambda>s. Inr ([], s)))
      else if cmd = CHR ''c'' \<or> cmd = CHR ''C'' then
        res_bind (checkAllCachedPathnamesExist fs s) (\<lambda>(cnt, failures). Inr (dec cnt @ '' '' @ dec failures, s))
      else if cmd = CHR ''l'' then
        Inr (concat (map (\<lambda>(j, w). if w_wd w \<ge> 0 then dec j @ '': '' @ dec_int (w_wd w) @ '' '' @ w_path w @ [NL] else [])
          (zip [0..<length (wlCache s)] (wlCache s))), s)
      else if cmd = CHR ''q'' then Inl (Exit_with 0)
      else if cmd = CHR ''v'' then
        Inr ([], s\<lparr>verboseMask := (case arg of Some a \<Rightarrow> atol a | None \<Rightarrow> if verboseMask s = 0 then 1 else 0)\<rparr>)
      else if cmd = CHR ''d'' then Inr ([], s\<lparr>dumpCache := \<not> dumpCache s\<rparr>)
      else if cmd = CHR ''x'' then Inr ([], s\<lparr>checkCache := \<not> checkCache s\<rparr>)
      else if cmd = CHR ''w'' then with_arg arg (\<lambda>p.
        if \<not> fs_fopen fs p then Inl (Overrun ''fp'')
        else Inr (concat (map (\<lambda>w. if w_wd w \<ge> 0 then w_path w @ [NL] else []) (wlCache s)), s))
      else if cmd = CHR ''z'' then with_arg arg (\<lambda>p. let (cnt, s) = zapSubtree s p in Inr ([], s))
      else if cmd = CHR ''0'' then res_bind (reinitialize fs s (-1)) (\<lambda>s. Inr ([], s))
      else Inr ([], s))"

section \<open>The program\<close>

text \<open>
  \<open>main\<close>: the options as \<open>getopt\<close> gives them, the arguments, and the loop around \<open>select\<close>.
  One turn of the loop has a line from the terminal, a block of events, or both; the file
  system it meets is its own, since the tree changes while the program runs.
\<close>

definition dtree_init :: dtree where
  "dtree_init = \<lparr>wlCache = [], rootDirPaths = [], numRootDirs = 0, ignoreRootDirs = 0, dirCnt = 0, reinitCnt = 0,
     overflowCnt = 0, inotifyReadCnt = 0, verboseMask = 0, checkCache = False, dumpCache = False, readBufferSize = 0,
     abortOnCacheProblem = False, logfp = False, inotifyFd = -1, inst = new_instance\<rparr>"

definition set_option :: "fsys \<Rightarrow> dtree \<Rightarrow> char \<times> string \<Rightarrow> dtree res" where
  "set_option fs s opt_arg =
     (let (c, optarg) = opt_arg in
      if c = CHR ''a'' then Inr (s\<lparr>abortOnCacheProblem := True\<rparr>)
      else if c = CHR ''x'' then Inr (s\<lparr>checkCache := True\<rparr>)
      else if c = CHR ''d'' then Inr (s\<lparr>dumpCache := True\<rparr>)
      else if c = CHR ''v'' then Inr (s\<lparr>verboseMask := atol optarg\<rparr>)
      else if c = CHR ''b'' then Inr (s\<lparr>readBufferSize := atol optarg\<rparr>)
      else if c = CHR ''l'' then (if fs_fopen fs optarg then Inr (s\<lparr>logfp := True\<rparr>) else Inl (Exit_with 1))
      else Inl (Exit_with 1))"

primrec set_options :: "fsys \<Rightarrow> (char \<times> string) list \<Rightarrow> dtree \<Rightarrow> dtree res" where
  "set_options fs [] s = Inr s"
| "set_options fs (x # xs) s = res_bind (set_option fs s x) (set_options fs xs)"

definition start :: "fsys \<Rightarrow> (char \<times> string) list \<Rightarrow> string list \<Rightarrow> dtree res" where
  "start fs opts argv =
     res_bind (set_options fs opts dtree_init) (\<lambda>s.
     if argv = [] then Inl (Exit_with 1)
     else res_bind (copyRootDirPaths fs s argv) (\<lambda>s. reinitialize fs s (-1)))"

record turn =
  t_fs :: fsys
  t_line :: "string option"
  t_events :: "(rd \<times> rd list) option"

definition main_turn :: "dtree \<Rightarrow> turn \<Rightarrow> dtree res" where
  "main_turn s t =
     res_bind (case t_line t of None \<Rightarrow> Inr s | Some line \<Rightarrow> res_bind (executeCommand (t_fs t) s line) (\<lambda>(out, s). Inr s)) (\<lambda>s.
     case t_events t of None \<Rightarrow> Inr s | Some (r, reads) \<Rightarrow> processInotifyEvents (t_fs t) s r reads)"

end
