(* ===== verification/Dtree_Cache.thy ===== *)
theory Dtree_Cache
  imports Dtree_Model
begin

text \<open>
  The watch cache: what its searches return, its invariant, and that watching, renaming and
  removing subtrees keep it.  The invariant ties the cache to the inotify instance: every
  descriptor in use is used by one slot, and every watch of the instance is in the cache.
\<close>

section \<open>Searches\<close>

lemma first_slot_cases:
  "first_slot Q j ws = -1 \<and> (\<forall>w \<in> set ws. \<not> Q w) \<or>
   (\<exists>n < length ws. first_slot Q j ws = int (j + n) \<and> Q (ws ! n) \<and> (\<forall>m<n. \<not> Q (ws ! m)))"
proof (induction ws arbitrary: j)
  case Nil
  then show ?case by simp
next
  case (Cons w ws)
  show ?case
  proof (cases "Q w")
    case True
    then show ?thesis by (intro disjI2 exI [of _ 0]) simp
  next
    case False
    from Cons.IH [of "Suc j"] show ?thesis
    proof
      assume "first_slot Q (Suc j) ws = -1 \<and> (\<forall>w \<in> set ws. \<not> Q w)"
      with False show ?thesis by simp
    next
      assume "\<exists>n < length ws. first_slot Q (Suc j) ws = int (Suc j + n) \<and> Q (ws ! n) \<and> (\<forall>m<n. \<not> Q (ws ! m))"
      then obtain n where n: "n < length ws" "first_slot Q (Suc j) ws = int (Suc j + n)" "Q (ws ! n)" "\<forall>m<n. \<not> Q (ws ! m)"
        by blast
      have "\<forall>m < Suc n. \<not> Q ((w # ws) ! m)" using n(4) False by (auto simp: nth_Cons split: nat.split)
      with n False show ?thesis by (intro disjI2 exI [of _ "Suc n"]) simp
    qed
  qed
qed

lemma first_slot_none: "first_slot Q 0 ws = -1 \<longleftrightarrow> (\<forall>w \<in> set ws. \<not> Q w)"
  using first_slot_cases [of Q 0 ws] nth_mem [of _ ws] by fastforce

lemma first_slot_some:
  assumes "first_slot Q 0 ws \<noteq> -1"
  shows "0 \<le> first_slot Q 0 ws" "nat (first_slot Q 0 ws) < length ws" "Q (ws ! nat (first_slot Q 0 ws))"
    "m < nat (first_slot Q 0 ws) \<Longrightarrow> \<not> Q (ws ! m)"
  using first_slot_cases [of Q 0 ws] assms by auto

lemma first_slot_ge: "first_slot Q 0 ws \<ge> 0 \<longleftrightarrow> (\<exists>w \<in> set ws. Q w)"
  using first_slot_none [of Q ws] first_slot_some(1) [of Q ws] by (cases "first_slot Q 0 ws = -1") auto

lemma findWatch_ge: "findWatch s wd \<ge> 0 \<longleftrightarrow> wd \<in> w_wd ` set (wlCache s)"
  by (auto simp: findWatch_def first_slot_ge)

section \<open>Invariant\<close>

definition used :: "watch list \<Rightarrow> watch list" where
  "used ws = filter (\<lambda>w. w_wd w \<ge> 0) ws"

definition inst_inv :: "inotify \<Rightarrow> bool" where
  "inst_inv ino \<longleftrightarrow> distinct (map we_wd (in_watches ino)) \<and> distinct (map we_obj (in_watches ino)) \<and>
     (\<forall>w \<in> set (in_watches ino). 1 \<le> we_wd w \<and> we_wd w < in_next ino) \<and> 1 \<le> in_next ino"

definition cache_inv :: "dtree \<Rightarrow> bool" where
  "cache_inv s \<longleftrightarrow> distinct (map w_wd (used (wlCache s))) \<and>
     (\<forall>w \<in> set (wlCache s). w_wd w \<ge> 0 \<or> w = empty_slot) \<and>
     (\<forall>w \<in> set (used (wlCache s)). 1 \<le> w_wd w \<and> w_wd w < in_next (inst s)) \<and>
     inst_inv (inst s)"

text \<open>Every watch of the instance is in the cache.\<close>

definition covers :: "dtree \<Rightarrow> bool" where
  "covers s \<longleftrightarrow> we_wd ` set (in_watches (inst s)) \<subseteq> w_wd ` set (used (wlCache s))"

lemma used_simps [simp]:
  "used [] = []" "used (w # ws) = (if w_wd w \<ge> 0 then w # used ws else used ws)" "used (xs @ ys) = used xs @ used ys"
  by (simp_all add: used_def)

lemma used_empty [simp]: "used (replicate n empty_slot) = []"
  by (induction n) (simp_all add: empty_slot_def)

lemma set_used: "w \<in> set (used ws) \<longleftrightarrow> w \<in> set ws \<and> w_wd w \<ge> 0"
  by (simp add: used_def)

lemma empty_slot_wd [simp]: "w_wd empty_slot = -1" "w_path empty_slot = []"
  by (simp_all add: empty_slot_def)

text \<open>Replacing a slot, in terms of the slots before and behind it.\<close>

lemma slot_split: "j < length ws \<Longrightarrow> ws = take j ws @ ws ! j # drop (Suc j) ws"
  by (rule id_take_nth_drop)

lemma used_update:
  assumes "j < length ws" "w_wd (ws ! j) = -1"
  shows "used (ws[j := w]) = used (take j ws) @ (if w_wd w \<ge> 0 then [w] else []) @ used (drop (Suc j) ws)"
    "used ws = used (take j ws) @ used (drop (Suc j) ws)"
proof -
  show "used (ws[j := w]) = used (take j ws) @ (if w_wd w \<ge> 0 then [w] else []) @ used (drop (Suc j) ws)"
    using assms(1) by (simp add: upd_conv_take_nth_drop)
  have "used (take j ws @ ws ! j # drop (Suc j) ws) = used (take j ws) @ used (drop (Suc j) ws)" using assms(2) by simp
  then show "used ws = used (take j ws) @ used (drop (Suc j) ws)" using slot_split [OF assms(1)] by simp
qed

section \<open>Adding an entry\<close>

lemma findEmpty_spec:
  assumes "findEmptyCacheSlot s = (j, s')"
  shows "j < length (wlCache s')" "w_wd (wlCache s' ! j) = -1" "used (wlCache s') = used (wlCache s)"
    "s' = s\<lparr>wlCache := wlCache s'\<rparr>" "set (wlCache s') \<subseteq> insert empty_slot (set (wlCache s))"
    "length (wlCache s) \<le> length (wlCache s')" "m < length (wlCache s) \<Longrightarrow> wlCache s' ! m = wlCache s ! m"
proof -
  let ?f = "first_slot (\<lambda>w. w_wd w = -1) 0 (wlCache s)"
  have c: "?f \<ge> 0 \<and> j = nat ?f \<and> s' = s \<or> ?f = -1 \<and> j = length (wlCache s) \<and> s' = s\<lparr>wlCache := wlCache s @ replicate 200 empty_slot\<rparr>"
    using assms first_slot_some(1) [of "\<lambda>w. w_wd w = -1" "wlCache s"]
    by (auto simp: findEmptyCacheSlot_def Let_def cacheSize_def ALLOC_INCR_def split: if_splits)
  show "j < length (wlCache s')" "w_wd (wlCache s' ! j) = -1"
    using c first_slot_some(2,3) [of "\<lambda>w. w_wd w = -1" "wlCache s"] by (auto simp: nth_append)
  show "used (wlCache s') = used (wlCache s)" "s' = s\<lparr>wlCache := wlCache s'\<rparr>" "set (wlCache s') \<subseteq> insert empty_slot (set (wlCache s))"
    "length (wlCache s) \<le> length (wlCache s')" "m < length (wlCache s) \<Longrightarrow> wlCache s' ! m = wlCache s ! m"
    using c by (auto simp: nth_append)
qed

lemma addWatch_spec:
  assumes "addWatchToCache s wd p = (j, s')" "0 \<le> wd"
  shows "j < length (wlCache s')" "wlCache s' ! j = \<lparr>w_wd = wd, w_path = take PATH_MAX p\<rparr>"
    "\<exists>as bs. used (wlCache s) = as @ bs \<and> used (wlCache s') = as @ \<lparr>w_wd = wd, w_path = take PATH_MAX p\<rparr> # bs"
    "s' = s\<lparr>wlCache := wlCache s'\<rparr>"
    "set (wlCache s') \<subseteq> insert \<lparr>w_wd = wd, w_path = take PATH_MAX p\<rparr> (insert empty_slot (set (wlCache s)))"
proof -
  obtain s1 where e: "findEmptyCacheSlot s = (j, s1)" and s': "s' = s1\<lparr>wlCache := (wlCache s1)[j := \<lparr>w_wd = wd, w_path = take PATH_MAX p\<rparr>]\<rparr>"
    using assms(1) by (auto simp: addWatchToCache_def Let_def split: prod.splits)
  note f = findEmpty_spec [OF e]
  let ?w = "\<lparr>w_wd = wd, w_path = take PATH_MAX p\<rparr>"
  show "j < length (wlCache s')" "wlCache s' ! j = ?w" using f(1) s' by simp_all
  show "\<exists>as bs. used (wlCache s) = as @ bs \<and> used (wlCache s') = as @ ?w # bs"
    using used_update(1) [OF f(1,2), of ?w] used_update(2) [OF f(1,2)] f(3) s' assms(2)
    by (intro exI [of _ "used (take j (wlCache s1))"] exI [of _ "used (drop (Suc j) (wlCache s1))"]) simp
  show "s' = s\<lparr>wlCache := wlCache s'\<rparr>" using s' f(4) by (metis dtree.surjective dtree.update_convs(1))
  show "set (wlCache s') \<subseteq> insert ?w (insert empty_slot (set (wlCache s)))"
    using s' f(5) set_update_subset_insert [of "wlCache s1" j ?w] by auto
qed

section \<open>The inotify instance\<close>

text \<open>What the watches of an instance say: which object a descriptor is for.\<close>

definition watched :: "inotify \<Rightarrow> (int \<times> nat \<times> nat) list" where
  "watched ino = map (\<lambda>w. (we_wd w, we_obj w)) (in_watches ino)"

lemma watched_wds: "we_wd ` set (in_watches ino) = fst ` set (watched ino)"
  by (auto simp: watched_def image_image)

lemma inst_inv_watched:
  "inst_inv ino \<longleftrightarrow> distinct (map fst (watched ino)) \<and> distinct (map snd (watched ino)) \<and>
     (\<forall>wd \<in> fst ` set (watched ino). 1 \<le> wd \<and> wd < in_next ino) \<and> 1 \<le> in_next ino"
  by (auto simp: inst_inv_def watched_def comp_def)

lemma add_watch_cases:
  assumes "inotify_add_watch fs ino p fl = (wd, e, ino')" "inst_inv ino"
  shows "wd = -1 \<and> ino' = ino \<or>
    (\<exists>d n b. fs_stat fs p = Some (d, n, b) \<and> (fl AND IN_ONLYDIR \<noteq> 0 \<longrightarrow> b) \<and> (wd, d, n) \<in> set (watched ino') \<and> 1 \<le> wd \<and> wd < in_next ino' \<and>
       (watched ino' = watched ino \<and> in_next ino' = in_next ino \<or>
        watched ino' = watched ino @ [(wd, d, n)] \<and> wd = in_next ino \<and> in_next ino' = in_next ino + 1 \<and> (d, n) \<notin> snd ` set (watched ino)))"
proof (cases "fs_stat fs p")
  case None
  then show ?thesis using assms(1) by (simp add: inotify_add_watch_def)
next
  case (Some x)
  obtain d n b where x: "x = (d, n, b)" by (cases x)
  show ?thesis
  proof (cases "fl AND IN_ONLYDIR \<noteq> 0 \<and> \<not> b")
    case True
    then show ?thesis using assms(1) Some x by (simp add: inotify_add_watch_def)
  next
    case b: False
    show ?thesis
    proof (cases "List.find (\<lambda>w. we_obj w = (d, n)) (in_watches ino)")
      case None
      then have "(d, n) \<notin> snd ` set (watched ino)" by (auto simp: find_None_iff watched_def)
      then show ?thesis
        using assms Some x b None by (auto simp: inotify_add_watch_def watched_def inst_inv_def)
    next
      case (Some w)
      then have w: "w \<in> set (in_watches ino)" "we_obj w = (d, n)" by (auto simp: find_Some_iff)
      have e: "wd = we_wd w" "ino' = ino\<lparr>in_watches := map (\<lambda>v. if we_wd v = we_wd w then v\<lparr>we_mask := fl\<rparr> else v) (in_watches ino)\<rparr>"
        using assms(1) \<open>fs_stat fs p = Some x\<close> x b Some by (auto simp: inotify_add_watch_def)
      have wt: "watched ino' = watched ino" by (simp add: e watched_def comp_def if_distrib cong: if_cong)
      have "(wd, d, n) \<in> set (watched ino)" using w e(1) by (auto simp: watched_def)
      then show ?thesis
        using wt e assms(2) w \<open>fs_stat fs p = Some x\<close> x b by (auto simp: inst_inv_def)
    qed
  qed
qed

lemma add_watch_inst:
  assumes "inotify_add_watch fs ino p fl = (wd, e, ino')" "inst_inv ino"
  shows "inst_inv ino'" "in_next ino \<le> in_next ino'"
  using add_watch_cases [OF assms] assms(2) by (fastforce simp: inst_inv_watched)+

section \<open>Watching a subtree\<close>

lemma cache_invI:
  assumes "distinct (map w_wd (used ws))" "\<forall>w \<in> set ws. w_wd w \<ge> 0 \<or> w = empty_slot"
    "\<forall>w \<in> set (used ws). 1 \<le> w_wd w \<and> w_wd w < in_next ino" "inst_inv ino" "wlCache s = ws" "inst s = ino"
  shows "cache_inv s"
  using assms by (simp add: cache_inv_def)

definition same_roots :: "dtree \<Rightarrow> dtree \<Rightarrow> bool" where
  "same_roots s s' \<longleftrightarrow> rootDirPaths s' = rootDirPaths s \<and> numRootDirs s' = numRootDirs s \<and> ignoreRootDirs s' = ignoreRootDirs s"

text \<open>
  One visited directory: the instance has a watch for it, the watch is in the cache, and at
  most one slot has been filled for that.
\<close>

definition watch_step :: "fsys \<Rightarrow> string \<Rightarrow> dtree \<Rightarrow> dtree \<Rightarrow> int \<Rightarrow> nat \<times> nat \<Rightarrow> bool" where
  "watch_step fs p s s' wd x \<longleftrightarrow> same_roots s s' \<and> fs_stat fs p = Some (fst x, snd x, True) \<and> (wd, x) \<in> set (watched (inst s')) \<and>
     1 \<le> wd \<and> wd < in_next (inst s') \<and> inst_inv (inst s') \<and> in_next (inst s) \<le> in_next (inst s') \<and>
     wd \<in> w_wd ` set (used (wlCache s')) \<and>
     (watched (inst s') = watched (inst s) \<or> watched (inst s') = watched (inst s) @ [(wd, x)] \<and> wd = in_next (inst s)) \<and>
     (wlCache s' = wlCache s \<or> wd \<notin> w_wd ` set (wlCache s) \<and>
        set (wlCache s') \<subseteq> insert \<lparr>w_wd = wd, w_path = take PATH_MAX p\<rparr> (insert empty_slot (set (wlCache s))) \<and>
        (\<exists>as bs. used (wlCache s) = as @ bs \<and> used (wlCache s') = as @ \<lparr>w_wd = wd, w_path = take PATH_MAX p\<rparr> # bs))"

lemma traverse_cases:
  assumes tr: "traverseTree fs s (p, isdir) = Inr s'" and inv: "cache_inv s"
  shows "s' = s \<and> (isdir \<longrightarrow> fs_stat fs p = None) \<or> isdir \<and> (\<exists>wd x. watch_step fs p s s' wd x)"
proof (cases isdir)
  case False
  then show ?thesis using tr by (simp add: traverseTree_def)
next
  case dir: True
  define fl where "fl = (if isRootDirPath s p then watch_flags OR IN_MOVE_SELF else watch_flags) OR IN_ONLYDIR"
  obtain wd e ino where a: "inotify_add_watch fs (inst s) p fl = (wd, e, ino)" by (cases "inotify_add_watch fs (inst s) p fl")
  have ii: "inst_inv (inst s)" using inv by (simp add: cache_inv_def)
  note c = add_watch_cases [OF a ii] and i = add_watch_inst [OF a ii]
  have od: "fl AND IN_ONLYDIR \<noteq> 0"
    by (auto simp: fl_def watch_flags_def IN_ONLYDIR_def IN_CREATE_def IN_MOVED_FROM_def IN_MOVED_TO_def IN_DELETE_SELF_def IN_MOVE_SELF_def)
  show ?thesis
  proof (cases "wd = -1")
    case True
    have "e \<longrightarrow> fs_stat fs p = None"
      using a by (auto simp: inotify_add_watch_def split: option.splits prod.splits if_splits)
    then show ?thesis using tr dir a True by (auto simp: traverseTree_def fl_def Let_def split: if_splits)
  next
    case False
    let ?s = "s\<lparr>inst := ino\<rparr>"
    from c False od obtain d n where n: "fs_stat fs p = Some (d, n, True)" "(wd, d, n) \<in> set (watched ino)" "1 \<le> wd" "wd < in_next ino"
      "watched ino = watched (inst s) \<or> watched ino = watched (inst s) @ [(wd, d, n)] \<and> wd = in_next (inst s)" by auto
    show ?thesis
    proof (cases "findWatch ?s wd \<ge> 0")
      case True
      have s': "s' = ?s" using tr dir a False True by (simp add: traverseTree_def fl_def Let_def split: if_splits)
      have "wd \<in> w_wd ` set (used (wlCache s))" using True n(3) by (auto simp: findWatch_ge set_used)
      then have "watch_step fs p s s' wd (d, n)" using n i s' by (auto simp: watch_step_def same_roots_def)
      then show ?thesis using dir by blast
    next
      case nf: False
      let ?s1 = "?s\<lparr>dirCnt := dirCnt ?s + 1\<rparr>" and ?w = "\<lparr>w_wd = wd, w_path = take PATH_MAX p\<rparr>"
      obtain j s2 where ad: "addWatchToCache ?s1 wd p = (j, s2)" by (cases "addWatchToCache ?s1 wd p")
      have wd0: "0 \<le> wd" using n(3) by simp
      note as = addWatch_spec [OF ad wd0]
      have s': "s' = s2" using tr dir a False nf ad by (simp add: traverseTree_def fl_def Let_def split: if_splits)
      have in2: "inst s2 = ino" using arg_cong [OF as(4), of inst] by simp
      have rt: "same_roots s s2" unfolding same_roots_def
        using arg_cong [OF as(4), of rootDirPaths] arg_cong [OF as(4), of numRootDirs] arg_cong [OF as(4), of ignoreRootDirs] by simp
      have nw: "wd \<notin> w_wd ` set (wlCache s)" using nf by (simp add: findWatch_ge)
      have us: "\<exists>as bs. used (wlCache s) = as @ bs \<and> used (wlCache s2) = as @ ?w # bs" using as(3) by simp
      then have "wd \<in> w_wd ` set (used (wlCache s2))" by force
      then have "watch_step fs p s s' wd (d, n)" using n i s' in2 nw us as(5) rt by (auto simp: watch_step_def)
      then show ?thesis using dir by blast
    qed
  qed
qed

lemma subset_insert_chain: "B \<subseteq> C \<Longrightarrow> a \<in> C \<Longrightarrow> X \<subseteq> insert a A \<Longrightarrow> A \<subseteq> B \<Longrightarrow> X \<subseteq> C"
  by blast

lemma watch_step_inv:
  assumes st: "watch_step fs p s s' wd x" and inv: "cache_inv s"
  shows "cache_inv s'" "covers s \<Longrightarrow> covers s'"
proof -
  let ?w = "\<lparr>w_wd = wd, w_path = take PATH_MAX p\<rparr>"
  have w: "1 \<le> wd" "wd < in_next (inst s')" "inst_inv (inst s')" "in_next (inst s) \<le> in_next (inst s')"
    using st by (simp_all add: watch_step_def)
  have bd: "1 \<le> w_wd v \<and> w_wd v < in_next (inst s')" if "v \<in> set (used (wlCache s))" for v
    using inv w(4) that unfolding cache_inv_def by force
  show "cache_inv s'"
  proof (cases "wlCache s' = wlCache s")
    case True
    then show ?thesis using inv w(3) bd by (auto simp: cache_inv_def)
  next
    case False
    then have n: "wd \<notin> w_wd ` set (wlCache s)" "set (wlCache s') \<subseteq> insert ?w (insert empty_slot (set (wlCache s)))"
      using st by (simp_all add: watch_step_def)
    obtain as bs where u: "used (wlCache s) = as @ bs" "used (wlCache s') = as @ ?w # bs"
      using st False by (auto simp: watch_step_def)
    have nu: "wd \<notin> w_wd ` set (used (wlCache s))" using n(1) by (auto simp: set_used)
    show ?thesis
    proof (rule cache_invI)
      show "distinct (map w_wd (used (wlCache s')))" using inv nu u by (auto simp: cache_inv_def)
      show "\<forall>w \<in> set (wlCache s'). w_wd w \<ge> 0 \<or> w = empty_slot" using inv n(2) w(1) by (fastforce simp: cache_inv_def)
      show "\<forall>w \<in> set (used (wlCache s')). 1 \<le> w_wd w \<and> w_wd w < in_next (inst s')"
      proof
        fix v
        assume "v \<in> set (used (wlCache s'))"
        then have "v = ?w \<or> v \<in> set (used (wlCache s))" using u by auto
        then show "1 \<le> w_wd v \<and> w_wd v < in_next (inst s')" using w(1,2,4) bd by auto
      qed
    qed (use w(3) in simp_all)
  qed
  show "covers s'" if "covers s"
  proof -
    have "w_wd ` set (used (wlCache s)) \<subseteq> w_wd ` set (used (wlCache s'))" using st by (auto simp: watch_step_def)
    moreover have "wd \<in> w_wd ` set (used (wlCache s'))" using st unfolding watch_step_def by blast
    moreover have "fst ` set (watched (inst s')) \<subseteq> insert wd (fst ` set (watched (inst s)))"
      using st unfolding watch_step_def by auto
    moreover have "fst ` set (watched (inst s)) \<subseteq> w_wd ` set (used (wlCache s))"
      using that by (simp add: covers_def watched_wds)
    ultimately show ?thesis unfolding covers_def watched_wds by (rule subset_insert_chain)
  qed
qed

end
