(* ===== verification/Dtree_Inv.thy ===== *)
theory Dtree_Inv
  imports Dtree_Cache
begin

text \<open>
  The cache invariant over the whole program: building the cache from the roots, renaming
  and removing subtrees, one event, a block of events, a command, a turn of the main loop.
\<close>

section \<open>What an operation keeps\<close>

text \<open>
  \<open>grows\<close>: no descriptor comes back to life.  Those of the later instance are watched
  before, or are newer than all of them.
\<close>

definition live :: "dtree \<Rightarrow> int set" where
  "live s = we_wd ` set (in_watches (inst s))"

definition grows :: "dtree \<Rightarrow> dtree \<Rightarrow> bool" where
  "grows s s' \<longleftrightarrow> in_next (inst s) \<le> in_next (inst s') \<and> (\<forall>wd \<in> live s'. wd \<in> live s \<or> in_next (inst s) \<le> wd)"

text \<open>The roots still monitored are counted right, and there is one.\<close>

definition roots_inv :: "dtree \<Rightarrow> bool" where
  "roots_inv s \<longleftrightarrow> numRootDirs s = int (length (rootDirPaths s)) \<and>
     ignoreRootDirs s = int (length (filter (\<lambda>r. r = None) (rootDirPaths s))) \<and> ignoreRootDirs s < numRootDirs s"

definition keeps :: "dtree \<Rightarrow> dtree \<Rightarrow> bool" where
  "keeps s s' \<longleftrightarrow> cache_inv s' \<and> (covers s \<longrightarrow> covers s') \<and> grows s s' \<and> (roots_inv s \<longrightarrow> roots_inv s')"

lemma same_roots_inv: "same_roots s s' \<Longrightarrow> roots_inv s \<Longrightarrow> roots_inv s'"
  by (simp add: same_roots_def roots_inv_def)

lemma grows_refl [simp]: "grows s s"
  by (simp add: grows_def)

lemma grows_trans: "grows s t \<Longrightarrow> grows t u \<Longrightarrow> grows s u"
  unfolding grows_def by (meson order.trans)

lemma keeps_trans: "keeps s t \<Longrightarrow> keeps t u \<Longrightarrow> keeps s u"
  unfolding keeps_def using grows_trans by blast

lemma keeps_inv: "keeps s t \<Longrightarrow> cache_inv t"
  by (simp add: keeps_def)

lemma cache_inv_cong: "wlCache s' = wlCache s \<Longrightarrow> inst s' = inst s \<Longrightarrow> cache_inv s' = cache_inv s"
  by (simp add: cache_inv_def)

lemma keeps_cong: "wlCache s' = wlCache s \<Longrightarrow> inst s' = inst s \<Longrightarrow> same_roots s s' \<Longrightarrow> cache_inv s \<Longrightarrow> keeps s s'"
  by (simp add: keeps_def covers_def grows_def live_def cache_inv_def same_roots_inv)

lemma keeps_refl: "cache_inv s \<Longrightarrow> keeps s s"
  by (rule keeps_cong) (simp_all add: same_roots_def)

section \<open>Building the cache\<close>

lemma live_watched: "live s = fst ` set (watched (inst s))"
  by (simp add: live_def watched_wds)

lemma watch_step_keeps:
  assumes "watch_step fs p s s' wd x" "cache_inv s"
  shows "keeps s s'"
proof -
  have "grows s s'" using assms(1) unfolding watch_step_def grows_def live_watched by auto
  moreover have "same_roots s s'" using assms(1) unfolding watch_step_def by blast
  ultimately show ?thesis using watch_step_inv [OF assms] by (simp add: keeps_def same_roots_inv)
qed

lemma traverse_keeps: "traverseTree fs s x = Inr s' \<Longrightarrow> cache_inv s \<Longrightarrow> keeps s s'"
  using traverse_cases [of fs s "fst x" "snd x" s'] watch_step_keeps keeps_refl by auto

lemma traverse_all_keeps: "traverse_all fs xs s = Inr s' \<Longrightarrow> cache_inv s \<Longrightarrow> keeps s s'"
proof (induction xs arbitrary: s)
  case Nil
  then show ?case by (simp add: keeps_refl)
next
  case (Cons x xs)
  then obtain s1 where s1: "traverseTree fs s x = Inr s1" "traverse_all fs xs s1 = Inr s'"
    by (cases "traverseTree fs s x") auto
  note t = traverse_keeps [OF s1(1) Cons.prems(2)]
  show ?case by (rule keeps_trans [OF t Cons.IH [OF s1(2) keeps_inv [OF t]]])
qed

lemma watchSubtree_cases:
  assumes "watchSubtree fs s p = Inr s'"
  shows "fs_walk fs p = None \<and> s' = s\<lparr>dirCnt := 0\<rparr> \<or>
    (\<exists>objs. fs_walk fs p = Some objs \<and> traverse_all fs objs (s\<lparr>dirCnt := 0\<rparr>) = Inr s')"
proof (cases "fs_walk fs p")
  case None
  then show ?thesis using assms by (simp add: watchSubtree_def watchDir_def Let_def)
next
  case (Some objs)
  then show ?thesis
    using assms by (cases "traverse_all fs objs (s\<lparr>dirCnt := 0\<rparr>)") (auto simp: watchSubtree_def watchDir_def Let_def)
qed

lemma watchSubtree_keeps:
  assumes "watchSubtree fs s p = Inr s'" "cache_inv s"
  shows "keeps s s'"
proof -
  have k: "keeps s (s\<lparr>dirCnt := 0\<rparr>)" using assms(2) by (intro keeps_cong) (simp_all add: same_roots_def)
  from watchSubtree_cases [OF assms(1)] show ?thesis
  proof
    assume "fs_walk fs p = None \<and> s' = s\<lparr>dirCnt := 0\<rparr>"
    with k show ?thesis by simp
  next
    assume "\<exists>objs. fs_walk fs p = Some objs \<and> traverse_all fs objs (s\<lparr>dirCnt := 0\<rparr>) = Inr s'"
    then obtain objs where "traverse_all fs objs (s\<lparr>dirCnt := 0\<rparr>) = Inr s'" by blast
    from keeps_trans [OF k traverse_all_keeps [OF this keeps_inv [OF k]]] show ?thesis .
  qed
qed

lemma watch_roots_keeps: "watch_roots fs rs s = Inr s' \<Longrightarrow> cache_inv s \<Longrightarrow> keeps s s'"
proof (induction rs arbitrary: s)
  case Nil
  then show ?case by (simp add: keeps_refl)
next
  case (Cons r rs)
  show ?case
  proof (cases r)
    case None
    then show ?thesis using Cons.prems Cons.IH [of s] by simp
  next
    case (Some p)
    then obtain s1 where s1: "watchSubtree fs s p = Inr s1" "watch_roots fs rs s1 = Inr s'"
      using Cons.prems(1) by (cases "watchSubtree fs s p") auto
    note w = watchSubtree_keeps [OF s1(1) Cons.prems(2)]
    show ?thesis by (rule keeps_trans [OF w Cons.IH [OF s1(2) keeps_inv [OF w]]])
  qed
qed

lemma reinitialize_start:
  assumes "reinitialize fs s fd = Inr s'"
  obtains s1 where "wlCache s1 = []" "inst s1 = new_instance" "same_roots s s1"
    "watch_roots fs (rootDirPaths s) s1 = Inr s'"
proof -
  let ?s1 = "freeCache ((if fd \<ge> 0 then s\<lparr>reinitCnt := reinitCnt s + 1\<rparr> else s\<lparr>reinitCnt := 0\<rparr>)\<lparr>inotifyFd := fs_init fs, inst := new_instance\<rparr>)"
  have "wlCache ?s1 = []" "inst ?s1 = new_instance" "same_roots s ?s1" by (simp_all add: freeCache_def same_roots_def)
  moreover have "watch_roots fs (rootDirPaths ?s1) ?s1 = Inr s'"
    using assms unfolding reinitialize_def Let_def by (cases "fs_init fs = -1") simp_all
  ultimately show ?thesis using that by (simp add: same_roots_def)
qed

lemma reinitialize_inv:
  assumes "reinitialize fs s fd = Inr s'"
  shows "cache_inv s'" "covers s'" "roots_inv s \<Longrightarrow> roots_inv s'"
proof -
  obtain s1 where s1: "wlCache s1 = []" "inst s1 = new_instance" "watch_roots fs (rootDirPaths s) s1 = Inr s'" "same_roots s s1"
    by (rule reinitialize_start [OF assms])
  have i: "cache_inv s1" and c: "covers s1"
    using s1(1,2) by (auto simp: cache_inv_def covers_def inst_inv_def new_instance_def)
  then show "cache_inv s'" "covers s'" "roots_inv s \<Longrightarrow> roots_inv s'"
    using watch_roots_keeps [OF s1(3) i] same_roots_inv [OF s1(4)] by (simp_all add: keeps_def)
qed

section \<open>Renaming a subtree\<close>

lemma used_map:
  assumes "\<And>w. w_wd (f w) = w_wd w"
  shows "used (map f ws) = map f (used ws)"
  by (induction ws) (simp_all add: assms)

lemma at_or_below_nonempty: "at_or_below p [] \<Longrightarrow> p = []"
  by (simp add: at_or_below_def)

lemma snprintf_slash: "1 < n \<Longrightarrow> snprintf n (p @ ''/'' @ t) \<noteq> []"
  by (simp add: snprintf_def)

text \<open>The path of one slot after a rename.\<close>

definition renamed :: "string \<Rightarrow> string \<Rightarrow> watch \<Rightarrow> watch" where
  "renamed old new w = (if at_or_below old (w_path w) then w\<lparr>w_path := snprintf PATH_MAX (new @ drop (length old) (w_path w))\<rparr> else w)"

lemma renamed_wd [simp]: "w_wd (renamed old new w) = w_wd w"
  by (simp add: renamed_def)

lemma renamed_empty: "old \<noteq> [] \<Longrightarrow> renamed old new empty_slot = empty_slot"
  using at_or_below_nonempty [of old] by (auto simp: renamed_def empty_slot_def)

lemma rewrite_renamed:
  "rewriteCachedPaths s op on np nn =
     s\<lparr>wlCache := map (renamed (snprintf PATH_MAX (op @ ''/'' @ on)) (snprintf PATH_MAX (np @ ''/'' @ nn))) (wlCache s)\<rparr>"
  by (simp add: rewriteCachedPaths_def renamed_def Let_def)

lemma PATH_MAX_gt: "1 < PATH_MAX"
  by (simp add: PATH_MAX_def)

lemma map_renamed_inv:
  assumes "cache_inv s" "old \<noteq> []"
  shows "cache_inv (s\<lparr>wlCache := map (renamed old new) (wlCache s)\<rparr>)"
    "covers s \<Longrightarrow> covers (s\<lparr>wlCache := map (renamed old new) (wlCache s)\<rparr>)"
proof -
  have u: "used (map (renamed old new) (wlCache s)) = map (renamed old new) (used (wlCache s))" by (rule used_map) simp
  have m: "map w_wd (map (renamed old new) ws) = map w_wd ws" for ws by simp
  show "cache_inv (s\<lparr>wlCache := map (renamed old new) (wlCache s)\<rparr>)"
    using assms(1) renamed_empty [OF assms(2)] unfolding cache_inv_def by (auto simp: u comp_def)
  have i: "w_wd ` set (map (renamed old new) ws) = w_wd ` set ws" for ws by (simp add: image_image)
  show "covers (s\<lparr>wlCache := map (renamed old new) (wlCache s)\<rparr>)" if "covers s"
    using that unfolding covers_def by (simp add: u image_image)
qed

lemma rewrite_keeps:
  assumes "cache_inv s"
  shows "keeps s (rewriteCachedPaths s op on np nn)"
  unfolding rewrite_renamed keeps_def using map_renamed_inv [OF assms snprintf_slash [OF PATH_MAX_gt]]
  by (simp add: grows_def live_def roots_inv_def)

section \<open>Removing a subtree\<close>

definition in_subtree :: "string \<Rightarrow> watch \<Rightarrow> bool" where
  "in_subtree p w \<longleftrightarrow> w_wd w \<ge> 0 \<and> at_or_below p (w_path w)"

definition zapped :: "string \<Rightarrow> watch list \<Rightarrow> watch list" where
  "zapped p ws = map (\<lambda>w. if in_subtree p w then empty_slot else w) ws"

lemma used_zapped: "used (zapped p ws) = filter (\<lambda>w. \<not> in_subtree p w) (used ws)"
  by (induction ws) (auto simp: zapped_def in_subtree_def)

text \<open>
  The loop up to the slot \<open>k\<close> where removing a watch failed, or to the end: the slots before
  it are cleared and their watches removed, the others are left.
\<close>

definition drop_watches :: "inotify \<Rightarrow> watch list \<Rightarrow> inotify" where
  "drop_watches ino ws = ino\<lparr>in_watches := filter (\<lambda>v. we_wd v \<notin> w_wd ` set ws) (in_watches ino)\<rparr>"

lemma drop_watches_Nil [simp]: "drop_watches ino [] = ino"
  by (simp add: drop_watches_def)

lemma drop_watches_Cons:
  "drop_watches (ino\<lparr>in_watches := filter (\<lambda>v. we_wd v \<noteq> w_wd w) (in_watches ino)\<rparr>) ws = drop_watches ino (w # ws)"
  by (simp add: drop_watches_def)

lemma zap_loop_spec:
  assumes "zap_loop p ws ino cnt = (c, ws', ino')"
  shows "\<exists>k \<le> length ws. ws' = zapped p (take k ws) @ drop k ws \<and>
     ino' = drop_watches ino (filter (in_subtree p) (take k ws)) \<and>
     (k = length ws \<and> c = cnt + int (length (filter (in_subtree p) ws)) \<or>
      k < length ws \<and> c = -1 \<and> in_subtree p (ws ! k) \<and> w_wd (ws ! k) \<notin> we_wd ` set (in_watches ino'))"
  using assms
proof (induction ws arbitrary: ino cnt c ws' ino')
  case Nil
  then show ?case by (simp add: zapped_def)
next
  case (Cons w ws)
  show ?case
  proof (cases "in_subtree p w")
    case False
    then have nb: "\<not> (w_wd w \<ge> 0 \<and> at_or_below p (w_path w))" by (simp add: in_subtree_def)
    obtain d us i where z: "zap_loop p ws ino cnt = (d, us, i)" by (cases "zap_loop p ws ino cnt")
    with Cons.prems nb have e: "c = d" "ws' = w # us" "ino' = i" by auto
    obtain k where "k \<le> length ws" "us = zapped p (take k ws) @ drop k ws"
      "i = drop_watches ino (filter (in_subtree p) (take k ws))"
      "k = length ws \<and> d = cnt + int (length (filter (in_subtree p) ws)) \<or>
       k < length ws \<and> d = -1 \<and> in_subtree p (ws ! k) \<and> w_wd (ws ! k) \<notin> we_wd ` set (in_watches i)"
      using Cons.IH [OF z] by blast
    then show ?thesis using e False by (intro exI [of _ "Suc k"]) (auto simp: zapped_def)
  next
    case True
    then have b: "w_wd w \<ge> 0 \<and> at_or_below p (w_path w)" by (simp add: in_subtree_def)
    show ?thesis
    proof (cases "\<exists>v \<in> set (in_watches ino). we_wd v = w_wd w")
      case False
      then have "inotify_rm_watch ino (w_wd w) = (-1, ino)" by (simp add: inotify_rm_watch_def)
      with Cons.prems b have "c = -1" "ws' = w # ws" "ino' = ino" by auto
      then show ?thesis using False True by (intro exI [of _ 0]) (auto simp: zapped_def)
    next
      case live: True
      let ?i = "ino\<lparr>in_watches := filter (\<lambda>v. we_wd v \<noteq> w_wd w) (in_watches ino)\<rparr>"
      have rm: "inotify_rm_watch ino (w_wd w) = (0, ?i)" using live by (simp add: inotify_rm_watch_def)
      obtain d us i where z: "zap_loop p ws ?i (cnt + 1) = (d, us, i)" by (cases "zap_loop p ws ?i (cnt + 1)")
      with Cons.prems b rm have e: "c = d" "ws' = empty_slot # us" "ino' = i" by auto
      obtain k where k: "k \<le> length ws" "us = zapped p (take k ws) @ drop k ws"
        "i = drop_watches ?i (filter (in_subtree p) (take k ws))"
        "k = length ws \<and> d = cnt + 1 + int (length (filter (in_subtree p) ws)) \<or>
         k < length ws \<and> d = -1 \<and> in_subtree p (ws ! k) \<and> w_wd (ws ! k) \<notin> we_wd ` set (in_watches i)"
        using Cons.IH [OF z] by blast
      have "i = drop_watches ino (filter (in_subtree p) (take (Suc k) (w # ws)))"
        using k(3) True by (simp add: drop_watches_Cons)
      then show ?thesis using e True k by (intro exI [of _ "Suc k"]) (auto simp: zapped_def)
    qed
  qed
qed

lemma zapSubtree_cases:
  assumes "zapSubtree s p = (c, s')"
  obtains k where "k \<le> length (wlCache s)" "s' = s\<lparr>wlCache := zapped p (take k (wlCache s)) @ drop k (wlCache s),
      inst := drop_watches (inst s) (filter (in_subtree p) (take k (wlCache s)))\<rparr>"
    "k = length (wlCache s) \<and> c = int (length (filter (in_subtree p) (wlCache s))) \<or>
     k < length (wlCache s) \<and> c = -1 \<and> in_subtree p (wlCache s ! k) \<and> w_wd (wlCache s ! k) \<notin> we_wd ` set (in_watches (inst s'))"
proof -
  obtain ws ino where z: "zap_loop p (wlCache s) (inst s) 0 = (c, ws, ino)" and s': "s' = s\<lparr>wlCache := ws, inst := ino\<rparr>"
    using assms by (auto simp: zapSubtree_def Let_def split: prod.splits)
  show ?thesis using zap_loop_spec [OF z] that s' by auto
qed

lemma drop_watches_inv:
  assumes "inst_inv ino"
  shows "inst_inv (drop_watches ino ws)" "in_next (drop_watches ino ws) = in_next ino"
  using assms by (auto simp: inst_inv_def drop_watches_def distinct_map_filter)

lemma zap_used:
  "used (zapped p (take k ws) @ drop k ws) = filter (\<lambda>w. \<not> in_subtree p w) (used (take k ws)) @ used (drop k ws)"
  by (simp add: used_zapped)

lemma used_take_drop: "used ws = used (take k ws) @ used (drop k ws)"
  using used_simps(3) [of "take k ws" "drop k ws"] by simp

lemma zap_inv:
  assumes "cache_inv s"
  shows "cache_inv (s\<lparr>wlCache := zapped p (take k (wlCache s)) @ drop k (wlCache s),
      inst := drop_watches (inst s) (filter (in_subtree p) (take k (wlCache s)))\<rparr>)" (is "cache_inv ?s")
proof (rule cache_invI)
  let ?ws = "wlCache s"
  have ii: "inst_inv (inst s)" using assms by (simp add: cache_inv_def)
  show "inst_inv (drop_watches (inst s) (filter (in_subtree p) (take k ?ws)))" by (rule drop_watches_inv [OF ii])
  have d: "distinct (map w_wd (used (take k ?ws) @ used (drop k ?ws)))"
    using assms used_take_drop [of ?ws k] by (simp add: cache_inv_def)
  then show "distinct (map w_wd (used (zapped p (take k ?ws) @ drop k ?ws)))"
    unfolding zap_used by (auto simp: distinct_map_filter)
  have sub: "v \<in> set (used ?ws)" if "v \<in> set (used (zapped p (take k ?ws) @ drop k ?ws))" for v
    using that unfolding zap_used by (subst used_take_drop [of _ k]) auto
  show "\<forall>w \<in> set (used (zapped p (take k ?ws) @ drop k ?ws)). 1 \<le> w_wd w \<and>
      w_wd w < in_next (drop_watches (inst s) (filter (in_subtree p) (take k ?ws)))"
    using sub assms unfolding cache_inv_def drop_watches_inv(2) [OF ii] by blast
  show "\<forall>w \<in> set (zapped p (take k ?ws) @ drop k ?ws). w_wd w \<ge> 0 \<or> w = empty_slot"
    using assms unfolding cache_inv_def zapped_def by (auto dest: in_set_takeD in_set_dropD)
qed simp_all

lemma zap_covers:
  assumes "covers s"
  shows "covers (s\<lparr>wlCache := zapped p (take k (wlCache s)) @ drop k (wlCache s),
      inst := drop_watches (inst s) (filter (in_subtree p) (take k (wlCache s)))\<rparr>)"
  unfolding covers_def
proof
  let ?ws = "wlCache s"
  fix wd
  assume "wd \<in> we_wd ` set (in_watches (inst (s\<lparr>wlCache := zapped p (take k ?ws) @ drop k ?ws,
      inst := drop_watches (inst s) (filter (in_subtree p) (take k ?ws))\<rparr>)))"
  then have a: "wd \<in> we_wd ` set (in_watches (inst s))" "wd \<notin> w_wd ` set (filter (in_subtree p) (take k ?ws))"
    by (auto simp: drop_watches_def)
  then obtain w where w: "w \<in> set (used ?ws)" "w_wd w = wd" using assms by (auto simp: covers_def)
  then have "w \<in> set (used (take k ?ws)) \<or> w \<in> set (used (drop k ?ws))" using used_take_drop [of ?ws k] by simp
  then have "w \<in> set (used (zapped p (take k ?ws) @ drop k ?ws))"
    unfolding zap_used using a(2) w(2) by (auto simp: set_used)
  then show "wd \<in> w_wd ` set (used (wlCache (s\<lparr>wlCache := zapped p (take k ?ws) @ drop k ?ws,
      inst := drop_watches (inst s) (filter (in_subtree p) (take k ?ws))\<rparr>)))" using w(2) by auto
qed

lemma zapSubtree_keeps:
  assumes "zapSubtree s p = (c, s')" "cache_inv s"
  shows "keeps s s'"
proof -
  obtain k where s': "s' = s\<lparr>wlCache := zapped p (take k (wlCache s)) @ drop k (wlCache s),
      inst := drop_watches (inst s) (filter (in_subtree p) (take k (wlCache s)))\<rparr>"
    by (rule zapSubtree_cases [OF assms(1)])
  have "grows s s'" unfolding s' by (auto simp: grows_def live_def drop_watches_def)
  moreover have "same_roots s s'" by (simp add: s' same_roots_def)
  ultimately show ?thesis using zap_inv [OF assms(2)] zap_covers same_roots_inv unfolding s' keeps_def by blast
qed

section \<open>Clearing a slot\<close>

lemma used_clear:
  assumes "j < length ws"
  shows "used (ws[j := empty_slot]) = used (take j ws) @ used (drop (Suc j) ws)"
    "used ws = used (take j ws) @ (if w_wd (ws ! j) \<ge> 0 then [ws ! j] else []) @ used (drop (Suc j) ws)"
proof -
  show "used (ws[j := empty_slot]) = used (take j ws) @ used (drop (Suc j) ws)"
    using assms by (simp add: upd_conv_take_nth_drop)
  have "used (take j ws @ ws ! j # drop (Suc j) ws) = used (take j ws) @ (if w_wd (ws ! j) \<ge> 0 then [ws ! j] else []) @ used (drop (Suc j) ws)"
    by simp
  then show "used ws = used (take j ws) @ (if w_wd (ws ! j) \<ge> 0 then [ws ! j] else []) @ used (drop (Suc j) ws)"
    using slot_split [OF assms] by simp
qed

lemma mark_keeps:
  assumes "cache_inv s" "j < length (wlCache s)" "w_wd (wlCache s ! j) \<notin> live s"
  shows "keeps s (markCacheSlotEmpty s j)"
proof -
  let ?ws = "wlCache s" and ?us = "(wlCache s)[j := empty_slot]"
  note u = used_clear [OF assms(2)]
  have sub: "v \<in> set (used ?ws)" if "v \<in> set (used ?us)" for v using that u by auto
  have "cache_inv (markCacheSlotEmpty s j)"
  proof (rule cache_invI)
    show "distinct (map w_wd (used ?us))" using assms(1) u unfolding cache_inv_def by (auto split: if_splits)
    show "\<forall>w \<in> set ?us. w_wd w \<ge> 0 \<or> w = empty_slot"
      using assms(1) set_update_subset_insert [of ?ws j empty_slot] unfolding cache_inv_def by blast
    show "\<forall>w \<in> set (used ?us). 1 \<le> w_wd w \<and> w_wd w < in_next (inst s)" using assms(1) sub unfolding cache_inv_def by blast
    show "inst_inv (inst s)" using assms(1) by (simp add: cache_inv_def)
  qed (simp_all add: markCacheSlotEmpty_def)
  moreover have "covers (markCacheSlotEmpty s j)" if cov: "covers s"
    unfolding covers_def
  proof
    fix wd
    assume "wd \<in> we_wd ` set (in_watches (inst (markCacheSlotEmpty s j)))"
    then have wd: "wd \<in> live s" by (simp add: markCacheSlotEmpty_def live_def)
    then obtain w where w: "w \<in> set (used ?ws)" "w_wd w = wd" using cov by (auto simp: covers_def live_def)
    have "w \<noteq> ?ws ! j" using w(2) wd assms(3) by auto
    with w(1) have "w \<in> set (used ?us)" unfolding u by (auto split: if_splits)
    with w(2) show "wd \<in> w_wd ` set (used (wlCache (markCacheSlotEmpty s j)))" by (auto simp: markCacheSlotEmpty_def)
  qed
  ultimately show ?thesis by (simp add: keeps_def grows_def live_def markCacheSlotEmpty_def roots_inv_def)
qed

end
