(* ===== verification/Dtree_Events.thy ===== *)
theory Dtree_Events
  imports Dtree_Inv
begin

text \<open>
  Events, blocks of events, commands and turns of the main loop: each keeps the cache
  invariant, and the loop over a block of events ends.
\<close>

section \<open>One event\<close>

definition gone_ok :: "dtree \<Rightarrow> inotify_event \<Rightarrow> bool" where
  "gone_ok s ev \<longleftrightarrow> (gone ev \<longrightarrow> ev_wd ev \<notin> live s \<and> ev_wd ev < in_next (inst s))"

lemma gone_ok_grows: "gone_ok s ev \<Longrightarrow> grows s s' \<Longrightarrow> gone_ok s' ev"
  unfolding gone_ok_def grows_def by fastforce

text \<open>
  What one event may do: it is used up, and the cache is kept or built anew (and then the
  rest of the buffer is dropped), or it is left for another try.
\<close>

definition rebuilt :: "dtree \<Rightarrow> dtree \<Rightarrow> bool" where
  "rebuilt s s' \<longleftrightarrow> cache_inv s' \<and> covers s' \<and> (roots_inv s \<longrightarrow> roots_inv s')"

definition step_good :: "dtree \<Rightarrow> bool \<Rightarrow> int \<Rightarrow> dtree \<Rightarrow> bool" where
  "step_good s firstTry r s' \<longleftrightarrow>
     0 < r \<and> keeps s s' \<or> r = INOTIFY_READ_BUF_LEN \<and> rebuilt s s' \<or> r = -1 \<and> firstTry \<and> s' = s"

primrec out_good :: "dtree \<Rightarrow> bool \<Rightarrow> ev_out \<Rightarrow> bool" where
  "out_good s firstTry (Falls r s') = step_good s firstTry r s'"
| "out_good s firstTry (Returns r s') = step_good s firstTry r s'"

lemma ev_size_pos: "0 < ev_size ev"
  by (simp add: ev_size_def EV_SIZE_def)

lemma rebuild_good: "rebuild fs s = Inr out \<Longrightarrow> (roots_inv s' \<longrightarrow> roots_inv s) \<Longrightarrow> out_good s' ft out"
  using reinitialize_inv [of fs s "inotifyFd s"]
  by (cases "reinitialize fs s (inotifyFd s)") (auto simp: rebuild_def step_good_def rebuilt_def)

lemma findWatchChecked_slot:
  assumes "findWatchChecked s wd = Inr k" "k \<noteq> -1"
  shows "nat k < length (wlCache s)" "w_wd (wlCache s ! nat k) = wd"
proof -
  have k: "k = first_slot (\<lambda>w. w_wd w = wd) 0 (wlCache s)"
    using assms by (auto simp: findWatchChecked_def findWatch_def createStopFileAndAbort_def dumpCacheToLog_def Let_def split: if_splits)
  then show "nat k < length (wlCache s)" "w_wd (wlCache s ! nat k) = wd"
    using first_slot_some(2,3) [of "\<lambda>w. w_wd w = wd" "wlCache s"] assms(2) by simp_all
qed

lemma zapRoot_same: "zapRootDirPath s p = Inr s' \<Longrightarrow> wlCache s' = wlCache s \<and> inst s' = inst s"
  by (auto simp: zapRootDirPath_def Let_def split: option.splits if_splits)

lemma first_root_some: "first_root p j rs = Some k \<Longrightarrow> j \<le> k \<and> k < j + length rs \<and> rs ! (k - j) = Some p"
proof (induction rs arbitrary: j)
  case Nil
  then show ?case by simp
next
  case (Cons r rs)
  show ?case
  proof (cases "r = Some p")
    case True
    then show ?thesis using Cons.prems by simp
  next
    case False
    then have "Suc j \<le> k \<and> k < Suc j + length rs \<and> rs ! (k - Suc j) = Some p"
      using Cons.prems Cons.IH [of "Suc j"] by simp
    then show ?thesis by (auto simp: nth_Cons')
  qed
qed

lemma count_update: "k < length rs \<Longrightarrow> rs ! k \<noteq> None \<Longrightarrow>
  length (filter (\<lambda>r. r = None) (rs[k := None])) = Suc (length (filter (\<lambda>r. r = None) rs))"
proof (induction rs arbitrary: k)
  case Nil
  then show ?case by simp
next
  case (Cons r rs)
  then show ?case by (cases k) auto
qed

lemma zapRoot_roots:
  assumes "zapRootDirPath s p = Inr s'" "roots_inv s"
  shows "roots_inv s'"
proof -
  obtain k where k: "first_root p 0 (rootDirPaths s) = Some k"
    "s' = s\<lparr>rootDirPaths := (rootDirPaths s)[k := None], ignoreRootDirs := ignoreRootDirs s + 1\<rparr>" "ignoreRootDirs s + 1 \<noteq> numRootDirs s"
    using assms(1) by (auto simp: zapRootDirPath_def findRootDirPath_def Let_def split: option.splits if_splits)
  have "k < length (rootDirPaths s)" "rootDirPaths s ! k \<noteq> None" using first_root_some [OF k(1)] by auto
  note c = count_update [OF this]
  show ?thesis using k(2,3) assms(2) by (simp add: roots_inv_def c)
qed

lemma zapRoot_keeps: "zapRootDirPath s p = Inr s' \<Longrightarrow> cache_inv s \<Longrightarrow> keeps s s'"
  using zapRoot_same [of s p s'] zapRoot_roots [of s p s'] by (simp add: keeps_def cache_inv_def covers_def grows_def live_def)

definition slot_ok :: "dtree \<Rightarrow> inotify_event \<Rightarrow> nat option \<Rightarrow> bool" where
  "slot_ok s ev slot \<longleftrightarrow> (\<forall>j. slot = Some j \<longrightarrow> j < length (wlCache s) \<and> w_wd (wlCache s ! j) = ev_wd ev)"

lemma slot_of_Inr: "slot_of slot = Inr j \<longleftrightarrow> slot = Some j"
  by (simp add: slot_of_def split: option.splits)

lemma ev_create_good:
  assumes "ev_create fs s slot ev n = Inr out" "cache_inv s" "0 < n"
  shows "out_good s ft out"
proof -
  obtain j where j: "slot = Some j" using assms(1) by (auto simp: ev_create_def res_bind_Inr slot_of_Inr)
  let ?p = "snprintf (PATH_MAX + NAME_MAX) (slot_path s j @ ''/'' @ ev_name ev)"
  show ?thesis
  proof (cases "pathnameInCache s ?p")
    case True
    then have "out = Falls n s" using assms(1) j by (simp add: ev_create_def slot_of_def)
    then show ?thesis using assms(2,3) by (simp add: step_good_def keeps_refl)
  next
    case False
    then obtain s1 where "watchSubtree fs s ?p = Inr s1" "out = Falls n s1"
      using assms(1) j by (auto simp: ev_create_def slot_of_def res_bind_Inr)
    then show ?thesis using assms(2,3) watchSubtree_keeps by (simp add: step_good_def)
  qed
qed

lemma ev_delete_good:
  assumes "ev_delete_self s slot n = Inr out" "cache_inv s" "0 < n" "slot_ok s ev slot" "ev_wd ev \<notin> live s"
  shows "out_good s ft out"
proof -
  obtain j s1 where j: "slot = Some j" "(if isRootDirPath s (slot_path s j) then zapRootDirPath s (slot_path s j) else Inr s) = Inr s1"
    "out = Falls n (markCacheSlotEmpty s1 j)"
    using assms(1) by (auto simp: ev_delete_self_def res_bind_Inr slot_of_Inr)
  have k: "keeps s s1" "wlCache s1 = wlCache s" "inst s1 = inst s"
    using j(2) assms(2) zapRoot_keeps zapRoot_same keeps_refl by (auto split: if_splits)
  have "keeps s1 (markCacheSlotEmpty s1 j)"
    using assms(4,5) j(1) k by (intro mark_keeps) (auto simp: slot_ok_def live_def keeps_def)
  then show ?thesis using keeps_trans [OF k(1)] assms(3) j(3) by (simp add: step_good_def)
qed

lemma ev_unmount_good:
  assumes "ev_unmount s slot n = Inr out" "cache_inv s" "0 < n" "slot_ok s ev slot" "ev_wd ev \<notin> live s"
  shows "out_good s ft out"
proof -
  obtain j where j: "slot = Some j" "out = Falls n (markCacheSlotEmpty s j)"
    using assms(1) by (auto simp: ev_unmount_def res_bind_Inr slot_of_Inr)
  have "keeps s (markCacheSlotEmpty s j)" using assms(2,4,5) j(1) by (intro mark_keeps) (auto simp: slot_ok_def)
  then show ?thesis using assms(3) j(2) by (simp add: step_good_def)
qed

lemma zap_or_rebuild_good:
  assumes "(let (r, s1) = zapSubtree s p in if r = -1 then rebuild fs s1 else Inr (Falls n s1)) = Inr out" "cache_inv s" "0 < n"
  shows "out_good s ft out"
proof -
  obtain r s1 where z: "zapSubtree s p = (r, s1)" by (cases "zapSubtree s p")
  show ?thesis
  proof (cases "r = -1")
    case True
    then show ?thesis
      using assms(1) z rebuild_good [of fs s1 out s ft] zapSubtree_keeps [OF z assms(2)] by (simp add: keeps_def)
  next
    case False
    then show ?thesis using assms z zapSubtree_keeps [OF z] by (auto simp: step_good_def)
  qed
qed

lemma ev_moved_from_good:
  assumes "ev_moved_from fs s slot ev rest n sz ft = Inr out" "cache_inv s" "0 < n"
  shows "out_good s ft out"
proof -
  let ?more = "n < sz"
  have r: "\<not> (?more \<and> rest = [])" using assms(1) by (auto simp: ev_moved_from_def Let_def)
  show ?thesis
  proof (cases "?more \<and> has (hd rest) IN_MOVED_TO \<and> ev_cookie (hd rest) = ev_cookie ev")
    case True
    then obtain k where k: "findWatchChecked s (ev_wd (hd rest)) = Inr k"
      using assms(1) r by (auto simp: ev_moved_from_def Let_def res_bind_Inr)
    show ?thesis
    proof (cases "k = -1")
      case True
      then have "rebuild fs s = Inr out"
        using assms(1) r k \<open>?more \<and> _ \<and> _\<close> by (auto simp: ev_moved_from_def Let_def)
      then show ?thesis by (rule rebuild_good) simp
    next
      case False
      then obtain j where "slot = Some j"
        "out = Falls (n + ev_size (hd rest)) (rewriteCachedPaths s (slot_path s j) (ev_name ev) (slot_path s (nat k)) (ev_name (hd rest)))"
        using assms(1) r k \<open>?more \<and> _ \<and> _\<close> by (auto simp: ev_moved_from_def Let_def res_bind_Inr slot_of_Inr)
      then show ?thesis using rewrite_keeps [OF assms(2)] ev_size_pos [of "hd rest"] assms(3) by (simp add: step_good_def)
    qed
  next
    case nm: False
    show ?thesis
    proof (cases "?more \<or> \<not> ft")
      case True
      then obtain j where "slot = Some j" "(let (r, s1) = zapSubtree s (snprintf (PATH_MAX + NAME_MAX) (slot_path s j @ ''/'' @ ev_name ev)) in
          if r = -1 then rebuild fs s1 else Inr (Falls n s1)) = Inr out"
        using assms(1) r nm by (auto simp: ev_moved_from_def Let_def res_bind_Inr slot_of_Inr split: if_splits)
      then show ?thesis using zap_or_rebuild_good assms(2,3) by blast
    next
      case False
      then have "out = Returns (-1) s" "ft" using assms(1) r nm by (auto simp: ev_moved_from_def Let_def)
      then show ?thesis by (simp add: step_good_def)
    qed
  qed
qed

lemma ev_overflow_good: "ev_overflow fs s = Inr out \<Longrightarrow> out_good s ft out"
  using reinitialize_inv [of fs "s\<lparr>overflowCnt := overflowCnt s + 1\<rparr>" "inotifyFd s"]
  by (auto simp: ev_overflow_def res_bind_Inr step_good_def rebuilt_def roots_inv_def)

lemma ev_move_self_good:
  assumes "ev_move_self fs s j n = Inr out" "cache_inv s" "0 < n"
  shows "out_good s ft out"
proof -
  obtain s1 where s1: "zapRootDirPath s (slot_path s j) = Inr s1"
    "(let (r, s2) = zapSubtree s1 (slot_path s1 j) in if r = -1 then rebuild fs s2 else Inr (Falls n s2)) = Inr out"
    using assms(1) by (auto simp: ev_move_self_def res_bind_Inr)
  note k = zapRoot_keeps [OF s1(1) assms(2)]
  have "out_good s1 False out" by (rule zap_or_rebuild_good [OF s1(2) keeps_inv [OF k] assms(3)])
  then show ?thesis using keeps_trans [OF k] k by (cases out) (auto simp: step_good_def rebuilt_def keeps_def)
qed

lemma ev_tail_good:
  assumes "(if has ev IN_Q_OVERFLOW then ev_overflow fs s
      else if has ev IN_UNMOUNT then ev_unmount s slot (ev_size ev)
      else if has ev IN_MOVE_SELF then res_bind (slot_of slot) (\<lambda>j.
        if isRootDirPath s (slot_path s j) then ev_move_self fs s j (ev_size ev) else Inr (Falls (ev_size ev) s))
      else Inr (Falls (ev_size ev) s)) = Inr out" "cache_inv s" "slot_ok s ev slot"
    "has ev IN_DELETE_SELF \<or> has ev IN_UNMOUNT \<Longrightarrow> ev_wd ev \<notin> live s"
  shows "out_good s ft out"
proof -
  note p = ev_size_pos [of ev] and b = assms(1)
  have fall: "out_good s ft (Falls (ev_size ev) s)" using p keeps_refl [OF assms(2)] by (simp add: step_good_def)
  show ?thesis
  proof (cases "has ev IN_Q_OVERFLOW")
    case True
    show ?thesis using b unfolding if_P [OF True] by (rule ev_overflow_good)
  next
    case n1: False
    note b = b [unfolded if_not_P [OF n1]]
    show ?thesis
    proof (cases "has ev IN_UNMOUNT")
      case True
      show ?thesis using b unfolding if_P [OF True] by (rule ev_unmount_good [OF _ assms(2) p assms(3)]) (simp add: assms(4) True)
    next
      case n2: False
      note b = b [unfolded if_not_P [OF n2]]
      show ?thesis
      proof (cases "has ev IN_MOVE_SELF")
        case True
        from b [unfolded if_P [OF True]] obtain j where
          j: "(if isRootDirPath s (slot_path s j) then ev_move_self fs s j (ev_size ev) else Inr (Falls (ev_size ev) s)) = Inr out"
          by (auto simp: res_bind_Inr)
        then show ?thesis using ev_move_self_good [OF _ assms(2) p] fall by (cases "isRootDirPath s (slot_path s j)") auto
      next
        case n3: False
        from b [unfolded if_not_P [OF n3]] show ?thesis using fall by simp
      qed
    qed
  qed
qed

lemma ev_branch_good:
  assumes "ev_branch fs s slot ev rest sz ft = Inr out" "cache_inv s" "slot_ok s ev slot" "gone_ok s ev"
  shows "out_good s ft out"
proof -
  note p = ev_size_pos [of ev]
  have g: "ev_wd ev \<notin> live s" if "has ev IN_DELETE_SELF \<or> has ev IN_UNMOUNT" using assms(4) that by (simp add: gone_ok_def gone_def)
  note b = assms(1) [unfolded ev_branch_def Let_def]
  show ?thesis
  proof (cases "has ev IN_ISDIR \<and> has ev (IN_CREATE OR IN_MOVED_TO)")
    case True
    show ?thesis using b unfolding if_P [OF True] by (rule ev_create_good [OF _ assms(2) p])
  next
    case n1: False
    note b = b [unfolded if_not_P [OF n1]]
    show ?thesis
    proof (cases "has ev IN_DELETE_SELF")
      case True
      show ?thesis using b unfolding if_P [OF True] by (rule ev_delete_good [OF _ assms(2) p assms(3)]) (simp add: g True)
    next
      case n2: False
      note b = b [unfolded if_not_P [OF n2]]
      show ?thesis
      proof (cases "ev_mask ev AND (IN_MOVED_FROM OR IN_ISDIR) = (IN_MOVED_FROM OR IN_ISDIR)")
        case True
        show ?thesis using b unfolding if_P [OF True] by (rule ev_moved_from_good [OF _ assms(2) p])
      next
        case n3: False
        note b = b [unfolded if_not_P [OF n3]]
        show ?thesis by (rule ev_tail_good [OF b assms(2,3) g])
      qed
    qed
  qed
qed

lemma processNext_good:
  assumes "processNextInotifyEvent fs s (ev # rest) sz ft = Inr (r, s')" "cache_inv s" "gone_ok s ev"
  shows "step_good s ft r s'"
proof -
  let ?m = "if ev_wd ev \<noteq> -1 \<and> \<not> has ev IN_IGNORED
      then res_bind (findWatchChecked s (ev_wd ev)) (\<lambda>slot. if slot = -1 then rebuild fs s else ev_branch fs s (Some (nat slot)) ev rest sz ft)
      else ev_branch fs s None ev rest sz ft"
  note pr = assms(1) [unfolded processNextInotifyEvent_def list.case]
  obtain out where o: "?m = Inr out" using pr by (cases ?m) simp_all
  have e: "out = Returns r s' \<or> out = Falls r s'"
    using pr unfolding o res_bind_simps by (cases out) (auto simp: res_bind_Inr)
  have "out_good s ft out"
  proof (cases "ev_wd ev \<noteq> -1 \<and> \<not> has ev IN_IGNORED")
    case False
    from o [unfolded if_not_P [OF False]] show ?thesis by (rule ev_branch_good [OF _ assms(2) _ assms(3)]) (simp add: slot_ok_def)
  next
    case True
    from o [unfolded if_P [OF True] res_bind_Inr] obtain k where k: "findWatchChecked s (ev_wd ev) = Inr k"
      "(if k = -1 then rebuild fs s else ev_branch fs s (Some (nat k)) ev rest sz ft) = Inr out"
      by blast
    show ?thesis
    proof (cases "k = -1")
      case True
      then show ?thesis using k(2) rebuild_good [of fs s out s ft] by simp
    next
      case False
      then have "ev_branch fs s (Some (nat k)) ev rest sz ft = Inr out" using k(2) by simp
      then show ?thesis
        using findWatchChecked_slot [OF k(1) False] by (intro ev_branch_good [OF _ assms(2) _ assms(3)]) (auto simp: slot_ok_def)
    qed
  qed
  with e show ?thesis by auto
qed

section \<open>A block of events\<close>

lemma skip_bytes_sub: "set (skip_bytes evs n) \<subseteq> set evs"
  by (induction evs arbitrary: n) auto

lemma skip_bytes_less: "0 < n \<Longrightarrow> length (skip_bytes (ev # evs) n) \<le> length evs"
proof -
  have "length (skip_bytes es m) \<le> length es" for es m by (induction es arbitrary: m) (auto simp: le_SucI)
  then show "0 < n \<Longrightarrow> length (skip_bytes (ev # evs) n) \<le> length evs" by simp
qed

lemma next_ge: "in_next ino \<le> in_next (kernel_read evs ino)" "ev \<in> set evs \<Longrightarrow> gone ev \<Longrightarrow> ev_wd ev < in_next (kernel_read evs ino)"
proof -
  have a: "n \<le> foldr (\<lambda>wd. max (wd + 1)) wds n" for n :: int and wds by (induction wds) auto
  have b: "wd \<in> set wds \<Longrightarrow> wd < foldr (\<lambda>wd. max (wd + 1)) wds n" for n wd :: int and wds by (induction wds) auto
  show "in_next ino \<le> in_next (kernel_read evs ino)" using a by (simp add: kernel_read_def Let_def)
  show "ev_wd ev < in_next (kernel_read evs ino)" if "ev \<in> set evs" "gone ev"
    using b [of "ev_wd ev" "map ev_wd (filter gone evs)"] that by (simp add: kernel_read_def Let_def)
qed

lemma kernel_read_gone:
  assumes "ev \<in> set evs"
  shows "gone_ok (got_events s evs) ev"
proof -
  have "ev_wd ev \<notin> we_wd ` set (in_watches (kernel_read evs (inst s)))" if "gone ev"
  proof -
    have "ev_wd ev \<in> ev_wd ` set (filter gone evs)" using assms that by (intro imageI) simp
    then show ?thesis by (auto simp: kernel_read_def Let_def)
  qed
  then show ?thesis using next_ge(2) [OF assms, of "inst s"] by (simp add: gone_ok_def got_events_def live_def)
qed

lemma got_events_keeps:
  assumes "cache_inv s"
  shows "keeps s (got_events s evs)"
proof -
  let ?i = "kernel_read evs (inst s)"
  have w: "in_watches ?i = filter (\<lambda>w. we_wd w \<notin> ev_wd ` set (filter gone evs)) (in_watches (inst s))"
    by (simp add: kernel_read_def Let_def)
  have n: "in_next (inst s) \<le> in_next ?i" by (rule next_ge)
  have inv: "cache_inv s" by (rule assms)
  have "inst_inv ?i" using inv n unfolding cache_inv_def inst_inv_def w by (fastforce simp: distinct_map_filter)
  moreover have "\<forall>w \<in> set (used (wlCache s)). 1 \<le> w_wd w \<and> w_wd w < in_next ?i"
    using inv n unfolding cache_inv_def by fastforce
  ultimately have "cache_inv (got_events s evs)" using inv by (simp add: cache_inv_def got_events_def)
  moreover have "covers s \<Longrightarrow> covers (got_events s evs)" by (auto simp: covers_def got_events_def w)
  moreover have "grows s (got_events s evs)" using n by (auto simp: grows_def live_def got_events_def w)
  ultimately show ?thesis by (simp add: keeps_def roots_inv_def got_events_def)
qed

lemma count_keeps: "cache_inv s \<Longrightarrow> keeps s (s\<lparr>inotifyReadCnt := k\<rparr>)"
  by (rule keeps_cong) (simp_all add: same_roots_def)

definition tracked :: "dtree \<Rightarrow> bool" where
  "tracked s \<longleftrightarrow> cache_inv s \<and> covers s \<and> roots_inv s"

lemma keeps_tracked: "tracked s \<Longrightarrow> keeps s t \<Longrightarrow> tracked t"
  by (simp add: tracked_def keeps_def)

lemma gone_ok_all: "\<forall>ev \<in> set evs. gone_ok s ev \<Longrightarrow> keeps s t \<Longrightarrow> \<forall>ev \<in> set evs. gone_ok t ev"
  using gone_ok_grows unfolding keeps_def by blast

lemma process_loop_inv:
  assumes "process_loop fuel fs s evs n ft reads = Inr s'" "tracked s" "\<forall>ev \<in> set evs. gone_ok s ev" "n \<le> INOTIFY_READ_BUF_LEN"
  shows "tracked s'"
  using assms
proof (induction fuel arbitrary: s evs n ft reads)
  case 0
  then show ?case by simp
next
  case (Suc fuel)
  show ?case
  proof (cases "n \<le> 0")
    case True
    then show ?thesis using Suc.prems by simp
  next
    case False
    obtain ev rest where evs: "evs = ev # rest" using Suc.prems(1) False by (cases evs) (auto simp: processNextInotifyEvent_def)
    obtain r s1 where p: "processNextInotifyEvent fs s evs n ft = Inr (r, s1)"
      using Suc.prems(1) False by (auto simp: res_bind_Inr)
    note pl = Suc.prems(1) [unfolded process_loop.simps if_not_P [OF False] p res_bind_simps prod.case]
    have st: "cache_inv s" "covers s" "roots_inv s" using Suc.prems(2) by (simp_all add: tracked_def)
    have g: "step_good s ft r s1" using processNext_good p Suc.prems(3) st(1) evs by simp
    show ?thesis
    proof (cases "0 < r")
      case True
      note pl = pl [unfolded if_P [OF True]]
      show ?thesis
      proof (cases "r = INOTIFY_READ_BUF_LEN")
        case buf: True
        then have "tracked s1" using g st by (auto simp: step_good_def tracked_def keeps_def rebuilt_def INOTIFY_READ_BUF_LEN_def)
        moreover have "n - r \<le> 0" using buf Suc.prems(4) by simp
        then have "s' = s1" using pl by (cases fuel) simp_all
        ultimately show ?thesis by simp
      next
        case nb: False
        then have k: "keeps s s1" using g True by (auto simp: step_good_def)
        have "\<forall>e \<in> set (skip_bytes evs r). gone_ok s1 e"
          using gone_ok_all [OF Suc.prems(3) k] skip_bytes_sub [of evs r] by blast
        then show ?thesis using Suc.IH [OF pl keeps_tracked [OF Suc.prems(2) k]] Suc.prems(4) True by simp
      qed
    next
      case np: False
      note pl = pl [unfolded if_not_P [OF np]]
      have s1: "s1 = s" using g np by (auto simp: step_good_def INOTIFY_READ_BUF_LEN_def EV_SIZE_def NAME_MAX_def)
      have c: "keeps s (s\<lparr>inotifyReadCnt := inotifyReadCnt s + 1\<rparr>)" by (rule count_keeps [OF st(1)])
      have again: ?thesis if "process_loop fuel fs (s\<lparr>inotifyReadCnt := inotifyReadCnt s + 1\<rparr>) evs (n - 1) False rs = Inr s'" for rs
        by (rule Suc.IH [OF that keeps_tracked [OF Suc.prems(2) c] gone_ok_all [OF Suc.prems(3) c]]) (use Suc.prems(4) in simp)
      show ?thesis
      proof (cases reads)
        case Nil
        then show ?thesis using pl s1 again by simp
      next
        case (Cons x rs)
        show ?thesis
        proof (cases x)
          case (Rd_events extra)
          then have e: "process_loop fuel fs (got_events s extra) (evs @ extra) (n + bytes_of extra) False rs = Inr s'"
            "n + bytes_of extra \<le> INOTIFY_READ_BUF_LEN"
            using pl s1 Cons by (auto split: if_splits)
          note k = got_events_keeps [OF st(1), of extra]
          have "\<forall>ev \<in> set (evs @ extra). gone_ok (got_events s extra) ev"
            using gone_ok_all [OF Suc.prems(3) k] kernel_read_gone by auto
          then show ?thesis using Suc.IH [OF e(1) keeps_tracked [OF Suc.prems(2) k]] e(2) by blast
        qed (use pl s1 Cons again in simp_all)
      qed
    qed
  qed
qed

lemma processInotifyEvents_inv:
  assumes "processInotifyEvents fs s r reads = Inr s'" "tracked s"
  shows "tracked s'"
proof -
  obtain evs where e: "first_read r = Inr evs"
    "process_loop (loop_fuel evs reads) fs (got_events s evs) evs (bytes_of evs) True reads = Inr s'"
    using assms(1) by (auto simp: processInotifyEvents_def res_bind_Inr)
  have b: "bytes_of evs \<le> INOTIFY_READ_BUF_LEN" using e(1) by (cases r) (auto split: if_splits)
  have "keeps s (got_events s evs)" using assms(2) by (intro got_events_keeps) (simp add: tracked_def)
  from process_loop_inv [OF e(2) keeps_tracked [OF assms(2) this] _ b] show ?thesis using kernel_read_gone by blast
qed

section \<open>Commands and turns\<close>

lemma reinitialize_tracked: "reinitialize fs s fd = Inr s' \<Longrightarrow> roots_inv s \<Longrightarrow> tracked s'"
  using reinitialize_inv by (simp add: tracked_def)

lemma tracked_cong: "wlCache s' = wlCache s \<Longrightarrow> inst s' = inst s \<Longrightarrow> same_roots s s' \<Longrightarrow> tracked s' = tracked s"
  by (simp add: tracked_def cache_inv_def covers_def roots_inv_def same_roots_def)

lemma with_arg_Inr: "with_arg arg f = Inr y \<longleftrightarrow> (\<exists>a. arg = Some a \<and> f a = Inr y)"
  by (simp add: with_arg_def split: option.splits)

text \<open>What a command does to the cache: zap and watch a subtree, zap one, rebuild, or nothing.\<close>

lemma executeCommand_cases:
  assumes "executeCommand fs s line = Inr (out, s')"
  shows "(\<exists>p. watchSubtree fs (snd (zapSubtree s p)) p = Inr s') \<or> (\<exists>p. s' = snd (zapSubtree s p)) \<or>
    reinitialize fs s (-1) = Inr s' \<or>
    wlCache s' = wlCache s \<and> inst s' = inst s \<and> same_roots s s'"
proof -
  have l: "line \<noteq> []" using assms by (auto simp: executeCommand_def)
  show ?thesis
  proof (cases "cstr (butlast line) = []")
    case True
    then show ?thesis using assms l by (simp add: executeCommand_def same_roots_def)
  next
    case False
    obtain cmd arg where sc: "scan_command (cstr (butlast line)) = (cmd, arg)" by (cases "scan_command (cstr (butlast line))")
    note e = assms [unfolded executeCommand_def if_not_P [OF l] Let_def if_not_P [OF False] sc prod.case]
    show ?thesis
    proof (cases "cmd = CHR ''a''")
      case True
      from e [unfolded if_P [OF True]] have "\<exists>p. watchSubtree fs (snd (zapSubtree s p)) p = Inr s'"
        by (auto simp: with_arg_Inr res_bind_Inr case_prod_beta)
      then show ?thesis by blast
    next
      case na: False
      note e = e [unfolded if_not_P [OF na]]
      show ?thesis
      proof (cases "cmd = CHR ''z''")
        case True
        with e have "\<exists>p. s' = snd (zapSubtree s p)" by (auto simp: with_arg_Inr case_prod_beta)
        then show ?thesis by blast
      next
        case nz: False
        show ?thesis
        proof (cases "cmd = CHR ''0''")
          case True
          with e show ?thesis by (auto simp: res_bind_Inr)
        next
          case False
          with nz e show ?thesis by (auto simp: with_arg_Inr res_bind_Inr same_roots_def split: if_splits prod.splits)
        qed
      qed
    qed
  qed
qed

lemma zapSubtree_snd_keeps: "cache_inv s \<Longrightarrow> keeps s (snd (zapSubtree s p))"
  using zapSubtree_keeps [of s p "fst (zapSubtree s p)" "snd (zapSubtree s p)"] by simp

lemma executeCommand_inv:
  assumes "executeCommand fs s line = Inr (out, s')" "tracked s"
  shows "tracked s'"
proof -
  have i: "cache_inv s" using assms(2) by (simp add: tracked_def)
  note z = zapSubtree_snd_keeps [OF i]
  from executeCommand_cases [OF assms(1)] show ?thesis
  proof (elim disjE exE)
    fix p assume "watchSubtree fs (snd (zapSubtree s p)) p = Inr s'"
    from keeps_trans [OF z watchSubtree_keeps [OF this keeps_inv [OF z]]] show ?thesis by (rule keeps_tracked [OF assms(2)])
  next
    fix p assume "s' = snd (zapSubtree s p)"
    with z show ?thesis using keeps_tracked [OF assms(2)] by simp
  next
    assume "reinitialize fs s (-1) = Inr s'"
    then show ?thesis by (rule reinitialize_tracked) (use assms(2) in \<open>simp add: tracked_def\<close>)
  qed (use assms(2) tracked_cong [of s' s] in simp)
qed

lemma main_turn_inv:
  assumes "main_turn s t = Inr s'" "tracked s"
  shows "tracked s'"
proof -
  obtain s1 where s1: "(case t_line t of None \<Rightarrow> Inr s | Some line \<Rightarrow> res_bind (executeCommand (t_fs t) s line) (\<lambda>(out, s). Inr s)) = Inr s1"
    "(case t_events t of None \<Rightarrow> Inr s1 | Some (r, reads) \<Rightarrow> processInotifyEvents (t_fs t) s1 r reads) = Inr s'"
    using assms(1) unfolding main_turn_def res_bind_Inr by blast
  have t1: "tracked s1"
  proof (cases "t_line t")
    case None
    then show ?thesis using s1(1) assms(2) by simp
  next
    case (Some line)
    then obtain out where "executeCommand (t_fs t) s line = Inr (out, s1)" using s1(1) by (auto simp: res_bind_Inr)
    then show ?thesis by (rule executeCommand_inv [OF _ assms(2)])
  qed
  show ?thesis
  proof (cases "t_events t")
    case None
    then show ?thesis using s1(2) t1 by simp
  next
    case (Some x)
    then show ?thesis using s1(2) processInotifyEvents_inv [OF _ t1] by (cases x) auto
  qed
qed

end
