(* ===== verification/Dtree_Facts.thy ===== *)
theory Dtree_Facts
  imports Dtree_Events
begin

text \<open>
  The loop over a block of events ends; what lookups by pathname give after a subtree has
  been removed or renamed, and after the cache has been built from the roots.
\<close>

section \<open>The loop over a block ends\<close>

definition no_loop :: "'a res \<Rightarrow> bool" where
  "no_loop m \<longleftrightarrow> m \<noteq> Inl Loops"

lemma no_loop_simps [simp]:
  "no_loop (Inr x)" "no_loop (Inl (Exit_with k))" "no_loop (Inl Aborted)" "no_loop (Inl (Overrun t))"
  by (simp_all add: no_loop_def)

lemma no_loop_bind: "no_loop m \<Longrightarrow> (\<And>x. m = Inr x \<Longrightarrow> no_loop (f x)) \<Longrightarrow> no_loop (res_bind m f)"
  by (cases m) (auto simp: no_loop_def)

lemma no_loop_dump [simp]: "no_loop (dumpCacheToLog s)"
  by (simp add: dumpCacheToLog_def)

lemma no_loop_find [simp]: "no_loop (findWatchChecked s wd)"
  by (simp add: findWatchChecked_def createStopFileAndAbort_def no_loop_bind Let_def)

lemma no_loop_slot [simp]: "no_loop (slot_of slot)"
  by (simp add: slot_of_def split: option.splits)

lemma no_loop_traverse [simp]: "no_loop (traverseTree fs s x)"
  by (simp add: traverseTree_def Let_def split: prod.splits)

lemma no_loop_traverse_all [simp]: "no_loop (traverse_all fs xs s)"
  by (induction xs arbitrary: s) (auto intro: no_loop_bind)

lemma no_loop_watch [simp]: "no_loop (watchSubtree fs s p)"
  by (auto simp: watchSubtree_def watchDir_def Let_def split: option.splits prod.splits intro!: no_loop_bind)

lemma no_loop_roots [simp]: "no_loop (watch_roots fs rs s)"
  by (induction rs arbitrary: s) (auto split: option.splits intro: no_loop_bind)

lemma no_loop_reinit [simp]: "no_loop (reinitialize fs s fd)"
  by (simp add: reinitialize_def Let_def)

lemma no_loop_rebuild [simp]: "no_loop (rebuild fs s)"
  by (simp add: rebuild_def no_loop_bind)

lemma no_loop_zapRoot [simp]: "no_loop (zapRootDirPath s p)"
  by (simp add: zapRootDirPath_def Let_def split: option.splits)

lemma no_loop_check [simp]: "no_loop (check_loop fs ws sb k)"
  by (induction ws arbitrary: sb k) (auto split: option.splits)

lemma no_loop_branches [simp]:
  "no_loop (ev_create fs s slot ev n)" "no_loop (ev_delete_self s slot n)" "no_loop (ev_unmount s slot n)"
  "no_loop (ev_overflow fs s)" "no_loop (ev_move_self fs s j n)" "no_loop (ev_moved_from fs s slot ev rest n sz ft)"
  by (auto simp: ev_create_def ev_delete_self_def ev_unmount_def ev_overflow_def ev_move_self_def ev_moved_from_def Let_def
      split: prod.splits intro!: no_loop_bind)

lemma no_loop_branch [simp]: "no_loop (ev_branch fs s slot ev rest sz ft)"
  by (auto simp: ev_branch_def Let_def intro!: no_loop_bind)

lemma no_loop_next [simp]: "no_loop (processNextInotifyEvent fs s evs sz ft)"
  by (auto simp: processNextInotifyEvent_def checkCacheConsistency_def split: list.splits ev_out.splits intro!: no_loop_bind)

text \<open>An event is used up, or it is left for a second try.\<close>

primrec used_up :: "bool \<Rightarrow> ev_out \<Rightarrow> bool" where
  "used_up ft (Falls r s) = (0 < r)"
| "used_up ft (Returns r s) = (0 < r \<or> ft)"

lemma BUF_LEN_pos: "0 < INOTIFY_READ_BUF_LEN"
  by (simp add: INOTIFY_READ_BUF_LEN_def)

lemma rebuild_used: "rebuild fs s = Inr out \<Longrightarrow> used_up ft out"
  by (auto simp: rebuild_def res_bind_Inr BUF_LEN_pos)

lemma zap_or_rebuild_used:
  "(let (r, s1) = zapSubtree s p in if r = -1 then rebuild fs s1 else Inr (Falls n s1)) = Inr out \<Longrightarrow> 0 < n \<Longrightarrow> used_up ft out"
  by (auto simp: Let_def rebuild_used split: prod.splits if_splits)

lemma moved_from_used:
  assumes "ev_moved_from fs s slot ev rest n sz ft = Inr out" "0 < n"
  shows "used_up ft out"
  using assms ev_size_pos [of "hd rest"]
  by (auto simp: ev_moved_from_def Let_def res_bind_Inr rebuild_used case_prod_beta split: if_splits)

lemma other_used:
  "ev_create fs s slot ev n = Inr out \<Longrightarrow> 0 < n \<Longrightarrow> used_up ft out"
  "ev_delete_self s slot n = Inr out \<Longrightarrow> 0 < n \<Longrightarrow> used_up ft out"
  "ev_unmount s slot n = Inr out \<Longrightarrow> 0 < n \<Longrightarrow> used_up ft out"
  "ev_overflow fs s = Inr out \<Longrightarrow> used_up ft out"
  "ev_move_self fs s j n = Inr out \<Longrightarrow> 0 < n \<Longrightarrow> used_up ft out"
  by (auto simp: ev_create_def ev_delete_self_def ev_unmount_def ev_overflow_def ev_move_self_def Let_def res_bind_Inr
      BUF_LEN_pos rebuild_used case_prod_beta split: if_splits)

lemma branch_used: "ev_branch fs s slot ev rest sz ft = Inr out \<Longrightarrow> used_up ft out"
  using ev_size_pos [of ev] moved_from_used other_used
  by (fastforce simp: ev_branch_def Let_def res_bind_Inr split: if_splits)

lemma next_used:
  assumes "processNextInotifyEvent fs s evs sz ft = Inr (r, s')"
  shows "0 < r \<or> ft"
proof -
  obtain ev rest where evs: "evs = ev # rest" using assms by (cases evs) (auto simp: processNextInotifyEvent_def)
  let ?m = "if ev_wd ev \<noteq> -1 \<and> \<not> has ev IN_IGNORED
      then res_bind (findWatchChecked s (ev_wd ev)) (\<lambda>slot. if slot = -1 then rebuild fs s else ev_branch fs s (Some (nat slot)) ev rest sz ft)
      else ev_branch fs s None ev rest sz ft"
  note pr = assms [unfolded evs processNextInotifyEvent_def list.case]
  obtain out where o: "?m = Inr out" using pr by (cases ?m) simp_all
  have "used_up ft out" using o branch_used rebuild_used by (auto simp: res_bind_Inr split: if_splits)
  then show ?thesis using pr unfolding o res_bind_simps by (cases out) (auto simp: res_bind_Inr)
qed

lemma loop_terminates:
  "2 * (length evs + sum_list (map rd_events reads)) + (if ft then 1 else 0) < fuel \<Longrightarrow>
   process_loop fuel fs s evs n ft reads \<noteq> Inl Loops"
proof (induction fuel arbitrary: s evs n ft reads)
  case 0
  then show ?case by simp
next
  case (Suc fuel)
  show ?case
  proof (cases "n \<le> 0 \<or> (\<exists>e. processNextInotifyEvent fs s evs n ft = Inl e)")
    case True
    then show ?thesis using no_loop_next [of fs s evs n ft] by (auto simp: no_loop_def)
  next
    case False
    then obtain r s1 where p: "\<not> n \<le> 0" "processNextInotifyEvent fs s evs n ft = Inr (r, s1)"
      by (cases "processNextInotifyEvent fs s evs n ft") auto
    obtain ev rest where evs: "evs = ev # rest" using p(2) by (cases evs) (auto simp: processNextInotifyEvent_def)
    show ?thesis
    proof (cases "0 < r")
      case True
      have "length (skip_bytes evs r) < length evs" using skip_bytes_less [OF True] evs by (simp add: less_Suc_eq_le)
      then show ?thesis using Suc.IH [of "skip_bytes evs r" reads True] Suc.prems p True by (simp split: if_splits)
    next
      case nr: False
      then have ft: ft using next_used [OF p(2)] by simp
      show ?thesis
      proof (cases reads)
        case Nil
        then show ?thesis using Suc.IH [of evs "[]" False] Suc.prems p nr ft by simp
      next
        case (Cons x rs)
        show ?thesis
        proof (cases x)
          case (Rd_events extra)
          then show ?thesis using Suc.IH [of "evs @ extra" rs False] Suc.prems p nr ft Cons by simp
        next
          case Rd_intr
          then show ?thesis using Suc.IH [of evs rs False] Suc.prems p nr ft Cons by simp
        qed (use p nr Cons in simp_all)
      qed
    qed
  qed
qed

lemma no_loop_events: "processInotifyEvents fs s r reads \<noteq> Inl Loops"
proof (cases "first_read r")
  case (Inl e)
  then show ?thesis by (cases r) (auto simp: processInotifyEvents_def split: if_splits)
next
  case (Inr evs)
  have "process_loop (loop_fuel evs reads) fs (got_events s evs) evs (bytes_of evs) True reads \<noteq> Inl Loops"
    by (rule loop_terminates) (simp add: loop_fuel_def)
  then show ?thesis using Inr by (simp add: processInotifyEvents_def)
qed

section \<open>Lookups\<close>

text \<open>A path is at or below another when it continues it at a slash: \<open>/a/bc\<close> is not below \<open>/a/b\<close>.\<close>

lemma at_or_below_iff: "at_or_below p q \<longleftrightarrow> (\<exists>t. q = p @ t \<and> (t = [] \<or> hd t = CHR ''/''))"
proof
  assume a: "at_or_below p q"
  then have "q = p @ drop (length p) q" unfolding at_or_below_def by (metis append_take_drop_id)
  moreover have "drop (length p) q = [] \<or> hd (drop (length p) q) = CHR ''/''"
    using a by (auto simp: at_or_below_def hd_drop_conv_nth)
  ultimately show "\<exists>t. q = p @ t \<and> (t = [] \<or> hd t = CHR ''/'')" by blast
next
  assume "\<exists>t. q = p @ t \<and> (t = [] \<or> hd t = CHR ''/'')"
  then obtain t where t: "q = p @ t" "t = [] \<or> hd t = CHR ''/''" by blast
  then show "at_or_below p q" by (cases t) (auto simp: at_or_below_def)
qed

lemma first_slot_map: "first_slot Q j (map f ws) = first_slot (\<lambda>w. Q (f w)) j ws"
  by (induction ws arbitrary: j) simp_all

lemma first_slot_cong: "(\<And>w. w \<in> set ws \<Longrightarrow> Q w = R w) \<Longrightarrow> first_slot Q j ws = first_slot R j ws"
  by (induction ws arbitrary: j) simp_all

lemma in_cache: "pathnameInCache s q \<longleftrightarrow> (\<exists>w \<in> set (used (wlCache s)). w_path w = q)"
  by (auto simp: pathnameInCache_def pathnameToCacheSlot_def first_slot_ge set_used)

section \<open>Removing a subtree\<close>

lemma zap_complete:
  assumes "cache_inv s" "\<forall>w \<in> set (wlCache s). in_subtree p w \<longrightarrow> w_wd w \<in> live s"
  shows "zapSubtree s p = (int (length (filter (in_subtree p) (wlCache s))),
    s\<lparr>wlCache := zapped p (wlCache s), inst := drop_watches (inst s) (filter (in_subtree p) (wlCache s))\<rparr>)"
proof -
  obtain c s' where z: "zapSubtree s p = (c, s')" by (cases "zapSubtree s p")
  obtain k where k: "k \<le> length (wlCache s)" "s' = s\<lparr>wlCache := zapped p (take k (wlCache s)) @ drop k (wlCache s),
      inst := drop_watches (inst s) (filter (in_subtree p) (take k (wlCache s)))\<rparr>"
    "k = length (wlCache s) \<and> c = int (length (filter (in_subtree p) (wlCache s))) \<or>
     k < length (wlCache s) \<and> c = -1 \<and> in_subtree p (wlCache s ! k) \<and> w_wd (wlCache s ! k) \<notin> we_wd ` set (in_watches (inst s'))"
    by (rule zapSubtree_cases [OF z])
  have "\<not> k < length (wlCache s)"
  proof
    let ?w = "wlCache s ! k"
    assume kl: "k < length (wlCache s)"
    then have w: "in_subtree p ?w" "w_wd ?w \<notin> we_wd ` set (in_watches (inst s'))" using k(3) by auto
    have wl: "w_wd ?w \<in> live s" using assms(2) w(1) kl by auto
    have "w_wd ?w \<in> w_wd ` set (filter (in_subtree p) (take k (wlCache s)))"
      using wl w(2) by (auto simp: k(2) drop_watches_def live_def)
    then obtain v where v: "v \<in> set (take k (wlCache s))" "in_subtree p v" "w_wd v = w_wd ?w" by auto
    have "v \<in> set (used (take k (wlCache s)))" using v(1,2) by (simp add: set_used in_subtree_def)
    then have i: "w_wd ?w \<in> w_wd ` set (used (take k (wlCache s)))" unfolding v(3) [symmetric] by (rule imageI)
    have "used (wlCache s) = used (take k (wlCache s)) @ ?w # used (drop (Suc k) (wlCache s))"
      using used_clear(2) [OF kl] w(1) by (simp add: in_subtree_def)
    then have "distinct (map w_wd (used (take k (wlCache s)) @ ?w # used (drop (Suc k) (wlCache s))))"
      using assms(1) by (simp add: cache_inv_def)
    then show False using i by simp
  qed
  then have "k = length (wlCache s)" using k(1) by simp
  then show ?thesis using z k(2,3) by simp
qed

lemma zapped_in_cache:
  "pathnameInCache (s\<lparr>wlCache := zapped p (wlCache s), inst := i\<rparr>) q \<longleftrightarrow> pathnameInCache s q \<and> \<not> at_or_below p q"
  unfolding in_cache by (auto simp: used_zapped in_subtree_def set_used)

lemma live_dropped: "live (s\<lparr>wlCache := ws, inst := drop_watches (inst s) vs\<rparr>) = live s - w_wd ` set vs"
  by (auto simp: live_def drop_watches_def)

section \<open>Renaming a subtree\<close>

text \<open>A path under the old prefix, in terms of the new one.\<close>

lemma renamed_path:
  assumes "at_or_below old q" "length new + (length q - length old) < PATH_MAX"
  shows "snprintf PATH_MAX (new @ drop (length old) q) = new @ drop (length old) q"
    "at_or_below new (new @ drop (length old) q)"
proof -
  show "snprintf PATH_MAX (new @ drop (length old) q) = new @ drop (length old) q"
    using assms by (simp add: snprintf_def)
  obtain t where "q = old @ t" "t = [] \<or> hd t = CHR ''/''" using assms(1) by (auto simp: at_or_below_iff)
  then show "at_or_below new (new @ drop (length old) q)" by (auto simp: at_or_below_iff)
qed

lemma renamed_iff:
  assumes "\<not> at_or_below new (w_path w)"
    "at_or_below old (w_path w) \<Longrightarrow> length new + (length (w_path w) - length old) < PATH_MAX"
  shows "w_path (renamed old new w) = q \<longleftrightarrow>
    (if at_or_below new q then w_path w = old @ drop (length new) q else w_path w = q \<and> \<not> at_or_below old q)"
proof (cases "at_or_below old (w_path w)")
  case False
  then have r: "w_path (renamed old new w) = w_path w" by (simp add: renamed_def)
  have "w_path w \<noteq> old @ drop (length new) q" if n: "at_or_below new q"
  proof
    assume e: "w_path w = old @ drop (length new) q"
    obtain t where "q = new @ t" "t = [] \<or> hd t = CHR ''/''" using n by (auto simp: at_or_below_iff)
    then have "at_or_below old (w_path w)" using e by (auto simp: at_or_below_iff)
    with False show False by simp
  qed
  then show ?thesis using r False assms(1) by auto
next
  case True
  note l = assms(2) [OF True]
  obtain t where t: "w_path w = old @ t" "t = [] \<or> hd t = CHR ''/''" using True by (auto simp: at_or_below_iff)
  have r: "w_path (renamed old new w) = new @ t"
    using renamed_path(1) [OF True l] True t by (simp add: renamed_def)
  show ?thesis
  proof (cases "at_or_below new q")
    case nq: True
    then obtain u where "q = new @ u" by (auto simp: at_or_below_iff)
    then show ?thesis using r t nq by auto
  next
    case nq: False
    have "at_or_below new (new @ t)" using t(2) by (auto simp: at_or_below_iff)
    then have "new @ t \<noteq> q" using nq by auto
    then show ?thesis using r nq True by auto
  qed
qed

lemma renamed_slot:
  assumes "\<forall>w \<in> set (used (wlCache s)). \<not> at_or_below new (w_path w) \<and>
      (at_or_below old (w_path w) \<longrightarrow> length new + (length (w_path w) - length old) < PATH_MAX)"
  shows "pathnameToCacheSlot (s\<lparr>wlCache := map (renamed old new) (wlCache s)\<rparr>) q =
    (if at_or_below new q then pathnameToCacheSlot s (old @ drop (length new) q)
     else if at_or_below old q then -1 else pathnameToCacheSlot s q)"
proof -
  let ?g = "\<lambda>w. if at_or_below new q then w_path w = old @ drop (length new) q else w_path w = q \<and> \<not> at_or_below old q"
  have "pathnameToCacheSlot (s\<lparr>wlCache := map (renamed old new) (wlCache s)\<rparr>) q =
      first_slot (\<lambda>w. w_wd w \<ge> 0 \<and> w_path (renamed old new w) = q) 0 (wlCache s)"
    by (simp add: pathnameToCacheSlot_def first_slot_map)
  also have "\<dots> = first_slot (\<lambda>w. w_wd w \<ge> 0 \<and> ?g w) 0 (wlCache s)"
  proof (rule first_slot_cong)
    fix w
    assume w: "w \<in> set (wlCache s)"
    have "w_path (renamed old new w) = q \<longleftrightarrow> ?g w" if "w_wd w \<ge> 0"
      using assms w that by (intro renamed_iff) (auto simp: set_used)
    then show "(w_wd w \<ge> 0 \<and> w_path (renamed old new w) = q) = (w_wd w \<ge> 0 \<and> ?g w)" by blast
  qed
  also have "\<dots> = (if at_or_below new q then pathnameToCacheSlot s (old @ drop (length new) q)
     else if at_or_below old q then -1 else pathnameToCacheSlot s q)"
    by (auto simp: pathnameToCacheSlot_def first_slot_none)
  finally show ?thesis .
qed

text \<open>There and back again.\<close>

lemma renamed_back:
  assumes "\<not> at_or_below new (w_path w)" "length (w_path w) < PATH_MAX"
    "at_or_below old (w_path w) \<longrightarrow> length new + (length (w_path w) - length old) < PATH_MAX"
  shows "renamed new old (renamed old new w) = w"
proof (cases "at_or_below old (w_path w)")
  case False
  then show ?thesis using assms(1) by (simp add: renamed_def)
next
  case True
  obtain t where t: "w_path w = old @ t" "t = [] \<or> hd t = CHR ''/''" using True by (auto simp: at_or_below_iff)
  have r: "renamed old new w = w\<lparr>w_path := new @ t\<rparr>"
    using renamed_path(1) [OF True, of new] assms(3) True t by (simp add: renamed_def)
  have "at_or_below new (new @ t)" using t(2) by (auto simp: at_or_below_iff)
  moreover have "snprintf PATH_MAX (old @ t) = old @ t" using assms(2) t(1) by (simp add: snprintf_def)
  ultimately have "renamed new old (w\<lparr>w_path := new @ t\<rparr>) = w\<lparr>w_path := old @ t\<rparr>" by (simp add: renamed_def)
  then show ?thesis using r t(1) by simp
qed

section \<open>The cache built from the roots\<close>

definition walked :: "fsys \<Rightarrow> string option list \<Rightarrow> string \<Rightarrow> bool" where
  "walked fs roots p \<longleftrightarrow> (\<exists>r objs. Some r \<in> set roots \<and> fs_walk fs r = Some objs \<and> (p, True) \<in> set objs) \<and> fs_stat fs p \<noteq> None"

text \<open>Every cached path is one of those asked for, and names the object its descriptor watches.\<close>

definition named :: "fsys \<Rightarrow> (string \<Rightarrow> bool) \<Rightarrow> dtree \<Rightarrow> bool" where
  "named fs Q s \<longleftrightarrow> (\<forall>w \<in> set (used (wlCache s)). \<exists>p d n. Q p \<and> w_path w = take PATH_MAX p \<and>
     fs_stat fs p = Some (d, n, True) \<and> (w_wd w, d, n) \<in> set (watched (inst s)))"

text \<open>The directory \<open>p\<close> is watched, and its descriptor is in the cache.\<close>

definition entry :: "fsys \<Rightarrow> dtree \<Rightarrow> string \<Rightarrow> bool" where
  "entry fs s p \<longleftrightarrow> (\<forall>x b. fs_stat fs p = Some (fst x, snd x, b) \<longrightarrow>
     (\<exists>w \<in> set (used (wlCache s)). (w_wd w, x) \<in> set (watched (inst s))))"

definition extends :: "fsys \<Rightarrow> (string \<Rightarrow> bool) \<Rightarrow> dtree \<Rightarrow> dtree \<Rightarrow> bool" where
  "extends fs Q s s' \<longleftrightarrow> cache_inv s' \<and> same_roots s s' \<and> (named fs Q s \<longrightarrow> named fs Q s') \<and> (\<forall>p. entry fs s p \<longrightarrow> entry fs s' p)"

lemma extends_trans: "extends fs Q s t \<Longrightarrow> extends fs Q t u \<Longrightarrow> extends fs Q s u"
  by (simp add: extends_def same_roots_def)

lemma extends_cong:
  "wlCache s' = wlCache s \<Longrightarrow> inst s' = inst s \<Longrightarrow> same_roots s s' \<Longrightarrow> cache_inv s \<Longrightarrow> extends fs Q s s'"
  by (simp add: extends_def named_def entry_def cache_inv_def)

lemma watch_step_extends:
  assumes st: "watch_step fs p s s' wd x" and inv: "cache_inv s" and q: "fs_stat fs p \<noteq> None \<Longrightarrow> Q p"
  shows "extends fs Q s s'" "entry fs s' p"
proof -
  let ?w = "\<lparr>w_wd = wd, w_path = take PATH_MAX p\<rparr>"
  have f: "same_roots s s'" "fs_stat fs p = Some (fst x, snd x, True)" "(wd, x) \<in> set (watched (inst s'))"
    "wd \<in> w_wd ` set (used (wlCache s'))"
    using st unfolding watch_step_def by blast+
  have sub: "set (watched (inst s)) \<subseteq> set (watched (inst s'))" using st unfolding watch_step_def by auto
  have u: "v = ?w \<or> v \<in> set (used (wlCache s))" if "v \<in> set (used (wlCache s'))" for v
    using st that unfolding watch_step_def by auto
  have u': "v \<in> set (used (wlCache s'))" if "v \<in> set (used (wlCache s))" for v
    using st that unfolding watch_step_def by auto
  have "named fs Q s'" if nm: "named fs Q s"
    unfolding named_def
  proof
    fix v
    assume "v \<in> set (used (wlCache s'))"
    from u [OF this] show "\<exists>p d n. Q p \<and> w_path v = take PATH_MAX p \<and> fs_stat fs p = Some (d, n, True) \<and> (w_wd v, d, n) \<in> set (watched (inst s'))"
    proof
      assume "v = ?w"
      then show ?thesis using f(2,3) q by (intro exI [of _ p] exI [of _ "fst x"] exI [of _ "snd x"]) simp
    next
      assume "v \<in> set (used (wlCache s))"
      with nm sub show ?thesis unfolding named_def by blast
    qed
  qed
  moreover have "entry fs s' r" if "entry fs s r" for r
    using that u' sub unfolding entry_def by blast
  ultimately show "extends fs Q s s'" using f(1) watch_step_inv(1) [OF st inv] by (simp add: extends_def)
  show "entry fs s' p" unfolding entry_def
  proof (intro allI impI)
    fix y b
    assume "fs_stat fs p = Some (fst y, snd y, b)"
    then have "y = x" using f(2) by (simp add: prod_eq_iff)
    with f(3,4) show "\<exists>w \<in> set (used (wlCache s')). (w_wd w, y) \<in> set (watched (inst s'))" by auto
  qed
qed

lemma traverse_extends:
  assumes "traverseTree fs s (p, isdir) = Inr s'" "cache_inv s" "isdir \<Longrightarrow> fs_stat fs p \<noteq> None \<Longrightarrow> Q p"
  shows "extends fs Q s s'" "isdir \<Longrightarrow> entry fs s' p"
proof -
  have r: "extends fs Q s s" using assms(2) by (intro extends_cong) (simp_all add: same_roots_def)
  show "extends fs Q s s'" "isdir \<Longrightarrow> entry fs s' p"
    using traverse_cases [OF assms(1,2)] r watch_step_extends [OF _ assms(2), of fs p s' _ _ Q] assms(3)
    by (auto simp: entry_def)
qed

lemma traverse_all_extends:
  assumes "traverse_all fs xs s = Inr s'" "cache_inv s" "\<forall>(p, b) \<in> set xs. b \<longrightarrow> fs_stat fs p \<noteq> None \<longrightarrow> Q p"
  shows "extends fs Q s s' \<and> (\<forall>(p, b) \<in> set xs. b \<longrightarrow> entry fs s' p)"
  using assms
proof (induction xs arbitrary: s)
  case Nil
  then show ?case by (auto intro!: extends_cong simp: same_roots_def)
next
  case (Cons x xs)
  obtain p b where x: "x = (p, b)" by (cases x)
  obtain s1 where s1: "traverseTree fs s (p, b) = Inr s1" "traverse_all fs xs s1 = Inr s'"
    using Cons.prems(1) x by (cases "traverseTree fs s (p, b)") auto
  have q: "Q p" if "b" "fs_stat fs p \<noteq> None" using Cons.prems(3) x that by simp
  have t: "extends fs Q s s1" "b \<Longrightarrow> entry fs s1 p" using traverse_extends [OF s1(1) Cons.prems(2)] q by blast+
  have "cache_inv s1" using t(1) by (simp add: extends_def)
  from Cons.IH [OF s1(2) this] Cons.prems(3)
  have i: "extends fs Q s1 s'" "\<forall>(p, b) \<in> set xs. b \<longrightarrow> entry fs s' p" by simp_all
  have "b \<Longrightarrow> entry fs s' p" using t(2) i(1) by (simp add: extends_def)
  then show ?case using extends_trans [OF t(1) i(1)] i(2) x by simp
qed

lemma watch_roots_extends:
  assumes "watch_roots fs rs s = Inr s'" "cache_inv s"
    "\<forall>r objs p. Some r \<in> set rs \<and> fs_walk fs r = Some objs \<and> (p, True) \<in> set objs \<and> fs_stat fs p \<noteq> None \<longrightarrow> Q p"
  shows "extends fs Q s s' \<and> (\<forall>r objs p. Some r \<in> set rs \<and> fs_walk fs r = Some objs \<and> (p, True) \<in> set objs \<longrightarrow> entry fs s' p)"
  using assms
proof (induction rs arbitrary: s)
  case Nil
  then show ?case by (auto intro!: extends_cong simp: same_roots_def)
next
  case (Cons r rs)
  have q: "\<forall>r objs p. Some r \<in> set rs \<and> fs_walk fs r = Some objs \<and> (p, True) \<in> set objs \<and> fs_stat fs p \<noteq> None \<longrightarrow> Q p"
    using Cons.prems(3) by (meson list.set_intros(2))
  show ?case
  proof (cases r)
    case None
    then have "watch_roots fs rs s = Inr s'" using Cons.prems(1) by simp
    from Cons.IH [OF this Cons.prems(2) q] None show ?thesis by simp
  next
    case (Some a)
    then obtain s1 where s1: "watchSubtree fs s a = Inr s1" "watch_roots fs rs s1 = Inr s'"
      using Cons.prems(1) by (cases "watchSubtree fs s a") auto
    have e0: "extends fs Q s (s\<lparr>dirCnt := 0\<rparr>)" using Cons.prems(2) by (intro extends_cong) (simp_all add: same_roots_def)
    have w: "extends fs Q s s1 \<and> (\<forall>objs p. fs_walk fs a = Some objs \<and> (p, True) \<in> set objs \<longrightarrow> entry fs s1 p)"
      using watchSubtree_cases [OF s1(1)]
    proof
      assume "fs_walk fs a = None \<and> s1 = s\<lparr>dirCnt := 0\<rparr>"
      with e0 show ?thesis by simp
    next
      assume "\<exists>objs. fs_walk fs a = Some objs \<and> traverse_all fs objs (s\<lparr>dirCnt := 0\<rparr>) = Inr s1"
      then obtain objs where o: "fs_walk fs a = Some objs" "traverse_all fs objs (s\<lparr>dirCnt := 0\<rparr>) = Inr s1" by blast
      have c: "cache_inv (s\<lparr>dirCnt := 0\<rparr>)" using e0 by (simp add: extends_def)
      have qa: "Q p" if "(p, True) \<in> set objs" "fs_stat fs p \<noteq> None" for p
        using Cons.prems(3) Some o(1) that list.set_intros(1) [of r rs] by blast
      have "\<forall>(p, b) \<in> set objs. b \<longrightarrow> fs_stat fs p \<noteq> None \<longrightarrow> Q p" using qa by (auto simp del: not_None_eq)
      from traverse_all_extends [OF o(2) c this]
      have t: "extends fs Q (s\<lparr>dirCnt := 0\<rparr>) s1" "\<forall>(p, b) \<in> set objs. b \<longrightarrow> entry fs s1 p" by simp_all
      show ?thesis using extends_trans [OF e0 t(1)] t(2) o(1) by auto
    qed
    then have "cache_inv s1" by (simp add: extends_def)
    from Cons.IH [OF s1(2) this q]
    have i: "extends fs Q s1 s'" "\<forall>r objs p. Some r \<in> set rs \<and> fs_walk fs r = Some objs \<and> (p, True) \<in> set objs \<longrightarrow> entry fs s' p" by simp_all
    have "entry fs s' p" if "fs_walk fs a = Some objs" "(p, True) \<in> set objs" for objs p
      using w i(1) that unfolding extends_def by blast
    then show ?thesis using w i Some extends_trans by auto
  qed
qed

lemma reinitialize_builds:
  assumes "reinitialize fs s fd = Inr s'"
  shows "cache_inv s'" "named fs (walked fs (rootDirPaths s)) s'" "walked fs (rootDirPaths s) p \<Longrightarrow> entry fs s' p"
proof -
  obtain s1 where s1: "wlCache s1 = []" "inst s1 = new_instance" "same_roots s s1" "watch_roots fs (rootDirPaths s) s1 = Inr s'"
    by (rule reinitialize_start [OF assms])
  have i: "cache_inv s1" using s1(1,2) by (auto simp: cache_inv_def inst_inv_def new_instance_def)
  have q: "\<forall>r objs p. Some r \<in> set (rootDirPaths s) \<and> fs_walk fs r = Some objs \<and> (p, True) \<in> set objs \<and> fs_stat fs p \<noteq> None \<longrightarrow>
      walked fs (rootDirPaths s) p" unfolding walked_def by blast
  note w = watch_roots_extends [OF s1(4) i q]
  have n: "named fs (walked fs (rootDirPaths s)) s1" using s1(1) by (simp add: named_def)
  show "cache_inv s'" "named fs (walked fs (rootDirPaths s)) s'" using w n by (simp_all add: extends_def)
  show "entry fs s' p" if "walked fs (rootDirPaths s) p" using w that unfolding walked_def by blast
qed

lemma watched_unique: "inst_inv ino \<Longrightarrow> (wd, x) \<in> set (watched ino) \<Longrightarrow> (wd, y) \<in> set (watched ino) \<Longrightarrow> x = y"
  unfolding inst_inv_watched by (meson eq_key_imp_eq_value)

end
