(* ===== verification/Dtree_Correct.thy ===== *)
theory Dtree_Correct
  imports Dtree_Facts Machine
begin

text \<open>
  What the directory-tree cache promises: the properties of the program, each with an
  example where it has hypotheses.
\<close>

section \<open>Runs\<close>

text \<open>
  The states the main loop can reach.  Between turns the kernel may remove watches, of
  directories deleted or unmounted whose events are not read yet.
\<close>

definition dtree_started :: "dtree \<Rightarrow> bool" where
  "dtree_started s \<longleftrightarrow> (\<exists>fs opts argv. start fs opts argv = Inr s)"

inductive dtree_step :: "dtree \<Rightarrow> dtree \<Rightarrow> bool" where
  turned: "main_turn s t = Inr s' \<Longrightarrow> dtree_step s s'"
| kernel: "dtree_step s (s\<lparr>inst := kernel_read evs (inst s)\<rparr>)"

abbreviation reach :: "dtree \<Rightarrow> bool" where
  "reach \<equiv> reachable dtree_started dtree_step"

text \<open>A small tree with a directory \<open>/r/ab\<close> beside \<open>/r/a\<close>, and a cache that has it.\<close>

definition fs1 :: fsys where
  "fs1 = \<lparr>fs_stat = (\<lambda>p. if p = ''/r'' then Some (1, 10, True) else if p = ''/r/a'' then Some (1, 11, True)
       else if p = ''/r/a/x'' then Some (1, 12, True) else if p = ''/r/ab'' then Some (1, 13, True)
       else if p = ''/f'' then Some (1, 20, False) else None),
     fs_walk = (\<lambda>p. if p = ''/r'' then Some [(''/r'', True), (''/r/a'', True)] else None),
     fs_init = 3, fs_junk = False, fs_fopen = (\<lambda>p. False)\<rparr>"

definition dt1 :: dtree where
  "dt1 = dtree_init\<lparr>wlCache := [\<lparr>w_wd = 1, w_path = ''/r''\<rparr>, \<lparr>w_wd = 2, w_path = ''/r/a''\<rparr>, \<lparr>w_wd = 3, w_path = ''/r/a/x''\<rparr>,
       \<lparr>w_wd = 4, w_path = ''/r/ab''\<rparr>, empty_slot],
     rootDirPaths := [Some ''/r''], numRootDirs := 1, inotifyFd := 3,
     inst := \<lparr>in_next = 5, in_watches = [\<lparr>we_wd = 1, we_obj = (1, 10), we_mask = 0\<rparr>, \<lparr>we_wd = 2, we_obj = (1, 11), we_mask = 0\<rparr>,
       \<lparr>we_wd = 3, we_obj = (1, 12), we_mask = 0\<rparr>, \<lparr>we_wd = 4, we_obj = (1, 13), we_mask = 0\<rparr>]\<rparr>\<rparr>"

section \<open>Helpers\<close>

lemma check_args_ok: "check_args fs ps = Inr () \<longleftrightarrow> (\<forall>p \<in> set ps. \<exists>d n. fs_stat fs p = Some (d, n, True))"
  by (induction ps) (auto split: option.splits)

definition obj_of :: "fsys \<Rightarrow> string \<Rightarrow> (nat \<times> nat) option" where
  "obj_of fs p = map_option (\<lambda>(d, n, b). (d, n)) (fs_stat fs p)"

lemma copy_args_ok:
  assumes "\<forall>p \<in> set ps. fs_stat fs p \<noteq> None"
  shows "copy_args fs ps seen = Inr () \<longleftrightarrow> distinct (map (obj_of fs) ps) \<and> obj_of fs ` set ps \<inter> Some ` set seen = {}"
  using assms
proof (induction ps arbitrary: seen)
  case Nil
  then show ?case by simp
next
  case (Cons p ps)
  obtain d n b where f: "fs_stat fs p = Some (d, n, b)" using Cons.prems by auto
  have o: "obj_of fs p = Some (d, n)" using f by (simp add: obj_of_def)
  have "copy_args fs ps (seen @ [(d, n)]) = Inr () \<longleftrightarrow>
      distinct (map (obj_of fs) ps) \<and> obj_of fs ` set ps \<inter> Some ` set (seen @ [(d, n)]) = {}"
    using Cons.prems by (intro Cons.IH) simp
  then show ?case using f o by (auto simp: image_iff)
qed

lemma copyRoot_ok:
  "(\<exists>s'. copyRootDirPaths fs s argv = Inr s') \<longleftrightarrow>
   (\<forall>p \<in> set argv. \<exists>d n. fs_stat fs p = Some (d, n, True)) \<and> distinct (map (obj_of fs) argv)"
proof (cases "check_args fs argv")
  case (Inl e)
  then have "\<not> (\<forall>p \<in> set argv. \<exists>d n. fs_stat fs p = Some (d, n, True))" using check_args_ok [of fs argv] by auto
  then show ?thesis using Inl by (simp add: copyRootDirPaths_def)
next
  case (Inr u)
  then have d: "\<forall>p \<in> set argv. \<exists>d n. fs_stat fs p = Some (d, n, True)" using check_args_ok [of fs argv] by simp
  then have "\<forall>p \<in> set argv. fs_stat fs p \<noteq> None" by fastforce
  from copy_args_ok [OF this, of "[]"] have "copy_args fs argv [] = Inr () \<longleftrightarrow> distinct (map (obj_of fs) argv)" by simp
  then show ?thesis using Inr d by (cases "copy_args fs argv []") (auto simp: copyRootDirPaths_def)
qed

lemma set_options_inst:
  "set_options fs opts s = Inr s' \<Longrightarrow> inst s' = inst s \<and> wlCache s' = wlCache s"
proof (induction opts arbitrary: s)
  case Nil
  then show ?case by simp
next
  case (Cons x xs)
  then obtain s1 where s1: "set_option fs s x = Inr s1" "set_options fs xs s1 = Inr s'" by (auto simp: res_bind_Inr)
  have "inst s1 = inst s \<and> wlCache s1 = wlCache s" using s1(1) by (auto simp: set_option_def Let_def split: prod.splits if_splits)
  with Cons.IH [OF s1(2)] show ?case by simp
qed

lemma start_tracked:
  assumes "start fs opts argv = Inr s"
  shows "tracked s"
proof -
  obtain s1 s2 where s: "argv \<noteq> []" "copyRootDirPaths fs s1 argv = Inr s2" "reinitialize fs s2 (-1) = Inr s"
    using assms by (auto simp: start_def res_bind_Inr split: if_splits)
  have "s2 = s1\<lparr>numRootDirs := int (length argv), rootDirPaths := map Some argv, ignoreRootDirs := 0\<rparr>"
    using s(2) by (auto simp: copyRootDirPaths_def res_bind_Inr)
  then have "roots_inv s2" using s(1) by (simp add: roots_inv_def comp_def filter_empty_conv)
  then show ?thesis by (rule reinitialize_tracked [OF s(3)])
qed

lemma kernel_tracked: "tracked s \<Longrightarrow> tracked (s\<lparr>inst := kernel_read evs (inst s)\<rparr>)"
  using keeps_tracked [OF _ got_events_keeps, of s evs]
    tracked_cong [of "s\<lparr>inst := kernel_read evs (inst s)\<rparr>" "got_events s evs"]
  by (simp add: got_events_def tracked_def same_roots_def)

interpretation dt: invariant dtree_started dtree_step tracked
proof unfold_locales
  show "tracked s" if "dtree_started s" for s using that start_tracked by (auto simp: dtree_started_def)
  show "tracked s'" if "tracked s" "dtree_step s s'" for s s'
    using that(2,1) by (induction rule: dtree_step.induct) (blast intro: main_turn_inv kernel_tracked)+
qed

lemma findWatch_cached:
  assumes "cache_inv s" "wd \<in> w_wd ` set (used (wlCache s))"
  obtains j where "j < cacheSize s" "findWatchChecked s wd = Inr (int j)" "w_wd (wlCache s ! j) = wd"
    "\<And>k. k < cacheSize s \<Longrightarrow> w_wd (wlCache s ! k) = wd \<Longrightarrow> k = j"
proof -
  let ?f = "first_slot (\<lambda>w. w_wd w = wd) 0 (wlCache s)"
  have wd: "0 \<le> wd" "wd \<in> w_wd ` set (wlCache s)" using assms(2) by (auto simp: set_used)
  then have ge: "?f \<ge> 0" by (auto simp: first_slot_ge)
  then have "?f \<noteq> -1" by simp
  then have f: "nat ?f < length (wlCache s)" "w_wd (wlCache s ! nat ?f) = wd" by (rule first_slot_some(2), rule first_slot_some(3))
  have u: "k = nat ?f" if k: "k < cacheSize s" "w_wd (wlCache s ! k) = wd" for k
  proof (rule ccontr)
    assume ne: "k \<noteq> nat ?f"
    have kl: "k < length (wlCache s)" using k(1) by (simp add: cacheSize_def)
    have "used (wlCache s) = used (take k (wlCache s)) @ wlCache s ! k # used (drop (Suc k) (wlCache s))"
      using used_clear(2) [OF kl] k(2) wd(1) by simp
    then have d: "distinct (map w_wd (used (take k (wlCache s)) @ wlCache s ! k # used (drop (Suc k) (wlCache s))))"
      using assms(1) by (simp add: cache_inv_def)
    have "wlCache s ! nat ?f \<in> set (used (take k (wlCache s))) \<or> wlCache s ! nat ?f \<in> set (used (drop (Suc k) (wlCache s)))"
    proof (cases "nat ?f < k")
      case True
      then have "take k (wlCache s) ! nat ?f \<in> set (take k (wlCache s))" using f(1) by (intro nth_mem) simp
      then show ?thesis using True f(2) wd(1) by (simp add: set_used)
    next
      case False
      then have "drop (Suc k) (wlCache s) ! (nat ?f - Suc k) \<in> set (drop (Suc k) (wlCache s))" using f(1) ne by (intro nth_mem) simp
      then show ?thesis using False ne f wd(1) kl by (simp add: set_used)
    qed
    then have "wd \<in> w_wd ` (set (used (take k (wlCache s))) \<union> set (used (drop (Suc k) (wlCache s))))"
      using f(2) by (intro image_eqI [of _ _ "wlCache s ! nat ?f"]) auto
    then show False using d k(2) by auto
  qed
  have c: "findWatchChecked s wd = Inr (int (nat ?f))" using ge by (simp add: findWatchChecked_def findWatch_def)
  have l: "nat ?f < cacheSize s" using f(1) by (simp add: cacheSize_def)
  from that [OF l c f(2) u] show ?thesis .
qed

lemma masks [simp]:
  "(IN_MOVED_FROM OR IN_ISDIR) AND IN_ISDIR \<noteq> 0" "(IN_MOVED_FROM OR IN_ISDIR) AND (IN_CREATE OR IN_MOVED_TO) = 0"
  "(IN_MOVED_FROM OR IN_ISDIR) AND IN_DELETE_SELF = 0" "(IN_MOVED_FROM OR IN_ISDIR) AND IN_UNMOUNT = 0"
  "(IN_MOVED_FROM OR IN_ISDIR) AND IN_IGNORED = 0" "(IN_MOVED_TO OR IN_ISDIR) AND IN_MOVED_TO \<noteq> 0"
  "(IN_MOVED_TO OR IN_ISDIR) AND IN_DELETE_SELF = 0" "(IN_MOVED_TO OR IN_ISDIR) AND IN_UNMOUNT = 0"
  "IN_MOVED_TO \<noteq> 0"
  by (simp_all add: IN_MOVED_FROM_def IN_ISDIR_def IN_CREATE_def IN_MOVED_TO_def IN_DELETE_SELF_def IN_UNMOUNT_def IN_IGNORED_def)

text \<open>A directory moved away, with no partner or with it.\<close>

definition moved_from :: "inotify_event \<Rightarrow> bool" where
  "moved_from ev \<longleftrightarrow> ev_mask ev = IN_MOVED_FROM OR IN_ISDIR"

definition moved_to :: "inotify_event \<Rightarrow> bool" where
  "moved_to ev \<longleftrightarrow> ev_mask ev = IN_MOVED_TO OR IN_ISDIR"

lemma not_gone: "moved_from ev \<Longrightarrow> \<not> gone ev" "moved_to ev \<Longrightarrow> \<not> gone ev"
  by (simp_all add: gone_def has_def moved_from_def moved_to_def)

lemma next_moved_from:
  assumes "moved_from a" "ev_wd a \<noteq> -1" "findWatchChecked s (ev_wd a) = Inr (int i)"
  shows "processNextInotifyEvent fs s (a # rest) n ft =
    res_bind (ev_moved_from fs s (Some i) a rest (ev_size a) n ft) (\<lambda>out.
       case out of
         Returns r s \<Rightarrow> Inr (r, s)
       | Falls r s \<Rightarrow>
           res_bind (if checkCache s then checkCacheConsistency fs s else Inr 0) (\<lambda>_.
           res_bind (if dumpCache s then dumpCacheToLog s else Inr []) (\<lambda>_. Inr (r, s))))"
  using assms by (simp add: processNextInotifyEvent_def ev_branch_def has_def moved_from_def Let_def)

lemma find_count [simp]: "findWatchChecked (s\<lparr>inotifyReadCnt := k\<rparr>) wd = findWatchChecked s wd"
  by (simp add: findWatchChecked_def findWatch_def createStopFileAndAbort_def dumpCacheToLog_def Let_def)

lemma slot_path_count [simp]: "slot_path (s\<lparr>inotifyReadCnt := k\<rparr>) j = slot_path s j"
  by (simp add: slot_path_def)

lemma got_events_moves: "\<forall>ev \<in> set evs. \<not> gone ev \<Longrightarrow> got_events s evs = s\<lparr>inotifyReadCnt := inotifyReadCnt s + 1\<rparr>"
  by (simp add: got_events_def kernel_read_def Let_def)

lemma rewrite_count:
  "rewriteCachedPaths (s\<lparr>inotifyReadCnt := k\<rparr>) op on np nn = (rewriteCachedPaths s op on np nn)\<lparr>inotifyReadCnt := k\<rparr>"
  "checkCache (rewriteCachedPaths s op on np nn) = checkCache s" "dumpCache (rewriteCachedPaths s op on np nn) = dumpCache s"
  by (simp_all add: rewrite_renamed)

lemma loop_fuel_Suc: "\<exists>m. loop_fuel (a # evs) reads = Suc (Suc (Suc m))"
  by (rule exI [of _ "2 * (length evs + sum_list (map rd_events reads)) + 1"]) (simp add: loop_fuel_def)

lemma next_pair:
  assumes "moved_from a" "moved_to b" "ev_cookie b = ev_cookie a" "ev_wd a \<noteq> -1"
    "findWatchChecked s (ev_wd a) = Inr (int i)" "findWatchChecked s (ev_wd b) = Inr (int j)" "\<not> checkCache s" "\<not> dumpCache s"
  shows "processNextInotifyEvent fs s [a, b] (ev_size a + ev_size b) ft =
    Inr (ev_size a + ev_size b, rewriteCachedPaths s (slot_path s i) (ev_name a) (slot_path s j) (ev_name b))"
  using assms ev_size_pos [of b]
  by (simp add: next_moved_from ev_moved_from_def has_def moved_to_def slot_of_def rewrite_count Let_def)

lemma next_hanging:
  assumes "moved_from a" "ev_wd a \<noteq> -1" "findWatchChecked s (ev_wd a) = Inr (int i)"
  shows "processNextInotifyEvent fs s [a] (ev_size a) True = Inr (-1, s)"
  using assms by (simp add: next_moved_from ev_moved_from_def Let_def)

lemma next_lone:
  assumes "moved_from a" "ev_wd a \<noteq> -1" "findWatchChecked s (ev_wd a) = Inr (int i)" "\<not> checkCache s" "\<not> dumpCache s"
    "zapSubtree s (snprintf (PATH_MAX + NAME_MAX) (slot_path s i @ ''/'' @ ev_name a)) = (c, s')" "c \<noteq> -1"
    "checkCache s' = checkCache s" "dumpCache s' = dumpCache s" "n \<le> ev_size a"
  shows "processNextInotifyEvent fs s [a] n False = Inr (ev_size a, s')"
  using assms by (simp add: next_moved_from ev_moved_from_def slot_of_def Let_def)

lemma check_loop_used:
  "\<forall>w \<in> set ws. w_wd w \<ge> 0 \<and> fs_stat fs (w_path w) \<noteq> None \<Longrightarrow> check_loop fs ws sb k = Inr k"
  by (induction ws arbitrary: sb) (auto split: option.splits)

section \<open>Properties\<close>

text \<open>
  C5.  In every state the program can reach, a watch the kernel still has is in the cache, in
  exactly one slot, and that slot is what the lookup for its events gives.
\<close>

theorem reachable_cache_complete:
  assumes "reach s" "w \<in> set (in_watches (inst s))"
  shows "\<exists>j < cacheSize s. findWatchChecked s (we_wd w) = Inr (int j) \<and> w_wd (wlCache s ! j) = we_wd w \<and>
    (\<forall>k < cacheSize s. w_wd (wlCache s ! k) = we_wd w \<longrightarrow> k = j)"
proof -
  have t: "cache_inv s" "covers s" using dt.always [OF assms(1)] by (simp_all add: tracked_def)
  then have "we_wd w \<in> w_wd ` set (used (wlCache s))" using assms(2) by (auto simp: covers_def)
  from findWatch_cached [OF t(1) this] show ?thesis by metis
qed

text \<open>
  In every state the program can reach, the roots given up are counted right, and at
  least one root is still monitored: the program exits with the last of them.
\<close>

theorem reachable_has_root:
  assumes "reach s"
  shows "numRootDirs s = int (length (rootDirPaths s)) \<and>
    ignoreRootDirs s = int (length (filter (\<lambda>r. r = None) (rootDirPaths s))) \<and> (\<exists>p. Some p \<in> set (rootDirPaths s))"
proof -
  have r: "numRootDirs s = int (length (rootDirPaths s))"
    "ignoreRootDirs s = int (length (filter (\<lambda>r. r = None) (rootDirPaths s)))" "ignoreRootDirs s < numRootDirs s"
    using dt.always [OF assms] by (simp_all add: tracked_def roots_inv_def)
  have "\<exists>x \<in> set (rootDirPaths s). x \<noteq> None"
  proof (rule ccontr)
    assume "\<not> (\<exists>x \<in> set (rootDirPaths s). x \<noteq> None)"
    then have "filter (\<lambda>r. r = None) (rootDirPaths s) = rootDirPaths s" by (simp add: filter_id_conv)
    with r show False by simp
  qed
  then show ?thesis using r by auto
qed


text \<open>
  C22.  Building the cache anew: if no two pathnames of the walked trees are the same object
  and all fit a slot, the cached pathnames are exactly the directories of the trees, and
  each slot has the descriptor that watches its directory.
\<close>

theorem rebuild_exact:
  assumes "reinitialize fs s fd = Inr s'"
    "\<forall>p q. walked fs (rootDirPaths s) p \<and> walked fs (rootDirPaths s) q \<and> obj_of fs p = obj_of fs q \<longrightarrow> p = q"
    "\<forall>p. walked fs (rootDirPaths s) p \<longrightarrow> length p < PATH_MAX"
  shows "(\<forall>p. pathnameInCache s' p \<longleftrightarrow> walked fs (rootDirPaths s) p) \<and>
    (\<forall>w \<in> set (wlCache s'). w_wd w \<ge> 0 \<longrightarrow> (\<exists>x. obj_of fs (w_path w) = Some x \<and> (w_wd w, x) \<in> set (watched (inst s'))))"
proof -
  let ?W = "walked fs (rootDirPaths s)"
  note b = reinitialize_builds [OF assms(1)]
  have n: "\<exists>x. ?W (w_path w) \<and> obj_of fs (w_path w) = Some x \<and> (w_wd w, x) \<in> set (watched (inst s'))"
    if w: "w \<in> set (used (wlCache s'))" for w
  proof -
    obtain p d k where p: "?W p" "w_path w = take PATH_MAX p" "fs_stat fs p = Some (d, k, True)" "(w_wd w, d, k) \<in> set (watched (inst s'))"
      using b(2) w unfolding named_def by blast
    have "w_path w = p" using p(1,2) assms(3) by fastforce
    then show ?thesis using p by (intro exI [of _ "(d, k)"]) (simp add: obj_of_def)
  qed
  have "pathnameInCache s' p" if p: "?W p" for p
  proof -
    obtain d k b where f: "fs_stat fs p = Some (d, k, b)" using p by (auto simp: walked_def)
    then obtain w where w: "w \<in> set (used (wlCache s'))" "(w_wd w, d, k) \<in> set (watched (inst s'))"
      using b(3) [OF p] unfolding entry_def by fastforce
    obtain x where x: "?W (w_path w)" "obj_of fs (w_path w) = Some x" "(w_wd w, x) \<in> set (watched (inst s'))" using n [OF w(1)] by blast
    have "inst_inv (inst s')" using b(1) by (simp add: cache_inv_def)
    then have "x = (d, k)" using watched_unique x(3) w(2) by blast
    then have "w_path w = p" using assms(2) x(1,2) p f by (auto simp: obj_of_def)
    then show ?thesis using w(1) by (auto simp: in_cache)
  qed
  moreover have "?W p" if "pathnameInCache s' p" for p using that n by (auto simp: in_cache)
  moreover have "\<exists>x. obj_of fs (w_path w) = Some x \<and> (w_wd w, x) \<in> set (watched (inst s'))" if "w \<in> set (wlCache s')" "w_wd w \<ge> 0" for w
    using n [of w] that by (auto simp: set_used)
  ultimately show ?thesis by blast
qed

text \<open>
  C24.  Removing a subtree whose watches the kernel still has: the count is the number of
  cached directories at or below the path, those and no others leave the cache (a sibling
  whose name only begins alike stays), and exactly their watches are gone.
\<close>

theorem zap_removes_subtree:
  assumes "cache_inv s" "\<forall>w \<in> set (wlCache s). in_subtree p w \<longrightarrow> w_wd w \<in> live s" "zapSubtree s p = (c, s')"
  shows "c = int (length (filter (in_subtree p) (wlCache s))) \<and>
    (\<forall>q. pathnameInCache s' q \<longleftrightarrow> pathnameInCache s q \<and> \<not> (\<exists>t. q = p @ t \<and> (t = [] \<or> hd t = CHR ''/''))) \<and>
    live s' = live s - w_wd ` {w \<in> set (wlCache s). in_subtree p w}"
  using zap_complete [OF assms(1,2)] assms(3) zapped_in_cache [where s = s and p = p] live_dropped [where s = s]
  by (auto simp: at_or_below_iff)

text \<open>
  C23.  Renaming a directory moves its subtree in the cache: below the new name a lookup gives
  the slot the old name had, below the old name nothing is left, and every other lookup is
  as before, provided nothing was cached below the new name and the new paths fit a slot.
\<close>

theorem rename_moves_subtree:
  assumes "old = oldPrefix @ ''/'' @ oldName" "new = newPrefix @ ''/'' @ newName" "length old < PATH_MAX" "length new < PATH_MAX"
    "\<forall>w \<in> set (wlCache s). w_wd w \<ge> 0 \<longrightarrow> \<not> at_or_below new (w_path w) \<and>
      (at_or_below old (w_path w) \<longrightarrow> length new + (length (w_path w) - length old) < PATH_MAX)"
  shows "pathnameToCacheSlot (rewriteCachedPaths s oldPrefix oldName newPrefix newName) q =
    (if at_or_below new q then pathnameToCacheSlot s (old @ drop (length new) q)
     else if at_or_below old q then -1 else pathnameToCacheSlot s q)"
proof -
  have e: "snprintf PATH_MAX (oldPrefix @ ''/'' @ oldName) = old" "snprintf PATH_MAX (newPrefix @ ''/'' @ newName) = new"
    using assms(1-4) by (simp_all add: snprintf_def)
  show ?thesis unfolding rewrite_renamed e by (rule renamed_slot) (use assms(5) in \<open>simp add: set_used\<close>)
qed

text \<open>Renaming a directory and renaming it back leaves the cache as it was.\<close>

theorem rename_round_trip:
  assumes "old = oldPrefix @ ''/'' @ oldName" "new = newPrefix @ ''/'' @ newName" "length old < PATH_MAX" "length new < PATH_MAX"
    "\<forall>w \<in> set (wlCache s). \<not> at_or_below new (w_path w) \<and> length (w_path w) < PATH_MAX \<and>
      (at_or_below old (w_path w) \<longrightarrow> length new + (length (w_path w) - length old) < PATH_MAX)"
  shows "rewriteCachedPaths (rewriteCachedPaths s oldPrefix oldName newPrefix newName) newPrefix newName oldPrefix oldName = s"
proof -
  have e: "snprintf PATH_MAX (oldPrefix @ ''/'' @ oldName) = old" "snprintf PATH_MAX (newPrefix @ ''/'' @ newName) = new"
    using assms(1-4) by (simp_all add: snprintf_def)
  have "map (renamed new old) (map (renamed old new) (wlCache s)) = wlCache s"
    using assms(5) renamed_back by (simp add: map_idI)
  then show ?thesis unfolding rewrite_renamed e by simp
qed

text \<open>
  C25.  A rename inside the trees is two events.  Whether one read gives both or the second
  comes with another read, the cache is rewritten once and in the same way.
\<close>

theorem rename_pair_across_reads:
  assumes "moved_from a" "moved_to b" "ev_cookie b = ev_cookie a" "ev_wd a \<noteq> -1"
    "findWatchChecked s (ev_wd a) = Inr (int i)" "findWatchChecked s (ev_wd b) = Inr (int j)" "\<not> checkCache s" "\<not> dumpCache s"
    "ev_size a + ev_size b \<le> INOTIFY_READ_BUF_LEN"
  shows "processInotifyEvents fs s (Rd_events [a, b]) reads =
      Inr ((rewriteCachedPaths s (slot_path s i) (ev_name a) (slot_path s j) (ev_name b))\<lparr>inotifyReadCnt := inotifyReadCnt s + 1\<rparr>) \<and>
    processInotifyEvents fs s (Rd_events [a]) (Rd_events [b] # reads) =
      Inr ((rewriteCachedPaths s (slot_path s i) (ev_name a) (slot_path s j) (ev_name b))\<lparr>inotifyReadCnt := inotifyReadCnt s + 2\<rparr>)"
proof -
  let ?r = "rewriteCachedPaths s (slot_path s i) (ev_name a) (slot_path s j) (ev_name b)"
  note g = not_gone(1) [OF assms(1)] not_gone(2) [OF assms(2)]
  note p = ev_size_pos [of a] ev_size_pos [of b]
  have bo: "bytes_of [a, b] = ev_size a + ev_size b" "bytes_of [a] = ev_size a" "bytes_of [b] = ev_size b" by (simp_all add: bytes_of_def)
  have np: "processNextInotifyEvent fs (s\<lparr>inotifyReadCnt := k\<rparr>) [a, b] (ev_size a + ev_size b) ft =
      Inr (ev_size a + ev_size b, ?r\<lparr>inotifyReadCnt := k\<rparr>)" for k ft
    using next_pair [of a b "s\<lparr>inotifyReadCnt := k\<rparr>" i j fs ft] assms(1-8) by (simp add: rewrite_count)
  have nh: "processNextInotifyEvent fs (s\<lparr>inotifyReadCnt := k\<rparr>) [a] (ev_size a) True = Inr (-1, s\<lparr>inotifyReadCnt := k\<rparr>)" for k
    using next_hanging [of a "s\<lparr>inotifyReadCnt := k\<rparr>" i fs] assms(1,4,5) by simp
  obtain m1 where f1: "loop_fuel [a, b] reads = Suc (Suc (Suc m1))" using loop_fuel_Suc by blast
  obtain m2 where f2: "loop_fuel [a] (Rd_events [b] # reads) = Suc (Suc (Suc m2))" using loop_fuel_Suc by blast
  have "processInotifyEvents fs s (Rd_events [a, b]) reads = Inr (?r\<lparr>inotifyReadCnt := inotifyReadCnt s + 1\<rparr>)"
    using p assms(9) g by (simp add: processInotifyEvents_def got_events_moves bo f1 np)
  moreover have "processInotifyEvents fs s (Rd_events [a]) (Rd_events [b] # reads) = Inr (?r\<lparr>inotifyReadCnt := inotifyReadCnt s + 2\<rparr>)"
    using p assms(9) g by (simp add: processInotifyEvents_def got_events_moves bo f2 np nh)
  ultimately show ?thesis by blast
qed

text \<open>
  A directory moved out of the trees: when the second read brings no partner for the
  event, the directory and everything below it leave the cache, and nothing else.
\<close>

theorem lone_move_drops_subtree:
  assumes "moved_from a" "ev_wd a \<noteq> -1" "findWatchChecked s (ev_wd a) = Inr (int i)" "\<not> checkCache s" "\<not> dumpCache s"
    "p = slot_path s i @ ''/'' @ ev_name a" "length p < PATH_MAX" "ev_size a \<le> INOTIFY_READ_BUF_LEN"
    "cache_inv s" "\<forall>w \<in> set (wlCache s). in_subtree p w \<longrightarrow> w_wd w \<in> live s"
  shows "\<exists>s'. processInotifyEvents fs s (Rd_events [a]) (Rd_intr # reads) = Inr s' \<and>
    (\<forall>q. pathnameInCache s' q \<longleftrightarrow> pathnameInCache s q \<and> \<not> at_or_below p q)"
proof -
  let ?z = "\<lambda>k. s\<lparr>inotifyReadCnt := k, wlCache := zapped p (wlCache s), inst := drop_watches (inst s) (filter (in_subtree p) (wlCache s))\<rparr>"
  let ?c = "int (length (filter (in_subtree p) (wlCache s)))"
  have sp: "snprintf (PATH_MAX + NAME_MAX) (slot_path s i @ ''/'' @ ev_name a) = p"
    unfolding assms(6) [symmetric] using assms(7) by (simp add: snprintf_def)
  have z: "zapSubtree (s\<lparr>inotifyReadCnt := k\<rparr>) p = (?c, ?z k)" for k
    using zap_complete [of "s\<lparr>inotifyReadCnt := k\<rparr>" p] assms(9,10) by (simp add: cache_inv_def live_def)
  have nh: "processNextInotifyEvent fs (s\<lparr>inotifyReadCnt := k\<rparr>) [a] (ev_size a) True = Inr (-1, s\<lparr>inotifyReadCnt := k\<rparr>)" for k
    using next_hanging [of a "s\<lparr>inotifyReadCnt := k\<rparr>" i fs] assms(1-3) by simp
  have nl: "processNextInotifyEvent fs (s\<lparr>inotifyReadCnt := k\<rparr>) [a] (ev_size a - 1) False = Inr (ev_size a, ?z k)" for k
    by (rule next_lone [where i = i and c = ?c]) (use assms(1-5) sp z in simp_all)
  have sz: "1 < ev_size a" by (simp add: ev_size_def EV_SIZE_def)
  obtain m where m: "loop_fuel [a] (Rd_intr # reads) = Suc (Suc (Suc m))" using loop_fuel_Suc by blast
  have bo: "bytes_of [a] = ev_size a" by (simp add: bytes_of_def)
  have "processInotifyEvents fs s (Rd_events [a]) (Rd_intr # reads) = Inr (?z (inotifyReadCnt s + 2))"
    using sz assms(8) not_gone(1) [OF assms(1)] by (simp add: processInotifyEvents_def got_events_moves bo m nh nl)
  moreover have "pathnameInCache (?z k) q \<longleftrightarrow> pathnameInCache s q \<and> \<not> at_or_below p q" for q k
    using zapped_in_cache [where s = s and p = p] by (simp add: pathnameInCache_def pathnameToCacheSlot_def)
  ultimately show ?thesis by blast
qed

text \<open>
  The arguments of the program are accepted exactly when each is a directory and no two
  of them are the same object, however they are spelled.
\<close>

theorem root_arguments_accepted:
  "(\<exists>s'. copyRootDirPaths fs s argv = Inr s') \<longleftrightarrow>
   (\<forall>p \<in> set argv. \<exists>d n. fs_stat fs p = Some (d, n, True)) \<and> distinct (map (obj_of fs) argv)"
  by (rule copyRoot_ok)

text \<open>
  The consistency check does not look for directories where it should: with every slot
  in use and every cached pathname existing it reports no failure, whatever the pathnames
  are by now.
\<close>

theorem consistency_check_misses_files:
  assumes "\<forall>w \<in> set (wlCache s). w_wd w \<ge> 0 \<and> fs_stat fs (w_path w) \<noteq> None"
  shows "checkCacheConsistency fs s = Inr 0"
  using check_loop_used [OF assms] by (simp add: checkCacheConsistency_def)

section \<open>Examples\<close>

lemma fs1_simps [simp]:
  "fs_stat fs1 ''/r'' = Some (1, 10, True)" "fs_stat fs1 ''/r/a'' = Some (1, 11, True)" "fs_stat fs1 ''/f'' = Some (1, 20, False)"
  "fs_walk fs1 ''/r'' = Some [(''/r'', True), (''/r/a'', True)]" "fs_init fs1 = 3"
  by (simp_all add: fs1_def)

lemmas dt1_eval = dt1_def dtree_init_def empty_slot_def cacheSize_def findWatchChecked_def findWatch_def slot_path_def

definition dt0 :: dtree where
  "dt0 = (case start fs1 [] [''/r''] of Inr s \<Rightarrow> s | Inl e \<Rightarrow> dtree_init)"

lemma dt0_start: "start fs1 [] [''/r''] = Inr dt0" "in_watches (inst dt0) \<noteq> []"
  by (simp_all add: dt0_def start_def dtree_init_def copyRootDirPaths_def reinitialize_def freeCache_def watchSubtree_def watchDir_def
      traverseTree_def inotify_add_watch_def isRootDirPath_def findRootDirPath_def new_instance_def findWatch_def
      addWatchToCache_def findEmptyCacheSlot_def cacheSize_def watch_flags_def IN_ONLYDIR_def IN_CREATE_def IN_MOVED_FROM_def
      IN_MOVED_TO_def IN_DELETE_SELF_def IN_MOVE_SELF_def Let_def ALLOC_INCR_def PATH_MAX_def empty_slot_def)

lemma dt0_reach: "reach dt0"
  using dt0_start(1) by (intro reachable_start) (auto simp: dtree_started_def)

theorem reachable_cache_complete_witness:
  "reach dt0 \<and> (\<exists>w \<in> set (in_watches (inst dt0)). \<exists>j < cacheSize dt0. findWatchChecked dt0 (we_wd w) = Inr (int j) \<and>
    w_wd (wlCache dt0 ! j) = we_wd w \<and> (\<forall>k < cacheSize dt0. w_wd (wlCache dt0 ! k) = we_wd w \<longrightarrow> k = j))"
proof -
  have r: "reach dt0" by (rule dt0_reach)
  have h: "hd (in_watches (inst dt0)) \<in> set (in_watches (inst dt0))" by (rule hd_in_set [OF dt0_start(2)])
  show ?thesis using reachable_cache_complete [OF r h] r h by blast
qed

theorem reachable_has_root_witness:
  "reach dt0 \<and> numRootDirs dt0 = int (length (rootDirPaths dt0)) \<and> (\<exists>p. Some p \<in> set (rootDirPaths dt0))"
proof -
  have r: "reach dt0" by (rule dt0_reach)
  show ?thesis using reachable_has_root [OF r] r by blast
qed

lemma walked_fs1: "walked fs1 [Some ''/r''] p \<longleftrightarrow> p = ''/r'' \<or> p = ''/r/a''"
  by (auto simp: walked_def)

definition dt2 :: dtree where
  "dt2 = (case reinitialize fs1 dt1 3 of Inr s \<Rightarrow> s | Inl e \<Rightarrow> dtree_init)"

lemma dt2_built: "reinitialize fs1 dt1 3 = Inr dt2"
  by (simp add: dt2_def dt1_def dtree_init_def reinitialize_def freeCache_def watchSubtree_def watchDir_def
      traverseTree_def inotify_add_watch_def isRootDirPath_def findRootDirPath_def new_instance_def findWatch_def
      addWatchToCache_def findEmptyCacheSlot_def cacheSize_def watch_flags_def IN_ONLYDIR_def IN_CREATE_def IN_MOVED_FROM_def
      IN_MOVED_TO_def IN_DELETE_SELF_def IN_MOVE_SELF_def Let_def ALLOC_INCR_def PATH_MAX_def empty_slot_def)

theorem rebuild_exact_witness:
  "reinitialize fs1 dt1 3 = Inr dt2 \<and> (\<forall>p. pathnameInCache dt2 p \<longleftrightarrow> p = ''/r'' \<or> p = ''/r/a'')"
proof -
  have r: "rootDirPaths dt1 = [Some ''/r'']" by (simp add: dt1_def)
  have "\<forall>p q. walked fs1 (rootDirPaths dt1) p \<and> walked fs1 (rootDirPaths dt1) q \<and> obj_of fs1 p = obj_of fs1 q \<longrightarrow> p = q"
    unfolding r walked_fs1 by (auto simp: obj_of_def)
  moreover have "\<forall>p. walked fs1 (rootDirPaths dt1) p \<longrightarrow> length p < PATH_MAX"
    unfolding r walked_fs1 by (auto simp: PATH_MAX_def)
  ultimately show ?thesis using rebuild_exact [OF dt2_built] dt2_built unfolding r walked_fs1 by blast
qed

lemma dt1_inv: "cache_inv dt1"
  by (simp add: cache_inv_def inst_inv_def dt1_eval)

lemma below_a: "at_or_below ''/r/a'' ''/r'' = False" "at_or_below ''/r/a'' ''/r/a'' = True" "at_or_below ''/r/a'' ''/r/a/x'' = True"
  "at_or_below ''/r/a'' ''/r/ab'' = False" "at_or_below ''/r/a'' [] = False"
  by (simp_all add: at_or_below_def)

lemma below_b: "at_or_below ''/r/b'' ''/r'' = False" "at_or_below ''/r/b'' ''/r/a'' = False" "at_or_below ''/r/b'' ''/r/a/x'' = False"
  "at_or_below ''/r/b'' ''/r/ab'' = False" "at_or_below ''/r/b'' [] = False"
  by (simp_all add: at_or_below_def)

lemma dt1_live: "\<forall>w \<in> set (wlCache dt1). in_subtree ''/r/a'' w \<longrightarrow> w_wd w \<in> live dt1"
  by (simp add: dt1_eval in_subtree_def live_def)

theorem zap_removes_subtree_witness:
  "\<exists>s'. zapSubtree dt1 ''/r/a'' = (2, s') \<and> pathnameInCache s' ''/r/ab'' \<and> \<not> pathnameInCache s' ''/r/a/x'' \<and> live s' = {1, 4}"
proof -
  obtain c s' where z: "zapSubtree dt1 ''/r/a'' = (c, s')" by (cases "zapSubtree dt1 ''/r/a''")
  note t = zap_removes_subtree [OF dt1_inv dt1_live z, folded at_or_below_iff]
  have c: "c = 2" "pathnameInCache s' ''/r/ab''" "\<not> pathnameInCache s' ''/r/a/x''"
    using t by (simp add: dt1_eval in_subtree_def below_a, simp add: in_cache dt1_eval below_a, simp add: below_a)
  have "{w \<in> set (wlCache dt1). in_subtree ''/r/a'' w} = {\<lparr>w_wd = 2, w_path = ''/r/a''\<rparr>, \<lparr>w_wd = 3, w_path = ''/r/a/x''\<rparr>}"
    by (auto simp: dt1_eval in_subtree_def below_a)
  then have "live s' = live dt1 - {2, 3}" using t by simp
  moreover have "live dt1 = {1, 2, 3, 4}" by (simp add: dt1_eval live_def)
  moreover have "{1, 2, 3, 4} - {2, 3} = {1, 4 :: int}" by auto
  ultimately have "live s' = {1, 4}" by simp
  then show ?thesis using z c by blast
qed

theorem rename_moves_subtree_witness:
  "pathnameToCacheSlot (rewriteCachedPaths dt1 ''/r'' ''a'' ''/r'' ''b'') ''/r/b/x'' = 2 \<and>
   pathnameToCacheSlot (rewriteCachedPaths dt1 ''/r'' ''a'' ''/r'' ''b'') ''/r/a/x'' = -1 \<and>
   pathnameToCacheSlot (rewriteCachedPaths dt1 ''/r'' ''a'' ''/r'' ''b'') ''/r/ab'' = 3"
proof -
  have h: "\<forall>w \<in> set (wlCache dt1). w_wd w \<ge> 0 \<longrightarrow> \<not> at_or_below ''/r/b'' (w_path w) \<and>
      (at_or_below ''/r/a'' (w_path w) \<longrightarrow> length ''/r/b'' + (length (w_path w) - length ''/r/a'') < PATH_MAX)"
    by (simp add: dt1_eval below_a below_b PATH_MAX_def)
  have "length ''/r/a'' < PATH_MAX" "length ''/r/b'' < PATH_MAX" by (simp_all add: PATH_MAX_def)
  note t = rename_moves_subtree [OF _ _ this h, of "''/r''" "''a''" "''/r''" "''b''"]
  have b: "at_or_below ''/r/b'' ''/r/b/x''" by (simp add: at_or_below_def)
  show ?thesis using t [of "''/r/b/x''"] t [of "''/r/a/x''"] t [of "''/r/ab''"]
    by (simp add: below_a below_b b pathnameToCacheSlot_def dt1_eval)
qed

theorem rename_round_trip_witness:
  "rewriteCachedPaths (rewriteCachedPaths dt1 ''/r'' ''a'' ''/r'' ''b'') ''/r'' ''b'' ''/r'' ''a'' = dt1 \<and>
   rewriteCachedPaths dt1 ''/r'' ''a'' ''/r'' ''b'' \<noteq> dt1"
proof -
  have h: "\<forall>w \<in> set (wlCache dt1). \<not> at_or_below ''/r/b'' (w_path w) \<and> length (w_path w) < PATH_MAX \<and>
      (at_or_below ''/r/a'' (w_path w) \<longrightarrow> length ''/r/b'' + (length (w_path w) - length ''/r/a'') < PATH_MAX)"
    by (simp add: dt1_eval below_a below_b PATH_MAX_def)
  have l: "length ''/r/a'' < PATH_MAX" "length ''/r/b'' < PATH_MAX" by (simp_all add: PATH_MAX_def)
  have "rewriteCachedPaths dt1 ''/r'' ''a'' ''/r'' ''b'' \<noteq> dt1"
    by (simp add: rewrite_renamed dt1_eval renamed_def snprintf_def PATH_MAX_def below_a)
  then show ?thesis using rename_round_trip [OF _ _ l h, of "''/r''" "''a''" "''/r''" "''b''"] by simp
qed

definition ev_a :: inotify_event where
  "ev_a = \<lparr>ev_wd = 1, ev_mask = IN_MOVED_FROM OR IN_ISDIR, ev_cookie = 7, ev_len = 16, ev_name = ''a''\<rparr>"

definition ev_b :: inotify_event where
  "ev_b = \<lparr>ev_wd = 1, ev_mask = IN_MOVED_TO OR IN_ISDIR, ev_cookie = 7, ev_len = 16, ev_name = ''b''\<rparr>"

lemma ev_ab: "moved_from ev_a" "moved_to ev_b" "ev_cookie ev_b = ev_cookie ev_a" "ev_wd ev_a \<noteq> -1"
  "findWatchChecked dt1 (ev_wd ev_a) = Inr (int 0)" "findWatchChecked dt1 (ev_wd ev_b) = Inr (int 0)" "\<not> checkCache dt1" "\<not> dumpCache dt1"
  "ev_size ev_a + ev_size ev_b \<le> INOTIFY_READ_BUF_LEN" "ev_size ev_a \<le> INOTIFY_READ_BUF_LEN"
  by (simp_all add: ev_a_def ev_b_def moved_from_def moved_to_def dt1_eval ev_size_def EV_SIZE_def INOTIFY_READ_BUF_LEN_def NAME_MAX_def)

theorem rename_pair_across_reads_witness:
  "\<exists>s1 s2. processInotifyEvents fs1 dt1 (Rd_events [ev_a, ev_b]) [] = Inr s1 \<and>
     processInotifyEvents fs1 dt1 (Rd_events [ev_a]) [Rd_events [ev_b]] = Inr s2 \<and>
     wlCache s1 = wlCache s2 \<and> w_path (wlCache s1 ! 2) = ''/r/b/x''"
  using rename_pair_across_reads [OF ev_ab(1-9), of fs1 "[]"]
  by (simp add: rewrite_renamed renamed_def dt1_eval ev_a_def ev_b_def snprintf_def PATH_MAX_def below_a)

theorem lone_move_drops_subtree_witness:
  "\<exists>s'. processInotifyEvents fs1 dt1 (Rd_events [ev_a]) [Rd_intr] = Inr s' \<and>
     pathnameInCache s' ''/r/ab'' \<and> \<not> pathnameInCache s' ''/r/a/x''"
proof -
  have p: "''/r/a'' = slot_path dt1 0 @ ''/'' @ ev_name ev_a" by (simp add: dt1_eval ev_a_def)
  have l: "length ''/r/a'' < PATH_MAX" by (simp add: PATH_MAX_def)
  have "pathnameInCache dt1 ''/r/ab''" by (simp add: in_cache dt1_eval)
  then show ?thesis
    using lone_move_drops_subtree [OF ev_ab(1,4,5,7,8) p l ev_ab(10) dt1_inv dt1_live, of fs1 "[]"] below_a by blast
qed

theorem consistency_check_misses_files_witness:
  "fs_stat fs1 ''/f'' = Some (1, 20, False) \<and>
   checkCacheConsistency fs1 (dtree_init\<lparr>wlCache := [\<lparr>w_wd = 1, w_path = ''/f''\<rparr>]\<rparr>) = Inr 0"
  using consistency_check_misses_files [of "dtree_init\<lparr>wlCache := [\<lparr>w_wd = 1, w_path = ''/f''\<rparr>]\<rparr>" fs1] by simp

theorem root_arguments_accepted_witness:
  "(\<exists>s'. copyRootDirPaths fs1 dtree_init [''/r'', ''/r/a''] = Inr s') \<and> \<not> (\<exists>s'. copyRootDirPaths fs1 dtree_init [''/r'', ''/f''] = Inr s')"
  using root_arguments_accepted [of fs1 dtree_init "[''/r'', ''/r/a'']"] root_arguments_accepted [of fs1 dtree_init "[''/r'', ''/f'']"]
  by (simp add: obj_of_def)

end
