(* ===== verification/Stream_IO.thy ===== *)
theory Stream_IO
  imports Prelude Errno
begin

text \<open>
  Reading and writing exactly \<open>n\<close> bytes, and reading lines, over descriptors that give and
  take what they like: \<open>readn\<close> and \<open>writen\<close> of \<open>apue2e/lib\<close>, the versions of
  \<open>tlpi-dist/sockets/rdwrn.c\<close> that restart after signals, the timed reads of
  \<open>apue2e/ipp/util.c\<close>, and the two line readers of \<open>tlpi-dist/sockets\<close>.  What a loop may
  expect of a single call is a locale, and every kind of descriptor interprets it.
\<close>

section \<open>Descriptors\<close>

text \<open>
  What the coming calls find on a descriptor for input: bytes that are there, a read that
  fails, a time without data, a \<open>select\<close> that fails.  The empty list is the end of file.
\<close>

datatype chunk = Bytes bytes | Fail int | Quiet | Sel_fail int

type_synonym stream = "chunk list"

fun sys_read :: "stream \<Rightarrow> nat \<Rightarrow> (int + bytes) \<times> stream" where
  "sys_read [] n = (Inr [], [])"
| "sys_read (Bytes b # cs) n = (if length b \<le> n then (Inr b, cs) else (Inr (take n b), Bytes (drop n b) # cs))"
| "sys_read (Fail e # cs) n = (Inl e, cs)"
| "sys_read (Quiet # cs) n = sys_read cs n"
| "sys_read (Sel_fail e # cs) n = sys_read cs n"

text \<open>What \<open>write\<close> will do with the coming calls: take up to so many bytes, or fail.\<close>

datatype accept = Takes nat | Refuses int

record sink =
  sent :: bytes
  script :: "accept list"

definition sys_write :: "sink \<Rightarrow> bytes \<Rightarrow> (int + nat) \<times> sink" where
  "sys_write k bs = (case script k of
     [] \<Rightarrow> (Inr (length bs), k\<lparr>sent := sent k @ bs\<rparr>)
   | a # as \<Rightarrow> (case a of
       Takes m \<Rightarrow> (Inr (min m (length bs)), k\<lparr>sent := sent k @ take m bs, script := as\<rparr>)
     | Refuses e \<Rightarrow> (Inl e, k\<lparr>script := as\<rparr>)))"

section \<open>Reading and writing n bytes\<close>

text \<open>
  The loop of \<open>readn\<close>: \<open>nleft\<close> bytes of \<open>n\<close> are missing, \<open>got\<close> are in the buffer.  An error
  counts only when nothing has been read.
\<close>

primrec readn_loop :: "nat \<Rightarrow> ('s \<Rightarrow> nat \<Rightarrow> (int + bytes) \<times> 's) \<Rightarrow> nat \<Rightarrow> nat \<Rightarrow> bytes \<Rightarrow> 's \<Rightarrow> ((int \<times> bytes) \<times> 's) res" where
  "readn_loop 0 rd n nleft got s = Inl Loops"
| "readn_loop (Suc fuel) rd n nleft got s =
     (if nleft = 0 then Inr ((int (n - nleft), got), s)
      else case rd s nleft of
        (Inl e, s) \<Rightarrow> if nleft = n then Inr ((-1, got), s) else Inr ((int (n - nleft), got), s)
      | (Inr b, s) \<Rightarrow> if b = [] then Inr ((int (n - nleft), got), s)
          else readn_loop fuel rd n (nleft - length b) (got @ b) s)"

definition readn :: "stream \<Rightarrow> nat \<Rightarrow> ((int \<times> bytes) \<times> stream) res" where
  "readn s n = readn_loop (n + 1) sys_read n n [] s"

primrec writen_loop :: "nat \<Rightarrow> ('s \<Rightarrow> bytes \<Rightarrow> (int + nat) \<times> 's) \<Rightarrow> nat \<Rightarrow> bytes \<Rightarrow> 's \<Rightarrow> (int \<times> 's) res" where
  "writen_loop 0 wr n ptr s = Inl Loops"
| "writen_loop (Suc fuel) wr n ptr s =
     (if ptr = [] then Inr (int (n - length ptr), s)
      else case wr s ptr of
        (Inl e, s) \<Rightarrow> if length ptr = n then Inr (-1, s) else Inr (int (n - length ptr), s)
      | (Inr k, s) \<Rightarrow> if k = 0 then Inr (int (n - length ptr), s) else writen_loop fuel wr n (drop k ptr) s)"

definition writen :: "sink \<Rightarrow> bytes \<Rightarrow> (int \<times> sink) res" where
  "writen s bs = writen_loop (length bs + 1) sys_write (length bs) bs s"

text \<open>A read that gives up after a time, and \<open>n\<close> bytes of such reads.\<close>

fun tread :: "stream \<Rightarrow> nat \<Rightarrow> (int + bytes) \<times> stream" where
  "tread (Quiet # cs) n = (Inl ETIME, cs)"
| "tread (Sel_fail e # cs) n = (Inl e, cs)"
| "tread cs n = sys_read cs n"

definition treadn :: "stream \<Rightarrow> nat \<Rightarrow> ((int \<times> bytes) \<times> stream) res" where
  "treadn s n = readn_loop (n + 1) tread n n [] s"

text \<open>The versions that restart after a signal; every other error is reported.\<close>

primrec readn_tlpi :: "nat \<Rightarrow> ('s \<Rightarrow> nat \<Rightarrow> (int + bytes) \<times> 's) \<Rightarrow> nat \<Rightarrow> bytes \<Rightarrow> 's \<Rightarrow> ((int \<times> bytes) \<times> 's) res" where
  "readn_tlpi 0 rd n buf s = Inl Loops"
| "readn_tlpi (Suc fuel) rd n buf s =
     (if \<not> length buf < n then Inr ((int (length buf), buf), s)
      else case rd s (n - length buf) of
        (Inl e, s) \<Rightarrow> if e = EINTR then readn_tlpi fuel rd n buf s else Inr ((-1, buf), s)
      | (Inr b, s) \<Rightarrow> if b = [] then Inr ((int (length buf), buf), s) else readn_tlpi fuel rd n (buf @ b) s)"

primrec writen_tlpi :: "nat \<Rightarrow> ('s \<Rightarrow> bytes \<Rightarrow> (int + nat) \<times> 's) \<Rightarrow> nat \<Rightarrow> bytes \<Rightarrow> 's \<Rightarrow> (int \<times> 's) res" where
  "writen_tlpi 0 wr tot buf s = Inl Loops"
| "writen_tlpi (Suc fuel) wr tot buf s =
     (if buf = [] then Inr (int tot, s)
      else case wr s buf of
        (Inl e, s) \<Rightarrow> if e = EINTR then writen_tlpi fuel wr tot buf s else Inr (-1, s)
      | (Inr k, s) \<Rightarrow> if k = 0 then Inr (-1, s) else writen_tlpi fuel wr (tot + k) (drop k buf) s)"

section \<open>Lines\<close>

text \<open>
  \<open>readLine\<close> reads byte by byte; what does not fit \<open>n\<close> bytes with the null byte is dropped.
\<close>

primrec readLine_loop :: "nat \<Rightarrow> stream \<Rightarrow> nat \<Rightarrow> bytes \<Rightarrow> ((int \<times> bytes) \<times> stream) res" where
  "readLine_loop 0 s n buf = Inl Loops"
| "readLine_loop (Suc fuel) s n buf = (case sys_read s 1 of
     (Inl e, s) \<Rightarrow> if e = EINTR then readLine_loop fuel s n buf else Inr ((-1, buf), s)
   | (Inr b, s) \<Rightarrow>
       if b = [] then (if buf = [] then Inr ((0, buf), s) else Inr ((int (length buf), buf @ [NUL]), s))
       else let buf = (if length buf < n - 1 then buf @ [hd b] else buf) in
         if hd b = NL then Inr ((int (length buf), buf @ [NUL]), s) else readLine_loop fuel s n buf)"

text \<open>The bytes and the failures a descriptor still has; a loop over it makes at most one turn for each.\<close>

primrec weight :: "chunk \<Rightarrow> nat" where
  "weight (Bytes b) = Suc (length b)"
| "weight (Fail e) = 1"
| "weight Quiet = 1"
| "weight (Sel_fail e) = 1"

definition stream_weight :: "stream \<Rightarrow> nat" where
  "stream_weight s = sum_list (map weight s)"

definition readLine :: "stream \<Rightarrow> nat \<Rightarrow> ((int \<times> bytes) \<times> stream) res" where
  "readLine s n = (if n = 0 then Inr ((-1, []), s) else readLine_loop (Suc (stream_weight s)) s n [])"

definition RL_MAX_BUF :: nat where "RL_MAX_BUF = 10"

text \<open>\<open>rl_len\<close> is the number of bytes in the buffer, or -1 after an error.\<close>

record ReadLineBuf =
  rl_fd :: stream
  rl_buf :: bytes
  rl_next :: int
  rl_len :: int

definition readLineBufInit :: "stream \<Rightarrow> ReadLineBuf \<Rightarrow> ReadLineBuf" where
  "readLineBufInit fd rl = rl\<lparr>rl_fd := fd, rl_len := 0, rl_next := 0\<rparr>"

text \<open>More input when the buffer is used up: nothing to do, an error, the end, or a new buffer.\<close>

datatype fill = Have ReadLineBuf | Fill_error ReadLineBuf | Fill_eof ReadLineBuf

definition rl_fill :: "ReadLineBuf \<Rightarrow> fill" where
  "rl_fill rl = (if rl_next rl \<ge> rl_len rl
     then (case sys_read (rl_fd rl) RL_MAX_BUF of
         (Inl e, s) \<Rightarrow> Fill_error (rl\<lparr>rl_fd := s, rl_len := -1\<rparr>)
       | (Inr b, s) \<Rightarrow>
           if b = [] then Fill_eof (rl\<lparr>rl_fd := s, rl_len := 0\<rparr>)
           else Have (rl\<lparr>rl_fd := s, rl_len := int (length b), rl_buf := b @ drop (length b) (rl_buf rl), rl_next := 0\<rparr>))
     else Have rl)"

primrec readLineBuf_loop :: "nat \<Rightarrow> ReadLineBuf \<Rightarrow> nat \<Rightarrow> bytes \<Rightarrow> ((int \<times> bytes) \<times> ReadLineBuf) res" where
  "readLineBuf_loop 0 rl n buffer = Inl Loops"
| "readLineBuf_loop (Suc fuel) rl n buffer = (case rl_fill rl of
     Fill_error rl \<Rightarrow> Inr ((-1, buffer), rl)
   | Fill_eof rl \<Rightarrow> Inr ((int (length buffer), buffer), rl)
   | Have rl \<Rightarrow>
       let c = rl_buf rl ! nat (rl_next rl); rl = rl\<lparr>rl_next := rl_next rl + 1\<rparr>;
           buffer = (if length buffer < n then buffer @ [c] else buffer) in
       if c = NL then Inr ((int (length buffer), buffer), rl) else readLineBuf_loop fuel rl n buffer)"

definition readLineBuf :: "ReadLineBuf \<Rightarrow> nat \<Rightarrow> ((int \<times> bytes) \<times> ReadLineBuf) res" where
  "readLineBuf rl n = (if n = 0 then Inr ((-1, []), rl)
     else readLineBuf_loop (Suc (nat (rl_len rl - rl_next rl) + stream_weight (rl_fd rl))) rl n [])"

section \<open>What a loop may expect of one call\<close>

text \<open>
  \<open>pend s\<close> are the bytes that come before the end of file or an error.  An error that is
  retried is no obstacle, but it uses something up.
\<close>

locale reader =
  fixes rd :: "'s \<Rightarrow> nat \<Rightarrow> (int + bytes) \<times> 's" and pend :: "'s \<Rightarrow> bytes" and retry :: "int \<Rightarrow> bool" and weigh :: "'s \<Rightarrow> nat"
  assumes rd_data: "0 < n \<Longrightarrow> rd s n = (Inr b, s') \<Longrightarrow> b \<noteq> [] \<Longrightarrow> length b \<le> n \<and> pend s = b @ pend s' \<and> weigh s' < weigh s"
    and rd_eof: "0 < n \<Longrightarrow> rd s n = (Inr [], s') \<Longrightarrow> pend s = []"
    and rd_error: "0 < n \<Longrightarrow> rd s n = (Inl e, s') \<Longrightarrow> \<not> retry e \<Longrightarrow> pend s = []"
    and rd_retry: "0 < n \<Longrightarrow> rd s n = (Inl e, s') \<Longrightarrow> retry e \<Longrightarrow> pend s = pend s' \<and> weigh s' < weigh s"
begin

lemma readn_tlpi_spec:
  assumes "retry = (\<lambda>e. e = EINTR)" "weigh s < fuel" "length buf \<le> n"
  shows "\<exists>r s'. readn_tlpi fuel rd n buf s = Inr ((r, buf @ take (n - length buf) (pend s)), s') \<and>
    (r = int (length buf + min (n - length buf) (length (pend s))) \<or> r = -1 \<and> length buf + length (pend s) < n)"
  using assms(2,3)
proof (induction fuel arbitrary: buf s)
  case 0
  then show ?case by simp
next
  case (Suc fuel)
  show ?case
  proof (cases "length buf < n")
    case False
    then show ?thesis by simp
  next
    case True
    obtain x s1 where x: "rd s (n - length buf) = (x, s1)" by (cases "rd s (n - length buf)")
    have n: "0 < n - length buf" using True by simp
    show ?thesis
    proof (cases x)
      case (Inl e)
      show ?thesis
      proof (cases "e = EINTR")
        case True
        have r: "pend s = pend s1" "weigh s1 < weigh s" using rd_retry [OF n] x Inl True assms(1) by auto
        then show ?thesis using Suc.IH [of s1 buf] Suc.prems \<open>length buf < n\<close> x Inl True by simp
      next
        case False
        have "pend s = []" using rd_error [OF n] x Inl False assms(1) by auto
        then show ?thesis using x Inl False True by simp
      qed
    next
      case (Inr b)
      show ?thesis
      proof (cases "b = []")
        case True
        have "pend s = []" using rd_eof [OF n] x Inr True by auto
        then show ?thesis using x Inr True \<open>length buf < n\<close> by simp
      next
        case False
        have d: "length b \<le> n - length buf" "pend s = b @ pend s1" "weigh s1 < weigh s" using rd_data [OF n] x Inr False by auto
        have p: "weigh s1 < fuel" "length (buf @ b) \<le> n" using Suc.prems d True by simp_all
        obtain r s' where r: "readn_tlpi fuel rd n (buf @ b) s1 = Inr ((r, (buf @ b) @ take (n - length (buf @ b)) (pend s1)), s')"
          "r = int (length (buf @ b) + min (n - length (buf @ b)) (length (pend s1))) \<or> r = -1 \<and> length (buf @ b) + length (pend s1) < n"
          using Suc.IH [OF p] by blast
        have t: "take (n - length buf) (pend s) = b @ take (n - length (buf @ b)) (pend s1)" using d(1,2) by simp
        have c: "length (buf @ b) + min (n - length (buf @ b)) (length (pend s1)) = length buf + min (n - length buf) (length (pend s))"
          using d(1,2) p(2) by (auto simp: min_def)
        have l: "length (buf @ b) + length (pend s1) = length buf + length (pend s)" using d(2) by simp
        show ?thesis
          using r x Inr False True unfolding t c l by (auto simp: append_assoc)
      qed
    qed
  qed
qed

lemma readn_spec:
  assumes "retry = (\<lambda>e. False)" "nleft < fuel" "nleft \<le> n"
  shows "\<exists>r s'. readn_loop fuel rd n nleft got s = Inr ((r, got @ take nleft (pend s)), s') \<and>
    (r = int (n - nleft + min nleft (length (pend s))) \<or> r = -1 \<and> nleft = n \<and> pend s = [] \<and> 0 < n)"
  using assms(2,3)
proof (induction fuel arbitrary: nleft got s)
  case 0
  then show ?case by simp
next
  case (Suc fuel)
  show ?case
  proof (cases "nleft = 0")
    case True
    then show ?thesis by simp
  next
    case False
    obtain x s1 where x: "rd s nleft = (x, s1)" by (cases "rd s nleft")
    have n: "0 < nleft" using False by simp
    show ?thesis
    proof (cases x)
      case (Inl e)
      have "pend s = []" using rd_error [OF n] x Inl assms(1) by auto
      then show ?thesis using x Inl False by auto
    next
      case (Inr b)
      show ?thesis
      proof (cases "b = []")
        case True
        have "pend s = []" using rd_eof [OF n] x Inr True by auto
        then show ?thesis using x Inr True False by simp
      next
        case nb: False
        have d: "length b \<le> nleft" "pend s = b @ pend s1" using rd_data [OF n] x Inr nb by auto
        have lb: "0 < length b" using nb by simp
        have p: "nleft - length b < fuel" "nleft - length b \<le> n" using Suc.prems d lb by linarith+
        obtain r s' where r: "readn_loop fuel rd n (nleft - length b) (got @ b) s1 = Inr ((r, (got @ b) @ take (nleft - length b) (pend s1)), s')"
          "r = int (n - (nleft - length b) + min (nleft - length b) (length (pend s1))) \<or> r = -1 \<and> nleft - length b = n \<and> pend s1 = [] \<and> 0 < n"
          using Suc.IH [OF p] by blast
        have "nleft - length b \<noteq> n" using Suc.prems lb d n by linarith
        then have "r = int (n - (nleft - length b) + min (nleft - length b) (length (pend s1)))" using r(2) by simp
        moreover have "n - (nleft - length b) + min (nleft - length b) (length (pend s1)) = n - nleft + min nleft (length (pend s))"
          using d Suc.prems by auto
        moreover have "take nleft (pend s) = b @ take (nleft - length b) (pend s1)" using d by simp
        ultimately show ?thesis using r(1) x Inr nb False by simp
      qed
    qed
  qed
qed

text \<open>When all \<open>n\<close> bytes came, the rest is still to be read.\<close>

lemma readn_rest:
  assumes "readn_loop fuel rd n nleft got s = Inr ((int n, got'), s')" "nleft \<le> n"
  shows "got' = got @ take nleft (pend s) \<and> nleft \<le> length (pend s) \<and> pend s' = drop nleft (pend s)"
  using assms
proof (induction fuel arbitrary: nleft got s)
  case 0
  then show ?case by simp
next
  case (Suc fuel)
  show ?case
  proof (cases "nleft = 0")
    case True
    then show ?thesis using Suc.prems by simp
  next
    case False
    then have n: "0 < nleft" and ne: "int (n - nleft) \<noteq> int n" using Suc.prems(2) by auto
    obtain x s1 where x: "rd s nleft = (x, s1)" by (cases "rd s nleft")
    then obtain b where b: "x = Inr b" "b \<noteq> []" using Suc.prems(1) False ne by (cases x) (auto split: if_splits)
    then have d: "length b \<le> nleft" "pend s = b @ pend s1" using rd_data [OF n] x by auto
    have "readn_loop fuel rd n (nleft - length b) (got @ b) s1 = Inr ((int n, got'), s')"
      using Suc.prems(1) False x b by simp
    from Suc.IH [OF this] show ?thesis using Suc.prems(2) d by (simp add: le_diff_conv le_diff_conv2 add.commute)
  qed
qed

end

text \<open>The bytes that come before an obstacle: for a plain read, a timed read, and a read that is restarted.\<close>

fun pending :: "stream \<Rightarrow> bytes" where
  "pending [] = []"
| "pending (Bytes b # cs) = (if b = [] then [] else b @ pending cs)"
| "pending (Fail e # cs) = []"
| "pending (Quiet # cs) = pending cs"
| "pending (Sel_fail e # cs) = pending cs"

fun pending_timed :: "stream \<Rightarrow> bytes" where
  "pending_timed [] = []"
| "pending_timed (Bytes b # cs) = (if b = [] then [] else b @ pending_timed cs)"
| "pending_timed (Fail e # cs) = []"
| "pending_timed (Quiet # cs) = []"
| "pending_timed (Sel_fail e # cs) = []"

fun pending_restart :: "stream \<Rightarrow> bytes" where
  "pending_restart [] = []"
| "pending_restart (Bytes b # cs) = (if b = [] then [] else b @ pending_restart cs)"
| "pending_restart (Fail e # cs) = (if e = EINTR then pending_restart cs else [])"
| "pending_restart (Quiet # cs) = pending_restart cs"
| "pending_restart (Sel_fail e # cs) = pending_restart cs"

lemma weight_simps [simp]: "stream_weight [] = 0" "stream_weight (c # cs) = weight c + stream_weight cs"
  by (simp_all add: stream_weight_def)

lemma sys_read_cases:
  assumes "sys_read s n = (x, s')" "0 < n"
  shows "case x of
     Inl e \<Rightarrow> stream_weight s' < stream_weight s \<and> pending s = [] \<and> (if e = EINTR then pending_restart s = pending_restart s' else pending_restart s = [])
   | Inr b \<Rightarrow> if b = [] then pending s = [] \<and> pending_restart s = []
       else length b \<le> n \<and> stream_weight s' < stream_weight s \<and> pending s = b @ pending s' \<and> pending_restart s = b @ pending_restart s'"
  using assms
proof (induction s n arbitrary: x s' rule: sys_read.induct)
  case (2 b cs n)
  have "b = take n b @ drop n b" by simp
  show ?case
  proof (cases "length b \<le> n")
    case True
    then show ?thesis using 2 by (auto split: if_splits)
  next
    case False
    then have "drop n b \<noteq> []" "take n b \<noteq> []" using 2 by auto
    then show ?thesis using 2 False by (auto simp: min_def)
  qed
qed (auto split: sum.splits if_splits)

lemma sys_read_data:
  assumes "sys_read s n = (Inr b, s')" "0 < n" "b \<noteq> []"
  shows "length b \<le> n \<and> pending s = b @ pending s' \<and> pending_restart s = b @ pending_restart s' \<and> stream_weight s' < stream_weight s"
  using sys_read_cases [OF assms(1,2)] assms(3) by auto

interpretation rds: reader sys_read pending "\<lambda>e. False" stream_weight
  by unfold_locales (auto dest: sys_read_cases sys_read_data)

interpretation rdi: reader sys_read pending_restart "\<lambda>e. e = EINTR" stream_weight
  by unfold_locales (auto dest: sys_read_cases sys_read_data)

lemma tread_cases:
  assumes "tread s n = (x, s')" "0 < n"
  shows "case x of Inl e \<Rightarrow> pending_timed s = []
   | Inr b \<Rightarrow> if b = [] then pending_timed s = []
       else length b \<le> n \<and> stream_weight s' < stream_weight s \<and> pending_timed s = b @ pending_timed s'"
proof (cases s)
  case (Cons c cs)
  show ?thesis
  proof (cases c)
    case (Bytes b)
    show ?thesis
    proof (cases "length b \<le> n")
      case True
      then show ?thesis using assms Cons Bytes by (auto split: if_splits)
    next
      case False
      then have "drop n b \<noteq> []" "take n b \<noteq> []" using assms by auto
      then show ?thesis using assms Cons Bytes False by auto
    qed
  qed (use assms Cons in auto)
qed (use assms in auto)

interpretation rdt: reader tread pending_timed "\<lambda>e. False" stream_weight
  by unfold_locales (auto dest: tread_cases)

text \<open>\<open>out s\<close> are the bytes that went out; \<open>left s\<close> bounds the interruptions to come.\<close>

locale writer =
  fixes wr :: "'s \<Rightarrow> bytes \<Rightarrow> (int + nat) \<times> 's" and out :: "'s \<Rightarrow> bytes" and left :: "'s \<Rightarrow> nat"
  assumes wr_some: "wr s bs = (Inr k, s') \<Longrightarrow> k \<le> length bs \<and> out s' = out s @ take k bs \<and> left s' \<le> left s"
    and wr_error: "wr s bs = (Inl e, s') \<Longrightarrow> out s' = out s \<and> left s' < left s"
begin

text \<open>What comes back is how much went out; -1 means nothing did.\<close>

lemma writen_spec:
  assumes "length ptr < fuel" "length ptr \<le> n"
  shows "\<exists>r k s'. writen_loop fuel wr n ptr s = Inr (r, s') \<and> k \<le> length ptr \<and> out s' = out s @ take k ptr \<and>
    (r = int (n - length ptr + k) \<or> r = -1 \<and> k = 0 \<and> length ptr = n)"
  using assms
proof (induction fuel arbitrary: ptr s)
  case 0
  then show ?case by simp
next
  case (Suc fuel)
  show ?case
  proof (cases "ptr = []")
    case True
    then show ?thesis by simp
  next
    case False
    obtain x s1 where x: "wr s ptr = (x, s1)" by (cases "wr s ptr")
    show ?thesis
    proof (cases x)
      case (Inl e)
      then have "out s1 = out s" using wr_error x by blast
      then show ?thesis using x Inl False by auto
    next
      case (Inr k)
      then have k: "k \<le> length ptr" "out s1 = out s @ take k ptr" using wr_some x by blast+
      show ?thesis
      proof (cases "k = 0")
        case True
        then show ?thesis using x Inr False k by auto
      next
        case nk: False
        have p: "length (drop k ptr) < fuel" "length (drop k ptr) \<le> n" using Suc.prems nk k False by simp_all
        obtain r j s' where r: "writen_loop fuel wr n (drop k ptr) s1 = Inr (r, s')" "j \<le> length (drop k ptr)"
          "out s' = out s1 @ take j (drop k ptr)" "r = int (n - length (drop k ptr) + j) \<or> r = -1 \<and> j = 0 \<and> length (drop k ptr) = n"
          using Suc.IH [OF p] by blast
        have "length (drop k ptr) \<noteq> n" using Suc.prems nk k by simp
        then have "r = int (n - length ptr + (k + j))" using r(2,4) k(1) Suc.prems by auto
        moreover have "out s' = out s @ take (k + j) ptr" using r(3) k(2) by (simp add: take_add)
        moreover have "k + j \<le> length ptr" using r(2) k(1) by simp
        ultimately show ?thesis using r(1) x Inr nk False by auto
      qed
    qed
  qed
qed

text \<open>The version that restarts returns -1 unless everything went out.\<close>

lemma writen_tlpi_spec:
  assumes "length buf + left s < fuel"
  shows "\<exists>r k s'. writen_tlpi fuel wr tot buf s = Inr (r, s') \<and> k \<le> length buf \<and> out s' = out s @ take k buf \<and>
    (r = int (tot + length buf) \<and> k = length buf \<or> r = -1 \<and> k < length buf)"
  using assms
proof (induction fuel arbitrary: tot buf s)
  case 0
  then show ?case by simp
next
  case (Suc fuel)
  show ?case
  proof (cases "buf = []")
    case True
    then show ?thesis by simp
  next
    case False
    then have lb: "0 < length buf" by simp
    obtain x s1 where x: "wr s buf = (x, s1)" by (cases "wr s buf")
    show ?thesis
    proof (cases x)
      case (Inl e)
      then have e: "out s1 = out s" "left s1 < left s" using wr_error x by blast+
      show ?thesis
      proof (cases "e = EINTR")
        case True
        have p: "length buf + left s1 < fuel" using Suc.prems e by simp
        show ?thesis using Suc.IH [OF p, of tot] x Inl True False e(1) by simp
      next
        case ne: False
        then show ?thesis using x Inl False e(1) lb by (intro exI [of _ "-1"] exI [of _ 0] exI [of _ s1]) simp
      qed
    next
      case (Inr k)
      then have k: "k \<le> length buf" "out s1 = out s @ take k buf" "left s1 \<le> left s" using wr_some x by blast+
      show ?thesis
      proof (cases "k = 0")
        case True
        then show ?thesis using x Inr False k lb by (intro exI [of _ "-1"] exI [of _ 0] exI [of _ s1]) simp
      next
        case nk: False
        have p: "length (drop k buf) + left s1 < fuel" using Suc.prems nk k by simp
        obtain r j s' where r: "writen_tlpi fuel wr (tot + k) (drop k buf) s1 = Inr (r, s')" "j \<le> length (drop k buf)"
          "out s' = out s1 @ take j (drop k buf)"
          "r = int (tot + k + length (drop k buf)) \<and> j = length (drop k buf) \<or> r = -1 \<and> j < length (drop k buf)"
          using Suc.IH [OF p, of "tot + k"] by blast
        have "out s' = out s @ take (k + j) buf" using r(3) k(2) by (simp add: take_add)
        moreover have "k + j \<le> length buf" using r(2) k(1) by simp
        moreover have "r = int (tot + length buf) \<and> k + j = length buf \<or> r = -1 \<and> k + j < length buf" using r(4) k(1) by auto
        ultimately show ?thesis using r(1) x Inr nk False by (intro exI [of _ r] exI [of _ "k + j"] exI [of _ s']) simp
      qed
    qed
  qed
qed

end

interpretation wrs: writer sys_write sent "\<lambda>k. length (script k)"
  by unfold_locales (auto simp: sys_write_def min_def split: list.splits accept.splits if_splits)

lemma writen_total: "\<exists>r k. writen s bs = Inr (r, k)"
  using wrs.writen_spec [of bs "length bs + 1" "length bs" s] by (auto simp: writen_def)

end
