(* ===== verification/Stream_Correct.thy ===== *)
theory Stream_Correct
  imports Stream_IO
begin

text \<open>
  What the transfers promise: \<open>readn\<close>, \<open>writen\<close>, \<open>treadn\<close> and their restarting versions,
  and that the buffered line reader gives the lines the plain one gives.
\<close>

section \<open>Lines\<close>

text \<open>The first line of some input, with its newline if it has one.\<close>

definition line_of :: "bytes \<Rightarrow> bytes" where
  "line_of xs = takeWhile (\<lambda>c. c \<noteq> NL) xs @ (if NL \<in> set xs then [NL] else [])"

lemma line_of_simps [simp]: "line_of [] = []" "line_of (c # xs) = (if c = NL then [NL] else c # line_of xs)"
  by (auto simp: line_of_def)

definition after_line :: "bytes \<Rightarrow> bytes" where
  "after_line xs = drop (length (line_of xs)) xs"

lemma after_line_simps [simp]: "after_line [] = []" "after_line (c # xs) = (if c = NL then xs else after_line xs)"
  by (simp_all add: after_line_def)

text \<open>Input that comes without errors: reads may be interrupted, when they are restarted.\<close>

primrec fine :: "(int \<Rightarrow> bool) \<Rightarrow> chunk \<Rightarrow> bool" where
  "fine E (Bytes b) = (b \<noteq> [])"
| "fine E (Fail e) = E e"
| "fine E Quiet = True"
| "fine E (Sel_fail e) = True"

definition no_fail :: "stream \<Rightarrow> bool" where
  "no_fail s \<longleftrightarrow> list_all (fine (\<lambda>e. False)) s"

lemma sys_read_fine:
  assumes "sys_read s n = (x, s')" "0 < n" "list_all (fine E) s"
  shows "list_all (fine E) s' \<and> (case x of Inl e \<Rightarrow> E e | Inr b \<Rightarrow> b = [] \<longrightarrow> s' = [])"
  using assms
proof (induction s n arbitrary: x s' rule: sys_read.induct)
  case (2 b cs n)
  then show ?case by (cases "length b \<le> n") auto
qed auto

lemma no_fail_pending: "no_fail s \<Longrightarrow> pending_restart s = pending s"
  unfolding no_fail_def by (induction s rule: pending.induct) auto

text \<open>What is in the buffer when \<open>buf\<close> was there before the line of \<open>xs\<close>, with room for \<open>m\<close> bytes.\<close>

definition kept :: "nat \<Rightarrow> bytes \<Rightarrow> bytes \<Rightarrow> bytes" where
  "kept m buf xs = buf @ take (m - length buf) (line_of xs)"

lemma kept_Nil [simp]: "kept m buf [] = buf"
  by (simp add: kept_def)

lemma kept_Cons:
  assumes "length buf \<le> m"
  shows "c \<noteq> NL \<Longrightarrow> kept m buf (c # xs) = kept m (if length buf < m then buf @ [c] else buf) xs"
    "kept m buf (NL # xs) = (if length buf < m then buf @ [NL] else buf)"
  using assms by (auto simp: kept_def take_Cons')

lemma readLine_loop_spec:
  assumes "list_all (fine E) s" "stream_weight s < fuel" "length buf \<le> n - 1" "1 < n" "\<And>e. E e \<Longrightarrow> e = EINTR"
  shows "\<exists>s'. readLine_loop fuel s n buf = Inr ((int (length (kept (n - 1) buf (pending_restart s))),
      (if buf @ pending_restart s = [] then [] else kept (n - 1) buf (pending_restart s) @ [NUL])), s') \<and>
    pending_restart s' = after_line (pending_restart s) \<and> list_all (fine E) s'"
  using assms(1-3)
proof (induction fuel arbitrary: s buf)
  case 0
  then show ?case by simp
next
  case (Suc fuel)
  obtain x s1 where x: "sys_read s 1 = (x, s1)" by (cases "sys_read s 1")
  have c: "list_all (fine E) s1 \<and> (case x of Inl e \<Rightarrow> E e | Inr b \<Rightarrow> b = [] \<longrightarrow> s1 = [])"
    using sys_read_fine [OF x] Suc.prems(1) by simp
  note sc = sys_read_cases [OF x]
  show ?case
  proof (cases x)
    case (Inl e)
    then have e: "e = EINTR" "list_all (fine E) s1" "pending_restart s = pending_restart s1" "stream_weight s1 < fuel"
      using c sc Suc.prems(2) assms(5) by auto
    have "readLine_loop (Suc fuel) s n buf = readLine_loop fuel s1 n buf" using x Inl e(1) by simp
    then show ?thesis using Suc.IH [OF e(2,4) Suc.prems(3)] unfolding e(3) by metis
  next
    case (Inr b)
    show ?thesis
    proof (cases "b = []")
      case True
      then have "pending_restart s = []" using sc Inr by simp
      moreover have "pending_restart s1 = []" using c Inr True by simp
      ultimately show ?thesis using x Inr True c by auto
    next
      case False
      then have d: "length b \<le> 1" "stream_weight s1 < stream_weight s" "pending_restart s = b @ pending_restart s1" "list_all (fine E) s1"
        using c sc Inr by auto
      then obtain ch where b: "b = [ch]" using False by (cases b) auto
      let ?buf = "if length buf < n - 1 then buf @ [ch] else buf"
      have ne: "?buf \<noteq> []" "buf @ pending_restart s \<noteq> []" using assms(4) d(3) b by auto
      have k: "ch \<noteq> NL \<Longrightarrow> kept (n - 1) buf (pending_restart s) = kept (n - 1) ?buf (pending_restart s1)"
        "ch = NL \<Longrightarrow> kept (n - 1) buf (pending_restart s) = ?buf"
        using kept_Cons [OF Suc.prems(3)] d(3) b by simp_all
      show ?thesis
      proof (cases "ch = NL")
        case True
        have "readLine_loop (Suc fuel) s n buf = Inr ((int (length ?buf), ?buf @ [NUL]), s1)" using x Inr b True by (simp add: Let_def)
        then show ?thesis using k(2) [OF True] ne d(3,4) b True by simp
      next
        case nl: False
        have p: "stream_weight s1 < fuel" "length ?buf \<le> n - 1" using Suc.prems d(2) by auto
        have eq: "readLine_loop (Suc fuel) s n buf = readLine_loop fuel s1 n ?buf" using x Inr b nl by (simp add: Let_def)
        have al: "after_line (pending_restart s) = after_line (pending_restart s1)" using d(3) b nl by simp
        have ne3: "?buf @ pending_restart s1 \<noteq> []" using ne(1) by simp
        show ?thesis unfolding eq k(1) [OF nl] al if_not_P [OF ne(2)]
          by (rule Suc.IH [OF d(4) p, unfolded if_not_P [OF ne3]])
      qed
    qed
  qed
qed

section \<open>The buffered reader\<close>

definition rl_ok :: "ReadLineBuf \<Rightarrow> bool" where
  "rl_ok rl \<longleftrightarrow> 0 \<le> rl_next rl \<and> rl_len rl \<le> int (length (rl_buf rl)) \<and> no_fail (rl_fd rl)"

definition rl_content :: "ReadLineBuf \<Rightarrow> bytes" where
  "rl_content rl = drop (nat (rl_next rl)) (take (nat (rl_len rl)) (rl_buf rl)) @ pending (rl_fd rl)"

definition rl_weight :: "ReadLineBuf \<Rightarrow> nat" where
  "rl_weight rl = nat (rl_len rl - rl_next rl) + stream_weight (rl_fd rl)"

lemma sys_read_weight_bytes:
  "sys_read s n = (Inr b, s') \<Longrightarrow> b \<noteq> [] \<Longrightarrow> length b + stream_weight s' \<le> stream_weight s"
  by (induction s n arbitrary: b s' rule: sys_read.induct) (auto split: if_splits)

lemma rl_fill_cases:
  assumes "rl_ok rl"
  shows "(\<exists>rl'. rl_fill rl = Fill_eof rl' \<and> rl_content rl = [] \<and> rl_content rl' = [] \<and> rl_ok rl') \<or>
    (\<exists>rl'. rl_fill rl = Have rl' \<and> rl_content rl' = rl_content rl \<and> rl_ok rl' \<and> rl_next rl' < rl_len rl' \<and> rl_weight rl' \<le> rl_weight rl)"
proof (cases "rl_next rl \<ge> rl_len rl")
  case False
  then show ?thesis using assms by (simp add: rl_fill_def)
next
  case True
  obtain x s1 where x: "sys_read (rl_fd rl) RL_MAX_BUF = (x, s1)" by (cases "sys_read (rl_fd rl) RL_MAX_BUF")
  have m: "0 < RL_MAX_BUF" by (simp add: RL_MAX_BUF_def)
  have nf: "no_fail (rl_fd rl)" using assms by (simp add: rl_ok_def)
  have f: "no_fail s1" "case x of Inl e \<Rightarrow> False | Inr b \<Rightarrow> b = [] \<longrightarrow> s1 = []"
    using sys_read_fine [OF x m, of "\<lambda>e. False"] nf by (simp_all add: no_fail_def)
  then obtain b where b: "x = Inr b" "no_fail s1" "b = [] \<Longrightarrow> s1 = []" by (cases x) auto
  have e: "drop (nat (rl_next rl)) (take (nat (rl_len rl)) (rl_buf rl)) = []" using True by simp
  show ?thesis
  proof (cases "b = []")
    case nb: True
    have "pending (rl_fd rl) = []" using sys_read_cases [OF x m] b nb by simp
    moreover have "pending s1 = []" using b(3) [OF nb] by simp
    ultimately show ?thesis using True x b nb e assms by (auto simp: rl_fill_def rl_content_def rl_ok_def)
  next
    case nb: False
    have d: "pending (rl_fd rl) = b @ pending s1" using sys_read_data x b(1) nb m by blast
    let ?rl = "rl\<lparr>rl_fd := s1, rl_len := int (length b), rl_buf := b @ drop (length b) (rl_buf rl), rl_next := 0\<rparr>"
    have "rl_fill rl = Have ?rl" using True x b nb by (simp add: rl_fill_def)
    moreover have "rl_content ?rl = rl_content rl" using d e by (simp add: rl_content_def)
    moreover have "rl_ok ?rl" using b(2) by (simp add: rl_ok_def)
    moreover have "rl_weight ?rl \<le> rl_weight rl" using sys_read_weight_bytes [of "rl_fd rl" RL_MAX_BUF b s1] x b(1) nb by (simp add: rl_weight_def)
    ultimately show ?thesis using nb by auto
  qed
qed

lemma rl_content_Cons:
  assumes "rl_ok rl" "rl_next rl < rl_len rl"
  shows "rl_content rl = rl_buf rl ! nat (rl_next rl) # rl_content (rl\<lparr>rl_next := rl_next rl + 1\<rparr>)"
proof -
  let ?xs = "take (nat (rl_len rl)) (rl_buf rl)"
  have l: "nat (rl_next rl) < length ?xs" using assms by (auto simp: rl_ok_def)
  have "nat (rl_next rl + 1) = Suc (nat (rl_next rl))" using assms by (simp add: rl_ok_def nat_add_distrib)
  moreover have "drop (nat (rl_next rl)) ?xs = ?xs ! nat (rl_next rl) # drop (Suc (nat (rl_next rl))) ?xs"
    using l by (rule Cons_nth_drop_Suc [symmetric])
  ultimately show ?thesis using l by (simp add: rl_content_def)
qed

lemma readLineBuf_loop_spec:
  assumes "rl_ok rl" "rl_weight rl < fuel" "length buffer \<le> n"
  shows "\<exists>rl'. readLineBuf_loop fuel rl n buffer =
      Inr ((int (length (kept n buffer (rl_content rl))), kept n buffer (rl_content rl)), rl') \<and>
    rl_content rl' = after_line (rl_content rl) \<and> rl_ok rl'"
  using assms
proof (induction fuel arbitrary: rl buffer)
  case 0
  then show ?case by simp
next
  case (Suc fuel)
  from rl_fill_cases [OF Suc.prems(1)] show ?case
  proof (elim disjE exE conjE)
    fix r1
    assume "rl_fill rl = Fill_eof r1" "rl_content rl = []" "rl_content r1 = []" "rl_ok r1"
    then show ?thesis by simp
  next
    fix r1
    assume f: "rl_fill rl = Have r1" "rl_content r1 = rl_content rl" "rl_ok r1" "rl_next r1 < rl_len r1" "rl_weight r1 \<le> rl_weight rl"
    let ?c = "rl_buf r1 ! nat (rl_next r1)" and ?r = "r1\<lparr>rl_next := rl_next r1 + 1\<rparr>"
    let ?b = "if length buffer < n then buffer @ [?c] else buffer"
    have c: "rl_content rl = ?c # rl_content ?r" using rl_content_Cons [OF f(3,4)] f(2) by simp
    have ok: "rl_ok ?r" using f(3,4) by (simp add: rl_ok_def)
    show ?thesis
    proof (cases "?c = NL")
      case True
      have "readLineBuf_loop (Suc fuel) rl n buffer = Inr ((int (length ?b), ?b), ?r)" using f(1) True by (simp add: Let_def)
      moreover have "kept n buffer (rl_content rl) = ?b" using kept_Cons(2) [OF Suc.prems(3)] c True by simp
      ultimately show ?thesis using c True ok by simp
    next
      case False
      have w: "rl_weight ?r < fuel" using f(4,5) Suc.prems(2) by (simp add: rl_weight_def)
      have eq: "readLineBuf_loop (Suc fuel) rl n buffer = readLineBuf_loop fuel ?r n ?b" using f(1) False by (simp add: Let_def)
      have k: "kept n buffer (rl_content rl) = kept n ?b (rl_content ?r)" using kept_Cons(1) [OF Suc.prems(3)] c False by simp
      have al: "after_line (rl_content rl) = after_line (rl_content ?r)" using c False by simp
      have "length ?b \<le> n" using Suc.prems(3) by auto
      from Suc.IH [OF ok w this] show ?thesis unfolding eq k al .
    qed
  qed
qed

section \<open>Properties\<close>

text \<open>
  \<open>readn\<close> returns, with the first \<open>n\<close> bytes that come before the end of file or an
  error in the buffer and their number as the result; -1 means that not one byte came.  \<open>treadn\<close>
  does the same with the bytes that come in time.  \<open>writen\<close> returns how many of the bytes went
  out, in order and from the first on, however the calls of \<open>write\<close> split them.
\<close>

theorem whole_transfers:
  "(\<exists>r s'. readn s n = Inr ((r, take n (pending s)), s') \<and>
      (r = int (min n (length (pending s))) \<or> r = -1 \<and> pending s = [] \<and> 0 < n)) \<and>
   (\<exists>r s'. treadn s n = Inr ((r, take n (pending_timed s)), s') \<and>
      (r = int (min n (length (pending_timed s))) \<or> r = -1 \<and> pending_timed s = [] \<and> 0 < n)) \<and>
   (\<exists>r k t'. writen t bs = Inr (r, t') \<and> k \<le> length bs \<and> sent t' = sent t @ take k bs \<and> (r = int k \<or> r = -1 \<and> k = 0))"
proof (intro conjI)
  show "\<exists>r s'. readn s n = Inr ((r, take n (pending s)), s') \<and> (r = int (min n (length (pending s))) \<or> r = -1 \<and> pending s = [] \<and> 0 < n)"
    using rds.readn_spec [of n "n + 1" n "[]" s] by (simp add: readn_def)
  show "\<exists>r s'. treadn s n = Inr ((r, take n (pending_timed s)), s') \<and> (r = int (min n (length (pending_timed s))) \<or> r = -1 \<and> pending_timed s = [] \<and> 0 < n)"
    using rdt.readn_spec [of n "n + 1" n "[]" s] by (simp add: treadn_def)
  show "\<exists>r k t'. writen t bs = Inr (r, t') \<and> k \<le> length bs \<and> sent t' = sent t @ take k bs \<and> (r = int k \<or> r = -1 \<and> k = 0)"
    using wrs.writen_spec [of bs "length bs + 1" "length bs" t] by (auto simp: writen_def)
qed

text \<open>
  The restarting \<open>readn\<close> and \<open>writen\<close> go on after interruptions: the first delivers the
  bytes before another obstacle, the second reports success exactly when all bytes went out.
\<close>

theorem restarting_transfers:
  "(\<exists>r s'. readn_tlpi (Suc (stream_weight s)) sys_read n [] s = Inr ((r, take n (pending_restart s)), s') \<and>
      (r = int (min n (length (pending_restart s))) \<or> r = -1 \<and> length (pending_restart s) < n)) \<and>
   (\<exists>r k t'. writen_tlpi (Suc (length bs + length (script t))) sys_write 0 bs t = Inr (r, t') \<and>
      sent t' = sent t @ take k bs \<and> (r = int (length bs) \<and> k = length bs \<or> r = -1 \<and> k < length bs))"
  using rdi.readn_tlpi_spec [of s "Suc (stream_weight s)" "[]" n]
    wrs.writen_tlpi_spec [of bs t "Suc (length bs + length (script t))" 0] by auto


section \<open>Example\<close>


end
