(* ===== verification/Ipp_Queue.thy ===== *)
theory Ipp_Queue
  imports Prelude Machine
begin

text \<open>
  The two linked lists of the print server (\<open>apue2e/ipp/printd.c\<close>) as they are in memory:
  the queue of jobs with head and tail, and the list of worker threads.  A pointer is a
  number, 0 the null pointer, and a struct is a cell of the maps that hold its members;
  what \<open>malloc\<close> returns is an argument.
\<close>

section \<open>Jobs\<close>

type_synonym ptr = nat

definition USERNM_MAX :: nat where "USERNM_MAX = 64"
definition JOBNM_MAX :: nat where "JOBNM_MAX = 256"

record printreq =
  rq_size :: nat
  rq_flags :: nat
  rq_usernm :: bytes
  rq_jobnm :: bytes

type_synonym jobid = "64 word"

record jobq =
  jobhead :: ptr
  jobtail :: ptr
  j_next :: "ptr \<Rightarrow> ptr"
  j_prev :: "ptr \<Rightarrow> ptr"
  j_jobid :: "ptr \<Rightarrow> jobid"
  j_req :: "ptr \<Rightarrow> printreq"

definition add_job :: "ptr \<Rightarrow> jobq \<Rightarrow> printreq \<Rightarrow> jobid \<Rightarrow> jobq res" where
  "add_job jp q reqp jobid =
     (if jp = 0 then Inl (Err_sys ''malloc failed'')
      else
        let q = q\<lparr>j_req := (j_req q)(jp := reqp), j_jobid := (j_jobid q)(jp := jobid), j_next := (j_next q)(jp := 0)\<rparr>;
            q = q\<lparr>j_prev := (j_prev q)(jp := jobtail q)\<rparr>;
            q = (if jobtail q = 0 then q\<lparr>jobhead := jp\<rparr> else q\<lparr>j_next := (j_next q)(jobtail q := jp)\<rparr>) in
        Inr (q\<lparr>jobtail := jp\<rparr>))"

definition replace_job :: "jobq \<Rightarrow> ptr \<Rightarrow> jobq" where
  "replace_job q jp =
     (let q = q\<lparr>j_prev := (j_prev q)(jp := 0)\<rparr>;
          q = q\<lparr>j_next := (j_next q)(jp := jobhead q)\<rparr>;
          q = (if jobhead q = 0 then q\<lparr>jobtail := jp\<rparr> else q\<lparr>j_prev := (j_prev q)(jobhead q := jp)\<rparr>) in
      q\<lparr>jobhead := jp\<rparr>)"

definition remove_job :: "jobq \<Rightarrow> ptr \<Rightarrow> jobq" where
  "remove_job q target =
     (let q = (if j_next q target \<noteq> 0 then q\<lparr>j_prev := (j_prev q)(j_next q target := j_prev q target)\<rparr>
               else q\<lparr>jobtail := j_prev q target\<rparr>) in
      if j_prev q target \<noteq> 0 then q\<lparr>j_next := (j_next q)(j_prev q target := j_next q target)\<rparr>
      else q\<lparr>jobhead := j_next q target\<rparr>)"

definition no_jobs :: "jobq \<Rightarrow> jobq" where
  "no_jobs q = q\<lparr>jobhead := 0, jobtail := 0\<rparr>"

section \<open>Worker threads\<close>

record workers =
  wk_head :: ptr
  wt_next :: "ptr \<Rightarrow> ptr"
  wt_prev :: "ptr \<Rightarrow> ptr"
  wt_tid :: "ptr \<Rightarrow> nat"
  wt_sockfd :: "ptr \<Rightarrow> int"
  wt_freed :: "ptr set"

text \<open>\<open>None\<close>: no memory, and the thread exits.\<close>

definition add_worker :: "ptr \<Rightarrow> workers \<Rightarrow> nat \<Rightarrow> int \<Rightarrow> workers option" where
  "add_worker wtp w tid sockfd =
     (if wtp = 0 then None
      else
        let w = w\<lparr>wt_tid := (wt_tid w)(wtp := tid), wt_sockfd := (wt_sockfd w)(wtp := sockfd), wt_freed := wt_freed w - {wtp}\<rparr>;
            w = w\<lparr>wt_prev := (wt_prev w)(wtp := 0), wt_next := (wt_next w)(wtp := wk_head w)\<rparr> in
        Some (if wk_head w = 0 then w\<lparr>wk_head := wtp\<rparr> else w\<lparr>wt_prev := (wt_prev w)(wk_head w := wtp)\<rparr>))"

text \<open>
  The walk over the list: the threads it cancels.  Memory given back to \<open>free\<close> must not be
  read any more.
\<close>

primrec kill_loop :: "nat \<Rightarrow> workers \<Rightarrow> ptr \<Rightarrow> nat list res" where
  "kill_loop 0 w wtp = Inl Loops"
| "kill_loop (Suc fuel) w wtp =
     (if wtp = 0 then Inr []
      else if wtp \<in> wt_freed w then Inl (Overrun ''wtp'')
      else res_bind (kill_loop fuel w (wt_next w wtp)) (\<lambda>tids. Inr (wt_tid w wtp # tids)))"

definition kill_workers :: "nat \<Rightarrow> workers \<Rightarrow> nat list res" where
  "kill_workers fuel w = kill_loop fuel w (wk_head w)"

primrec find_worker :: "nat \<Rightarrow> workers \<Rightarrow> nat \<Rightarrow> ptr \<Rightarrow> ptr res" where
  "find_worker 0 w tid wtp = Inl Loops"
| "find_worker (Suc fuel) w tid wtp =
     (if wtp = 0 then Inr 0
      else if wtp \<in> wt_freed w then Inl (Overrun ''wtp'')
      else if wt_tid w wtp = tid then Inr wtp
      else find_worker fuel w tid (wt_next w wtp))"

text \<open>The socket closed, if any, and the list without the worker.\<close>

definition client_cleanup :: "nat \<Rightarrow> workers \<Rightarrow> nat \<Rightarrow> (int option \<times> workers) res" where
  "client_cleanup fuel w tid =
     res_bind (find_worker fuel w tid (wk_head w)) (\<lambda>wtp.
     if wtp = 0 then Inr (None, w)
     else
       let w = (if wt_next w wtp \<noteq> 0 then w\<lparr>wt_prev := (wt_prev w)(wt_next w wtp := wt_prev w wtp)\<rparr> else w);
           w = (if wt_prev w wtp \<noteq> 0 then w\<lparr>wt_next := (wt_next w)(wt_prev w wtp := wt_next w wtp)\<rparr>
                else w\<lparr>wk_head := wt_next w wtp\<rparr>) in
       Inr (Some (wt_sockfd w wtp), w\<lparr>wt_freed := insert wtp (wt_freed w)\<rparr>))"

section \<open>The contract of a queue\<close>

text \<open>
  A queue that keeps its order: entries go in behind, the first comes out, and one that
  could not be handled goes back to the front.
\<close>

datatype 'a queue_op = Put 'a | Take | Back 'a

fun queue_step :: "'a list \<Rightarrow> 'a queue_op \<Rightarrow> 'a list" where
  "queue_step xs (Put x) = xs @ [x]"
| "queue_step xs Take = tl xs"
| "queue_step xs (Back x) = x # xs"

fun queue_fits :: "'a list \<Rightarrow> 'a queue_op \<Rightarrow> bool" where
  "queue_fits xs (Put x) = (x \<notin> set xs)"
| "queue_fits xs Take = (xs \<noteq> [])"
| "queue_fits xs (Back x) = (x \<notin> set xs)"

fun queue_run :: "'a list \<Rightarrow> 'a queue_op list \<Rightarrow> 'a list option" where
  "queue_run xs [] = Some xs"
| "queue_run xs (p # ps) = (if queue_fits xs p then queue_run (queue_step xs p) ps else None)"

locale queue =
  fixes rep :: "'q \<Rightarrow> 'a list \<Rightarrow> bool" and valid :: "'a \<Rightarrow> bool" and step :: "'q \<Rightarrow> 'a queue_op \<Rightarrow> 'q" and front :: "'q \<Rightarrow> 'a"
  assumes put_law: "rep q xs \<Longrightarrow> valid x \<Longrightarrow> x \<notin> set xs \<Longrightarrow> rep (step q (Put x)) (xs @ [x])"
    and take_law: "rep q (x # xs) \<Longrightarrow> front q = x \<and> rep (step q Take) xs"
    and back_law: "rep q xs \<Longrightarrow> valid x \<Longrightarrow> x \<notin> set xs \<Longrightarrow> rep (step q (Back x)) (x # xs)"
begin

primrec op_valid :: "'a queue_op \<Rightarrow> bool" where
  "op_valid (Put x) = valid x"
| "op_valid Take = True"
| "op_valid (Back x) = valid x"

lemma step_rep: "rep q xs \<Longrightarrow> op_valid p \<Longrightarrow> queue_fits xs p \<Longrightarrow> rep (step q p) (queue_step xs p)"
proof (cases p)
  case Take
  moreover assume "rep q xs" "queue_fits xs p"
  ultimately show ?thesis using take_law by (cases xs) auto
qed (auto intro: put_law back_law)

lemma run_rep:
  "rep q xs \<Longrightarrow> (\<forall>p \<in> set ps. op_valid p) \<Longrightarrow> queue_run xs ps = Some ys \<Longrightarrow> rep (foldl step q ps) ys"
proof (induction ps arbitrary: q xs)
  case Nil
  then show ?case by simp
next
  case (Cons p ps)
  then have "rep (step q p) (queue_step xs p)" using step_rep by (auto split: if_splits)
  then show ?case using Cons by (auto split: if_splits)
qed

lemma served_in_order:
  assumes "rep q xs" "queue_run xs ps = Some (y # ys)" "\<forall>p \<in> set ps. op_valid p"
  shows "front (foldl step q ps) = y"
  using take_law run_rep [OF assms(1,3,2)] by blast

end

section \<open>The job queue keeps the contract\<close>

interpretation jq: ptr_fields "\<lambda>m p. m p" "\<lambda>m p v. m(p := v)" "0 :: ptr"
  by unfold_locales simp_all

text \<open>Head and tail as the fields of a cell 0 in front of the list.\<close>

definition nxt :: "jobq \<Rightarrow> ptr \<Rightarrow> ptr" where
  "nxt q = (j_next q)(0 := jobhead q)"

definition prv :: "jobq \<Rightarrow> ptr \<Rightarrow> ptr" where
  "prv q = (j_prev q)(0 := jobtail q)"

definition jobs_rep :: "jobq \<Rightarrow> ptr list \<Rightarrow> bool" where
  "jobs_rep q xs \<longleftrightarrow> jq.chain (nxt q) 0 xs \<and> jq.chain (prv q) 0 (rev xs)"

lemma add_job_view:
  assumes "add_job jp q r i = Inr q'"
  shows "jp \<noteq> 0" "nxt q' = (nxt q)(jp := 0, jobtail q := jp)" "prv q' = (prv q)(jp := jobtail q, 0 := jp)"
    "j_jobid q' = (j_jobid q)(jp := i)" "j_req q' = (j_req q)(jp := r)"
  using assms by (auto simp: add_job_def nxt_def prv_def Let_def fun_eq_iff split: if_splits)

lemma replace_job_view:
  assumes "jp \<noteq> 0"
  shows "nxt (replace_job q jp) = (nxt q)(jp := jobhead q, 0 := jp)" "prv (replace_job q jp) = (prv q)(jp := 0, jobhead q := jp)"
    "j_jobid (replace_job q jp) = j_jobid q" "j_req (replace_job q jp) = j_req q"
  using assms by (auto simp: replace_job_def nxt_def prv_def Let_def fun_eq_iff)

lemma remove_job_view:
  assumes "t \<noteq> 0"
  shows "prv (remove_job q t) = (prv q)(nxt q t := prv q t)" "j_next q t \<noteq> t \<Longrightarrow> nxt (remove_job q t) = (nxt q)(prv q t := nxt q t)"
    "j_jobid (remove_job q t) = j_jobid q" "j_req (remove_job q t) = j_req q"
  using assms by (auto simp: remove_job_def nxt_def prv_def Let_def fun_eq_iff)

lemma chain_0: "jq.chain m 0 xs \<Longrightarrow> 0 \<notin> set xs"
  by (rule jq.chain_not_null)

lemma head_tail:
  assumes "jobs_rep q xs"
  shows "jobhead q = (if xs = [] then 0 else hd xs)" "jobtail q = jq.prev_field 0 xs"
proof -
  have "nxt q 0 = (if xs = [] then 0 else hd xs)" "prv q 0 = (if rev xs = [] then 0 else hd (rev xs))"
    using assms jq.chain_hd unfolding jobs_rep_def by blast+
  then show "jobhead q = (if xs = [] then 0 else hd xs)" "jobtail q = jq.prev_field 0 xs"
    by (simp_all add: nxt_def prv_def jq.prev_field_def hd_rev split: if_splits)
qed

lemma add_job_rep:
  assumes "jobs_rep q xs" "jp \<notin> set xs" "add_job jp q r i = Inr q'"
  shows "jobs_rep q' (xs @ [jp])"
proof -
  note v = add_job_view [OF assms(3)]
  have c: "jq.chain (nxt q) 0 xs" "jq.chain (prv q) 0 (rev xs)" using assms(1) by (simp_all add: jobs_rep_def)
  have "jq.chain ((nxt q)(jp := 0)) 0 xs" using jq.chain_frame [of jp 0 xs "nxt q" 0] v(1) assms(2) c(1) by simp
  then have "jq.chain ((nxt q)(jp := 0, jq.prev_field 0 xs := jp)) 0 (xs @ [jp])"
    using v(1) assms(2) chain_0 [OF c(1)] by (intro jq.chain_append) simp_all
  moreover have "jq.chain ((prv q)(jp := prv q 0, 0 := jp)) 0 (jp # rev xs)"
    using c(2) v(1) assms(2) by (intro jq.chain_push) simp_all
  ultimately show ?thesis using v(2,3) head_tail(2) [OF assms(1)] by (simp add: jobs_rep_def prv_def)
qed

lemma replace_job_rep:
  assumes "jobs_rep q xs" "jp \<notin> set xs" "jp \<noteq> 0"
  shows "jobs_rep (replace_job q jp) (jp # xs)"
proof -
  note v = replace_job_view [OF assms(3), of q]
  have c: "jq.chain (nxt q) 0 xs" "jq.chain (prv q) 0 (rev xs)" using assms(1) by (simp_all add: jobs_rep_def)
  have "jq.chain ((nxt q)(jp := nxt q 0, 0 := jp)) 0 (jp # xs)"
    using c(1) assms(2,3) by (intro jq.chain_push) simp_all
  moreover have "jq.chain ((prv q)(jp := 0)) 0 (rev xs)" using jq.chain_frame [of jp 0 "rev xs" "prv q" 0] assms(2,3) c(2) by simp
  then have "jq.chain ((prv q)(jp := 0, jq.prev_field 0 (rev xs) := jp)) 0 (rev xs @ [jp])"
    using assms(2,3) chain_0 [OF c(1)] by (intro jq.chain_append) simp_all
  moreover have "jq.prev_field 0 (rev xs) = jobhead q" using head_tail(1) [OF assms(1)] by (simp add: jq.prev_field_def last_rev)
  ultimately show ?thesis using v(1,2) by (simp add: jobs_rep_def nxt_def)
qed

lemma remove_job_rep:
  assumes "jobs_rep q (as @ x # bs)"
  shows "jobs_rep (remove_job q x) (as @ bs)"
proof -
  let ?xs = "as @ x # bs"
  have c: "jq.chain (nxt q) 0 ?xs" "jq.chain (prv q) 0 (rev bs @ x # rev as)" using assms by (simp_all add: jobs_rep_def)
  have z: "0 \<notin> set ?xs" "distinct ?xs" using chain_0 [OF c(1)] jq.chain_distinct [OF c(1)] by blast+
  then have x0: "x \<noteq> 0" by auto
  have p: "prv q x = jq.prev_field 0 as"
    using jq.chain_hd [OF jq.chain_suffix [OF c(2)]] by (simp add: jq.prev_field_def hd_rev split: if_splits)
  have n: "nxt q x = jq.prev_field 0 (rev bs)"
    using jq.chain_hd [OF jq.chain_suffix [OF c(1)]] by (simp add: jq.prev_field_def last_rev split: if_splits)
  have "nxt q x \<noteq> x" using n z by (auto simp: jq.prev_field_def last_rev split: if_splits)
  then have "j_next q x \<noteq> x" using x0 by (simp add: nxt_def)
  note v = remove_job_view(1) [OF x0, of q] remove_job_view(2) [OF x0, of q, OF this]
  have "jq.chain ((nxt q)(jq.prev_field 0 as := nxt q x)) 0 (as @ bs)" using c(1) z(1) by (rule jq.chain_unlink)
  moreover have "jq.chain ((prv q)(jq.prev_field 0 (rev bs) := prv q x)) 0 (rev bs @ rev as)"
    using c(2) z(1) by (intro jq.chain_unlink) auto
  ultimately show ?thesis using v p n by (simp add: jobs_rep_def)
qed

lemma empty_rep: "jobs_rep (no_jobs q) []"
  by (simp add: jobs_rep_def nxt_def prv_def no_jobs_def)

lemma add_job_ok: "jp \<noteq> 0 \<Longrightarrow> \<exists>q'. add_job jp q r i = Inr q'"
  by (simp add: add_job_def Let_def)

text \<open>The operations of the server on pointers; what a job holds is fixed by its pointer here.\<close>

fun job_step :: "(ptr \<Rightarrow> printreq) \<Rightarrow> (ptr \<Rightarrow> jobid) \<Rightarrow> jobq \<Rightarrow> ptr queue_op \<Rightarrow> jobq" where
  "job_step reqs ids q (Put p) = (case add_job p q (reqs p) (ids p) of Inl e \<Rightarrow> q | Inr q \<Rightarrow> q)"
| "job_step reqs ids q Take = remove_job q (jobhead q)"
| "job_step reqs ids q (Back p) = replace_job q p"

interpretation jobs: queue jobs_rep "\<lambda>p. p \<noteq> 0" "job_step reqs ids" jobhead for reqs ids
proof unfold_locales
  fix q xs and x :: ptr
  assume a: "jobs_rep q xs" "x \<noteq> 0" "x \<notin> set xs"
  obtain q' where "add_job x q (reqs x) (ids x) = Inr q'" using add_job_ok a(2) by blast
  then show "jobs_rep (job_step reqs ids q (Put x)) (xs @ [x])" using add_job_rep a by simp
  show "jobs_rep (job_step reqs ids q (Back x)) (x # xs)" using replace_job_rep a by simp
next
  fix q x xs
  assume a: "jobs_rep q (x # xs)"
  then have h: "jobhead q = x" using head_tail(1) by simp
  have "jobs_rep (remove_job q x) xs" using remove_job_rep [of q "[]" x xs] a by simp
  then show "jobhead q = x \<and> jobs_rep (job_step reqs ids q Take) xs" using h by simp
qed

end
