(* ===== verification/Encoding.thy ===== *)
theory Encoding
  imports Prelude
begin

text \<open>
  Numbers as bytes: little-endian memory, network byte order, and the reader that undoes
  them.
\<close>

primrec le_nat :: "nat \<Rightarrow> nat \<Rightarrow> bytes" where
  "le_nat 0 n = []"
| "le_nat (Suc k) n = char_of (n mod 256) # le_nat k (n div 256)"

primrec un_le :: "bytes \<Rightarrow> nat" where
  "un_le [] = 0"
| "un_le (c # cs) = of_char c + 256 * un_le cs"

definition be_nat :: "nat \<Rightarrow> nat \<Rightarrow> bytes" where
  "be_nat k n = rev (le_nat k n)"

definition un_be :: "bytes \<Rightarrow> nat" where
  "un_be bs = un_le (rev bs)"

text \<open>\<open>htonl\<close> and \<open>ntohl\<close> of a little-endian machine, on what is left of a number in 32 bits.\<close>

definition htonl :: "nat \<Rightarrow> nat" where
  "htonl n = un_le (be_nat 4 n)"

definition ntohl :: "nat \<Rightarrow> nat" where
  "ntohl n = un_be (le_nat 4 n)"

lemma length_le_nat [simp]: "length (le_nat k n) = k"
  by (induction k arbitrary: n) simp_all

lemma length_be_nat [simp]: "length (be_nat k n) = k"
  by (simp add: be_nat_def)

lemma un_le_le [simp]: "un_le (le_nat k n) = n mod 256 ^ k"
proof (induction k arbitrary: n)
  case 0
  then show ?case by simp
next
  case (Suc k)
  have "n mod (256 * 256 ^ k) = n mod 256 + 256 * (n div 256 mod 256 ^ k)" by (simp add: mod_mult2_eq)
  then show ?case using Suc by simp
qed

lemma un_be_be [simp]: "un_be (be_nat k n) = n mod 256 ^ k"
  by (simp add: un_be_def be_nat_def)

lemma of_char_less: "(of_char c :: nat) < 256"
  by (rule char.exhaust) (auto simp: of_char_def of_bool_def)

lemma un_le_less: "un_le bs < 256 ^ length bs"
proof (induction bs)
  case Nil
  then show ?case by simp
next
  case (Cons c bs)
  have "of_char c + 256 * un_le bs < 256 * (un_le bs + 1)" using of_char_less [of c] by simp
  also have "\<dots> \<le> 256 * 256 ^ length bs" using Cons by (intro mult_le_mono2) simp
  finally show ?case by simp
qed

lemma le_un_le: "le_nat (length bs) (un_le bs) = bs"
proof (induction bs)
  case Nil
  then show ?case by simp
next
  case (Cons c bs)
  have "un_le (c # bs) mod 256 = of_char c" "un_le (c # bs) div 256 = un_le bs" using of_char_less [of c] by simp_all
  then show ?case using Cons by (simp del: un_le.simps)
qed

lemma ntohl_htonl [simp]: "ntohl (htonl n) = n mod 2 ^ 32"
proof -
  have "le_nat 4 (htonl n) = be_nat 4 n" using le_un_le [of "be_nat 4 n"] by (simp add: htonl_def)
  then show ?thesis by (simp add: ntohl_def)
qed

lemma ntohl_less: "ntohl n < 2 ^ 32"
  using un_le_less [of "rev (le_nat 4 n)"] by (simp add: ntohl_def un_be_def)

end
