(* ===== verification/Ipp_Model.thy ===== *)
theory Ipp_Model
  imports Ipp_Queue Stream_IO Encoding
begin

text \<open>
  The print server \<open>apue2e/ipp/printd.c\<close> up to the thread of a client, and the helpers
  \<open>apue2e/ipp/util.c\<close>.  The files of the spool directory are a map from pathnames to
  contents; what the network and the system calls give in one run of a function is a record
  of the environment.
\<close>

unbundle bit_operations_syntax

section \<open>Constants and messages\<close>

definition CRLF :: string where "CRLF = [CHR 0x0D, CHR 0x0A]"
definition SPOOLDIR :: string where "SPOOLDIR = ''/var/spool/printer''"
definition JOBFILE :: string where "JOBFILE = ''jobno''"
definition DATADIR :: string where "DATADIR = ''data''"
definition REQDIR :: string where "REQDIR = ''reqs''"
definition FILENMSZ :: nat where "FILENMSZ = 64"
definition MSGLEN_MAX :: nat where "MSGLEN_MAX = 512"
definition IPP_PORT :: nat where "IPP_PORT = 631"
definition IBUFSZ :: nat where "IBUFSZ = 512"
definition HBUFSZ :: nat where "HBUFSZ = 512"
definition IOBUFSZ :: nat where "IOBUFSZ = 8192"
definition PR_TEXT :: nat where "PR_TEXT = 1"

record printresp =
  rs_retcode :: nat
  rs_jobid :: nat
  rs_msg :: bytes

text \<open>The structs as they go over the socket and into the request file: two longs and the arrays.\<close>

definition sizeof_printreq :: nat where "sizeof_printreq = 16 + USERNM_MAX + JOBNM_MAX"
definition sizeof_printresp :: nat where "sizeof_printresp = 16 + MSGLEN_MAX"

definition enc_req :: "printreq \<Rightarrow> bytes" where
  "enc_req r = le_nat 8 (rq_size r) @ le_nat 8 (rq_flags r) @ rq_usernm r @ rq_jobnm r"

definition dec_req :: "bytes \<Rightarrow> printreq" where
  "dec_req b = \<lparr>rq_size = un_le (seg b 0 8), rq_flags = un_le (seg b 8 8), rq_usernm = seg b 16 USERNM_MAX,
     rq_jobnm = seg b (16 + USERNM_MAX) JOBNM_MAX\<rparr>"

definition enc_resp :: "printresp \<Rightarrow> bytes" where
  "enc_resp r = le_nat 8 (rs_retcode r) @ le_nat 8 (rs_jobid r) @ rs_msg r"

definition dec_resp :: "bytes \<Rightarrow> printresp" where
  "dec_resp b = \<lparr>rs_retcode = un_le (seg b 0 8), rs_jobid = un_le (seg b 8 8), rs_msg = seg b 16 MSGLEN_MAX\<rparr>"

text \<open>\<open>strncpy\<close> pads with null bytes; \<open>strcpy\<close> and \<open>sprintf\<close> leave what is behind the null byte.\<close>

definition strncpy :: "string \<Rightarrow> nat \<Rightarrow> bytes" where
  "strncpy s n = take n s @ replicate (n - length s) NUL"

definition strcpy :: "bytes \<Rightarrow> string \<Rightarrow> bytes res" where
  "strcpy dst s = (if length s < length dst then Inr (s @ [NUL] @ drop (length s + 1) dst) else Inl (Overrun ''strcpy''))"

section \<open>Helpers of both programs\<close>

record addrinfo =
  ai_addr :: nat
  ai_canonname :: "string option"

record hints =
  h_flags :: int
  h_family :: int
  h_socktype :: int
  h_protocol :: int

definition AI_CANONNAME :: int where "AI_CANONNAME = 2"
definition AF_INET :: int where "AF_INET = 2"
definition SOCK_STREAM :: int where "SOCK_STREAM = 1"

definition getaddrlist :: "(hints \<Rightarrow> string \<Rightarrow> string \<Rightarrow> int + addrinfo list) \<Rightarrow> string \<Rightarrow> string \<Rightarrow> int + addrinfo list" where
  "getaddrlist getaddrinfo host service =
     getaddrinfo \<lparr>h_flags = AI_CANONNAME, h_family = AF_INET, h_socktype = SOCK_STREAM, h_protocol = 0\<rparr> host service"

definition MAXCFGLINE :: nat where "MAXCFGLINE = 512"
definition MAXKWLEN :: nat where "MAXKWLEN = 16"

text \<open>\<open>fgets\<close>: through the newline, or as much as fits with the null byte.\<close>

definition fgets :: "nat \<Rightarrow> bytes \<Rightarrow> bytes" where
  "fgets n f = take (n - 1) (takeWhile (\<lambda>c. c \<noteq> NL) f @ (if NL \<in> set f then [NL] else []))"

text \<open>\<open>sscanf\<close> with \<open>%15s %511s\<close>: the words found, at most two.\<close>

definition scan_word :: "nat \<Rightarrow> string \<Rightarrow> string \<times> string" where
  "scan_word n s = (let t = dropWhile isspace s; w = take n (takeWhile (\<lambda>c. \<not> isspace c) t) in (w, drop (length w) t))"

definition scan_pair :: "string \<Rightarrow> (string \<times> string) option" where
  "scan_pair line =
     (let (k, t) = scan_word (MAXKWLEN - 1) (cstr line); (v, u) = scan_word (MAXCFGLINE - 1) t in
      if k = [] \<or> v = [] then None else Some (k, v))"

primrec scan_lines :: "nat \<Rightarrow> bytes \<Rightarrow> string \<Rightarrow> string option" where
  "scan_lines 0 f keyword = None"
| "scan_lines (Suc fuel) f keyword =
     (let line = fgets MAXCFGLINE f in
      if line = [] then None
      else case scan_pair line of
        Some (k, v) \<Rightarrow> if k = keyword then Some v else scan_lines fuel (drop (length line) f) keyword
      | None \<Rightarrow> scan_lines fuel (drop (length line) f) keyword)"

text \<open>The configuration file, or \<open>None\<close> when it cannot be opened.  It has at most as many lines as bytes.\<close>

definition scan_configfile :: "bytes option \<Rightarrow> string \<Rightarrow> string option res" where
  "scan_configfile cfg keyword = (case cfg of
     None \<Rightarrow> Inl (Err_sys ''can't open configuration file'')
   | Some f \<Rightarrow> Inr (scan_lines (Suc (length f)) f keyword))"

definition get_printserver :: "bytes option \<Rightarrow> string option res" where
  "get_printserver cfg = scan_configfile cfg ''printserver''"

definition get_printaddr :: "(hints \<Rightarrow> string \<Rightarrow> string \<Rightarrow> int + addrinfo list) \<Rightarrow> bytes option \<Rightarrow> addrinfo list option res" where
  "get_printaddr gai cfg =
     res_bind (scan_configfile cfg ''printer'') (\<lambda>p. case p of
       None \<Rightarrow> Inr None
     | Some host \<Rightarrow> (case getaddrlist gai host ''ipp'' of Inl err \<Rightarrow> Inr None | Inr l \<Rightarrow> Inr (Some l)))"

definition MAXSLEEP :: nat where "MAXSLEEP = 128"

text \<open>\<open>ok k\<close>: the \<open>k\<close>-th attempt to connect succeeds.  The result and the seconds slept.\<close>

primrec connect_loop :: "nat \<Rightarrow> (nat \<Rightarrow> bool) \<Rightarrow> nat \<Rightarrow> nat \<Rightarrow> nat \<Rightarrow> (int \<times> nat) res" where
  "connect_loop 0 ok k nsec slept = Inl Loops"
| "connect_loop (Suc fuel) ok k nsec slept =
     (if \<not> nsec \<le> MAXSLEEP then Inr (-1, slept)
      else if ok k then Inr (0, slept)
      else connect_loop fuel ok (k + 1) (2 * nsec) (if nsec \<le> MAXSLEEP div 2 then slept + nsec else slept))"

definition connect_retry :: "(nat \<Rightarrow> bool) \<Rightarrow> (int \<times> nat) res" where
  "connect_retry ok = connect_loop 9 ok 0 1 0"

section \<open>State of the server\<close>

record printd =
  nextjob :: jobid
  jobfile :: bytes
  jobq :: jobq
  files :: "string \<Rightarrow> bytes option"
  reread :: bool
  printer :: "addrinfo list"
  printer_name :: string

definition spool_name :: "string \<Rightarrow> jobid \<Rightarrow> string" where
  "spool_name dir jobid = SPOOLDIR @ ''/'' @ dir @ ''/'' @ dec_int (sint jobid)"

text \<open>
  The job file is locked, and read into the buffer that held its own name; no null byte is
  put behind what was read.
\<close>

definition init_request :: "bool \<Rightarrow> (int + bytes) \<Rightarrow> bytes \<Rightarrow> printd \<Rightarrow> printd res" where
  "init_request locked rd junk s =
     (if \<not> locked then Inl (Err_quit ''daemon already running'')
      else case rd of
        Inl e \<Rightarrow> Inl (Err_sys ''can't read job file'')
      | Inr b \<Rightarrow>
          let path = SPOOLDIR @ ''/'' @ JOBFILE; name = take FILENMSZ (path @ [NUL] @ junk); b = take FILENMSZ b in
          Inr (s\<lparr>nextjob := (if b = [] then 1 else word_of_int (atol (cstr (b @ drop (length b) name))))\<rparr>))"

definition init_printer :: "(hints \<Rightarrow> string \<Rightarrow> string \<Rightarrow> int + addrinfo list) \<Rightarrow> bytes option \<Rightarrow> printd \<Rightarrow> printd res" where
  "init_printer gai cfg s =
     res_bind (get_printaddr gai cfg) (\<lambda>p. case p of
       None \<Rightarrow> Inl (Exit_with 1)
     | Some l \<Rightarrow> Inr (s\<lparr>printer := l,
         printer_name := (case l of [] \<Rightarrow> ''printer'' | a # as \<Rightarrow> (case ai_canonname a of None \<Rightarrow> ''printer'' | Some n \<Rightarrow> n))\<rparr>))"

text \<open>The number is written over the start of the file, which is not cut.\<close>

definition update_jobno :: "printd \<Rightarrow> printd" where
  "update_jobno s = (let buf = dec_int (sint (nextjob s)) in s\<lparr>jobfile := buf @ drop (length buf) (jobfile s)\<rparr>)"

definition get_newjobno :: "printd \<Rightarrow> jobid \<times> printd" where
  "get_newjobno s = (let jobid = nextjob s; n = nextjob s + 1 in
     (jobid, s\<lparr>nextjob := (if sint n \<le> 0 then 1 else n)\<rparr>))"

text \<open>The entries of the request directory in the order \<open>readdir\<close> gives them, and memory for the jobs.\<close>

primrec build_qonstart :: "(nat \<Rightarrow> ptr) \<Rightarrow> nat \<Rightarrow> string list \<Rightarrow> printd \<Rightarrow> printd res" where
  "build_qonstart mem k [] s = Inr s"
| "build_qonstart mem k (d # ds) s =
     (if d = ''.'' \<or> d = ''..'' then build_qonstart mem k ds s
      else
        let fname = SPOOLDIR @ ''/'' @ REQDIR @ ''/'' @ d; dname = SPOOLDIR @ ''/'' @ DATADIR @ ''/'' @ d in
        if \<not> length fname < FILENMSZ then Inl (Overrun ''fname'')
        else case files s fname of
          None \<Rightarrow> build_qonstart mem k ds s
        | Some b \<Rightarrow>
            if length b < sizeof_printreq
            then build_qonstart mem k ds (s\<lparr>files := (files s)(fname := None, dname := None)\<rparr>)
            else res_bind (add_job (mem k) (jobq s) (dec_req b) (word_of_int (atol d))) (\<lambda>q.
              build_qonstart mem (Suc k) ds (s\<lparr>jobq := q\<rparr>)))"

section \<open>A client\<close>

record client_env =
  cl_in :: stream
  cl_out :: sink
  cl_creat_data :: "int option"
  cl_write_data :: "accept list"
  cl_creat_req :: "int option"
  cl_write_req :: "accept list"
  cl_jp :: ptr
  cl_res :: printresp
  cl_buf :: bytes
  cl_strerror :: "nat \<Rightarrow> string"

text \<open>How the thread ends: with 1 after an error, or with 0.\<close>

record client_out =
  co_state :: printd
  co_sock :: sink
  co_ok :: bool

definition reply :: "client_env \<Rightarrow> printresp \<Rightarrow> sink res" where
  "reply e res = res_bind (writen (cl_out e) (enc_resp res)) (\<lambda>(n, k). Inr k)"

text \<open>An error code goes out in network byte order, and the text is the one for the code in that order.\<close>

definition error_resp :: "client_env \<Rightarrow> nat \<Rightarrow> int \<Rightarrow> printresp" where
  "error_resp e jobid err = (let c = htonl (nat err) in
     \<lparr>rs_retcode = c, rs_jobid = jobid, rs_msg = strncpy (cl_strerror e c) MSGLEN_MAX\<rparr>)"

definition client_fails :: "client_env \<Rightarrow> printd \<Rightarrow> nat \<Rightarrow> int \<Rightarrow> client_out res" where
  "client_fails e s jobid err =
     res_bind (reply e (error_resp e jobid err)) (\<lambda>k. Inr \<lparr>co_state = s, co_sock = k, co_ok = False\<rparr>)"

text \<open>
  The file is copied to the spool directory.  The loop ends with the end of the input, with
  an error of the read and with a time without data alike; a write that is not complete is
  an error.
\<close>

datatype spooled = Spooled nat sink | Short int

primrec spool_loop :: "nat \<Rightarrow> stream \<Rightarrow> sink \<Rightarrow> bytes \<Rightarrow> bool \<Rightarrow> nat \<Rightarrow> spooled res" where
  "spool_loop 0 st fd buf first flags = Inl Loops"
| "spool_loop (Suc fuel) st fd buf first flags = (case tread st IOBUFSZ of
     (Inl e, st) \<Rightarrow> Inr (Spooled flags fd)
   | (Inr b, st) \<Rightarrow>
       if b = [] then Inr (Spooled flags fd)
       else
         let buf = b @ drop (length b) buf;
             flags = (if first \<and> take 4 buf \<noteq> ''%!PS'' then flags OR PR_TEXT else flags) in
         case sys_write fd b of
           (Inl e, fd) \<Rightarrow> Inr (Short e)
         | (Inr nw, fd) \<Rightarrow> if nw \<noteq> length b then Inr (Short EIO) else spool_loop fuel st fd buf False flags)"

text \<open>The request file, the answer to the client and the queue.\<close>

definition client_finish :: "client_env \<Rightarrow> printd \<Rightarrow> int \<Rightarrow> printreq \<Rightarrow> jobid \<Rightarrow> client_out res" where
  "client_finish e s n req jobid =
     (let name = spool_name DATADIR jobid; rname = spool_name REQDIR jobid in
      case cl_creat_req e of
        Some err \<Rightarrow> client_fails e (s\<lparr>files := (files s)(name := None)\<rparr>) 0 (if n < 0 then err else EIO)
      | None \<Rightarrow>
          (case sys_write \<lparr>sent = [], script = cl_write_req e\<rparr> (enc_req req) of
             (Inl err, rfd) \<Rightarrow> client_fails e (s\<lparr>files := (files s)(rname := None, name := None)\<rparr>) 0 err
           | (Inr nw, rfd) \<Rightarrow>
               if nw \<noteq> sizeof_printreq
               then client_fails e (s\<lparr>files := (files s)(rname := None, name := None)\<rparr>) 0 EIO
               else
                 let s = s\<lparr>files := (files s)(rname \<mapsto> sent rfd)\<rparr>;
                     msg = ''request ID '' @ dec_int (sint jobid) in
                 res_bind (strcpy (rs_msg (cl_res e)) msg) (\<lambda>m.
                 res_bind (reply e \<lparr>rs_retcode = 0, rs_jobid = htonl (unat jobid), rs_msg = m\<rparr>) (\<lambda>k.
                 res_bind (add_job (cl_jp e) (jobq s) req jobid) (\<lambda>q.
                 Inr \<lparr>co_state = s\<lparr>jobq := q\<rparr>, co_sock = k, co_ok = True\<rparr>)))))"

definition client_thread :: "client_env \<Rightarrow> printd \<Rightarrow> client_out res" where
  "client_thread e s =
     res_bind (treadn (cl_in e) sizeof_printreq) (\<lambda>((n, hdr), st).
     if n \<noteq> int sizeof_printreq
     then client_fails e s 0 (if n < 0 then (case fst (tread (cl_in e) sizeof_printreq) of Inl err \<Rightarrow> err | Inr b \<Rightarrow> 0) else EIO)
     else
       let req = dec_req hdr; req = req\<lparr>rq_size := ntohl (rq_size req), rq_flags := ntohl (rq_flags req)\<rparr>;
           (jobid, s) = get_newjobno s; name = spool_name DATADIR jobid in
       case cl_creat_data e of
         Some err \<Rightarrow> client_fails e s 0 (if n < 0 then err else EIO)
       | None \<Rightarrow>
           res_bind (spool_loop (Suc (stream_weight st)) st \<lparr>sent = [], script = cl_write_data e\<rparr> (cl_buf e) True (rq_flags req)) (\<lambda>sp.
           case sp of
             Short err \<Rightarrow> client_fails e (s\<lparr>files := (files s)(name := None)\<rparr>) (rs_jobid (cl_res e)) err
           | Spooled flags fd \<Rightarrow>
               client_finish e (s\<lparr>files := (files s)(name \<mapsto> sent fd)\<rparr>) n (req\<lparr>rq_flags := flags\<rparr>) jobid))"

text \<open>
  The thread with its entry in the list of workers.  The cleanup handler runs however the
  thread ends; the socket it closes, if any, is returned.
\<close>

definition client_session :: "nat \<Rightarrow> ptr \<Rightarrow> nat \<Rightarrow> int \<Rightarrow> client_env \<Rightarrow> workers \<Rightarrow> printd \<Rightarrow> (client_out option \<times> int option \<times> workers) res" where
  "client_session fuel wtp tid sockfd e w s = (case add_worker wtp w tid sockfd of
     None \<Rightarrow> res_bind (client_cleanup fuel w tid) (\<lambda>(c, w). Inr (None, c, w))
   | Some w \<Rightarrow> res_bind (client_thread e s) (\<lambda>out. res_bind (client_cleanup fuel w tid) (\<lambda>(c, w). Inr (Some out, c, w))))"

end
