(* ===== verification/Ipp_Status.thy ===== *)
theory Ipp_Status
  imports Ipp_Model
begin

text \<open>
  \<open>readmore\<close> and \<open>printer_status\<close> of \<open>apue2e/ipp/printd.c\<close>: the answer of the printer, an
  HTTP header and an IPP header, searched for in a buffer that is read piece by piece.  Bytes
  of the buffer nothing has been read into are those of \<open>junk\<close>; a pointer that leaves the
  buffer is an overrun.
\<close>

section \<open>Definitions\<close>

definition CR :: char where "CR = CHR 0x0D"

definition HTTP_INFO :: "int \<Rightarrow> bool" where "HTTP_INFO x \<longleftrightarrow> x \<ge> 100 \<and> x \<le> 199"
definition HTTP_SUCCESS :: "int \<Rightarrow> bool" where "HTTP_SUCCESS x \<longleftrightarrow> x \<ge> 200 \<and> x \<le> 299"
definition STATCLASS_OK :: "nat \<Rightarrow> bool" where "STATCLASS_OK x \<longleftrightarrow> x \<le> 255"

text \<open>The new end of the data, or \<open>None\<close>; the buffer may have grown.\<close>

definition readmore :: "(nat \<Rightarrow> char) \<Rightarrow> stream \<Rightarrow> bytes \<Rightarrow> nat \<Rightarrow> nat option \<times> bytes \<times> stream" where
  "readmore junk st bp off =
     (let bp = (if off \<ge> length bp then bp @ map junk [length bp..<length bp + IOBUFSZ] else bp) in
      case tread st (length bp - off) of
        (Inl e, st) \<Rightarrow> (None, bp, st)
      | (Inr b, st) \<Rightarrow> if b = [] then (None, bp, st) else (Some (off + length b), take off bp @ b @ drop (off + length b) bp, st))"

text \<open>\<open>while (P( *cp)) cp++\<close>\<close>

definition scan_while :: "(char \<Rightarrow> bool) \<Rightarrow> bytes \<Rightarrow> nat \<Rightarrow> nat res" where
  "scan_while Q bp cp = (let j = cp + length (takeWhile Q (drop cp bp)) in if j < length bp then Inr j else Inl (Overrun ''bp''))"

definition lower :: "char \<Rightarrow> char" where
  "lower c = (if (65::nat) \<le> of_char c \<and> of_char c \<le> (90::nat) then char_of (of_char c + (32::nat)) else c)"

primrec strncasecmp :: "string \<Rightarrow> bytes \<Rightarrow> nat \<Rightarrow> bool res" where
  "strncasecmp [] bp i = Inr True"
| "strncasecmp (c # cs) bp i =
     (if \<not> i < length bp then Inl (Overrun ''bp'')
      else if lower (bp ! i) = lower c then strncasecmp cs bp (Suc i) else Inr False)"

text \<open>The search for a \<open>C\<close>; the character is looked at before the bound.\<close>

definition seek_c :: "bytes \<Rightarrow> nat \<Rightarrow> nat \<Rightarrow> nat res" where
  "seek_c bp nr i =
     (let j = (if i < nr then min nr (i + length (takeWhile (\<lambda>c. c \<noteq> CHR ''C'' \<and> c \<noteq> CHR ''c'') (drop i bp))) else i) in
      if j < length bp then Inr j else Inl (Overrun ''bp''))"

text \<open>Where the parser stands: the buffer, the end of the data, the position, the input.  \<open>None\<close>: no more data.\<close>

record pstate =
  p_bp :: bytes
  p_nr :: nat
  p_i :: nat
  p_in :: stream

definition need_more :: "(nat \<Rightarrow> char) \<Rightarrow> pstate \<Rightarrow> pstate option" where
  "need_more junk p = (if p_i p \<ge> p_nr p
     then (case readmore junk (p_in p) (p_bp p) (p_i p) of
         (None, bp, st) \<Rightarrow> None
       | (Some nr, bp, st) \<Rightarrow> Some (p\<lparr>p_bp := bp, p_nr := nr, p_in := st\<rparr>))
     else Some p)"

primrec find_length :: "nat \<Rightarrow> (nat \<Rightarrow> char) \<Rightarrow> pstate \<Rightarrow> (int \<times> pstate) option res" where
  "find_length 0 junk p = Inl Loops"
| "find_length (Suc fuel) junk p =
     res_bind (seek_c (p_bp p) (p_nr p) (p_i p)) (\<lambda>i. case need_more junk (p\<lparr>p_i := i\<rparr>) of
       None \<Rightarrow> Inr None
     | Some p \<Rightarrow>
         res_bind (strncasecmp ''Content-Length:'' (p_bp p) (p_i p)) (\<lambda>eq.
         if eq
         then res_bind (scan_while isspace (p_bp p) (p_i p + 15)) (\<lambda>cl.
           res_bind (scan_while isdigit (p_bp p) cl) (\<lambda>cp.
           let bp = (p_bp p)[cp := NUL] in
           Inr (Some (atol (cstr (drop cl bp)), p\<lparr>p_bp := bp, p_i := cp + 1\<rparr>))))
         else find_length fuel junk (p\<lparr>p_i := p_i p + 1\<rparr>)))"

text \<open>The position of the empty line from \<open>i\<close> on that lies in the data, or where the search stops.\<close>

primrec seek_end :: "nat \<Rightarrow> bytes \<Rightarrow> nat \<Rightarrow> nat \<Rightarrow> bool \<times> nat" where
  "seek_end 0 bp nr i = (False, i)"
| "seek_end (Suc fuel) bp nr i =
     (if i + 2 < nr
      then (if bp ! i = NL \<and> bp ! (i + 1) = CR \<and> bp ! (i + 2) = NL then (True, i + 3) else seek_end fuel bp nr (i + 1))
      else (False, i))"

primrec find_end :: "nat \<Rightarrow> (nat \<Rightarrow> char) \<Rightarrow> pstate \<Rightarrow> pstate option res" where
  "find_end 0 junk p = Inl Loops"
| "find_end (Suc fuel) junk p =
     (let (found, i) = seek_end (p_nr p) (p_bp p) (p_nr p) (p_i p) in
      case need_more junk (p\<lparr>p_i := i\<rparr>) of
        None \<Rightarrow> Inr None
      | Some p \<Rightarrow> if found then Inr (Some p) else find_end fuel junk p)"

text \<open>Behind the HTTP header: the rest of the body is read to where the body starts.\<close>

definition ipp_status :: "(nat \<Rightarrow> char) \<Rightarrow> jobid \<Rightarrow> int \<Rightarrow> pstate \<Rightarrow> bool res" where
  "ipp_status junk jobid len p =
     (let finish = (\<lambda>bp. if \<not> p_i p + 8 \<le> length bp then Inl (Overrun ''hp'')
         else Inr (int (un_be (seg bp (p_i p + 4) 4)) = sint jobid \<and> STATCLASS_OK (un_be (seg bp (p_i p + 2) 2)))) in
      if int (p_nr p) - int (p_i p) < len
      then (case readmore junk (p_in p) (p_bp p) (p_i p) of
          (None, bp, st) \<Rightarrow> Inr False
        | (Some nr, bp, st) \<Rightarrow> finish bp)
      else finish (p_bp p))"

definition parse_answer :: "nat \<Rightarrow> (nat \<Rightarrow> char) \<Rightarrow> jobid \<Rightarrow> pstate \<Rightarrow> bool res" where
  "parse_answer fuel junk jobid p =
     res_bind (find_length fuel junk p) (\<lambda>x. case x of
       None \<Rightarrow> Inr False
     | Some (len, p) \<Rightarrow> (case need_more junk p of
         None \<Rightarrow> Inr False
       | Some p \<Rightarrow> res_bind (find_end fuel junk p) (\<lambda>y. case y of
           None \<Rightarrow> Inr False
         | Some p \<Rightarrow> ipp_status junk jobid len p)))"

primrec status_loop :: "nat \<Rightarrow> (nat \<Rightarrow> char) \<Rightarrow> jobid \<Rightarrow> bytes \<Rightarrow> stream \<Rightarrow> bool res" where
  "status_loop 0 junk jobid bp st = Inl Loops"
| "status_loop (Suc fuel) junk jobid bp st = (case tread st IOBUFSZ of
     (Inl e, st) \<Rightarrow> Inr False
   | (Inr b, st) \<Rightarrow>
       if b = [] then Inr False
       else
         let bp = b @ drop (length b) bp; nr = length b in
         res_bind (scan_while isspace bp 8) (\<lambda>statcode.
         res_bind (scan_while isdigit bp statcode) (\<lambda>cp.
         if cp = statcode then status_loop fuel junk jobid bp st
         else
           let bp = bp[cp := NUL] in
           res_bind (scan_while (\<lambda>c. c \<noteq> CR \<and> c \<noteq> NL) bp (cp + 1)) (\<lambda>q.
           let bp = bp[q := NUL]; code = atol (cstr (drop statcode bp)) in
           if HTTP_INFO code then status_loop fuel junk jobid bp st
           else if \<not> HTTP_SUCCESS code then (if nr < length bp then Inr False else Inl (Overrun ''bp''))
           else parse_answer fuel junk jobid \<lparr>p_bp = bp, p_nr = nr, p_i = q, p_in = st\<rparr>))))"

definition printer_status :: "nat \<Rightarrow> (nat \<Rightarrow> char) \<Rightarrow> jobid \<Rightarrow> stream \<Rightarrow> bool res" where
  "printer_status fuel junk jobid st = status_loop fuel junk jobid (map junk [0..<IOBUFSZ]) st"

section \<open>Searching a buffer\<close>

lemma scan_while_at:
  assumes "\<forall>c \<in> set ys. Q c" "\<not> Q c"
  shows "scan_while Q (xs @ ys @ c # zs) (length xs) = Inr (length xs + length ys)"
  using assms by (simp add: scan_while_def Let_def takeWhile_append2)

lemma seek_c_at:
  assumes "\<forall>c \<in> set ys. c \<noteq> CHR ''C'' \<and> c \<noteq> CHR ''c''" "c = CHR ''C'' \<or> c = CHR ''c''" "length xs + length ys < nr"
  shows "seek_c (xs @ ys @ c # zs) nr (length xs) = Inr (length xs + length ys)"
proof -
  have "takeWhile (\<lambda>c. c \<noteq> CHR ''C'' \<and> c \<noteq> CHR ''c'') (ys @ c # zs) = ys"
    using assms(1,2) by (auto simp: takeWhile_append2)
  then show ?thesis using assms(3) by (simp add: seek_c_def Let_def)
qed

lemma strncasecmp_at: "strncasecmp ys (xs @ ys @ zs) (length xs) = Inr True"
proof (induction ys arbitrary: xs)
  case Nil
  then show ?case by simp
next
  case (Cons y ys)
  from Cons.IH [of "xs @ [y]"] show ?case by simp
qed

lemma update_at: "(xs @ c # zs)[length xs := d] = xs @ d # zs"
  by simp

section \<open>A complete answer\<close>

text \<open>
  An answer as printers give it: status line, header lines with no \<open>C\<close> in them, the length,
  an empty line and the body.
\<close>

definition answer_head :: "string \<Rightarrow> nat \<Rightarrow> string \<Rightarrow> string \<Rightarrow> nat \<Rightarrow> bytes" where
  "answer_head ver code reason hdrs len =
     ver @ '' '' @ dec code @ '' '' @ reason @ CRLF @ hdrs @ ''Content-Length:'' @ '' '' @ dec len @ [CR]"

definition answer :: "string \<Rightarrow> nat \<Rightarrow> string \<Rightarrow> string \<Rightarrow> bytes \<Rightarrow> bytes" where
  "answer ver code reason hdrs body = answer_head ver code reason hdrs (length body) @ [NL, CR, NL] @ body"

definition proper_head :: "string \<Rightarrow> nat \<Rightarrow> string \<Rightarrow> string \<Rightarrow> bool" where
  "proper_head ver code reason hdrs \<longleftrightarrow> length ver = 8 \<and> 200 \<le> code \<and> code \<le> 299 \<and> CR \<notin> set reason \<and> NL \<notin> set reason \<and>
     CHR ''C'' \<notin> set hdrs \<and> CHR ''c'' \<notin> set hdrs"

lemma dec_first: "\<exists>d ds. dec n = d # ds \<and> isdigit d \<and> \<not> isspace d"
proof -
  obtain d ds where d: "dec n = d # ds" by (cases "dec n") auto
  then obtain e where "e < 10" "d = digit e" using set_dec [of d n] by auto
  then show ?thesis using d isdigit_digit not_isspace_digit by auto
qed

lemma dec_digits: "\<forall>c \<in> set (dec n). isdigit c"
  using dec_isdigit by blast

lemma not_digit: "\<not> isdigit CR" "\<not> isdigit (CHR '' '')" "isspace (CHR '' '')"
  by (simp_all add: isdigit_def isspace_def CR_def)

text \<open>The length line, found from the end of the status line on.\<close>

lemma scan_while_pos:
  assumes "bp = xs @ ys @ c # zs" "i = length xs" "\<forall>c \<in> set ys. Q c" "\<not> Q c" "j = i + length ys"
  shows "scan_while Q bp i = Inr j"
  using scan_while_at [of ys Q c xs zs] assms by simp

lemma find_length_answer:
  assumes bp: "bp = pre @ ([NUL, NL] @ hdrs) @ ''Content-Length:'' @ '' '' @ dec len @ CR # tail"
    and h: "\<forall>c \<in> set hdrs. c \<noteq> CHR ''C'' \<and> c \<noteq> CHR ''c''" and nr: "length pre + length hdrs + 2 < nr"
  shows "find_length (Suc fuel) junk \<lparr>p_bp = bp, p_nr = nr, p_i = length pre, p_in = st\<rparr> =
    Inr (Some (int len, \<lparr>p_bp = pre @ ([NUL, NL] @ hdrs) @ ''Content-Length:'' @ '' '' @ dec len @ NUL # tail, p_nr = nr,
      p_i = length pre + length hdrs + 18 + length (dec len) + 1, p_in = st\<rparr>))"
proof -
  define cl where "cl = ''Content-Length:''"
  define ys where "ys = [NUL, NL] @ hdrs"
  have lc: "length cl = 15" and ly: "length ys = length hdrs + 2" by (simp_all add: cl_def ys_def)
  have bp': "bp = pre @ ys @ cl @ '' '' @ dec len @ CR # tail" unfolding bp cl_def ys_def ..
  define i where "i = length pre + length ys"
  have hy: "\<forall>c \<in> set ys. c \<noteq> CHR ''C'' \<and> c \<noteq> CHR ''c''" using h by (simp add: ys_def)
  have s: "seek_c bp nr (length pre) = Inr i"
    using seek_c_at [of ys "CHR ''C''" pre nr "tl cl @ '' '' @ dec len @ CR # tail"] hy nr
    by (simp add: bp' i_def ly cl_def)
  have nm: "need_more junk \<lparr>p_bp = bp, p_nr = nr, p_i = i, p_in = st\<rparr> = Some \<lparr>p_bp = bp, p_nr = nr, p_i = i, p_in = st\<rparr>"
    using nr by (simp add: need_more_def i_def ly)
  have e: "strncasecmp cl bp i = Inr True"
    using strncasecmp_at [of cl "pre @ ys" "'' '' @ dec len @ CR # tail"] by (simp add: bp' i_def)
  obtain d ds where d: "dec len = d # ds" "isdigit d" "\<not> isspace d" using dec_first by blast
  have w1: "scan_while isspace bp (i + 15) = Inr (i + 16)"
    by (rule scan_while_pos [where xs = "pre @ ys @ cl" and ys = "'' ''" and c = d])
      (use d not_digit in \<open>simp_all add: bp' i_def lc\<close>)
  have w2: "scan_while isdigit bp (i + 16) = Inr (i + 16 + length (dec len))"
    by (rule scan_while_pos [where xs = "pre @ ys @ cl @ '' ''" and ys = "dec len" and c = CR])
      (use dec_digits not_digit in \<open>simp_all add: bp' i_def lc\<close>)
  have l16: "i + 16 = length (pre @ ys @ cl @ '' '')" and l17: "i + 16 + length (dec len) = length (pre @ ys @ cl @ '' '' @ dec len)"
    by (simp_all add: i_def lc)
  have u: "bp[i + 16 + length (dec len) := NUL] = pre @ ys @ cl @ '' '' @ dec len @ NUL # tail"
    unfolding l17 using update_at [of "pre @ ys @ cl @ '' '' @ dec len" CR tail NUL] by (simp add: bp')
  have dr: "drop (i + 16) (pre @ ys @ cl @ '' '' @ dec len @ NUL # tail) = dec len @ NUL # tail"
    unfolding l16 by simp
  have a: "atol (cstr (drop (i + 16) (pre @ ys @ cl @ '' '' @ dec len @ NUL # tail))) = int len"
    unfolding dr using cstr_append_NUL [of "dec len" tail] by simp
  have "find_length (Suc fuel) junk \<lparr>p_bp = bp, p_nr = nr, p_i = length pre, p_in = st\<rparr> =
    Inr (Some (int len, \<lparr>p_bp = pre @ ys @ cl @ '' '' @ dec len @ NUL # tail, p_nr = nr, p_i = i + 16 + length (dec len) + 1, p_in = st\<rparr>))"
    using s nm e w1 w2 u a unfolding cl_def by (simp only: find_length.simps res_bind_simps pstate.simps pstate.select_convs pstate.update_convs option.case if_True Let_def)
  then show ?thesis unfolding cl_def ys_def by (simp add: i_def ys_def)
qed

lemma seek_end_here:
  "0 < fuel \<Longrightarrow> length xs + 2 < nr \<Longrightarrow> seek_end fuel (xs @ NL # CR # NL # zs) nr (length xs) = (True, length xs + 3)"
  by (cases fuel) (simp_all add: nth_append)

lemma need_more_none: "p_i p < p_nr p \<Longrightarrow> need_more junk p = Some p"
  by (simp add: need_more_def)

text \<open>From the empty line on: the body is all there.\<close>

lemma body_status:
  assumes n: "nr = length xs + 3 + length body" and b: "8 \<le> length body"
    and p_def: "p = \<lparr>p_bp = xs @ NL # CR # NL # body @ rest, p_nr = nr, p_i = length xs, p_in = st\<rparr>"
  shows "need_more junk p = Some p"
    and "find_end (Suc fuel) junk p = Inr (Some (p\<lparr>p_i := length xs + 3\<rparr>))"
    and "ipp_status junk jobid (int (length body)) (p\<lparr>p_i := length xs + 3\<rparr>) =
      Inr (int (un_be (seg body 4 4)) = sint jobid \<and> STATCLASS_OK (un_be (seg body 2 2)))"
proof -
  show "need_more junk p = Some p" by (rule need_more_none) (simp add: p_def n)
  let ?bp = "xs @ NL # CR # NL # body @ rest"
  have se: "seek_end nr ?bp nr (length xs) = (True, length xs + 3)" by (rule seek_end_here) (use n b in simp_all)
  have "need_more junk (p\<lparr>p_i := length xs + 3\<rparr>) = Some (p\<lparr>p_i := length xs + 3\<rparr>)"
    by (rule need_more_none) (use b in \<open>auto simp: p_def n\<close>)
  then show "find_end (Suc fuel) junk p = Inr (Some (p\<lparr>p_i := length xs + 3\<rparr>))"
    using se by (simp add: Let_def p_def)
  have "seg ?bp (length xs + 3 + k) l = seg body k l" if "k + l \<le> length body" for k l
    using that by (simp add: seg_def numeral_3_eq_3)
  from this [of 4 4] this [of 2 2] b
  have sg: "seg ?bp (length xs + 3 + 4) 4 = seg body 4 4" "seg ?bp (length xs + 3 + 2) 2 = seg body 2 2"
    by auto
  have l: "length xs + 3 + 8 \<le> length ?bp" using b by simp
  show "ipp_status junk jobid (int (length body)) (p\<lparr>p_i := length xs + 3\<rparr>) =
      Inr (int (un_be (seg body 4 4)) = sint jobid \<and> STATCLASS_OK (un_be (seg body 2 2)))"
    unfolding ipp_status_def Let_def p_def pstate.simps sg using n l by simp
qed

lemma parse_answer_ok:
  assumes bp: "bp = pre @ ([NUL, NL] @ hdrs) @ ''Content-Length:'' @ '' '' @ dec (length body) @ CR # NL # CR # NL # body @ rest"
    and h: "\<forall>c \<in> set hdrs. c \<noteq> CHR ''C'' \<and> c \<noteq> CHR ''c''" and b: "8 \<le> length body"
    and nr: "nr = length bp - length rest"
  shows "parse_answer (Suc fuel) junk jobid \<lparr>p_bp = bp, p_nr = nr, p_i = length pre, p_in = st\<rparr> =
    Inr (int (un_be (seg body 4 4)) = sint jobid \<and> STATCLASS_OK (un_be (seg body 2 2)))"
proof -
  define xs where "xs = pre @ ([NUL, NL] @ hdrs) @ ''Content-Length:'' @ '' '' @ dec (length body) @ [NUL]"
  have lx: "length xs = length pre + length hdrs + 18 + length (dec (length body)) + 1" by (simp add: xs_def)
  have n: "nr = length xs + 3 + length body" using nr by (simp add: bp lx)
  define p where "p = \<lparr>p_bp = xs @ NL # CR # NL # body @ rest, p_nr = nr, p_i = length xs, p_in = st\<rparr>"
  have f: "find_length (Suc fuel) junk \<lparr>p_bp = bp, p_nr = nr, p_i = length pre, p_in = st\<rparr> = Inr (Some (int (length body), p))"
    using find_length_answer [OF bp h] n by (simp add: p_def lx) (simp add: xs_def)
  note bs = body_status [OF n b p_def]
  show ?thesis using bs(3) by (simp add: parse_answer_def f bs(1,2) del: find_length.simps find_end.simps)
qed

text \<open>The status line: its end and the buffer with the two null bytes put in.\<close>

lemma status_line:
  assumes bp: "bp = ver @ '' '' @ dec code @ '' '' @ reason @ CR # zs" and v: "length ver = 8" and r: "CR \<notin> set reason" "NL \<notin> set reason"
  defines "cp \<equiv> 9 + length (dec code)" and "q \<equiv> 10 + length (dec code) + length reason"
  shows "scan_while isspace bp 8 = Inr 9" "scan_while isdigit bp 9 = Inr cp"
    "scan_while (\<lambda>c. c \<noteq> CR \<and> c \<noteq> NL) (bp[cp := NUL]) (cp + 1) = Inr q"
    "bp[cp := NUL, q := NUL] = (ver @ '' '' @ dec code @ [NUL] @ reason) @ NUL # zs"
    "atol (cstr (drop 9 (bp[cp := NUL, q := NUL]))) = int code"
proof -
  obtain d ds where d: "dec code = d # ds" "isdigit d" "\<not> isspace d" using dec_first by blast
  show "scan_while isspace bp 8 = Inr 9"
    by (rule scan_while_pos [where xs = ver and ys = "'' ''" and c = d]) (use d not_digit v in \<open>simp_all add: bp\<close>)
  show "scan_while isdigit bp 9 = Inr cp"
    by (rule scan_while_pos [where xs = "ver @ '' ''" and ys = "dec code" and c = "CHR '' ''"])
      (use dec_digits not_digit v in \<open>simp_all add: bp cp_def\<close>)
  have lc: "cp = length (ver @ '' '' @ dec code)" and lq: "q = length (ver @ '' '' @ dec code @ [NUL] @ reason)"
    by (simp_all add: cp_def q_def v)
  have b1: "bp[cp := NUL] = (ver @ '' '' @ dec code @ [NUL]) @ reason @ CR # zs"
    unfolding lc using update_at [of "ver @ '' '' @ dec code" "CHR '' ''" "reason @ CR # zs" NUL] by (simp add: bp)
  show "scan_while (\<lambda>c. c \<noteq> CR \<and> c \<noteq> NL) (bp[cp := NUL]) (cp + 1) = Inr q"
    by (rule scan_while_pos [OF b1]) (use r in \<open>auto simp: cp_def q_def v\<close>)
  show b2: "bp[cp := NUL, q := NUL] = (ver @ '' '' @ dec code @ [NUL] @ reason) @ NUL # zs"
    unfolding b1 unfolding lq using update_at [of "ver @ '' '' @ dec code @ [NUL] @ reason" CR zs NUL] by simp
  have "drop (length (ver @ '' '')) ((ver @ '' '') @ dec code @ NUL # reason @ NUL # zs) = dec code @ NUL # reason @ NUL # zs"
    by (rule append_eq_conv_conj [THEN iffD1, THEN conjunct2, symmetric]) simp
  then have "drop 9 (bp[cp := NUL, q := NUL]) = dec code @ NUL # reason @ NUL # zs" unfolding b2 by (simp add: v)
  then show "atol (cstr (drop 9 (bp[cp := NUL, q := NUL]))) = int code" using cstr_append_NUL [of "dec code"] by simp
qed

lemma tread_bytes: "length b \<le> n \<Longrightarrow> tread (Bytes b # st) n = (Inr b, st)"
  by simp

text \<open>The first read brings the head and more; the parser starts at the end of the status line.\<close>

lemma status_read:
  assumes p: "proper_head ver code reason hdrs" and n: "length (answer_head ver code reason hdrs len @ tail) \<le> IOBUFSZ"
  defines "pre \<equiv> ver @ '' '' @ dec code @ [NUL] @ reason" and "a \<equiv> answer_head ver code reason hdrs len @ tail"
  shows "status_loop (Suc fuel) junk jobid bp0 (Bytes a # st) = parse_answer fuel junk jobid
    \<lparr>p_bp = pre @ ([NUL, NL] @ hdrs) @ ''Content-Length:'' @ '' '' @ dec len @ CR # tail @ drop (length a) bp0,
     p_nr = length a, p_i = length pre, p_in = st\<rparr>"
proof -
  have v: "length ver = 8" and c: "200 \<le> code" "code \<le> 299" and r: "CR \<notin> set reason" "NL \<notin> set reason"
    using p by (simp_all add: proper_head_def)
  let ?zs = "NL # hdrs @ ''Content-Length:'' @ '' '' @ dec len @ CR # tail @ drop (length a) bp0"
  define bp where "bp = a @ drop (length a) bp0"
  have bp: "bp = ver @ '' '' @ dec code @ '' '' @ reason @ CR # ?zs"
    by (simp add: bp_def a_def answer_head_def CRLF_def CR_def)
  note l = status_line [OF bp v r]
  have ne: "a \<noteq> []" using v by (auto simp: a_def answer_head_def)
  have q: "10 + length (dec code) + length reason = length pre" using v by (simp add: pre_def)
  have cn: "9 + length (dec code) \<noteq> 9" using dec_first [of code] by auto
  have i: "\<not> HTTP_INFO (int code)" "HTTP_SUCCESS (int code)" using c by (simp_all add: HTTP_INFO_def HTTP_SUCCESS_def)
  then have nn: "\<not> \<not> HTTP_SUCCESS (int code)" by simp
  have l4: "bp[9 + length (dec code) := NUL, 10 + length (dec code) + length reason := NUL] =
      pre @ ([NUL, NL] @ hdrs) @ ''Content-Length:'' @ '' '' @ dec len @ CR # tail @ drop (length a) bp0"
    using l(4) by (simp add: pre_def)
  show ?thesis
    unfolding status_loop.simps(2) tread_bytes [OF n, folded a_def] prod.case sum.case if_not_P [OF ne] Let_def bp_def [symmetric]
    unfolding l(1) res_bind_simps l(2) if_not_P [OF cn] l(3)
    unfolding l(5) unfolding if_not_P [OF i(1)] if_not_P [OF nn] unfolding l4 unfolding q ..
qed

lemma status_answer:
  assumes p: "proper_head ver code reason hdrs" and b: "8 \<le> length body"
    and n: "length (answer ver code reason hdrs body) \<le> IOBUFSZ"
  shows "status_loop (Suc (Suc fuel)) junk jobid bp0 (Bytes (answer ver code reason hdrs body) # st) =
    Inr (int (un_be (seg body 4 4)) = sint jobid \<and> STATCLASS_OK (un_be (seg body 2 2)))"
proof -
  have h: "\<forall>c \<in> set hdrs. c \<noteq> CHR ''C'' \<and> c \<noteq> CHR ''c''" using p by (auto simp: proper_head_def)
  have v: "length ver = 8" using p by (simp add: proper_head_def)
  show ?thesis
    unfolding answer_def status_read [OF p n [unfolded answer_def]]
    by (rule parse_answer_ok [OF _ h b, where rest = "drop (length (answer ver code reason hdrs body)) bp0"])
      (use v in \<open>simp_all add: answer_def answer_head_def CRLF_def\<close>)
qed

section \<open>An answer that comes in two reads\<close>

definition blank_line :: "bytes \<Rightarrow> nat \<Rightarrow> nat \<Rightarrow> bool" where
  "blank_line bp nr k \<longleftrightarrow> k + 2 < nr \<and> bp ! k = NL \<and> bp ! (k + 1) = CR \<and> bp ! (k + 2) = NL"

lemma seek_end_stuck:
  "i < nr \<Longrightarrow> (\<And>k. i \<le> k \<Longrightarrow> \<not> blank_line bp nr k) \<Longrightarrow> \<exists>j. seek_end fuel bp nr i = (False, j) \<and> i \<le> j \<and> j < nr"
proof (induction fuel arbitrary: i)
  case 0
  then show ?case by simp
next
  case (Suc fuel)
  show ?case
  proof (cases "i + 2 < nr")
    case True
    then have "\<not> (bp ! i = NL \<and> bp ! (i + 1) = CR \<and> bp ! (i + 2) = NL)" using Suc.prems(2) [of i] by (simp add: blank_line_def)
    then show ?thesis using True Suc.IH [of "i + 1"] Suc.prems(2) by (auto simp del: One_nat_def)
  next
    case False
    then show ?thesis using Suc.prems(1) by simp
  qed
qed

lemma find_end_stuck:
  "i < nr \<Longrightarrow> (\<And>k. i \<le> k \<Longrightarrow> \<not> blank_line bp nr k) \<Longrightarrow>
    find_end fuel junk \<lparr>p_bp = bp, p_nr = nr, p_i = i, p_in = st\<rparr> = Inl Loops"
proof (induction fuel arbitrary: i)
  case 0
  then show ?case by simp
next
  case (Suc fuel)
  obtain j where j: "seek_end nr bp nr i = (False, j)" "i \<le> j" "j < nr" using seek_end_stuck [OF Suc.prems] by blast
  have "find_end fuel junk \<lparr>p_bp = bp, p_nr = nr, p_i = j, p_in = st\<rparr> = Inl Loops"
    using j Suc.prems(2) by (intro Suc.IH) auto
  then show ?case using j by (simp add: need_more_def)
qed

lemma blank_line_append: "blank_line (xs @ mid @ ys) (length xs + length mid) (length xs + k) \<Longrightarrow> take 3 (drop k mid) = [NL, CR, NL]"
proof -
  assume b: "blank_line (xs @ mid @ ys) (length xs + length mid) (length xs + k)"
  then have k: "k + 2 < length mid" by (simp add: blank_line_def)
  then have "take 3 (drop k mid) = [mid ! k, mid ! (k + 1), mid ! (k + 2)]"
    by (intro nth_equalityI) (auto simp: less_Suc_eq numeral_3_eq_3 nth_Cons split: nat.splits)
  then show ?thesis using b k by (simp add: blank_line_def nth_append)
qed

lemma status_stuck:
  assumes p: "proper_head ver code reason hdrs" and n: "length (answer_head ver code reason hdrs len @ mid) \<le> IOBUFSZ"
    and m: "mid \<noteq> []" and b: "\<And>k. take 3 (drop k mid) \<noteq> [NL, CR, NL]"
  shows "status_loop fuel junk jobid bp0 (Bytes (answer_head ver code reason hdrs len @ mid) # st) = Inl Loops"
proof (cases "\<exists>f. fuel = Suc (Suc f)")
  case False
  then have "fuel = 0 \<or> fuel = Suc 0" by (cases fuel; cases "fuel - 1") auto
  then show ?thesis
  proof
    assume "fuel = Suc 0"
    then show ?thesis unfolding \<open>fuel = Suc 0\<close> status_read [OF p n] by (simp add: parse_answer_def)
  qed simp
next
  case True
  then obtain f where f: "fuel = Suc (Suc f)" by blast
  let ?a = "answer_head ver code reason hdrs len @ mid" and ?pre = "ver @ '' '' @ dec code @ [NUL] @ reason"
  define rest where "rest = drop (length ?a) bp0"
  define xs where "xs = ?pre @ ([NUL, NL] @ hdrs) @ ''Content-Length:'' @ '' '' @ dec len @ [NUL]"
  have h: "\<forall>c \<in> set hdrs. c \<noteq> CHR ''C'' \<and> c \<noteq> CHR ''c''" and v: "length ver = 8" using p by (auto simp: proper_head_def)
  have la: "length ?a = length xs + length mid" using v by (simp add: xs_def answer_head_def CRLF_def)
  have lx: "length xs = length ?pre + length hdrs + 18 + length (dec len) + 1" by (simp add: xs_def)
  let ?p = "\<lparr>p_bp = xs @ mid @ rest, p_nr = length ?a, p_i = length xs, p_in = st\<rparr>"
  have fl: "find_length (Suc f) junk \<lparr>p_bp = ?pre @ ([NUL, NL] @ hdrs) @ ''Content-Length:'' @ '' '' @ dec len @ CR # mid @ rest,
      p_nr = length ?a, p_i = length ?pre, p_in = st\<rparr> = Inr (Some (int len, ?p))"
    using find_length_answer [OF refl h, of ?pre "length ?a" f junk len "mid @ rest" st] unfolding la lx
    by (simp add: xs_def)
  have nm: "need_more junk ?p = Some ?p" using m la by (intro need_more_none) simp
  have nb: "\<not> blank_line (xs @ mid @ rest) (length ?a) k" if "length xs \<le> k" for k
    using blank_line_append [of xs mid rest "k - length xs"] b that unfolding la by auto
  have fe: "find_end (Suc f) junk ?p = Inl Loops"
    by (rule find_end_stuck) (use m la nb in auto)
  show ?thesis
    unfolding f status_read [OF p n] rest_def [symmetric] parse_answer_def fl res_bind_simps option.case prod.case nm fe ..
qed

end
