(* ===== verification/Ipp_Printer.thy ===== *)
theory Ipp_Printer
  imports Ipp_Status
begin

text \<open>
  The other threads of the print server \<open>apue2e/ipp/printd.c\<close>: the one that sends the jobs to
  the printer, the one for signals and the main thread; and the command \<open>apue2e/ipp/print.c\<close>.
\<close>

unbundle bit_operations_syntax

section \<open>The request to the printer\<close>

definition TAG_OPERATION_ATTR :: nat where "TAG_OPERATION_ATTR = 1"
definition TAG_END_OF_ATTR :: nat where "TAG_END_OF_ATTR = 3"
definition TAG_URI :: nat where "TAG_URI = 69"
definition TAG_NAMEWOLANG :: nat where "TAG_NAMEWOLANG = 66"
definition TAG_CHARSET :: nat where "TAG_CHARSET = 71"
definition TAG_NATULANG :: nat where "TAG_NATULANG = 72"
definition TAG_MIMETYPE :: nat where "TAG_MIMETYPE = 73"
definition OP_PRINT_JOB :: nat where "OP_PRINT_JOB = 2"

text \<open>What the buffer holds up to the pointer that is returned.\<close>

definition add_option :: "bytes \<Rightarrow> nat \<Rightarrow> string \<Rightarrow> string \<Rightarrow> bytes" where
  "add_option cp tag optname optval =
     cp @ [char_of tag] @ be_nat 2 (length optname) @ optname @ be_nat 2 (length optval) @ optval"

text \<open>The name in an array of the request ends at a null byte, or runs on into what is behind the array.\<close>

definition user_name :: "printreq \<Rightarrow> string res" where
  "user_name r = (if NUL \<in> set (rq_usernm r @ rq_jobnm r) then Inr (cstr (rq_usernm r @ rq_jobnm r)) else Inl (Overrun ''usernm''))"

definition job_name :: "printreq \<Rightarrow> string res" where
  "job_name r = (if NUL \<in> set (rq_jobnm r) then Inr (cstr (rq_jobnm r)) else Inl (Overrun ''jobnm''))"

definition ipp_header :: "string \<Rightarrow> jobid \<Rightarrow> printreq \<Rightarrow> bytes res" where
  "ipp_header pname jobid req =
     res_bind (user_name req) (\<lambda>user.
     res_bind (job_name req) (\<lambda>job.
     let str = ''http://'' @ pname @ '':'' @ dec IPP_PORT;
         icp = [char_of (1::nat), char_of (1::nat)] @ be_nat 2 OP_PRINT_JOB @ be_nat 4 (unat jobid);
         icp = icp @ [char_of TAG_OPERATION_ATTR];
         icp = add_option icp TAG_CHARSET ''attributes-charset'' ''utf-8'';
         icp = add_option icp TAG_NATULANG ''attributes-natural-language'' ''en-us'';
         icp = add_option icp TAG_URI ''printer-uri'' str;
         icp = add_option icp TAG_NAMEWOLANG ''requesting-user-name'' user;
         icp = add_option icp TAG_NAMEWOLANG ''job-name'' job;
         icp = (if rq_flags req AND PR_TEXT \<noteq> 0 then add_option icp TAG_MIMETYPE ''document-format'' ''text/plain''
                else add_option icp TAG_MIMETYPE ''document-format'' ''application/postscript'');
         icp = icp @ [char_of TAG_END_OF_ATTR] in
     if \<not> length str < 64 then Inl (Overrun ''str'')
     else if \<not> length icp \<le> IBUFSZ then Inl (Overrun ''ibuf'')
     else Inr icp))"

definition http_header :: "string \<Rightarrow> nat \<Rightarrow> bytes res" where
  "http_header pname len =
     (let h = ''POST /'' @ pname @ ''/ipp HTTP/1.1'' @ CRLF @ ''Content-Length: '' @ dec len @ CRLF @
           ''Content-Type: application/ipp'' @ CRLF @ ''Host: '' @ pname @ '':'' @ dec IPP_PORT @ CRLF @ CRLF in
      if \<not> length h \<le> HBUFSZ then Inl (Overrun ''hbuf'') else Inr h)"

section \<open>The printer thread\<close>

text \<open>
  The data file may fail to be read after some bytes.  \<open>pe_answer\<close> is what comes from the
  printer; \<open>pe_fuel\<close> bounds the loops of \<open>printer_status\<close>, which need not end.
\<close>

record print_env =
  pe_fstat :: bool
  pe_socket :: bool
  pe_connect :: "nat \<Rightarrow> bool"
  pe_sock :: sink
  pe_read_fails :: "nat option"
  pe_answer :: stream
  pe_junk :: "nat \<Rightarrow> char"
  pe_fuel :: nat
  pe_gai :: "hints \<Rightarrow> string \<Rightarrow> string \<Rightarrow> int + addrinfo list"
  pe_config :: "bytes option"

definition file_stream :: "nat option \<Rightarrow> bytes \<Rightarrow> stream" where
  "file_stream fails b = (case fails of None \<Rightarrow> [Bytes b]
     | Some k \<Rightarrow> if take k b = [] then [Fail EIO] else [Bytes (take k b), Fail EIO])"

text \<open>The file, block by block; a short write or an error of the read is \<open>False\<close>.\<close>

primrec send_loop :: "nat \<Rightarrow> stream \<Rightarrow> sink \<Rightarrow> (bool \<times> sink) res" where
  "send_loop 0 fd sock = Inl Loops"
| "send_loop (Suc fuel) fd sock = (case sys_read fd IOBUFSZ of
     (Inl e, fd) \<Rightarrow> Inr (False, sock)
   | (Inr b, fd) \<Rightarrow>
       if b = [] then Inr (True, sock)
       else case sys_write sock b of
         (Inl e, sock) \<Rightarrow> Inr (False, sock)
       | (Inr nw, sock) \<Rightarrow> if nw \<noteq> length b then Inr (False, sock) else send_loop fuel fd sock)"

text \<open>The request and the file go out: whether all of it went, and the socket.\<close>

definition send_job :: "print_env \<Rightarrow> printd \<Rightarrow> jobid \<Rightarrow> printreq \<Rightarrow> bytes \<Rightarrow> (bool \<times> sink) res" where
  "send_job e s jobid req data =
     res_bind (ipp_header (printer_name s) jobid req) (\<lambda>ib.
     res_bind (http_header (printer_name s) (length data + length ib)) (\<lambda>hb.
     case sys_write (pe_sock e) (hb @ ib) of
       (Inl err, sock) \<Rightarrow> Inr (False, sock)
     | (Inr nw, sock) \<Rightarrow>
         if nw \<noteq> length hb + length ib then Inr (False, sock)
         else send_loop (Suc (stream_weight (file_stream (pe_read_fails e) data))) (file_stream (pe_read_fails e) data) sock))"

text \<open>
  The loop of the thread.  A job is taken from the queue; it is done, canceled, or put back in
  front of the queue.  Other threads may run between the two parts.
\<close>

definition printer_take :: "printd \<Rightarrow> (ptr \<times> printd) res" where
  "printer_take s = (let jp = jobhead (jobq s) in
     if jp = 0 then Inl (Blocked ''jobwait'') else Inr (jp, s\<lparr>jobq := remove_job (jobq s) jp\<rparr>))"

definition put_back :: "printd \<Rightarrow> ptr \<Rightarrow> sink \<Rightarrow> printd \<times> sink" where
  "put_back s jp sock = (s\<lparr>jobq := replace_job (jobq s) jp\<rparr>, sock)"

definition printer_job :: "print_env \<Rightarrow> ptr \<Rightarrow> printd \<Rightarrow> (printd \<times> sink) res" where
  "printer_job e jp s =
     (let jobid = j_jobid (jobq s) jp; req = j_req (jobq s) jp; s = update_jobno s in
      res_bind (if reread s then init_printer (pe_gai e) (pe_config e) (s\<lparr>reread := False\<rparr>) else Inr s) (\<lambda>s.
      let name = spool_name DATADIR jobid in
      case files s name of
        None \<Rightarrow> Inr (s, pe_sock e)
      | Some data \<Rightarrow>
          if \<not> pe_fstat e then Inr (s, pe_sock e)
          else if \<not> pe_socket e then Inr (put_back s jp (pe_sock e))
          else res_bind (connect_retry (pe_connect e)) (\<lambda>(r, slept).
            if r < 0 then Inr (put_back s jp (pe_sock e))
            else res_bind (send_job e s jobid req data) (\<lambda>(ok, sock).
              if \<not> ok then Inr (put_back s jp sock)
              else res_bind (printer_status (pe_fuel e) (pe_junk e) jobid (pe_answer e)) (\<lambda>success.
                if success then Inr (s\<lparr>files := (files s)(name := None, spool_name REQDIR jobid := None)\<rparr>, sock)
                else Inr (put_back s jp sock))))))"

definition printer_turn :: "print_env \<Rightarrow> printd \<Rightarrow> (printd \<times> sink) res" where
  "printer_turn e s = res_bind (printer_take s) (\<lambda>(jp, s). printer_job e jp s)"

section \<open>Signals\<close>

text \<open>\<open>None\<close>: \<open>sigwait\<close> failed.\<close>

datatype sig_out = Goes_on printd | Kills "nat list" halt

definition signal_turn :: "nat \<Rightarrow> workers \<Rightarrow> printd \<Rightarrow> string option \<Rightarrow> sig_out res" where
  "signal_turn fuel w s sig = (case sig of
     None \<Rightarrow> Inl (Err_quit ''sigwait failed'')
   | Some signo \<Rightarrow>
       if signo = ''SIGHUP'' then Inr (Goes_on (s\<lparr>reread := True\<rparr>))
       else res_bind (kill_workers fuel w) (\<lambda>tids.
         Inr (Kills tids (if signo = ''SIGTERM'' then Exit_with 0 else Err_quit ''unexpected signal''))))"

section \<open>The main thread\<close>

record main_env =
  me_sigaction :: bool
  me_sigmask :: bool
  me_locked :: bool
  me_jobno :: "int + bytes"
  me_junk :: bytes
  me_gai :: "hints \<Rightarrow> string \<Rightarrow> string \<Rightarrow> int + addrinfo list"
  me_config :: "bytes option"
  me_malloc :: bool
  me_host :: "string option"
  me_initserver :: "addrinfo \<Rightarrow> int"
  me_lp_uid :: "nat option"
  me_setuid :: bool
  me_mem :: "nat \<Rightarrow> ptr"
  me_reqdir :: "string list"

text \<open>The descriptors to wait on and the largest of them.\<close>

primrec rendezvous :: "(addrinfo \<Rightarrow> int) \<Rightarrow> addrinfo list \<Rightarrow> int list \<Rightarrow> int \<Rightarrow> int list \<times> int" where
  "rendezvous srv [] fds maxfd = (fds, maxfd)"
| "rendezvous srv (a # as) fds maxfd = (let sockfd = srv a in
     if sockfd \<ge> 0 then rendezvous srv as (fds @ [sockfd]) (if sockfd > maxfd then sockfd else maxfd)
     else rendezvous srv as fds maxfd)"

text \<open>Up to the loop of the main thread.\<close>

definition printd_start :: "main_env \<Rightarrow> nat \<Rightarrow> printd \<Rightarrow> (printd \<times> int list \<times> int) res" where
  "printd_start e argc s =
     (if argc \<noteq> 1 then Inl (Err_quit ''usage: printd'')
      else if \<not> me_sigaction e then Inl (Err_sys ''sigaction failed'')
      else if \<not> me_sigmask e then Inl (Err_sys ''pthread_sigmask failed'')
      else res_bind (init_request (me_locked e) (me_jobno e) (me_junk e) s) (\<lambda>s.
        res_bind (init_printer (me_gai e) (me_config e) s) (\<lambda>s.
        if \<not> me_malloc e then Inl (Err_sys ''malloc error'')
        else case me_host e of
          None \<Rightarrow> Inl (Err_sys ''gethostname error'')
        | Some host \<Rightarrow> (case getaddrlist (me_gai e) host ''print'' of
            Inl err \<Rightarrow> Inl (Err_quit ''getaddrinfo error'')
          | Inr ailist \<Rightarrow>
              let (fds, maxfd) = rendezvous (me_initserver e) ailist [] (-1) in
              if maxfd = -1 then Inl (Err_quit ''service not enabled'')
              else case me_lp_uid e of
                None \<Rightarrow> Inl (Err_sys ''can't find user lp'')
              | Some uid \<Rightarrow>
                  if uid = 0 then Inl (Err_quit ''user lp is privileged'')
                  else if \<not> me_setuid e then Inl (Err_sys ''can't change IDs to user lp'')
                  else res_bind (build_qonstart (me_mem e) 0 (me_reqdir e) s) (\<lambda>s. Inr (s, fds, maxfd))))))"

text \<open>
  One turn of the loop: the sockets handed to new client threads, for the descriptors in the
  set that \<open>select\<close> returns.  A failed \<open>accept\<close> is logged, and its -1 is handed on as well.
\<close>

definition accept_turn :: "int list option \<Rightarrow> (int \<Rightarrow> int) \<Rightarrow> int \<Rightarrow> int list res" where
  "accept_turn rset accept maxfd = (case rset of
     None \<Rightarrow> Inl (Err_sys ''select failed'')
   | Some r \<Rightarrow> Inr (map accept (filter (\<lambda>i. i \<in> set r) [0..maxfd])))"

section \<open>The client command\<close>

record print_in =
  pi_user :: "string option"
  pi_file :: stream
  pi_sock :: sink
  pi_resp :: stream
  pi_req :: printreq

text \<open>A long name keeps its end: four characters and the last \<open>JOBNM_MAX - 5\<close> of the name.\<close>

definition job_title :: "bytes \<Rightarrow> string \<Rightarrow> bytes res" where
  "job_title jobnm fname =
     (if length fname \<ge> JOBNM_MAX
      then strcpy jobnm (''... '' @ take (JOBNM_MAX - 5) (drop (length fname - JOBNM_MAX + 5) fname))
      else strcpy jobnm fname)"

text \<open>The loop that sends the file ends only with a read of 0; an error of the read is a length of -1 for \<open>writen\<close>.\<close>

primrec submit_loop :: "nat \<Rightarrow> stream \<Rightarrow> sink \<Rightarrow> sink res" where
  "submit_loop 0 fd sock = Inl Loops"
| "submit_loop (Suc fuel) fd sock = (case sys_read fd IOBUFSZ of
     (Inl e, fd) \<Rightarrow> Inl (Overrun ''writen'')
   | (Inr b, fd) \<Rightarrow>
       if b = [] then Inr sock
       else res_bind (writen sock b) (\<lambda>(nw, sock).
         if nw \<noteq> int (length b) then (if nw < 0 then Inl (Err_sys ''can't write to print server'') else Inl (Err_quit ''short write''))
         else submit_loop fuel fd sock))"

text \<open>What is sent, and what is printed: the text of a rejection, or the number of the job.\<close>

definition submit_file :: "print_in \<Rightarrow> string \<Rightarrow> nat \<Rightarrow> bool \<Rightarrow> (sink \<times> (string + nat)) res" where
  "submit_file i fname nbytes is_text =
     res_bind (strcpy (rq_usernm (pi_req i)) (case pi_user i of None \<Rightarrow> ''unknown'' | Some u \<Rightarrow> u)) (\<lambda>user.
     res_bind (job_title (rq_jobnm (pi_req i)) fname) (\<lambda>job.
     let req = \<lparr>rq_size = htonl nbytes, rq_flags = (if is_text then htonl PR_TEXT else 0), rq_usernm = user, rq_jobnm = job\<rparr> in
     res_bind (writen (pi_sock i) (enc_req req)) (\<lambda>(nw, sock).
     if nw \<noteq> int sizeof_printreq
     then (if nw < 0 then Inl (Err_sys ''can't write to print server'') else Inl (Err_quit ''short write''))
     else res_bind (submit_loop (Suc (stream_weight (pi_file i))) (pi_file i) sock) (\<lambda>sock.
     res_bind (readn (pi_resp i) sizeof_printresp) (\<lambda>((nr, b), st).
     if nr \<noteq> int sizeof_printresp then Inl (Err_sys ''can't read response from server'')
     else if rs_retcode (dec_resp b) \<noteq> 0 then Inr (sock, Inl (cstr (rs_msg (dec_resp b))))
     else Inr (sock, Inr (ntohl (rs_jobid (dec_resp b)))))))))"

text \<open>
  The options as \<open>getopt\<close> returns them and the index of the first other argument.  The file
  named there is opened, but the name that is submitted is that of the first argument.
\<close>

record print_sys =
  ps_open :: "string \<Rightarrow> bool"
  ps_fstat :: bool
  ps_isreg :: bool
  ps_size :: nat
  ps_config :: "bytes option"
  ps_gai :: "hints \<Rightarrow> string \<Rightarrow> string \<Rightarrow> int + addrinfo list"
  ps_reach :: "addrinfo \<Rightarrow> bool"

definition print_main :: "print_sys \<Rightarrow> print_in \<Rightarrow> string list \<Rightarrow> char list \<Rightarrow> nat \<Rightarrow> (sink \<times> (string + nat)) res" where
  "print_main p i argv opts optind =
     (if CHR ''?'' \<in> set opts \<or> optind + 1 \<noteq> length argv then Inl (Err_quit ''usage: print [-t] filename'')
      else if \<not> ps_open p (argv ! optind) then Inl (Err_sys ''print: can't open'')
      else if \<not> ps_fstat p then Inl (Err_sys ''print: can't stat'')
      else if \<not> ps_isreg p then Inl (Err_quit ''print: must be a regular file'')
      else res_bind (get_printserver (ps_config p)) (\<lambda>host. case host of
        None \<Rightarrow> Inl (Err_quit ''print: no print server defined'')
      | Some h \<Rightarrow> (case getaddrlist (ps_gai p) h ''print'' of
          Inl err \<Rightarrow> Inl (Err_quit ''print: getaddrinfo error'')
        | Inr l \<Rightarrow>
            if \<exists>a \<in> set l. ps_reach p a then submit_file i (argv ! 1) (ps_size p) (CHR ''t'' \<in> set opts)
            else Inl (Exit_with 1))))"

end
