(* ===== verification/Ipp_Facts.thy ===== *)
theory Ipp_Facts
  imports Ipp_Printer
begin

text \<open>
  What one run of the thread of a client and one job of the printer thread do, on every
  branch; the names of the spool files; the encoding of requests.
\<close>

unbundle bit_operations_syntax

section \<open>Names and requests\<close>

lemma dec_inj [simp]: "dec m = dec n \<longleftrightarrow> m = n"
  by (metis digits_val_dec)

lemma minus_dec [simp]: "CHR ''-'' # ds \<noteq> dec n" "dec n \<noteq> CHR ''-'' # ds"
proof -
  have "CHR ''-'' # ds \<noteq> dec n"
  proof
    assume "CHR ''-'' # ds = dec n"
    then have "isdigit (CHR ''-'')" using dec_digits [of n] by (metis list.set_intros(1))
    then show False by (simp add: isdigit_def)
  qed
  then show "CHR ''-'' # ds \<noteq> dec n" "dec n \<noteq> CHR ''-'' # ds" by auto
qed

lemma dec_int_inj [simp]: "dec_int i = dec_int j \<longleftrightarrow> i = j"
  by (auto simp: dec_int_def)

lemma atol_dec_int: "0 \<le> i \<Longrightarrow> atol (dec_int i) = i"
  by (simp add: dec_int_def)

lemma spool_name_inj [simp]: "spool_name dir i = spool_name dir j \<longleftrightarrow> i = j"
  by (auto simp: spool_name_def dest: arg_cong [where f = "word_of_int :: int \<Rightarrow> jobid"])

lemma spool_dirs [simp]: "spool_name DATADIR i \<noteq> spool_name REQDIR j" "spool_name REQDIR i \<noteq> spool_name DATADIR j"
  by (simp_all add: spool_name_def SPOOLDIR_def DATADIR_def REQDIR_def)

lemma length_dec_jobid: "0 \<le> sint (i :: jobid) \<Longrightarrow> length (dec_int (sint i)) \<le> 19"
proof -
  assume "0 \<le> sint i"
  moreover have "sint i < 2 ^ 63" using sint_lt [of i] by simp
  ultimately have "nat (sint i) < 10 ^ 19" by simp
  then show ?thesis using length_dec_le [of "nat (sint i)" 19] \<open>0 \<le> sint i\<close> by (simp add: dec_int_def)
qed

text \<open>The bytes of a request that came as bytes of the right length.\<close>

definition req_fits :: "printreq \<Rightarrow> bool" where
  "req_fits r \<longleftrightarrow> rq_size r < 2 ^ 64 \<and> rq_flags r < 2 ^ 64 \<and> length (rq_usernm r) = USERNM_MAX \<and> length (rq_jobnm r) = JOBNM_MAX"

lemma length_enc_req: "req_fits r \<Longrightarrow> length (enc_req r) = sizeof_printreq"
  by (simp add: req_fits_def enc_req_def sizeof_printreq_def)

lemma dec_enc_req:
  assumes "req_fits r"
  shows "dec_req (enc_req r) = r"
proof -
  have l: "rq_size r < 2 ^ 64" "rq_flags r < 2 ^ 64" "length (rq_usernm r) = USERNM_MAX" "length (rq_jobnm r) = JOBNM_MAX"
    using assms by (simp_all add: req_fits_def)
  define a b where "a = le_nat 8 (rq_size r)" and "b = le_nat 8 (rq_flags r)"
  have ab: "length a = 8" "length b = 8" "un_le a = rq_size r" "un_le b = rq_flags r" using l by (simp_all add: a_def b_def)
  have "enc_req r = a @ b @ rq_usernm r @ rq_jobnm r" by (simp add: enc_req_def a_def b_def)
  then show ?thesis using ab l by (simp add: dec_req_def seg_def USERNM_MAX_def JOBNM_MAX_def)
qed

lemma dec_req_fits:
  assumes "length b = sizeof_printreq"
  shows "req_fits (dec_req b)"
proof -
  have "256 ^ 8 = (2 :: nat) ^ 64" by simp
  then show ?thesis
    using assms un_le_less [of "seg b 0 8"] un_le_less [of "seg b 8 8"]
    by (simp add: req_fits_def dec_req_def sizeof_printreq_def USERNM_MAX_def JOBNM_MAX_def seg_def)
qed

text \<open>The request as the server keeps it: sizes in the order of the machine.\<close>

definition host_req :: "bytes \<Rightarrow> nat \<Rightarrow> printreq" where
  "host_req b flags = (dec_req b)\<lparr>rq_size := ntohl (rq_size (dec_req b)), rq_flags := flags\<rparr>"

lemma host_req_fits: "length b = sizeof_printreq \<Longrightarrow> flags < 2 ^ 64 \<Longrightarrow> req_fits (host_req b flags)"
  using dec_req_fits [of b] ntohl_less [of "rq_size (dec_req b)"] by (simp add: req_fits_def host_req_def)

lemma or_1_less: "n < 2 ^ 32 \<Longrightarrow> n OR PR_TEXT < (2 :: nat) ^ 64"
proof -
  assume n: "n < 2 ^ 32"
  have "n OR 1 \<le> n + 1" unfolding or_one_eq by simp
  also have "\<dots> < 2 ^ 64" using n by simp
  finally show ?thesis unfolding PR_TEXT_def .
qed

section \<open>The thread of a client\<close>

lemma spool_loop_spec:
  assumes "stream_weight st < fuel"
  shows "(\<exists>err. spool_loop fuel st fd buf first flags = Inr (Short err)) \<or>
    (\<exists>flags' fd'. spool_loop fuel st fd buf first flags = Inr (Spooled flags' fd') \<and> sent fd' = sent fd @ pending_timed st \<and>
       (flags' = flags \<or> first \<and> flags' = flags OR PR_TEXT))"
  using assms
proof (induction fuel arbitrary: st fd buf first flags)
  case 0
  then show ?case by simp
next
  case (Suc fuel)
  obtain x st1 where x: "tread st IOBUFSZ = (x, st1)" by (cases "tread st IOBUFSZ")
  have io: "0 < IOBUFSZ" by (simp add: IOBUFSZ_def)
  note t = tread_cases [OF x io]
  show ?case
  proof (cases x)
    case (Inl e)
    then show ?thesis using x t by simp
  next
    case (Inr b)
    show ?thesis
    proof (cases "b = []")
      case True
      then show ?thesis using x t Inr by simp
    next
      case False
      then have b: "stream_weight st1 < fuel" "pending_timed st = b @ pending_timed st1" using t Inr Suc.prems by auto
      define buf' flags' where "buf' = b @ drop (length b) buf"
        and "flags' = (if first \<and> take 4 buf' \<noteq> ''%!PS'' then flags OR PR_TEXT else flags)"
      obtain y fd1 where y: "sys_write fd b = (y, fd1)" by (cases "sys_write fd b")
      have step: "spool_loop (Suc fuel) st fd buf first flags = (case y of Inl e \<Rightarrow> Inr (Short e)
          | Inr nw \<Rightarrow> if nw \<noteq> length b then Inr (Short EIO) else spool_loop fuel st1 fd1 buf' False flags')"
        using x y Inr False by (simp add: buf'_def flags'_def Let_def split: sum.splits)
      show ?thesis
      proof (cases "y = Inr (length b)")
        case False
        then show ?thesis unfolding step by (auto split: sum.splits)
      next
        case True
        then have "sent fd1 = sent fd @ b" using wrs.wr_some [of fd b "length b" fd1] y by simp
        then show ?thesis using Suc.IH [OF b(1), of fd1 buf' False flags'] b(2) True unfolding step flags'_def
          by auto
      qed
    qed
  qed
qed

text \<open>The names of the spool files of the next job, and the request with what is known of its flags.\<close>

definition spooled_as :: "printd \<Rightarrow> jobid \<Rightarrow> bytes \<Rightarrow> printreq \<Rightarrow> string \<Rightarrow> bytes option" where
  "spooled_as s jobid data req = (files s)(spool_name DATADIR jobid \<mapsto> data, spool_name REQDIR jobid \<mapsto> enc_req req)"

definition accepted :: "client_env \<Rightarrow> printd \<Rightarrow> client_out \<Rightarrow> bool" where
  "accepted e s out \<longleftrightarrow> (\<exists>flags k m.
     let input = pending_timed (cl_in e); hdr = take sizeof_printreq input; req = host_req hdr flags; jobid = nextjob s;
         t = co_state out in
     sizeof_printreq \<le> length input \<and>
     (flags = ntohl (rq_flags (dec_req hdr)) \<or> flags = ntohl (rq_flags (dec_req hdr)) OR PR_TEXT) \<and>
     files t = spooled_as s jobid (drop sizeof_printreq input) req \<and>
     add_job (cl_jp e) (jobq s) req jobid = Inr (jobq t) \<and> nextjob t = nextjob (snd (get_newjobno s)) \<and>
     sent (co_sock out) = sent (cl_out e) @ take k (enc_resp \<lparr>rs_retcode = 0, rs_jobid = htonl (unat jobid), rs_msg = m\<rparr>) \<and>
     cstr m = ''request ID '' @ dec_int (sint jobid))"

definition rejected :: "client_env \<Rightarrow> printd \<Rightarrow> client_out \<Rightarrow> bool" where
  "rejected e s out \<longleftrightarrow> (let t = co_state out in
     jobq t = jobq s \<and> (nextjob t = nextjob s \<or> nextjob t = nextjob (snd (get_newjobno s))) \<and>
     (\<forall>f. files t f = files s f \<or> files t f = None \<and> (f = spool_name DATADIR (nextjob s) \<or> f = spool_name REQDIR (nextjob s))))"

lemma get_newjobno_eq: "get_newjobno s = (nextjob s, s\<lparr>nextjob := nextjob (snd (get_newjobno s))\<rparr>)"
  by (simp add: get_newjobno_def Let_def)

lemma client_fails_ok: "\<exists>k. client_fails e s j err = Inr \<lparr>co_state = s, co_sock = k, co_ok = False\<rparr>"
  using writen_total [of "cl_out e" "enc_resp (error_resp e j err)"] by (auto simp: client_fails_def reply_def)

lemma client_fails_rejected:
  assumes "rejected e s \<lparr>co_state = t, co_sock = cl_out e, co_ok = False\<rparr>"
  shows "\<exists>out. client_fails e t j err = Inr out \<and> (if co_ok out then accepted e s out else rejected e s out)"
proof -
  obtain k where "client_fails e t j err = Inr \<lparr>co_state = t, co_sock = k, co_ok = False\<rparr>" using client_fails_ok by blast
  then show ?thesis using assms by (simp add: rejected_def)
qed

lemma reply_prefix: "\<exists>k n. reply e r = Inr k \<and> sent k = sent (cl_out e) @ take n (enc_resp r)"
  using wrs.writen_spec [of "enc_resp r" "length (enc_resp r) + 1" "length (enc_resp r)" "cl_out e"]
  by (auto simp: reply_def writen_def)

lemma strcpy_fits: "length s < length dst \<Longrightarrow> NUL \<notin> set s \<Longrightarrow> \<exists>m. strcpy dst s = Inr m \<and> cstr m = s \<and> length m = length dst"
  by (simp add: strcpy_def cstr_append_NUL)

lemma jobid_message:
  fixes i :: jobid
  shows "length (''request ID '' @ dec_int (sint i)) < MSGLEN_MAX" "NUL \<notin> set (''request ID '' @ dec_int (sint i))"
proof -
  have "\<bar>sint i\<bar> \<le> 2 ^ 63" using sint_lt [of i] sint_ge [of i] by (simp add: abs_le_iff)
  then have "nat \<bar>sint i\<bar> < 10 ^ 19" by simp
  then have "length (dec (nat \<bar>sint i\<bar>)) \<le> 19" using length_dec_le [of _ 19] by simp
  then show "length (''request ID '' @ dec_int (sint i)) < MSGLEN_MAX" "NUL \<notin> set (''request ID '' @ dec_int (sint i))"
    by (simp_all add: dec_int_def MSGLEN_MAX_def abs_if split: if_splits)
qed

lemma client_finish_cases:
  fixes jobid :: jobid
  assumes m: "length (rs_msg (cl_res e)) = MSGLEN_MAX" and jp: "cl_jp e \<noteq> 0" and req: "req_fits req"
  defines "rname \<equiv> spool_name REQDIR jobid" and "name \<equiv> spool_name DATADIR jobid"
  shows "(\<exists>k f. client_finish e s n req jobid = Inr \<lparr>co_state = s\<lparr>files := f\<rparr>, co_sock = k, co_ok = False\<rparr> \<and>
       f name = None \<and> (\<forall>x. f x = files s x \<or> f x = None \<and> (x = name \<or> x = rname))) \<or>
    (\<exists>k l msg q. client_finish e s n req jobid =
         Inr \<lparr>co_state = s\<lparr>files := (files s)(rname \<mapsto> enc_req req), jobq := q\<rparr>, co_sock = k, co_ok = True\<rparr> \<and>
       add_job (cl_jp e) (jobq s) req jobid = Inr q \<and> cstr msg = ''request ID '' @ dec_int (sint jobid) \<and>
       sent k = sent (cl_out e) @ take l (enc_resp \<lparr>rs_retcode = 0, rs_jobid = htonl (unat jobid), rs_msg = msg\<rparr>))"
proof -
  have fails: ?thesis if c: "client_finish e s n req jobid = client_fails e (s\<lparr>files := f\<rparr>) 0 err" and f: "f name = None"
      "\<And>x. f x = files s x \<or> f x = None \<and> (x = name \<or> x = rname)" for f err
  proof -
    obtain k where k: "client_fails e (s\<lparr>files := f\<rparr>) 0 err = Inr \<lparr>co_state = s\<lparr>files := f\<rparr>, co_sock = k, co_ok = False\<rparr>"
      using client_fails_ok by blast
    show ?thesis unfolding c k using f by (intro disjI1 exI [of _ k] exI [of _ f]) simp
  qed
  show ?thesis
proof (cases "cl_creat_req e")
  case (Some err)
  show ?thesis
    by (rule fails [of "(files s)(name := None)" "if n < 0 then err else EIO"])
      (use Some in \<open>simp_all add: client_finish_def Let_def name_def\<close>)
next
  case None
  let ?w = "sys_write \<lparr>sent = [], script = cl_write_req e\<rparr> (enc_req req)"
  let ?f = "(files s)(rname := None, name := None)"
  show ?thesis
  proof (cases "fst ?w = Inr sizeof_printreq")
    case False
    then obtain err where c: "client_finish e s n req jobid = client_fails e (s\<lparr>files := ?f\<rparr>) 0 err"
      using None by (cases ?w; cases "fst ?w") (auto simp: client_finish_def Let_def name_def rname_def)
    show ?thesis by (rule fails [OF c]) simp_all
  next
    case True
    then obtain rfd where w: "?w = (Inr sizeof_printreq, rfd)" by (cases ?w) auto
    then have "sent rfd = enc_req req" using wrs.wr_some [of _ "enc_req req" sizeof_printreq rfd] length_enc_req [OF req] by fastforce
    moreover obtain msg where "strcpy (rs_msg (cl_res e)) (''request ID '' @ dec_int (sint jobid)) = Inr msg"
      "cstr msg = ''request ID '' @ dec_int (sint jobid)"
      using strcpy_fits [of _ "rs_msg (cl_res e)"] jobid_message m by metis
    moreover obtain k l where "reply e \<lparr>rs_retcode = 0, rs_jobid = htonl (unat jobid), rs_msg = msg\<rparr> = Inr k"
      "sent k = sent (cl_out e) @ take l (enc_resp \<lparr>rs_retcode = 0, rs_jobid = htonl (unat jobid), rs_msg = msg\<rparr>)"
      using reply_prefix by blast
    moreover obtain q where "add_job (cl_jp e) (jobq s) req jobid = Inr q" using add_job_ok [OF jp] by blast
    ultimately show ?thesis
      unfolding client_finish_def Let_def None option.case w by (auto simp: name_def rname_def)
  qed
qed
qed

lemma client_cases:
  assumes m: "length (rs_msg (cl_res e)) = MSGLEN_MAX" and jp: "cl_jp e \<noteq> 0"
  shows "\<exists>out. client_thread e s = Inr out \<and> (if co_ok out then accepted e s out else rejected e s out)"
proof -
  obtain r hdr st where r: "treadn (cl_in e) sizeof_printreq = Inr ((r, hdr), st)"
    using rdt.readn_spec [of sizeof_printreq "sizeof_printreq + 1" sizeof_printreq "[]" "cl_in e"] by (auto simp: treadn_def)
  show ?thesis
  proof (cases "r = int sizeof_printreq")
    case False
    have "rejected e s \<lparr>co_state = s, co_sock = cl_out e, co_ok = False\<rparr>" by (simp add: rejected_def)
    from client_fails_rejected [OF this] show ?thesis
      unfolding client_thread_def r res_bind_simps prod.case if_P [OF False] by blast
  next
    case True
    let ?in = "pending_timed (cl_in e)" and ?i = "nextjob s"
    have h: "hdr = take sizeof_printreq ?in" "sizeof_printreq \<le> length ?in" "pending_timed st = drop sizeof_printreq ?in"
      using rdt.readn_rest [of "sizeof_printreq + 1" sizeof_printreq sizeof_printreq "[]" "cl_in e" hdr st] r True
      by (simp_all add: treadn_def)
    define s1 f0 where "s1 = s\<lparr>nextjob := nextjob (snd (get_newjobno s))\<rparr>" and "f0 = ntohl (rq_flags (dec_req hdr))"
    have g: "get_newjobno s = (?i, s1)" using get_newjobno_eq by (simp add: s1_def)
    have rej: "rejected e s \<lparr>co_state = s1\<lparr>files := f\<rparr>, co_sock = cl_out e, co_ok = False\<rparr>"
      if "\<And>x. f x = files s x \<or> f x = None \<and> (x = spool_name DATADIR ?i \<or> x = spool_name REQDIR ?i)" for f
      using that by (simp add: rejected_def s1_def)
    have rej1: "rejected e s \<lparr>co_state = s1, co_sock = cl_out e, co_ok = False\<rparr>" by (simp add: rejected_def s1_def)
    have nn: "\<not> r \<noteq> int sizeof_printreq" using True by simp
    note start = client_thread_def r res_bind_simps prod.case if_not_P [OF nn] Let_def g
    show ?thesis
    proof (cases "cl_creat_data e")
      case (Some err)
      then show ?thesis using client_fails_rejected [OF rej1] unfolding start by simp
    next
      case None
      define fd0 where "fd0 = \<lparr>sent = [], script = cl_write_data e\<rparr>"
      have f0: "rq_flags ((dec_req hdr)\<lparr>rq_size := x, rq_flags := ntohl (rq_flags (dec_req hdr))\<rparr>) = f0" for x by (simp add: f0_def)
      note start = start None option.case f0 fd0_def [symmetric]
      let ?sp = "spool_loop (Suc (stream_weight st)) st fd0 (cl_buf e) True f0"
      consider err where "?sp = Inr (Short err)" | flags fd where "?sp = Inr (Spooled flags fd)"
          "sent fd = sent fd0 @ pending_timed st" "flags = f0 \<or> flags = f0 OR PR_TEXT"
        using spool_loop_spec [OF lessI, of st fd0 "cl_buf e" True f0] by blast
      then show ?thesis
      proof cases
        case sp: (1 err)
        have "rejected e s \<lparr>co_state = s1\<lparr>files := (files s1)(spool_name DATADIR ?i := None)\<rparr>, co_sock = cl_out e, co_ok = False\<rparr>"
          by (rule rej) (simp add: s1_def)
        from client_fails_rejected [OF this] show ?thesis unfolding start sp by simp
      next
        case (2 flags fd)
        note sp = 2(1) and fd = 2(2) and fl = 2(3)
        let ?s = "s1\<lparr>files := (files s1)(spool_name DATADIR ?i \<mapsto> sent fd)\<rparr>" and ?req = "host_req hdr flags"
        have f64: "f0 < 2 ^ 32" unfolding f0_def by (rule ntohl_less)
        have "flags < 2 ^ 64" using fl f64 or_1_less [OF f64] by auto
        then have req: "req_fits ?req" using h by (intro host_req_fits) simp_all
        have e: "client_thread e s = client_finish e ?s r ?req ?i" unfolding start sp by (simp add: host_req_def)
        from client_finish_cases [OF m jp req, where jobid = ?i and s = ?s and n = r] show ?thesis
        proof (elim disjE exE conjE)
          fix k f
          assume c: "client_finish e ?s r ?req ?i = Inr \<lparr>co_state = ?s\<lparr>files := f\<rparr>, co_sock = k, co_ok = False\<rparr>"
            and fn: "f (spool_name DATADIR ?i) = None"
            and fx: "\<forall>x. f x = files ?s x \<or> f x = None \<and> (x = spool_name DATADIR ?i \<or> x = spool_name REQDIR ?i)"
          have "f x = files s x \<or> f x = None \<and> (x = spool_name DATADIR ?i \<or> x = spool_name REQDIR ?i)" for x
            using fn fx [rule_format, of x] by (auto simp: s1_def split: if_splits)
          then have "rejected e s \<lparr>co_state = ?s\<lparr>files := f\<rparr>, co_sock = k, co_ok = False\<rparr>"
            using rej [of f] by (simp add: rejected_def)
          then show ?thesis unfolding e c by simp
        next
          fix k l msg q
          assume c: "client_finish e ?s r ?req ?i =
              Inr \<lparr>co_state = ?s\<lparr>files := (files ?s)(spool_name REQDIR ?i \<mapsto> enc_req ?req), jobq := q\<rparr>, co_sock = k, co_ok = True\<rparr>"
            "add_job (cl_jp e) (jobq ?s) ?req ?i = Inr q" "cstr msg = ''request ID '' @ dec_int (sint ?i)"
            "sent k = sent (cl_out e) @ take l (enc_resp \<lparr>rs_retcode = 0, rs_jobid = htonl (unat ?i), rs_msg = msg\<rparr>)"
          have "accepted e s \<lparr>co_state = ?s\<lparr>files := (files ?s)(spool_name REQDIR ?i \<mapsto> enc_req ?req), jobq := q\<rparr>, co_sock = k, co_ok = True\<rparr>"
            unfolding accepted_def Let_def
            by (rule exI [of _ flags], rule exI [of _ l], rule exI [of _ msg])
              (use c(2-4) h fd fl in \<open>simp add: spooled_as_def s1_def f0_def fd0_def\<close>)
          then show ?thesis unfolding e c(1) by simp
        qed
      qed
    qed
  qed
qed

text \<open>A whole request is accepted when the system calls do their work.\<close>

definition calls_work :: "client_env \<Rightarrow> bool" where
  "calls_work e \<longleftrightarrow> cl_creat_data e = None \<and> cl_creat_req e = None \<and> cl_write_data e = [] \<and> cl_write_req e = []"

lemma sys_write_all: "script fd = [] \<Longrightarrow> sys_write fd b = (Inr (length b), fd\<lparr>sent := sent fd @ b\<rparr>)"
  by (simp add: sys_write_def)

lemma spool_loop_works: "script fd = [] \<Longrightarrow> spool_loop fuel st fd buf first flags \<noteq> Inr (Short err)"
proof (induction fuel arbitrary: st fd buf first flags)
  case 0
  then show ?case by simp
next
  case (Suc fuel)
  obtain x st1 where x: "tread st IOBUFSZ = (x, st1)" by (cases "tread st IOBUFSZ")
  show ?case
  proof (cases x)
    case (Inl e)
    then show ?thesis using x by simp
  next
    case (Inr b)
    then show ?thesis using x Suc.IH [of "fd\<lparr>sent := sent fd @ b\<rparr>"] Suc.prems by (simp add: sys_write_all Let_def)
  qed
qed

lemma client_finish_works:
  assumes "length (rs_msg (cl_res e)) = MSGLEN_MAX" "cl_jp e \<noteq> 0" "req_fits req" "calls_work e"
    "client_finish e s n req jobid = Inr out"
  shows "co_ok out"
proof -
  have "length (enc_req req) = sizeof_printreq" using assms(3) by (rule length_enc_req)
  moreover obtain m where "strcpy (rs_msg (cl_res e)) (''request ID '' @ dec_int (sint jobid)) = Inr m"
    using strcpy_fits [of _ "rs_msg (cl_res e)"] jobid_message assms(1) by metis
  moreover obtain k where "reply e \<lparr>rs_retcode = 0, rs_jobid = htonl (unat jobid), rs_msg = m\<rparr> = Inr k" using reply_prefix by blast
  moreover obtain q where "add_job (cl_jp e) (jobq s) req jobid = Inr q" using add_job_ok [OF assms(2)] by blast
  ultimately show ?thesis
    using assms(4,5) by (auto simp: client_finish_def calls_work_def sys_write_all Let_def)
qed

lemma client_accepts:
  assumes m: "length (rs_msg (cl_res e)) = MSGLEN_MAX" "cl_jp e \<noteq> 0" and w: "calls_work e"
    and l: "sizeof_printreq \<le> length (pending_timed (cl_in e))" and c: "client_thread e s = Inr out"
  shows "co_ok out"
proof -
  let ?in = "pending_timed (cl_in e)"
  have ne: "?in \<noteq> []" using l by (auto simp: sizeof_printreq_def)
  obtain st where r: "treadn (cl_in e) sizeof_printreq = Inr ((int sizeof_printreq, take sizeof_printreq ?in), st)"
    using rdt.readn_spec [of sizeof_printreq "sizeof_printreq + 1" sizeof_printreq "[]" "cl_in e"] l ne
    by (auto simp: treadn_def min_def)
  define hdr f0 where "hdr = take sizeof_printreq ?in" and "f0 = ntohl (rq_flags (dec_req hdr))"
  let ?fd = "\<lparr>sent = [], script = cl_write_data e\<rparr>"
  obtain flags fd where sp: "spool_loop (Suc (stream_weight st)) st ?fd (cl_buf e) True f0 = Inr (Spooled flags fd)"
      "flags = f0 \<or> flags = f0 OR PR_TEXT"
    using spool_loop_spec [OF lessI, of st ?fd "cl_buf e" True f0] spool_loop_works [of ?fd] w
    by (auto simp: calls_work_def simp del: spool_loop.simps)
  have f64: "f0 < 2 ^ 32" unfolding f0_def by (rule ntohl_less)
  have "flags < 2 ^ 64" using sp(2) f64 or_1_less [OF f64] by auto
  then have req: "req_fits (host_req hdr flags)" using l by (intro host_req_fits) (simp_all add: hdr_def)
  have "client_finish e ((snd (get_newjobno s))\<lparr>files := (files (snd (get_newjobno s)))(spool_name DATADIR (fst (get_newjobno s)) \<mapsto> sent fd)\<rparr>)
      (int sizeof_printreq) (host_req hdr flags) (fst (get_newjobno s)) = Inr out"
    using c w sp(1) r hdr_def [symmetric] f0_def
    by (simp add: client_thread_def calls_work_def host_req_def Let_def split_beta del: spool_loop.simps)
  then show ?thesis using client_finish_works [OF m req w] by blast
qed

section \<open>A job of the printer thread\<close>

text \<open>No failure before the end of the stream.\<close>

fun ends_well :: "stream \<Rightarrow> bool" where
  "ends_well [] = True"
| "ends_well (Bytes b # cs) = (b = [] \<or> ends_well cs)"
| "ends_well (Fail e # cs) = False"
| "ends_well (Quiet # cs) = ends_well cs"
| "ends_well (Sel_fail e # cs) = ends_well cs"

lemma sys_read_ends:
  assumes "sys_read s n = (x, s')" "0 < n"
  shows "case x of Inl e \<Rightarrow> \<not> ends_well s | Inr b \<Rightarrow> if b = [] then ends_well s else ends_well s = ends_well s'"
  using assms by (induction s n rule: sys_read.induct) (auto split: if_splits sum.splits)

lemma send_loop_spec:
  assumes "stream_weight fd < fuel"
  shows "\<exists>ok sock'. send_loop fuel fd sock = Inr (ok, sock') \<and> (ok \<longrightarrow> sent sock' = sent sock @ pending fd \<and> ends_well fd)"
  using assms
proof (induction fuel arbitrary: fd sock)
  case 0
  then show ?case by simp
next
  case (Suc fuel)
  obtain x fd1 where x: "sys_read fd IOBUFSZ = (x, fd1)" by (cases "sys_read fd IOBUFSZ")
  have io: "0 < IOBUFSZ" by (simp add: IOBUFSZ_def)
  note t = sys_read_cases [OF x io] and u = sys_read_ends [OF x io]
  show ?case
  proof (cases x)
    case (Inl e)
    then show ?thesis using x by auto
  next
    case (Inr b)
    show ?thesis
    proof (cases "b = []")
      case True
      then show ?thesis using x t u Inr by auto
    next
      case False
      then have b: "stream_weight fd1 < fuel" "pending fd = b @ pending fd1" "ends_well fd = ends_well fd1"
        using sys_read_data [of fd IOBUFSZ b fd1] x io u Inr Suc.prems by auto
      obtain y sock1 where y: "sys_write sock b = (y, sock1)" by (cases "sys_write sock b")
      have step: "send_loop (Suc fuel) fd sock = (case y of Inl e \<Rightarrow> Inr (False, sock1)
          | Inr nw \<Rightarrow> if nw \<noteq> length b then Inr (False, sock1) else send_loop fuel fd1 sock1)"
        using x y Inr False by (simp split: sum.splits)
      show ?thesis
      proof (cases "y = Inr (length b)")
        case False
        then show ?thesis unfolding step by (auto split: sum.splits)
      next
        case True
        then have "sent sock1 = sent sock @ b" using wrs.wr_some [of sock b "length b" sock1] y by simp
        then show ?thesis using Suc.IH [OF b(1), of sock1] b(2,3) True unfolding step by auto
      qed
    qed
  qed
qed

lemma file_stream_ends: "ends_well (file_stream fails b) \<Longrightarrow> fails = None \<and> pending (file_stream fails b) = b"
  by (auto simp: file_stream_def split: option.splits if_splits)

definition request_sent :: "print_env \<Rightarrow> string \<Rightarrow> jobid \<Rightarrow> printreq \<Rightarrow> bytes \<Rightarrow> sink \<Rightarrow> bool" where
  "request_sent e pname jobid req data sock \<longleftrightarrow> (\<exists>hb ib. ipp_header pname jobid req = Inr ib \<and>
     http_header pname (length data + length ib) = Inr hb \<and> sent sock = sent (pe_sock e) @ hb @ ib @ data)"

lemma send_job_spec:
  assumes "send_job e s jobid req data = Inr (True, sock)"
  shows "request_sent e (printer_name s) jobid req data sock"
proof -
  obtain ib hb where h: "ipp_header (printer_name s) jobid req = Inr ib" "http_header (printer_name s) (length data + length ib) = Inr hb"
    using assms by (auto simp: send_job_def res_bind_def split: sum.splits)
  obtain y sock1 where y: "sys_write (pe_sock e) (hb @ ib) = (y, sock1)" by (cases "sys_write (pe_sock e) (hb @ ib)")
  let ?f = "file_stream (pe_read_fails e) data"
  have "y = Inr (length (hb @ ib))" and sl: "send_loop (Suc (stream_weight ?f)) ?f sock1 = Inr (True, sock)"
    using assms h y by (auto simp: send_job_def simp del: send_loop.simps split: sum.splits if_splits)
  then have "sent sock1 = sent (pe_sock e) @ hb @ ib" using wrs.wr_some [of "pe_sock e" "hb @ ib" _ sock1] y by fastforce
  moreover have "sent sock = sent sock1 @ pending ?f \<and> ends_well ?f" using send_loop_spec [OF lessI, of ?f sock1] sl by auto
  ultimately show ?thesis using h file_stream_ends by (auto simp: request_sent_def)
qed

definition job_done :: "print_env \<Rightarrow> ptr \<Rightarrow> printd \<Rightarrow> printd \<Rightarrow> sink \<Rightarrow> bool" where
  "job_done e jp s s' sock \<longleftrightarrow> (let jobid = j_jobid (jobq s) jp in
     jobq s' = jobq s \<and> files s' = (files s)(spool_name DATADIR jobid := None, spool_name REQDIR jobid := None) \<and>
     printer_status (pe_fuel e) (pe_junk e) jobid (pe_answer e) = Inr True \<and>
     (\<exists>data. files s (spool_name DATADIR jobid) = Some data \<and> request_sent e (printer_name s') jobid (j_req (jobq s) jp) data sock))"

definition job_deferred :: "ptr \<Rightarrow> printd \<Rightarrow> printd \<Rightarrow> bool" where
  "job_deferred jp s s' \<longleftrightarrow> jobq s' = replace_job (jobq s) jp \<and> files s' = files s"

lemma update_jobno_fields [simp]:
  "jobq (update_jobno s) = jobq s" "files (update_jobno s) = files s" "nextjob (update_jobno s) = nextjob s"
  "printer_name (update_jobno s) = printer_name s" "reread (update_jobno s) = reread s"
  by (simp_all add: update_jobno_def Let_def)

lemma init_printer_fields:
  "init_printer gai cfg s = Inr s' \<Longrightarrow> jobq s' = jobq s \<and> files s' = files s \<and> nextjob s' = nextjob s"
  by (auto simp: init_printer_def res_bind_def split: sum.splits option.splits)

lemma printer_job_cases:
  assumes j: "printer_job e jp s = Inr (s', sock)" and d: "files s (spool_name DATADIR (j_jobid (jobq s) jp)) \<noteq> None" and f: "pe_fstat e"
  shows "nextjob s' = nextjob s \<and> (job_done e jp s s' sock \<or> job_deferred jp s s')"
proof -
  let ?i = "j_jobid (jobq s) jp" and ?u = "update_jobno s"
  obtain data where data: "files s (spool_name DATADIR ?i) = Some data" using d by blast
  obtain t where t: "(if reread ?u then init_printer (pe_gai e) (pe_config e) (?u\<lparr>reread := False\<rparr>) else Inr ?u) = Inr t"
    using j unfolding printer_job_def Let_def by (cases "if reread ?u then init_printer (pe_gai e) (pe_config e) (?u\<lparr>reread := False\<rparr>) else Inr ?u") simp_all
  then have tf: "jobq t = jobq s" "files t = files s" "nextjob t = nextjob s"
    using init_printer_fields [of "pe_gai e" "pe_config e" "?u\<lparr>reread := False\<rparr>" t] by (auto split: if_splits)
  have dt: "files t (spool_name DATADIR ?i) = Some data" using tf data by simp
  have nf: "\<not> \<not> pe_fstat e" using f by simp
  note j = j [unfolded printer_job_def Let_def t res_bind_simps dt option.case if_not_P [OF nf]]
  have deferred: ?thesis if "(s', sock) = put_back t jp k" for k
    using that tf by (simp add: put_back_def job_deferred_def)
  show ?thesis
  proof (cases "pe_socket e")
    case False
    then show ?thesis using j by (intro deferred [of "pe_sock e"]) simp
  next
    case True
    then obtain r slept where c: "connect_retry (pe_connect e) = Inr (r, slept)"
      using j by (cases "connect_retry (pe_connect e)") auto
    show ?thesis
    proof (cases "r < 0")
      case True
      then show ?thesis using j c \<open>pe_socket e\<close> by (intro deferred [of "pe_sock e"]) simp
    next
      case nr: False
      obtain ok k where k: "send_job e t ?i (j_req (jobq s) jp) data = Inr (ok, k)"
        using j c True nr by (cases "send_job e t ?i (j_req (jobq s) jp) data") auto
      show ?thesis
      proof (cases ok)
        case False
        then show ?thesis using j c True nr k by (intro deferred [of k]) simp
      next
        case okT: True
        obtain success where st: "printer_status (pe_fuel e) (pe_junk e) ?i (pe_answer e) = Inr success"
          using j c True nr k okT by (cases "printer_status (pe_fuel e) (pe_junk e) ?i (pe_answer e)") auto
        show ?thesis
        proof (cases success)
          case False
          then show ?thesis using j c True nr k okT st by (intro deferred [of k]) simp
        next
          case sT: True
          have "request_sent e (printer_name t) ?i (j_req (jobq s) jp) data k" using k okT send_job_spec [of e t] by simp
          then show ?thesis using j c True nr k okT st sT data tf by (auto simp: job_done_def Let_def)
        qed
      qed
    qed
  qed
qed

end
