(* ===== verification/Ipp_Spool.thy ===== *)
theory Ipp_Spool
  imports Ipp_Facts
begin

text \<open>
  The print server as a machine: clients, the printer thread and the signal thread take
  steps in any order, and the printer thread has at most one job in its hands.  The jobs and
  the files of the spool directory stay in step, so that the queue can be built again from
  the directory.
\<close>

section \<open>Steps\<close>

text \<open>The second part of a state is the job the printer thread works on, or 0.\<close>

type_synonym server = "printd \<times> ptr"

definition in_hand :: "ptr \<Rightarrow> ptr list \<Rightarrow> ptr list" where
  "in_hand jp xs = (if jp = 0 then xs else jp # xs)"

definition req_name :: "string \<Rightarrow> string" where
  "req_name d = SPOOLDIR @ ''/'' @ REQDIR @ ''/'' @ d"

definition new_ptr :: "ptr \<Rightarrow> server \<Rightarrow> bool" where
  "new_ptr p v \<longleftrightarrow> p \<noteq> 0 \<and> p \<noteq> snd v \<and> (\<forall>xs. jobs_rep (jobq (fst v)) xs \<longrightarrow> p \<notin> set xs)"

definition free_number :: "printd \<Rightarrow> bool" where
  "free_number s \<longleftrightarrow> files s (spool_name REQDIR (nextjob s)) = None \<and> files s (spool_name DATADIR (nextjob s)) = None"

inductive server_step :: "server \<Rightarrow> server \<Rightarrow> bool" where
  step_client: "client_thread e s = Inr out \<Longrightarrow> length (rs_msg (cl_res e)) = MSGLEN_MAX \<Longrightarrow> new_ptr (cl_jp e) (s, jp) \<Longrightarrow>
    free_number s \<Longrightarrow> server_step (s, jp) (co_state out, jp)"
| step_take: "printer_take s = Inr (p, s') \<Longrightarrow> server_step (s, 0) (s', p)"
| step_print: "jp \<noteq> 0 \<Longrightarrow> printer_job e jp s = Inr (s', sock) \<Longrightarrow> pe_fstat e \<Longrightarrow> server_step (s, jp) (s', 0)"
| step_hup: "signal_turn fuel w s (Some ''SIGHUP'') = Inr (Goes_on s') \<Longrightarrow> server_step (s, jp) (s', jp)"

definition spool_empty :: "server \<Rightarrow> bool" where
  "spool_empty v \<longleftrightarrow> snd v = 0 \<and> jobs_rep (jobq (fst v)) [] \<and> (\<forall>d. files (fst v) (req_name d) = None) \<and> 1 \<le> sint (nextjob (fst v))"

section \<open>Jobs and files\<close>

definition on_disk :: "printd \<Rightarrow> ptr \<Rightarrow> bool" where
  "on_disk s p \<longleftrightarrow> 1 \<le> sint (j_jobid (jobq s) p) \<and> req_fits (j_req (jobq s) p) \<and>
     files s (spool_name DATADIR (j_jobid (jobq s) p)) \<noteq> None \<and>
     files s (spool_name REQDIR (j_jobid (jobq s) p)) = Some (enc_req (j_req (jobq s) p))"

definition in_step :: "printd \<Rightarrow> ptr list \<Rightarrow> bool" where
  "in_step s js \<longleftrightarrow> distinct js \<and> inj_on (j_jobid (jobq s)) (set js) \<and> (\<forall>p \<in> set js. on_disk s p) \<and>
     (\<forall>d. files s (req_name d) \<noteq> None \<longrightarrow> (\<exists>p \<in> set js. d = dec_int (sint (j_jobid (jobq s) p))))"

definition spool_inv :: "server \<Rightarrow> bool" where
  "spool_inv v \<longleftrightarrow> 1 \<le> sint (nextjob (fst v)) \<and>
     (\<exists>xs. jobs_rep (jobq (fst v)) xs \<and> in_step (fst v) (in_hand (snd v) xs))"

lemma req_name_eq: "spool_name REQDIR i = req_name d \<longleftrightarrow> d = dec_int (sint i)" "req_name d = spool_name REQDIR i \<longleftrightarrow> d = dec_int (sint i)"
  by (auto simp: spool_name_def req_name_def)

lemma data_name_neq [simp]: "spool_name DATADIR i \<noteq> req_name d" "req_name d \<noteq> spool_name DATADIR i"
  by (simp_all add: spool_name_def req_name_def SPOOLDIR_def DATADIR_def REQDIR_def)

lemma in_step_cong:
  assumes "in_step s js" "files t = files s" "j_jobid (jobq t) = j_jobid (jobq s)" "j_req (jobq t) = j_req (jobq s)"
  shows "in_step t js"
  using assms by (simp add: in_step_def on_disk_def)

lemma nextjob_positive: "1 \<le> sint (nextjob s) \<Longrightarrow> 1 \<le> sint (nextjob (snd (get_newjobno s)))"
  by (auto simp: get_newjobno_def Let_def)

lemma in_step_add:
  assumes i: "in_step s js" and n: "free_number s" "1 \<le> sint (nextjob s)" and p: "p \<notin> set js"
    and q: "j_jobid (jobq t) = (j_jobid (jobq s))(p := nextjob s)" "j_req (jobq t) = (j_req (jobq s))(p := r)"
    and f: "files t = spooled_as s (nextjob s) data r" and r: "req_fits r" and ks: "set ks = insert p (set js)" "distinct ks"
  shows "in_step t ks"
proof -
  let ?i = "nextjob s"
  have other: "j_jobid (jobq s) x \<noteq> ?i" if "x \<in> set js" for x
    using i n(1) that by (auto simp: in_step_def on_disk_def free_number_def)
  have "on_disk t x" if "x \<in> set ks" for x
  proof (cases "x = p")
    case True
    then show ?thesis using q f r n(2) by (simp add: on_disk_def spooled_as_def)
  next
    case False
    then have "x \<in> set js" using that ks by simp
    then show ?thesis using i other [of x] q f False by (simp add: on_disk_def in_step_def spooled_as_def)
  qed
  moreover have "inj_on (j_jobid (jobq t)) (set ks)"
  proof -
    have "inj_on (j_jobid (jobq s)) (set js)" using i by (simp add: in_step_def)
    moreover have "?i \<notin> j_jobid (jobq s) ` set js" using other by force
    ultimately have "inj_on ((j_jobid (jobq s))(p := ?i)) (set js)" by (rule inj_on_fun_updI)
    then show ?thesis using \<open>?i \<notin> j_jobid (jobq s) ` set js\<close> p unfolding q ks by auto
  qed
  moreover have "\<exists>x \<in> set ks. d = dec_int (sint (j_jobid (jobq t) x))" if d: "files t (req_name d) \<noteq> None" for d
  proof (cases "d = dec_int (sint ?i)")
    case True
    then show ?thesis using ks q by auto
  next
    case False
    then have "files s (req_name d) \<noteq> None" using d f by (auto simp: spooled_as_def req_name_eq split: if_splits)
    then obtain x where "x \<in> set js" "d = dec_int (sint (j_jobid (jobq s) x))" using i unfolding in_step_def by blast
    then show ?thesis using ks q p by (intro bexI [of _ x]) auto
  qed
  ultimately show ?thesis using ks(2) by (simp add: in_step_def)
qed

lemma in_step_done:
  assumes i: "in_step s (p # js)" and f: "files t = (files s)(spool_name DATADIR (j_jobid (jobq s) p) := None, spool_name REQDIR (j_jobid (jobq s) p) := None)"
    and q: "jobq t = jobq s"
  shows "in_step t js"
proof -
  let ?i = "j_jobid (jobq s) p"
  have other: "j_jobid (jobq s) x \<noteq> ?i" if "x \<in> set js" for x
    using i that unfolding in_step_def inj_on_def by auto
  have "on_disk t x" if "x \<in> set js" for x
    using i other [OF that] that q f by (simp add: on_disk_def in_step_def)
  moreover have "\<exists>x \<in> set js. d = dec_int (sint (j_jobid (jobq t) x))" if d: "files t (req_name d) \<noteq> None" for d
  proof -
    have "files s (req_name d) \<noteq> None" "d \<noteq> dec_int (sint ?i)" using d f by (auto simp: req_name_eq split: if_splits)
    then show ?thesis using i q unfolding in_step_def by fastforce
  qed
  moreover have "distinct js" "inj_on (j_jobid (jobq t)) (set js)" using i q by (auto simp: in_step_def)
  ultimately show ?thesis by (simp add: in_step_def)
qed

section \<open>Every step keeps them together\<close>

lemma client_keeps:
  assumes i: "spool_inv (s, jp)" and c: "client_thread e s = Inr out" "length (rs_msg (cl_res e)) = MSGLEN_MAX"
    and n: "new_ptr (cl_jp e) (s, jp)" "free_number s"
  shows "spool_inv (co_state out, jp)"
proof -
  let ?t = "co_state out" and ?p = "cl_jp e"
  obtain xs where xs: "jobs_rep (jobq s) xs" "in_step s (in_hand jp xs)" and j1: "1 \<le> sint (nextjob s)"
    using i by (auto simp: spool_inv_def)
  have p: "?p \<noteq> 0" "?p \<noteq> jp" "?p \<notin> set xs" using n(1) xs(1) by (auto simp: new_ptr_def)
  have "if co_ok out then accepted e s out else rejected e s out" using client_cases [OF c(2) p(1), of s] c(1) by auto
  then show ?thesis
  proof (cases "co_ok out")
    case True
    then obtain flags where a: "sizeof_printreq \<le> length (pending_timed (cl_in e))"
      "flags = ntohl (rq_flags (dec_req (take sizeof_printreq (pending_timed (cl_in e))))) \<or>
       flags = Bit_Operations.or (ntohl (rq_flags (dec_req (take sizeof_printreq (pending_timed (cl_in e)))))) PR_TEXT"
      "files ?t = spooled_as s (nextjob s) (drop sizeof_printreq (pending_timed (cl_in e))) (host_req (take sizeof_printreq (pending_timed (cl_in e))) flags)"
      "add_job ?p (jobq s) (host_req (take sizeof_printreq (pending_timed (cl_in e))) flags) (nextjob s) = Inr (jobq ?t)"
      "nextjob ?t = nextjob (snd (get_newjobno s))"
      using \<open>if co_ok out then accepted e s out else rejected e s out\<close> unfolding accepted_def Let_def by auto
    let ?r = "host_req (take sizeof_printreq (pending_timed (cl_in e))) flags"
    have "flags < 2 ^ 64" using a(2) or_1_less [OF ntohl_less] ntohl_less [THEN less_trans, of "2 ^ 64"] by auto
    then have r: "req_fits ?r" using a(1) by (intro host_req_fits) simp_all
    note v = add_job_view [OF a(4)]
    have rep: "jobs_rep (jobq ?t) (xs @ [?p])" using add_job_rep [OF xs(1) p(3) a(4)] .
    have "distinct (in_hand jp (xs @ [?p]))" "set (in_hand jp (xs @ [?p])) = insert ?p (set (in_hand jp xs))"
      using xs(2) p by (auto simp: in_step_def in_hand_def)
    then have "in_step ?t (in_hand jp (xs @ [?p]))"
      using p by (intro in_step_add [OF xs(2) n(2) j1 _ v(4,5) a(3) r]) (auto simp: in_hand_def)
    then show ?thesis using rep a(5) nextjob_positive [OF j1] by (auto simp: spool_inv_def)
  next
    case False
    then have r: "jobq ?t = jobq s" "nextjob ?t = nextjob s \<or> nextjob ?t = nextjob (snd (get_newjobno s))"
      "\<And>f. files ?t f = files s f \<or> files ?t f = None \<and> (f = spool_name DATADIR (nextjob s) \<or> f = spool_name REQDIR (nextjob s))"
      using \<open>if co_ok out then accepted e s out else rejected e s out\<close> unfolding rejected_def Let_def by simp_all
    have "files ?t = files s" using r(3) n(2) by (intro ext) (metis free_number_def)
    then have "in_step ?t (in_hand jp xs)" using in_step_cong [OF xs(2)] r(1) by simp
    then show ?thesis using xs(1) r(1,2) j1 nextjob_positive [OF j1] by (auto simp: spool_inv_def)
  qed
qed

lemma take_keeps:
  assumes i: "spool_inv (s, 0)" and t: "printer_take s = Inr (p, s')"
  shows "spool_inv (s', p)"
proof -
  obtain xs where xs: "jobs_rep (jobq s) xs" "in_step s xs" and j1: "1 \<le> sint (nextjob s)"
    using i by (auto simp: spool_inv_def in_hand_def)
  have p: "p = jobhead (jobq s)" "p \<noteq> 0" "s' = s\<lparr>jobq := remove_job (jobq s) p\<rparr>"
    using t by (auto simp: printer_take_def Let_def split: if_splits)
  then obtain ys where ys: "xs = p # ys" using head_tail(1) [OF xs(1)] by (cases xs) auto
  have "jobs_rep (jobq s') ys" using remove_job_rep [of "jobq s" "[]" p ys] xs(1) ys p(3) by simp
  moreover have "in_step s' (in_hand p ys)"
    using in_step_cong [OF xs(2), of s'] p(2,3) ys remove_job_view(3,4) [OF p(2), of "jobq s"] by (simp add: in_hand_def)
  ultimately show ?thesis using j1 p(3) by (auto simp: spool_inv_def)
qed

lemma print_keeps:
  assumes i: "spool_inv (s, jp)" and jp: "jp \<noteq> 0" and j: "printer_job e jp s = Inr (s', sock)" "pe_fstat e"
  shows "spool_inv (s', 0)"
proof -
  obtain xs where xs: "jobs_rep (jobq s) xs" "in_step s (jp # xs)" and j1: "1 \<le> sint (nextjob s)"
    using i jp by (auto simp: spool_inv_def in_hand_def)
  have d: "files s (spool_name DATADIR (j_jobid (jobq s) jp)) \<noteq> None" and np: "jp \<notin> set xs"
    using xs(2) by (simp_all add: in_step_def on_disk_def)
  from printer_job_cases [OF j(1) d j(2)] have nj: "nextjob s' = nextjob s"
    and o: "job_done e jp s s' sock \<or> job_deferred jp s s'" by blast+
  from o show ?thesis
  proof
    assume "job_done e jp s s' sock"
    then have "jobq s' = jobq s" "in_step s' xs" using in_step_done [OF xs(2)] by (simp_all add: job_done_def Let_def)
    then show ?thesis using xs(1) nj j1 by (auto simp: spool_inv_def in_hand_def)
  next
    assume df: "job_deferred jp s s'"
    then have "jobs_rep (jobq s') (jp # xs)" using replace_job_rep [OF xs(1) np jp] by (simp add: job_deferred_def)
    moreover have "in_step s' (jp # xs)"
      using in_step_cong [OF xs(2), of s'] df replace_job_view(3,4) [OF jp] by (simp add: job_deferred_def)
    ultimately show ?thesis using nj j1 by (auto simp: spool_inv_def in_hand_def)
  qed
qed

lemma server_step_keeps: "server_step v v' \<Longrightarrow> spool_inv v \<Longrightarrow> spool_inv v'"
proof (induction rule: server_step.induct)
  case (step_client e s out jp)
  then show ?case using client_keeps by blast
next
  case (step_take s p s')
  then show ?case using take_keeps by blast
next
  case (step_print jp e s s' sock)
  then show ?case using print_keeps by blast
next
  case (step_hup fuel w s s' jp)
  then have "s' = s\<lparr>reread := True\<rparr>" by (simp add: signal_turn_def)
  then show ?case using step_hup.prems by (simp add: spool_inv_def in_step_def on_disk_def)
qed

lemma spool_empty_inv: "spool_empty v \<Longrightarrow> spool_inv v"
  by (auto simp: spool_empty_def spool_inv_def in_hand_def in_step_def)

interpretation spool: invariant spool_empty server_step spool_inv
  by unfold_locales (auto intro: spool_empty_inv server_step_keeps)

section \<open>Building the queue from the directory\<close>

definition real_entry :: "string \<Rightarrow> bool" where
  "real_entry d \<longleftrightarrow> d \<noteq> ''.'' \<and> d \<noteq> ''..''"

text \<open>What an entry of the directory stands for.\<close>

definition entry_job :: "printd \<Rightarrow> string \<Rightarrow> jobid \<times> printreq" where
  "entry_job s d = (word_of_int (atol d), dec_req (the (files s (req_name d))))"

definition job_at :: "printd \<Rightarrow> ptr \<Rightarrow> jobid \<times> printreq" where
  "job_at s p = (j_jobid (jobq s) p, j_req (jobq s) p)"

definition good_entry :: "printd \<Rightarrow> string \<Rightarrow> bool" where
  "good_entry s d \<longleftrightarrow> length d \<le> 19 \<and> (\<exists>b. files s (req_name d) = Some b \<and> length b = sizeof_printreq)"

lemma build_entry:
  assumes "real_entry d" "good_entry s d" "mem k \<noteq> 0"
  shows "\<exists>q. add_job (mem k) (jobq s) (snd (entry_job s d)) (fst (entry_job s d)) = Inr q \<and>
    build_qonstart mem k (d # ds) s = build_qonstart mem (Suc k) ds (s\<lparr>jobq := q\<rparr>)"
proof -
  obtain b where b: "files s (req_name d) = Some b" "length b = sizeof_printreq" using assms(2) by (auto simp: good_entry_def)
  have n: "SPOOLDIR @ ''/'' @ REQDIR @ ''/'' @ d = req_name d" by (simp add: req_name_def)
  have l: "length (req_name d) < FILENMSZ"
    using assms(2) by (simp add: good_entry_def req_name_def SPOOLDIR_def REQDIR_def FILENMSZ_def)
  obtain q where q: "add_job (mem k) (jobq s) (dec_req b) (word_of_int (atol d)) = Inr q" using add_job_ok [OF assms(3)] by blast
  have nd: "\<not> (d = ''.'' \<or> d = ''..'')" using assms(1) by (simp add: real_entry_def)
  have "build_qonstart mem k (d # ds) s = build_qonstart mem (Suc k) ds (s\<lparr>jobq := q\<rparr>)"
    unfolding build_qonstart.simps if_not_P [OF nd] Let_def n using l b q by simp
  then show ?thesis using q b by (simp add: entry_job_def)
qed

lemma build_spec:
  assumes "\<And>d. d \<in> set ds \<Longrightarrow> real_entry d \<Longrightarrow> good_entry s d" "jobs_rep (jobq s) xs" "inj mem" "\<And>k. mem k \<noteq> 0"
    "set xs \<subseteq> mem ` {..<k}"
  shows "\<exists>s' ys. build_qonstart mem k ds s = Inr s' \<and> files s' = files s \<and> nextjob s' = nextjob s \<and>
    jobs_rep (jobq s') (xs @ ys) \<and> map (job_at s') (xs @ ys) = map (job_at s) xs @ map (entry_job s) (filter real_entry ds)"
  using assms(1,2,5)
proof (induction ds arbitrary: k s xs)
  case Nil
  then show ?case by (intro exI [of _ s] exI [of _ "[]"]) simp
next
  case (Cons d ds)
  show ?case
  proof (cases "real_entry d")
    case False
    then have "build_qonstart mem k (d # ds) s = build_qonstart mem k ds s" by (simp add: real_entry_def)
    then show ?thesis using Cons.IH [of s xs k] Cons.prems False by simp
  next
    case True
    obtain q where q: "add_job (mem k) (jobq s) (snd (entry_job s d)) (fst (entry_job s d)) = Inr q"
      "build_qonstart mem k (d # ds) s = build_qonstart mem (Suc k) ds (s\<lparr>jobq := q\<rparr>)"
      using build_entry [OF True, of s mem k ds] Cons.prems(1) True assms(4) by auto
    let ?s = "s\<lparr>jobq := q\<rparr>" and ?p = "mem k"
    note v = add_job_view [OF q(1)]
    have np: "?p \<notin> set xs" using Cons.prems(3) assms(3) by (auto dest: injD)
    have rep: "jobs_rep (jobq ?s) (xs @ [?p])" using add_job_rep [OF Cons.prems(2) np q(1)] by simp
    have good: "\<And>d. d \<in> set ds \<Longrightarrow> real_entry d \<Longrightarrow> good_entry ?s d" using Cons.prems(1) by (simp add: good_entry_def)
    have sub: "set (xs @ [?p]) \<subseteq> mem ` {..<Suc k}" using Cons.prems(3) by auto
    have ej: "entry_job ?s = entry_job s" by (simp add: entry_job_def fun_eq_iff)
    have jx: "map (job_at ?s) (xs @ [?p]) = map (job_at s) xs @ [entry_job s d]"
      using np v(4,5) by (auto simp: job_at_def)
    obtain s' ys where s': "build_qonstart mem (Suc k) ds ?s = Inr s'" "files s' = files ?s" "nextjob s' = nextjob ?s"
      "jobs_rep (jobq s') ((xs @ [?p]) @ ys)"
      "map (job_at s') ((xs @ [?p]) @ ys) = map (job_at ?s) (xs @ [?p]) @ map (entry_job ?s) (filter real_entry ds)"
      using Cons.IH [OF good rep sub] by blast
    show ?thesis
      unfolding q(2) using s' True unfolding jx ej by (intro exI [of _ s'] exI [of _ "?p # ys"]) simp
  qed
qed

text \<open>The directory of a server in step gives its jobs, each once.\<close>

lemma entries_are_jobs:
  assumes i: "in_step s js" and ds: "set ds = {''.'', ''..''} \<union> {d. files s (req_name d) \<noteq> None}" "distinct ds"
  shows "\<And>d. d \<in> set ds \<Longrightarrow> real_entry d \<Longrightarrow> good_entry s d"
    and "set (map (entry_job s) (filter real_entry ds)) = set (map (job_at s) js)"
    and "distinct (map (entry_job s) (filter real_entry ds))"
proof -
  have job: "\<exists>p \<in> set js. d = dec_int (sint (j_jobid (jobq s) p)) \<and> entry_job s d = job_at s p \<and> good_entry s d"
    if "d \<in> set ds" "real_entry d" for d
  proof -
    have "files s (req_name d) \<noteq> None" using that ds by (auto simp: real_entry_def)
    then obtain p where p: "p \<in> set js" "d = dec_int (sint (j_jobid (jobq s) p))" using i unfolding in_step_def by blast
    then have o: "1 \<le> sint (j_jobid (jobq s) p)" "req_fits (j_req (jobq s) p)" "files s (req_name d) = Some (enc_req (j_req (jobq s) p))"
      using i by (auto simp: in_step_def on_disk_def spool_name_def req_name_def)
    then have "entry_job s d = job_at s p" using p by (simp add: entry_job_def job_at_def atol_dec_int dec_enc_req)
    moreover have "good_entry s d" using o p length_dec_jobid [of "j_jobid (jobq s) p"] length_enc_req by (simp add: good_entry_def)
    ultimately show ?thesis using p by blast
  qed
  then show "good_entry s d" if "d \<in> set ds" "real_entry d" for d using that by blast
  have there: "\<exists>d \<in> set ds. real_entry d \<and> entry_job s d = job_at s p" if "p \<in> set js" for p
  proof -
    let ?d = "dec_int (sint (j_jobid (jobq s) p))"
    have o: "1 \<le> sint (j_jobid (jobq s) p)" "req_fits (j_req (jobq s) p)" "files s (req_name ?d) = Some (enc_req (j_req (jobq s) p))"
      using i that by (auto simp: in_step_def on_disk_def spool_name_def req_name_def)
    then have "?d \<in> set ds" using ds by auto
    moreover have "real_entry ?d" using o(1) dec_first [of "nat (sint (j_jobid (jobq s) p))"]
      by (auto simp: real_entry_def dec_int_def isdigit_def)
    moreover have "entry_job s ?d = job_at s p" using o by (simp add: entry_job_def job_at_def atol_dec_int dec_enc_req)
    ultimately show ?thesis by blast
  qed
  show "set (map (entry_job s) (filter real_entry ds)) = set (map (job_at s) js)"
  proof (intro equalityI subsetI)
    fix x
    assume "x \<in> set (map (entry_job s) (filter real_entry ds))"
    then obtain d where "d \<in> set ds" "real_entry d" "x = entry_job s d" by auto
    then show "x \<in> set (map (job_at s) js)" using job [of d] by auto
  next
    fix x
    assume "x \<in> set (map (job_at s) js)"
    then obtain p where "p \<in> set js" "x = job_at s p" by auto
    then show "x \<in> set (map (entry_job s) (filter real_entry ds))" using there [of p] by force
  qed
  have "inj_on (entry_job s) (set (filter real_entry ds))"
  proof (rule inj_onI)
    fix c d
    assume c: "c \<in> set (filter real_entry ds)" "d \<in> set (filter real_entry ds)" "entry_job s c = entry_job s d"
    obtain p where "c = dec_int (sint (j_jobid (jobq s) p))" "entry_job s c = job_at s p" using job [of c] c(1) by auto
    moreover obtain p' where "d = dec_int (sint (j_jobid (jobq s) p'))" "entry_job s d = job_at s p'" using job [of d] c(2) by auto
    ultimately show "c = d" using c(3) by (simp add: job_at_def)
  qed
  then show "distinct (map (entry_job s) (filter real_entry ds))" using ds(2) by (simp add: distinct_map)
qed

end
