(* ===== verification/Ipp_Request.thy ===== *)
theory Ipp_Request
  imports Ipp_Facts
begin

text \<open>
  The two messages of the print system read back: the IPP request by a reader of its
  attributes, and the request of the \<open>print\<close> command by the server.
\<close>

unbundle bit_operations_syntax

section \<open>A reader of IPP requests\<close>

type_synonym attr = "nat \<times> string \<times> string"

primrec parse_attrs :: "nat \<Rightarrow> bytes \<Rightarrow> attr list option" where
  "parse_attrs 0 b = None"
| "parse_attrs (Suc fuel) b =
     (if b = [] then None
      else if of_char (hd b) = TAG_END_OF_ATTR then (if tl b = [] then Some [] else None)
      else
        let n = un_be (seg b 1 2); v = un_be (seg b (3 + n) 2) in
        if length b < 5 + n + v then None
        else map_option ((#) (of_char (hd b), seg b 3 n, seg b (5 + n) v)) (parse_attrs fuel (drop (5 + n + v) b)))"

text \<open>Version, operation, request number and attributes.\<close>

definition parse_ipp :: "bytes \<Rightarrow> (nat \<times> nat \<times> nat \<times> nat \<times> attr list) option" where
  "parse_ipp b = (if length b < 9 \<or> of_char (b ! 8) \<noteq> TAG_OPERATION_ATTR then None
     else map_option (\<lambda>as. (of_char (b ! 0), of_char (b ! 1), un_be (seg b 2 2), un_be (seg b 4 4), as)) (parse_attrs (length b) (drop 9 b)))"

definition attr_ok :: "attr \<Rightarrow> bool" where
  "attr_ok a = (case a of (t, n, v) \<Rightarrow> t < 256 \<and> t \<noteq> TAG_END_OF_ATTR \<and> length n < 65536 \<and> length v < 65536)"

definition enc_attr :: "attr \<Rightarrow> bytes" where
  "enc_attr a = (case a of (t, n, v) \<Rightarrow> add_option [] t n v)"

lemma add_option_append: "add_option cp t n v = cp @ enc_attr (t, n, v)"
  by (simp add: add_option_def enc_attr_def)

lemma length_enc_attr: "length (enc_attr (t, n, v)) = 5 + length n + length v"
  by (simp add: enc_attr_def add_option_def)

lemma parse_attr:
  assumes "attr_ok a"
  shows "parse_attrs (Suc fuel) (enc_attr a @ rest) = map_option ((#) a) (parse_attrs fuel rest)"
proof -
  obtain t n v where a: "a = (t, n, v)" by (cases a)
  have ok: "t < 256" "t \<noteq> TAG_END_OF_ATTR" "length n < 65536" "length v < 65536" using assms by (simp_all add: a attr_ok_def)
  define ln lv where "ln = be_nat 2 (length n)" and "lv = be_nat 2 (length v)"
  have l: "length ln = 2" "length lv = 2" "un_be ln = length n" "un_be lv = length v" using ok by (simp_all add: ln_def lv_def)
  let ?b = "enc_attr a @ rest"
  have b: "?b = char_of t # ln @ n @ lv @ v @ rest" by (simp add: a enc_attr_def add_option_def ln_def lv_def)
  have t: "of_char (char_of t :: char) = t" using ok(1) by simp
  have s1: "seg ?b 1 2 = ln" and s2: "seg ?b 3 (length n) = n"
    unfolding b using l by (simp_all add: seg_def numeral_3_eq_3 numeral_2_eq_2)
  have s3: "seg ?b (3 + length n) 2 = lv" "seg ?b (5 + length n) (length v) = v" "drop (5 + length n + length v) ?b = rest"
    unfolding b using l by (simp_all add: seg_def eval_nat_numeral)
  have lb: "\<not> length ?b < 5 + length n + length v" unfolding b using l by simp
  have ne: "?b \<noteq> []" "hd ?b = char_of t" unfolding b by simp_all
  show ?thesis
    unfolding parse_attrs.simps if_not_P [OF ne(1)] ne(2) t if_not_P [OF ok(2)] Let_def s1 l(3) s3(1) l(4) if_not_P [OF lb] s2 s3(2,3)
    by (simp add: a)
qed

lemma parse_attrs_encoded:
  "list_all attr_ok as \<Longrightarrow> length as < fuel \<Longrightarrow> parse_attrs fuel (concat (map enc_attr as) @ [char_of TAG_END_OF_ATTR]) = Some as"
proof (induction as arbitrary: fuel)
  case Nil
  then show ?case by (cases fuel) (simp_all add: TAG_END_OF_ATTR_def)
next
  case (Cons a as)
  then obtain f where f: "fuel = Suc f" by (cases fuel) auto
  have "concat (map enc_attr (a # as)) @ [char_of TAG_END_OF_ATTR] = enc_attr a @ concat (map enc_attr as) @ [char_of TAG_END_OF_ATTR]"
    by simp
  moreover have "parse_attrs f (concat (map enc_attr as) @ [char_of TAG_END_OF_ATTR]) = Some as" using Cons f by simp
  ultimately show ?case using parse_attr [of a f] Cons.prems(1) f by (simp del: parse_attrs.simps)
qed

section \<open>The header the server sends\<close>

text \<open>The attributes of a print job.\<close>

definition job_attrs :: "string \<Rightarrow> string \<Rightarrow> string \<Rightarrow> bool \<Rightarrow> attr list" where
  "job_attrs pname user job is_text =
     [(TAG_CHARSET, ''attributes-charset'', ''utf-8''), (TAG_NATULANG, ''attributes-natural-language'', ''en-us''),
      (TAG_URI, ''printer-uri'', ''http://'' @ pname @ '':'' @ dec IPP_PORT),
      (TAG_NAMEWOLANG, ''requesting-user-name'', user), (TAG_NAMEWOLANG, ''job-name'', job),
      (TAG_MIMETYPE, ''document-format'', if is_text then ''text/plain'' else ''application/postscript'')]"

definition header_bytes :: "jobid \<Rightarrow> attr list \<Rightarrow> bytes" where
  "header_bytes jobid as = [char_of (1::nat), char_of (1::nat)] @ be_nat 2 OP_PRINT_JOB @ be_nat 4 (unat jobid) @
     [char_of TAG_OPERATION_ATTR] @ concat (map enc_attr as) @ [char_of TAG_END_OF_ATTR]"

definition header_size :: "string \<Rightarrow> string \<Rightarrow> string \<Rightarrow> bool \<Rightarrow> nat" where
  "header_size pname user job is_text = (if is_text then 170 else 182) + length pname + length user + length job"

lemma dec_port: "dec IPP_PORT = ''631''"
  unfolding IPP_PORT_def by code_simp

lemma length_header: "length (header_bytes jobid (job_attrs pname user job is_text)) = header_size pname user job is_text"
  by (simp add: header_bytes_def job_attrs_def length_enc_attr header_size_def dec_port)

lemma ipp_header_cases:
  assumes "user_name req = Inr user" "job_name req = Inr job"
  shows "ipp_header pname jobid req =
    (let t = rq_flags req AND PR_TEXT \<noteq> 0 in
     if 53 \<le> length pname then Inl (Overrun ''str'')
     else if 512 < header_size pname user job t then Inl (Overrun ''ibuf'')
     else Inr (header_bytes jobid (job_attrs pname user job t)))"
proof -
  define t where "t = (rq_flags req AND PR_TEXT \<noteq> 0)"
  define str where "str = ''http://'' @ pname @ '':'' @ dec IPP_PORT"
  define hb where "hb = header_bytes jobid (job_attrs pname user job t)"
  have st: "length str < 64 \<longleftrightarrow> \<not> 53 \<le> length pname" by (auto simp: str_def dec_port)
  have e: "ipp_header pname jobid req = (if \<not> length str < 64 then Inl (Overrun ''str'') else if \<not> length hb \<le> IBUFSZ then Inl (Overrun ''ibuf'') else Inr hb)"
    unfolding ipp_header_def assms res_bind_simps Let_def add_option_append t_def [symmetric] str_def [symmetric]
    by (simp add: hb_def header_bytes_def job_attrs_def str_def)
  have "length hb \<le> IBUFSZ \<longleftrightarrow> \<not> 512 < header_size pname user job t"
    by (auto simp: hb_def length_header IBUFSZ_def)
  then show ?thesis unfolding e Let_def t_def [symmetric] st hb_def [symmetric] by simp
qed

lemma parse_header:
  assumes "length pname < 65000" "length user < 65536" "length job < 65536"
  shows "parse_ipp (header_bytes jobid (job_attrs pname user job is_text)) =
    Some (1, 1, OP_PRINT_JOB, unat jobid mod 2 ^ 32, job_attrs pname user job is_text)"
proof -
  let ?as = "job_attrs pname user job is_text"
  define op idb body where "op = be_nat 2 OP_PRINT_JOB" and "idb = be_nat 4 (unat jobid)"
    and "body = concat (map enc_attr ?as) @ [char_of TAG_END_OF_ATTR]"
  have l: "length op = 2" "length idb = 4" "un_be op = OP_PRINT_JOB" "un_be idb = unat jobid mod 2 ^ 32"
    by (simp_all add: op_def idb_def OP_PRINT_JOB_def)
  let ?b = "header_bytes jobid ?as"
  have b: "?b = [char_of (1::nat), char_of (1::nat)] @ op @ idb @ [char_of TAG_OPERATION_ATTR] @ body"
    by (simp add: header_bytes_def op_def idb_def body_def)
  have p: "?b ! 0 = char_of (1::nat)" "?b ! 1 = char_of (1::nat)" "seg ?b 2 2 = op" "seg ?b 4 4 = idb"
    "?b ! 8 = char_of TAG_OPERATION_ATTR" "drop 9 ?b = body"
  proof -
    obtain o1 o2 where o: "op = [o1, o2]" using l(1) by (auto simp: length_Suc_conv numeral_2_eq_2)
    obtain i1 i2 i3 i4 where i: "idb = [i1, i2, i3, i4]" using l(2) by (auto simp: length_Suc_conv eval_nat_numeral)
    show "?b ! 0 = char_of (1::nat)" "?b ! 1 = char_of (1::nat)" "seg ?b 2 2 = op" "seg ?b 4 4 = idb"
      "?b ! 8 = char_of TAG_OPERATION_ATTR" "drop 9 ?b = body"
      unfolding b o i by (simp_all add: seg_def)
  qed
  have "list_all attr_ok ?as"
    using assms by (simp add: job_attrs_def attr_ok_def TAG_CHARSET_def TAG_NATULANG_def TAG_URI_def TAG_NAMEWOLANG_def
      TAG_MIMETYPE_def TAG_END_OF_ATTR_def dec_port)
  moreover have "length ?as < length ?b" unfolding length_header by (simp add: job_attrs_def header_size_def)
  ultimately have "parse_attrs (length ?b) body = Some ?as" unfolding body_def by (rule parse_attrs_encoded)
  moreover have "\<not> length ?b < 9" unfolding b using l by simp
  ultimately show ?thesis unfolding parse_ipp_def p l by (simp add: TAG_OPERATION_ATTR_def)
qed

section \<open>What the print command sends\<close>

lemma writen_all: "writen s bs = Inr (int (length bs), k) \<Longrightarrow> sent k = sent s @ bs"
  using wrs.writen_spec [of bs "length bs + 1" "length bs" s] by (auto simp: writen_def)

lemma submit_loop_spec:
  assumes "stream_weight fd < fuel"
  shows "submit_loop fuel fd sock \<noteq> Inl Loops \<and> (\<forall>sock'. submit_loop fuel fd sock = Inr sock' \<longrightarrow> sent sock' = sent sock @ pending fd)"
  using assms
proof (induction fuel arbitrary: fd sock)
  case 0
  then show ?case by simp
next
  case (Suc fuel)
  obtain x fd1 where x: "sys_read fd IOBUFSZ = (x, fd1)" by (cases "sys_read fd IOBUFSZ")
  have io: "0 < IOBUFSZ" by (simp add: IOBUFSZ_def)
  note t = sys_read_cases [OF x io]
  show ?case
  proof (cases x)
    case (Inl e)
    then show ?thesis using x by simp
  next
    case (Inr b)
    show ?thesis
    proof (cases "b = []")
      case True
      then show ?thesis using x t Inr by simp
    next
      case False
      then have b: "stream_weight fd1 < fuel" "pending fd = b @ pending fd1"
        using sys_read_data [of fd IOBUFSZ b fd1] x io Inr Suc.prems by auto
      obtain nw sock1 where w: "writen sock b = Inr (nw, sock1)" using writen_total by blast
      show ?thesis
      proof (cases "nw = int (length b)")
        case nf: False
        then show ?thesis using x Inr w False by simp
      next
        case True
        then have s1: "sent sock1 = sent sock @ b" using writen_all w by simp
        have step: "submit_loop (Suc fuel) fd sock = submit_loop fuel fd1 sock1" using x Inr w True False by simp
        show ?thesis using Suc.IH [OF b(1), of sock1] unfolding step b(2) s1 append_assoc .
      qed
    qed
  qed
qed

definition title :: "string \<Rightarrow> string" where
  "title fname = (if length fname \<ge> JOBNM_MAX then ''... '' @ drop (length fname - (JOBNM_MAX - 5)) fname else fname)"

lemma title_length: "length (title fname) < JOBNM_MAX"
  by (simp add: title_def JOBNM_MAX_def)

lemma job_title_ok: "length jobnm = JOBNM_MAX \<Longrightarrow> job_title jobnm fname = strcpy jobnm (title fname)"
  by (simp add: job_title_def title_def JOBNM_MAX_def)

lemma strcpy_result: "strcpy dst s = Inr m \<Longrightarrow> NUL \<notin> set s \<Longrightarrow> cstr m = s \<and> NUL \<in> set m \<and> length m = length dst \<and> length s < length dst"
  by (auto simp: strcpy_def cstr_append_NUL split: if_splits)

lemma htonl_less: "htonl n < 2 ^ 64"
  using un_le_less [of "be_nat 4 n"] by (simp add: htonl_def)

lemma cstr_within: "NUL \<in> set xs \<Longrightarrow> cstr (xs @ ys) = cstr xs"
  by (simp add: cstr_def)

text \<open>The request that goes out and its reading by the server.\<close>

definition sent_request :: "print_in \<Rightarrow> string \<Rightarrow> string \<Rightarrow> nat \<Rightarrow> bool \<Rightarrow> printreq \<Rightarrow> bool" where
  "sent_request i user fname nbytes is_text req \<longleftrightarrow> req_fits req \<and> rq_size req = htonl nbytes \<and>
     rq_flags req = (if is_text then htonl PR_TEXT else 0) \<and> user_name req = Inr user \<and> job_name req = Inr (title fname)"

lemma submit_file_sends:
  assumes r: "req_fits (pi_req i)" and u: "pi_user i = Some user" and nul: "NUL \<notin> set user" "NUL \<notin> set fname"
    and s: "submit_file i fname nbytes is_text = Inr (sock, res)"
  shows "\<exists>req. sent_request i user fname nbytes is_text req \<and> sent sock = sent (pi_sock i) @ enc_req req @ pending (pi_file i)"
proof -
  have rl: "length (rq_usernm (pi_req i)) = USERNM_MAX" "length (rq_jobnm (pi_req i)) = JOBNM_MAX" using r by (simp_all add: req_fits_def)
  have tn: "NUL \<notin> set (title fname)" using nul(2) set_drop_subset [of _ fname] by (auto simp: title_def)
  obtain um where um: "strcpy (rq_usernm (pi_req i)) user = Inr um"
    using s u by (cases "strcpy (rq_usernm (pi_req i)) user") (simp_all add: submit_file_def)
  obtain jm where jm: "job_title (rq_jobnm (pi_req i)) fname = Inr jm" "strcpy (rq_jobnm (pi_req i)) (title fname) = Inr jm"
    using job_title_ok [OF rl(2)] title_length [of fname] rl(2) by (simp add: strcpy_def)
  note uf = strcpy_result [OF um nul(1)] and jf = strcpy_result [OF jm(2) tn]
  define req where "req = \<lparr>rq_size = htonl nbytes, rq_flags = (if is_text then htonl PR_TEXT else 0), rq_usernm = um, rq_jobnm = jm\<rparr>"
  have fits: "req_fits req" using uf jf rl htonl_less by (simp add: req_fits_def req_def)
  have un: "user_name req = Inr user" using uf by (simp add: user_name_def req_def cstr_within)
  have jn: "job_name req = Inr (title fname)" using jf by (simp add: job_name_def req_def)
  obtain nw s1 where w: "writen (pi_sock i) (enc_req req) = Inr (nw, s1)" using writen_total by blast
  note s = s [unfolded submit_file_def u option.case um res_bind_simps jm(1) Let_def req_def [symmetric] w prod.case]
  have nw: "nw = int sizeof_printreq" using s by (auto split: if_splits)
  then have s1: "sent s1 = sent (pi_sock i) @ enc_req req" using writen_all w length_enc_req [OF fits] by metis
  obtain s2 where s2: "submit_loop (Suc (stream_weight (pi_file i))) (pi_file i) s1 = Inr s2"
    using s nw by (cases "submit_loop (Suc (stream_weight (pi_file i))) (pi_file i) s1") (simp_all del: submit_loop.simps)
  then have "sent s2 = sent s1 @ pending (pi_file i)" using submit_loop_spec [OF lessI] by blast
  moreover have "sock = s2"
    using s nw s2 by (auto simp: res_bind_def simp del: submit_loop.simps split: sum.splits if_splits)
  ultimately show ?thesis using s1 fits un jn by (intro exI [of _ req]) (simp add: sent_request_def req_def)
qed

end
