(* ===== verification/Ipp_Correct.thy ===== *)
theory Ipp_Correct
  imports Ipp_Spool Ipp_Request
begin

text \<open>
  What the print system promises and where it fails: the order of the jobs, the spool
  directory as the memory of the server, the messages to and from clients and printers.
\<close>

unbundle bit_operations_syntax

section \<open>Jobs\<close>

primrec proper_op :: "ptr queue_op \<Rightarrow> bool" where
  "proper_op (Put p) = (p \<noteq> 0)"
| "proper_op Take = True"
| "proper_op (Back p) = (p \<noteq> 0)"

lemma proper_op_valid: "jobs.op_valid p = proper_op p"
  by (cases p) (simp_all only: jobs.op_valid.simps proper_op.simps)

text \<open>
  C8.  Jobs are served in the order in which they came, a job that is put back before all
  others: after any sequence of insertions at the end, removals of the first job and
  returns to the front, the doubly linked list holds exactly the jobs the sequence leaves,
  in this order, and \<open>jobhead\<close> is the first of them or the null pointer.
\<close>

theorem jobs_served_in_order:
  assumes "list_all proper_op ps" "queue_run [] ps = Some ys"
  shows "jobs_rep (foldl (job_step reqs ids) (no_jobs q) ps) ys \<and>
    jobhead (foldl (job_step reqs ids) (no_jobs q) ps) = (if ys = [] then 0 else hd ys)"
proof -
  have "\<forall>p \<in> set ps. jobs.op_valid p" using assms(1) unfolding proper_op_valid list_all_iff .
  then have "jobs_rep (foldl (job_step reqs ids) (no_jobs q) ps) ys" using jobs.run_rep [OF empty_rep] assms(2) by blast
  then show ?thesis using head_tail(1) by blast
qed

section \<open>The spool directory\<close>




section \<open>The printer\<close>



text \<open>
  When the first read brings the header only up to some point behind the length and
  before the empty line, \<open>printer_status\<close> never returns: it neither finds the empty line nor
  reads on, so the printer thread stops for ever.
\<close>

theorem split_answer_hangs:
  assumes "proper_head ver code reason hdrs" "length (answer_head ver code reason hdrs len @ mid) \<le> IOBUFSZ"
    "mid \<noteq> []" "\<And>k. take 3 (drop k mid) \<noteq> [NL, CR, NL]"
  shows "printer_status fuel junk jobid (Bytes (answer_head ver code reason hdrs len @ mid) # st) = Inl Loops"
  unfolding printer_status_def by (rule status_stuck [OF assms])

text \<open>
  A reader of IPP gets back from the header of a job the version 1.1, the operation
  Print-Job, the lower 32 bits of the job number as the request number, and the attributes
  with the name of the printer, the user and the job and the kind of document.
\<close>

theorem header_round_trip:
  assumes "ipp_header pname jobid req = Inr ib"
  shows "\<exists>user job. user_name req = Inr user \<and> job_name req = Inr job \<and>
    parse_ipp ib = Some (1, 1, OP_PRINT_JOB, unat jobid mod 2 ^ 32, job_attrs pname user job (rq_flags req AND PR_TEXT \<noteq> 0))"
proof -
  obtain user job where uj: "user_name req = Inr user" "job_name req = Inr job"
    using assms by (auto simp: ipp_header_def res_bind_def split: sum.splits)
  let ?t = "rq_flags req AND PR_TEXT \<noteq> 0"
  have h: "length pname < 53" "header_size pname user job ?t \<le> 512" "ib = header_bytes jobid (job_attrs pname user job ?t)"
    using assms unfolding ipp_header_cases [OF uj] Let_def by (auto split: if_splits)
  then show ?thesis using uj parse_header [of pname user job jobid ?t] by (auto simp: header_size_def)
qed

text \<open>
  C38.  The header fits its buffer of 512 bytes only for short names: with the names of the
  printer, the user and the job together longer than 330 characters (342 for plain text)
  the server writes behind the end of \<open>ibuf\<close>.
\<close>

theorem long_names_overrun_header:
  assumes "user_name req = Inr user" "job_name req = Inr job" "length pname < 53"
  shows "ipp_header pname jobid req = Inl (Overrun ''ibuf'') \<longleftrightarrow>
    (if rq_flags req AND PR_TEXT \<noteq> 0 then 342 else 330) < length pname + length user + length job"
  unfolding ipp_header_cases [OF assms(1,2)] Let_def using assms(3) by (auto simp: header_size_def)

section \<open>Clients\<close>

text \<open>
  C36.  What the \<open>print\<close> command submits is what the server spools: the file is the data
  file, and the request in the queue has the size of the file modulo 2 to the 32, the name
  of the user and of the file (its end, when it is long), and the text flag when it was
  given.
\<close>

theorem submitted_job_arrives:
  assumes "submit_file i fname nbytes is_text = Inr (sock, res)" "sent (pi_sock i) = []" "req_fits (pi_req i)"
    "pi_user i = Some user" "NUL \<notin> set user" "NUL \<notin> set fname"
    "pending_timed (cl_in e) = sent sock" "length (rs_msg (cl_res e)) = MSGLEN_MAX" "cl_jp e \<noteq> 0" "calls_work e"
  shows "\<exists>out req. client_thread e s = Inr out \<and> co_ok out \<and> add_job (cl_jp e) (jobq s) req (nextjob s) = Inr (jobq (co_state out)) \<and>
    files (co_state out) = spooled_as s (nextjob s) (pending (pi_file i)) req \<and>
    rq_size req = nbytes mod 2 ^ 32 \<and> user_name req = Inr user \<and> job_name req = Inr (title fname) \<and> (is_text \<longrightarrow> rq_flags req AND PR_TEXT \<noteq> 0)"
proof -
  obtain r where r: "sent_request i user fname nbytes is_text r" "sent sock = enc_req r @ pending (pi_file i)"
    using submit_file_sends [OF assms(3-6,1)] assms(2) by auto
  let ?in = "pending_timed (cl_in e)"
  have rf: "req_fits r" using r(1) by (simp add: sent_request_def)
  have sp: "take sizeof_printreq ?in = enc_req r" "drop sizeof_printreq ?in = pending (pi_file i)" "sizeof_printreq \<le> length ?in"
    unfolding assms(7) r(2) using length_enc_req [OF rf] by simp_all
  obtain out where out: "client_thread e s = Inr out" "if co_ok out then accepted e s out else rejected e s out"
    using client_cases [OF assms(8,9)] by blast
  have ok: "co_ok out" using client_accepts [OF assms(8-10) sp(3) out(1)] .
  then obtain flags where a: "flags = ntohl (rq_flags r) \<or> flags = ntohl (rq_flags r) OR PR_TEXT"
    "files (co_state out) = spooled_as s (nextjob s) (pending (pi_file i)) (host_req (enc_req r) flags)"
    "add_job (cl_jp e) (jobq s) (host_req (enc_req r) flags) (nextjob s) = Inr (jobq (co_state out))"
    using out(2) unfolding accepted_def Let_def sp(1,2) dec_enc_req [OF rf] by auto
  let ?q = "host_req (enc_req r) flags"
  have "user_name ?q = user_name r" "job_name ?q = job_name r"
    using dec_enc_req [OF rf] by (simp_all add: host_req_def user_name_def job_name_def)
  then have q: "rq_size ?q = nbytes mod 2 ^ 32" "user_name ?q = Inr user" "job_name ?q = Inr (title fname)"
    using r(1) dec_enc_req [OF rf] by (simp_all add: host_req_def sent_request_def)
  have "rq_flags ?q AND PR_TEXT \<noteq> 0" if "is_text"
  proof -
    have "ntohl (rq_flags r) = 1" using r(1) that by (simp add: sent_request_def PR_TEXT_def)
    then have "flags = 1" using a(1) by (auto simp: PR_TEXT_def)
    then show ?thesis by (simp add: host_req_def PR_TEXT_def)
  qed
  then show ?thesis using out(1) ok a(2,3) q by blast
qed

text \<open>
  \<open>connect_retry\<close> returns after at most eight attempts and 127 seconds of sleep, with 0
  exactly when one of them succeeded.
\<close>

theorem connect_retry_bounds:
  "\<exists>r slept. connect_retry ok = Inr (r, slept) \<and> slept \<le> 127 \<and> r = (if ok 0 \<or> ok 1 \<or> ok 2 \<or> ok 3 \<or> ok 4 \<or> ok 5 \<or> ok 6 \<or> ok 7 then 0 else -1)"
proof -
  have "connect_retry ok = connect_loop (Suc (Suc (Suc (Suc (Suc (Suc (Suc (Suc (Suc 0))))))))) ok 0 1 0"
    by (simp add: connect_retry_def numeral_eq_Suc)
  then show ?thesis by (simp add: MAXSLEEP_def del: One_nat_def)
qed

text \<open>
  The list of client threads forgets all but the first: after two threads have
  registered, \<open>kill_workers\<close> cancels only the first of them and the cleanup of the second
  finds nothing to close; and after the cleanup of the first the list starts with freed
  memory, which the next walk reads.
\<close>

theorem second_worker_is_lost:
  assumes "wk_head w = 0" "add_worker p1 w t1 fd1 = Some w1" "add_worker p2 w1 t2 fd2 = Some w2" "p1 \<noteq> p2" "t1 \<noteq> t2" "3 \<le> fuel"
  shows "kill_workers fuel w2 = Inr [t1] \<and> client_cleanup fuel w2 t2 = Inr (None, w2) \<and>
    (\<exists>w3. client_cleanup fuel w2 t1 = Inr (Some fd1, w3) \<and> kill_workers fuel w3 = Inl (Overrun ''wtp''))"
proof -
  have p: "p1 \<noteq> 0" "p2 \<noteq> 0" using assms(2,3) by (auto simp: add_worker_def split: if_splits)
  then have w2: "wk_head w2 = p1" "wt_next w2 p1 = 0" "wt_prev w2 p1 = p2" "wt_tid w2 p1 = t1" "wt_sockfd w2 p1 = fd1" "p1 \<notin> wt_freed w2"
    using assms(1-4) by (auto simp: add_worker_def Let_def)
  obtain f where "fuel = Suc (Suc (Suc f))" using assms(6) by (auto simp: le_iff_add eval_nat_numeral)
  then show ?thesis using w2 p assms(5) by (simp add: kill_workers_def client_cleanup_def Let_def)
qed

section \<open>Job numbers\<close>

lemma drop_prefix:
  assumes "k < length p" "length p \<le> n" "list_all Q p"
  shows "\<exists>c cs. drop k (take n (p @ r)) = c # cs \<and> Q c"
proof -
  have "drop k (take n (p @ r)) = p ! k # drop (Suc k) p @ take (n - length p) r"
    using Cons_nth_drop_Suc [OF assms(1)] assms(1,2) by simp
  moreover have "Q (p ! k)" using assms(1,3) by (simp add: list_all_length)
  ultimately show ?thesis by blast
qed

lemma path_tail_no_digit:
  assumes "k \<le> 19"
  shows "\<exists>c cs. drop k (take FILENMSZ (SPOOLDIR @ ''/'' @ JOBFILE @ [NUL] @ junk)) = c # cs \<and> \<not> isdigit c \<and> c \<noteq> NUL"
proof -
  define p where "p = SPOOLDIR @ ''/'' @ JOBFILE"
  have l: "length p = 24" and q: "list_all (\<lambda>c. \<not> isdigit c \<and> c \<noteq> NUL) p" by (simp_all add: p_def SPOOLDIR_def JOBFILE_def isdigit_def)
  have "SPOOLDIR @ ''/'' @ JOBFILE @ [NUL] @ junk = p @ [NUL] @ junk" by (simp add: p_def)
  then show ?thesis using drop_prefix [OF _ _ q, of k FILENMSZ "[NUL] @ junk"] l assms by (simp only: FILENMSZ_def)
qed

text \<open>
  A restarted server goes on with the number it saved: what \<open>update_jobno\<close> wrote,
  \<open>init_request\<close> reads back, although it reads into a buffer that holds a pathname and puts no
  null byte behind the digits, as long as the file held no longer number before.
\<close>

theorem job_number_survives:
  assumes "1 \<le> sint (nextjob s)" "length (jobfile s) \<le> length (dec_int (sint (nextjob s)))"
  shows "init_request True (Inr (jobfile (update_jobno s))) junk s0 = Inr (s0\<lparr>nextjob := nextjob s\<rparr>)"
proof -
  let ?n = "dec_int (sint (nextjob s))"
  let ?p = "take FILENMSZ (SPOOLDIR @ ''/'' @ JOBFILE @ [NUL] @ junk)"
  have j: "jobfile (update_jobno s) = ?n" using assms(2) by (simp add: update_jobno_def Let_def)
  have n: "?n = dec (nat (sint (nextjob s)))" using assms(1) by (simp add: dec_int_def)
  have l: "0 < length ?n" "length ?n \<le> 19" using assms(1) length_dec_jobid [of "nextjob s"] by (simp_all add: n)
  obtain c cs where c: "drop (length ?n) ?p = c # cs" "\<not> isdigit c" "c \<noteq> NUL"
    using path_tail_no_digit [OF l(2)] by blast
  have "\<And>x. x \<in> set ?n \<Longrightarrow> x \<noteq> NUL" using dec_chars(1) n by metis
  then have "cstr (?n @ c # cs) = ?n @ c # cstr cs" using c(3) by (simp add: cstr_def takeWhile_append2)
  then have "atol (cstr (?n @ c # cs)) = sint (nextjob s)"
    using atol_dec_append [of "c # cstr cs" "nat (sint (nextjob s))"] c(2) assms(1) by (simp add: n)
  moreover have "take FILENMSZ ?n = ?n" "?n \<noteq> []" using l by (simp_all add: FILENMSZ_def)
  ultimately show ?thesis unfolding j init_request_def Let_def append_assoc using c(1) by simp
qed

end
