(* ===== verification/Ipp_Examples.thy ===== *)
theory Ipp_Examples
  imports Ipp_Correct
begin

text \<open>
  One run of the print system: a client submits the two bytes \<open>hi\<close> as job 7, the printer
  accepts it.  The theorems on the print system are applied to it.
\<close>

unbundle bit_operations_syntax

section \<open>The run\<close>

definition ex_req :: printreq where
  "ex_req = \<lparr>rq_size = 0, rq_flags = 0, rq_usernm = ''ann'' @ replicate 61 NUL, rq_jobnm = ''memo'' @ replicate 252 NUL\<rparr>"

definition ex_queue :: jobq where
  "ex_queue = \<lparr>jobhead = 0, jobtail = 0, j_next = (\<lambda>p. 0), j_prev = (\<lambda>p. 0), j_jobid = (\<lambda>p. 0), j_req = (\<lambda>p. ex_req)\<rparr>"

definition ex_state :: printd where
  "ex_state = \<lparr>nextjob = 7, jobfile = [], jobq = ex_queue, files = (\<lambda>f. None), reread = False, printer = [], printer_name = ''lp''\<rparr>"

definition ex_client :: client_env where
  "ex_client = \<lparr>cl_in = [Bytes (enc_req ex_req @ ''hi'')], cl_out = \<lparr>sent = [], script = []\<rparr>, cl_creat_data = None, cl_write_data = [],
     cl_creat_req = None, cl_write_req = [], cl_jp = 1, cl_res = \<lparr>rs_retcode = 0, rs_jobid = 0, rs_msg = replicate MSGLEN_MAX NUL\<rparr>,
     cl_buf = [], cl_strerror = (\<lambda>n. [])\<rparr>"

definition ex_after :: printd where
  "ex_after = (case client_thread ex_client ex_state of Inl h \<Rightarrow> ex_state | Inr out \<Rightarrow> co_state out)"

lemma ex_req_fits: "req_fits ex_req"
  by (simp add: req_fits_def ex_req_def USERNM_MAX_def JOBNM_MAX_def)

lemma ex_names: "user_name ex_req = Inr ''ann''" "job_name ex_req = Inr ''memo''"
  by (simp_all add: user_name_def job_name_def ex_req_def cstr_def)

lemma ex_input: "pending_timed (cl_in ex_client) = enc_req ex_req @ ''hi''" "sizeof_printreq \<le> length (pending_timed (cl_in ex_client))"
  using length_enc_req [OF ex_req_fits] by (simp_all add: ex_client_def)

lemma ex_client_ok: "length (rs_msg (cl_res ex_client)) = MSGLEN_MAX" "cl_jp ex_client \<noteq> 0" "calls_work ex_client" "cl_jp ex_client = 1"
  by (simp_all add: ex_client_def calls_work_def)

lemma ex_free: "free_number ex_state"
  by (simp add: free_number_def ex_state_def)

lemma ex_accepted: "\<exists>out. client_thread ex_client ex_state = Inr out \<and> co_ok out \<and> accepted ex_client ex_state out \<and> ex_after = co_state out"
proof -
  obtain out where o: "client_thread ex_client ex_state = Inr out" "if co_ok out then accepted ex_client ex_state out else rejected ex_client ex_state out"
    using client_cases [OF ex_client_ok(1,2)] by blast
  moreover have "co_ok out" using client_accepts [OF ex_client_ok(1-3) ex_input(2) o(1)] .
  ultimately show ?thesis by (simp add: ex_after_def)
qed

text \<open>The state after the client: one job, its two files.\<close>

lemma ex_after_facts:
  "\<exists>req. files ex_after = spooled_as ex_state 7 ''hi'' req \<and> j_req (jobq ex_after) 1 = req \<and> user_name req = Inr ''ann'' \<and> job_name req = Inr ''memo''"
  "jobs_rep (jobq ex_after) [1]" "j_jobid (jobq ex_after) 1 = 7"
proof -
  obtain out where o: "accepted ex_client ex_state out" "ex_after = co_state out" using ex_accepted by blast
  have sp: "take sizeof_printreq (enc_req ex_req @ ''hi'') = enc_req ex_req" "drop sizeof_printreq (enc_req ex_req @ ''hi'') = ''hi''"
    using length_enc_req [OF ex_req_fits] by simp_all
  have n: "nextjob ex_state = 7" by (simp add: ex_state_def)
  obtain flags where f: "files ex_after = spooled_as ex_state 7 ''hi'' (host_req (enc_req ex_req) flags)"
    "add_job 1 (jobq ex_state) (host_req (enc_req ex_req) flags) 7 = Inr (jobq ex_after)"
    using o unfolding accepted_def Let_def ex_input(1) sp n ex_client_ok(4) by auto
  note v = add_job_view [OF f(2)]
  have "jobs_rep (jobq ex_state) []" by (simp add: ex_state_def ex_queue_def jobs_rep_def nxt_def prv_def)
  then show "jobs_rep (jobq ex_after) [1]" using add_job_rep [OF _ _ f(2), of "[]"] by simp
  show "j_jobid (jobq ex_after) 1 = 7" using v(4) by simp
  have "user_name (host_req (enc_req ex_req) flags) = user_name ex_req" "job_name (host_req (enc_req ex_req) flags) = job_name ex_req"
    using dec_enc_req [OF ex_req_fits] by (simp_all add: host_req_def user_name_def job_name_def)
  then show "\<exists>req. files ex_after = spooled_as ex_state 7 ''hi'' req \<and> j_req (jobq ex_after) 1 = req \<and> user_name req = Inr ''ann'' \<and> job_name req = Inr ''memo''"
    using f(1) v(5) ex_names by auto
qed

lemma ex_reachable: "reachable spool_empty server_step (ex_after, 0)"
proof -
  obtain out where o: "client_thread ex_client ex_state = Inr out" "ex_after = co_state out" using ex_accepted by blast
  have rep: "jobs_rep (jobq ex_state) []" by (simp add: ex_state_def ex_queue_def jobs_rep_def nxt_def prv_def)
  have start: "spool_empty (ex_state, 0)" using rep by (simp add: spool_empty_def) (simp add: ex_state_def)
  have "xs = []" if "jobs_rep (jobq ex_state) xs" for xs
    using head_tail(1) [OF that] chain_0 [of "nxt (jobq ex_state)" xs] that
    by (cases xs) (auto simp: ex_state_def ex_queue_def jobs_rep_def)
  then have "new_ptr (cl_jp ex_client) (ex_state, 0)" unfolding new_ptr_def ex_client_ok(4) by force
  then have "server_step (ex_state, 0) (co_state out, 0)" by (rule step_client [OF o(1) ex_client_ok(1) _ ex_free])
  then show ?thesis using reachable_step [OF reachable_start [of spool_empty, OF start]] o(2) by simp
qed

lemma ex_dec_7: "dec_int (sint (7 :: jobid)) = ''7''"
  by code_simp

lemma ex_directory: "{d. files ex_after (req_name d) \<noteq> None} = {''7''}"
proof -
  obtain req where f: "files ex_after = spooled_as ex_state 7 ''hi'' req" using ex_after_facts(1) by blast
  have "files ex_after (req_name d) \<noteq> None \<longleftrightarrow> d = ''7''" for d
    using ex_dec_7 by (auto simp: f spooled_as_def req_name_eq ex_state_def)
  then show ?thesis by blast
qed

section \<open>Jobs and files\<close>

theorem jobs_served_in_order_witness:
  "jobhead (foldl (job_step (\<lambda>p. ex_req) (\<lambda>p. 5)) (no_jobs ex_queue) [Put 1, Put 2, Take, Put 3, Back 1]) = 1"
  using jobs_served_in_order [of "[Put 1, Put 2, Take, Put 3, Back 1]" "[1, 2, 3]" "\<lambda>p. ex_req" "\<lambda>p. 5" ex_queue] by simp




section \<open>The printer\<close>

definition ex_body :: bytes where
  "ex_body = [CHR 0x01, CHR 0x01, CHR 0x00, CHR 0x00, CHR 0x00, CHR 0x00, CHR 0x00, CHR 0x07]"

definition ex_answer :: bytes where
  "ex_answer = answer ''HTTP/1.1'' 200 ''OK'' [] ex_body"

definition ex_print :: print_env where
  "ex_print = \<lparr>pe_fstat = True, pe_socket = True, pe_connect = (\<lambda>k. True), pe_sock = \<lparr>sent = [], script = []\<rparr>, pe_read_fails = None,
     pe_answer = [Bytes ex_answer], pe_junk = (\<lambda>k. NUL), pe_fuel = 2, pe_gai = (\<lambda>h n s. Inl 1), pe_config = None\<rparr>"

lemma ex_body_facts: "length ex_body = 8" "un_be (seg ex_body 4 4) = 7" "un_be (seg ex_body 2 2) = 0"
  by (simp_all add: ex_body_def seg_def un_be_def of_char_def)

lemma ex_head: "proper_head ''HTTP/1.1'' 200 ''OK'' []" "length ex_answer \<le> IOBUFSZ"
  "length (answer_head ''HTTP/1.1'' 200 ''OK'' [] 8 @ [NL]) \<le> IOBUFSZ"
proof -
  show "proper_head ''HTTP/1.1'' 200 ''OK'' []" by (simp add: proper_head_def CR_def)
  have "length (dec 200) \<le> 3" "length (dec 8) \<le> 1" using length_dec_le [of 200 3] length_dec_le [of 8 1] by simp_all
  then show "length ex_answer \<le> IOBUFSZ" "length (answer_head ''HTTP/1.1'' 200 ''OK'' [] 8 @ [NL]) \<le> IOBUFSZ"
    by (simp_all add: ex_answer_def answer_def answer_head_def CRLF_def IOBUFSZ_def ex_body_facts)
qed

lemma ex_status: "printer_status 2 (\<lambda>k. NUL) 7 [Bytes ex_answer] = Inr True"
  using status_answer [OF ex_head(1), of ex_body 0 "\<lambda>k. NUL" 7 _ "[]"] ex_head(2) ex_body_facts
  by (simp add: printer_status_def ex_answer_def numeral_2_eq_2 STATCLASS_OK_def del: status_loop.simps)


theorem split_answer_hangs_witness:
  "printer_status 1000 (\<lambda>k. NUL) 7 [Bytes (answer_head ''HTTP/1.1'' 200 ''OK'' [] 8 @ [NL]), Bytes ([CR, NL] @ ex_body)] = Inl Loops"
proof (rule split_answer_hangs [OF ex_head(1,3)])
  show "take 3 (drop k [NL]) \<noteq> [NL, CR, NL]" for k by (cases k) simp_all
qed simp

definition ex_header :: bytes where
  "ex_header = header_bytes 7 (job_attrs ''lp'' ''ann'' ''memo'' False)"

lemma ex_ipp_header: "ipp_header ''lp'' 7 ex_req = Inr ex_header"
  unfolding ipp_header_cases [OF ex_names] by (simp add: ex_header_def ex_req_def header_size_def)

theorem header_round_trip_witness:
  "parse_ipp ex_header = Some (1, 1, OP_PRINT_JOB, 7, job_attrs ''lp'' ''ann'' ''memo'' False)"
  using header_round_trip [OF ex_ipp_header] by (simp add: ex_names) (simp add: ex_req_def)

definition ex_long :: printreq where
  "ex_long = \<lparr>rq_size = 0, rq_flags = 0, rq_usernm = replicate 63 (CHR ''u'') @ [NUL], rq_jobnm = replicate 255 (CHR ''j'') @ [NUL]\<rparr>"

theorem long_names_overrun_header_witness:
  "ipp_header (replicate 20 (CHR ''p'')) 7 ex_long = Inl (Overrun ''ibuf'')"
proof -
  have "user_name ex_long = Inr (replicate 63 (CHR ''u''))" "job_name ex_long = Inr (replicate 255 (CHR ''j''))"
    by (simp_all add: user_name_def job_name_def ex_long_def cstr_append_NUL)
  from long_names_overrun_header [OF this, of "replicate 20 (CHR ''p'')" 7] show ?thesis by (simp add: ex_long_def)
qed

text \<open>The job is sent and the printer accepts it.\<close>

definition ex_ready :: printd where
  "ex_ready = ex_after\<lparr>reread := False, printer_name := ''lp''\<rparr>"

lemma send_loop_works:
  "stream_weight fd < fuel \<Longrightarrow> script sock = [] \<Longrightarrow> ends_well fd \<Longrightarrow> \<exists>sock'. send_loop fuel fd sock = Inr (True, sock')"
proof (induction fuel arbitrary: fd sock)
  case 0
  then show ?case by simp
next
  case (Suc fuel)
  obtain x fd1 where x: "sys_read fd IOBUFSZ = (x, fd1)" by (cases "sys_read fd IOBUFSZ")
  have io: "0 < IOBUFSZ" by (simp add: IOBUFSZ_def)
  obtain b where b: "x = Inr b" "b \<noteq> [] \<Longrightarrow> ends_well fd1" using sys_read_ends [OF x io] Suc.prems(3) by (cases x) (auto split: if_splits)
  show ?case
  proof (cases "b = []")
    case True
    then show ?thesis using x b by simp
  next
    case False
    then have "stream_weight fd1 < fuel" using sys_read_data [of fd IOBUFSZ b fd1] x b(1) io Suc.prems(1) by auto
    then show ?thesis using Suc.IH [of fd1 "sock\<lparr>sent := sent sock @ b\<rparr>"] Suc.prems(2) x b False by (simp add: sys_write_all)
  qed
qed

lemma ex_send: "\<exists>sock. send_job ex_print (update_jobno ex_ready\<lparr>jobq := q\<rparr>) 7 req ''hi'' = Inr (True, sock)"
  if u: "user_name req = Inr ''ann''" "job_name req = Inr ''memo''"
proof -
  define t where "t = (rq_flags req AND PR_TEXT \<noteq> 0)"
  have sz: "header_size ''lp'' ''ann'' ''memo'' t \<le> 512" by (cases t) (simp_all add: header_size_def)
  then obtain ib where ib: "ipp_header ''lp'' 7 req = Inr ib" "length ib \<le> 512"
    using length_header [of 7 "''lp''" "''ann''" "''memo''" t] unfolding ipp_header_cases [OF u] Let_def t_def [symmetric] by auto
  have "2 + length ib < 1000" using ib(2) by simp
  then have "length (dec (2 + length ib)) \<le> 3" using length_dec_le [of "2 + length ib" 3] by simp
  then obtain hb where hb: "http_header ''lp'' (2 + length ib) = Inr hb" by (simp add: http_header_def CRLF_def HBUFSZ_def dec_port Let_def)
  let ?f = "file_stream None ''hi''"
  have "\<exists>sock'. send_loop (Suc (stream_weight ?f)) ?f \<lparr>sent = hb @ ib, script = []\<rparr> = Inr (True, sock')"
    by (rule send_loop_works) (simp_all add: file_stream_def)
  then show ?thesis
    using ib(1) hb by (simp add: send_job_def ex_print_def ex_ready_def sys_write_all del: send_loop.simps)
qed

lemma ex_ready_facts:
  "\<exists>req. files ex_ready = spooled_as ex_state 7 ''hi'' req \<and> j_req (jobq ex_ready) 1 = req \<and> user_name req = Inr ''ann'' \<and> job_name req = Inr ''memo''"
  "jobs_rep (jobq ex_ready) [1]" "j_jobid (jobq ex_ready) 1 = 7" "reread ex_ready = False"
  using ex_after_facts by (simp_all add: ex_ready_def)

lemma ex_connect: "\<exists>n. connect_retry (\<lambda>k. True) = Inr (0, n)"
  by (simp add: connect_retry_def numeral_eq_Suc MAXSLEEP_def)

lemma ex_turn: "\<exists>s' sock. printer_turn ex_print ex_ready = Inr (s', sock) \<and> files s' \<noteq> files ex_ready"
proof -
  obtain req where r: "files ex_ready = spooled_as ex_state 7 ''hi'' req" "j_req (jobq ex_ready) 1 = req" "user_name req = Inr ''ann''" "job_name req = Inr ''memo''"
    using ex_ready_facts(1) by blast
  have h: "jobhead (jobq ex_ready) = 1" using head_tail(1) [OF ex_ready_facts(2)] by simp
  define q where "q = remove_job (jobq ex_ready) 1"
  have q: "j_jobid q 1 = 7" "j_req q 1 = req" using remove_job_view(3,4) [of 1 "jobq ex_ready"] ex_ready_facts(3) r(2) by (simp_all add: q_def)
  have take: "printer_take ex_ready = Inr (1, ex_ready\<lparr>jobq := q\<rparr>)" by (simp add: printer_take_def h q_def)
  let ?s = "update_jobno (ex_ready\<lparr>jobq := q\<rparr>)"
  have s: "?s = update_jobno ex_ready\<lparr>jobq := q\<rparr>" by (simp add: update_jobno_def Let_def)
  have f: "files ?s (spool_name DATADIR 7) = Some ''hi''" by (simp add: r(1) spooled_as_def)
  obtain sock where sj: "send_job ex_print ?s 7 req ''hi'' = Inr (True, sock)" using ex_send [OF r(3,4)] unfolding s by blast
  obtain n where n: "connect_retry (pe_connect ex_print) = Inr (0, n)" using ex_connect by (auto simp: ex_print_def)
  have e: "pe_fstat ex_print" "pe_socket ex_print" "printer_status (pe_fuel ex_print) (pe_junk ex_print) 7 (pe_answer ex_print) = Inr True"
    using ex_status by (simp_all add: ex_print_def)
  have rr: "reread ?s = False" using ex_ready_facts(4) by simp
  have "printer_turn ex_print ex_ready = Inr (?s\<lparr>files := (files ?s)(spool_name DATADIR 7 := None, spool_name REQDIR 7 := None)\<rparr>, sock)"
    unfolding printer_turn_def take res_bind_simps prod.case printer_job_def Let_def
    using q rr f n e sj by (simp del: update_jobno_fields)
  moreover have "(files ?s)(spool_name DATADIR 7 := None, spool_name REQDIR 7 := None) \<noteq> files ex_ready"
    using r(1) by (auto simp: spooled_as_def dest: fun_cong [where x = "spool_name DATADIR 7"])
  ultimately show ?thesis by simp
qed


section \<open>Clients\<close>

definition ex_submit :: print_in where
  "ex_submit = \<lparr>pi_user = Some ''ann'', pi_file = [Bytes ''hi''], pi_sock = \<lparr>sent = [], script = []\<rparr>,
     pi_resp = [Bytes (enc_resp \<lparr>rs_retcode = 0, rs_jobid = htonl 7, rs_msg = replicate MSGLEN_MAX NUL\<rparr>)], pi_req = ex_req\<rparr>"

lemma writen_works: "script s = [] \<Longrightarrow> writen s bs = Inr (int (length bs), s\<lparr>sent := sent s @ bs\<rparr>)"
proof (cases "bs = []")
  case False
  assume "script s = []"
  then show ?thesis using False by (cases bs) (simp_all add: writen_def sys_write_all)
qed (simp add: writen_def)

lemma readn_works: "b \<noteq> [] \<Longrightarrow> readn [Bytes b] (length b) = Inr ((int (length b), b), [])"
  by (cases b) (simp_all add: readn_def)

lemma ex_submitted: "\<exists>sock res. submit_file ex_submit ''memo'' 2 False = Inr (sock, res)"
proof -
  let ?b = "enc_resp \<lparr>rs_retcode = 0, rs_jobid = htonl 7, rs_msg = replicate MSGLEN_MAX NUL\<rparr>"
  have l: "length ?b = sizeof_printresp" by (simp add: enc_resp_def sizeof_printresp_def)
  then have "?b \<noteq> []" by (auto simp: sizeof_printresp_def)
  then have r: "readn [Bytes ?b] sizeof_printresp = Inr ((int sizeof_printresp, ?b), [])" using readn_works [of ?b] l by simp
  have u: "strcpy (rq_usernm ex_req) ''ann'' = Inr (rq_usernm ex_req)" "job_title (rq_jobnm ex_req) ''memo'' = Inr (rq_jobnm ex_req)"
    by (simp_all add: strcpy_def job_title_def ex_req_def JOBNM_MAX_def flip: replicate_Suc)
  let ?q = "\<lparr>rq_size = htonl 2, rq_flags = 0, rq_usernm = rq_usernm ex_req, rq_jobnm = rq_jobnm ex_req\<rparr>"
  have "req_fits ?q" using ex_req_fits htonl_less by (simp add: req_fits_def)
  then have lq: "length (enc_req ?q) = sizeof_printreq" by (rule length_enc_req)
  have sl: "submit_loop (Suc (stream_weight [Bytes ''hi''])) [Bytes ''hi''] \<lparr>sent = enc_req ?q, script = []\<rparr> =
      Inr \<lparr>sent = enc_req ?q @ ''hi'', script = []\<rparr>"
    by (simp add: writen_works IOBUFSZ_def)
  show ?thesis
    unfolding submit_file_def using u r lq sl by (simp add: ex_submit_def writen_works Let_def del: submit_loop.simps)
qed

definition ex_server :: client_env where
  "ex_server = ex_client\<lparr>cl_in := (case submit_file ex_submit ''memo'' 2 False of Inl h \<Rightarrow> [] | Inr (sock, res) \<Rightarrow> [Bytes (sent sock)])\<rparr>"

theorem submitted_job_arrives_witness:
  "\<exists>out req. client_thread ex_server ex_state = Inr out \<and> co_ok out \<and>
     files (co_state out) = spooled_as ex_state 7 ''hi'' req \<and> rq_size req = 2 \<and> user_name req = Inr ''ann'' \<and> job_name req = Inr ''memo''"
proof -
  obtain sock res where s: "submit_file ex_submit ''memo'' 2 False = Inr (sock, res)" using ex_submitted by blast
  have i: "sent (pi_sock ex_submit) = []" "req_fits (pi_req ex_submit)" "pi_user ex_submit = Some ''ann''" "NUL \<notin> set ''ann''" "NUL \<notin> set ''memo''"
    "pending (pi_file ex_submit) = ''hi''"
    using ex_req_fits by (simp_all add: ex_submit_def)
  have e: "pending_timed (cl_in ex_server) = sent sock" "length (rs_msg (cl_res ex_server)) = MSGLEN_MAX" "cl_jp ex_server \<noteq> 0" "calls_work ex_server"
    using s by (auto simp: ex_server_def ex_client_def calls_work_def)
  have "nextjob ex_state = 7" "title ''memo'' = ''memo''" by (simp_all add: ex_state_def title_def JOBNM_MAX_def)
  then show ?thesis using submitted_job_arrives [OF s i(1-5) e, of ex_state] i(6) by auto
qed

section \<open>Workers and numbers\<close>

definition ex_workers :: workers where
  "ex_workers = \<lparr>wk_head = 0, wt_next = (\<lambda>p. 0), wt_prev = (\<lambda>p. 0), wt_tid = (\<lambda>p. 0), wt_sockfd = (\<lambda>p. 0), wt_freed = {}\<rparr>"

theorem second_worker_is_lost_witness:
  "\<exists>w1 w2. add_worker 1 ex_workers 10 4 = Some w1 \<and> add_worker 2 w1 11 5 = Some w2 \<and> kill_workers 3 w2 = Inr [10]"
proof -
  obtain w1 where w1: "add_worker 1 ex_workers 10 4 = Some w1" by (simp add: add_worker_def Let_def)
  obtain w2 where w2: "add_worker 2 w1 11 5 = Some w2" by (simp add: add_worker_def Let_def)
  have "wk_head ex_workers = 0" by (simp add: ex_workers_def)
  from second_worker_is_lost [OF this w1 w2, of 3] w1 w2 show ?thesis by simp
qed

theorem job_number_survives_witness:
  "init_request True (Inr (jobfile (update_jobno ex_state))) [] ex_state = Inr (ex_state\<lparr>nextjob := 7\<rparr>)"
  using job_number_survives [of ex_state "[]" ex_state] by (simp add: ex_state_def)

end
