(* ===== verification/Sem_Kernel.thy ===== *)
theory Sem_Kernel
  imports Prelude Errno Machine
begin

text \<open>
  System V semaphores as the kernel keeps them, and programs as the system calls they make:
  what a function of a library does is a program; processes run their programs one system
  call at a time, in any order, may be interrupted while they sleep, and may exit anywhere.
\<close>

section \<open>Semaphore sets\<close>

type_synonym pid = nat
type_synonym semid = nat


text \<open>The largest value of a semaphore and of an adjustment.\<close>

definition SEMVMX :: int where "SEMVMX = 32767"
definition SEMAEM :: int where "SEMAEM = 32767"

text \<open>\<open>semadj p n\<close> is added to member \<open>n\<close> when process \<open>p\<close> exits.\<close>

record semset =
  nsems :: nat
  semval :: "nat \<Rightarrow> int"
  semadj :: "pid \<Rightarrow> nat \<Rightarrow> int"

record sysv =
  semsets :: "semid \<Rightarrow> semset option"
  semkeys :: "int \<Rightarrow> semid option"
  next_id :: semid

record sembuf =
  sb_num :: nat
  sb_op :: int
  sb_undo :: bool

datatype 'a attempt = Can 'a | Sleeps | Fails int

text \<open>The operations of one call are done one after the other, or not at all.\<close>

primrec sem_try :: "pid \<Rightarrow> sembuf list \<Rightarrow> semset \<Rightarrow> semset attempt" where
  "sem_try p [] S = Can S"
| "sem_try p (b # bs) S =
     (let n = sb_num b; r = semval S n + sb_op b; a = semadj S p n - sb_op b in
      if sb_op b = 0 then (if semval S n = 0 then sem_try p bs S else Sleeps)
      else if r < 0 then Sleeps
      else if r > SEMVMX then Fails ERANGE
      else if \<not> sb_undo b then sem_try p bs (S\<lparr>semval := (semval S)(n := r)\<rparr>)
      else if a > SEMAEM \<or> a < - SEMAEM then Fails ERANGE
      else sem_try p bs (S\<lparr>semval := (semval S)(n := r), semadj := (semadj S)(p := (semadj S p)(n := a))\<rparr>))"

definition new_set :: "nat \<Rightarrow> semset" where
  "new_set n = \<lparr>nsems = n, semval = (\<lambda>i. 0), semadj = (\<lambda>p i. 0)\<rparr>"

section \<open>System calls\<close>

datatype syscall = Semget int nat bool | Semop semid "sembuf list" | Getval semid nat | Setval semid nat int | Rmid semid

primrec exec :: "pid \<Rightarrow> syscall \<Rightarrow> sysv \<Rightarrow> (int \<times> sysv) attempt" where
  "exec p (Semget key n create) k = (case semkeys k key of
     Some sid \<Rightarrow> (case semsets k sid of None \<Rightarrow> Fails ENOENT | Some S \<Rightarrow> if nsems S < n then Fails EINVAL else Can (int sid, k))
   | None \<Rightarrow>
       if create
       then Can (int (next_id k), k\<lparr>semsets := (semsets k)(next_id k \<mapsto> new_set n), semkeys := (semkeys k)(key \<mapsto> next_id k), next_id := next_id k + 1\<rparr>)
       else Fails ENOENT)"
| "exec p (Semop sid ops) k = (case semsets k sid of
     None \<Rightarrow> Fails EINVAL
   | Some S \<Rightarrow>
       if \<not> list_all (\<lambda>b. sb_num b < nsems S) ops then Fails EFBIG
       else (case sem_try p ops S of
           Can S \<Rightarrow> Can (0, k\<lparr>semsets := (semsets k)(sid \<mapsto> S)\<rparr>)
         | Sleeps \<Rightarrow> Sleeps
         | Fails e \<Rightarrow> Fails e))"
| "exec p (Getval sid n) k = (case semsets k sid of
     None \<Rightarrow> Fails EINVAL
   | Some S \<Rightarrow> if n < nsems S then Can (semval S n, k) else Fails EINVAL)"
| "exec p (Setval sid n v) k = (case semsets k sid of
     None \<Rightarrow> Fails EINVAL
   | Some S \<Rightarrow>
       if \<not> n < nsems S then Fails EINVAL
       else if v < 0 \<or> v > SEMVMX then Fails ERANGE
       else Can (0, k\<lparr>semsets := (semsets k)(sid \<mapsto>
         S\<lparr>semval := (semval S)(n := v), semadj := (\<lambda>q. (semadj S q)(n := 0))\<rparr>)\<rparr>))"
| "exec p (Rmid sid) k = (case semsets k sid of
     None \<Rightarrow> Fails EINVAL
   | Some S \<Rightarrow> Can (0, k\<lparr>semsets := (semsets k)(sid := None), semkeys := (\<lambda>key. if semkeys k key = Some sid then None else semkeys k key)\<rparr>))"

text \<open>At the exit of a process its adjustments are made, within the bounds of a value.\<close>

definition set_exit :: "pid \<Rightarrow> semset \<Rightarrow> semset" where
  "set_exit p S = S\<lparr>semval := (\<lambda>n. if semadj S p n = 0 then semval S n else max 0 (min SEMVMX (semval S n + semadj S p n))),
     semadj := (semadj S)(p := (\<lambda>n. 0))\<rparr>"

definition exit_undo :: "pid \<Rightarrow> sysv \<Rightarrow> sysv" where
  "exit_undo p k = k\<lparr>semsets := (\<lambda>i. map_option (set_exit p) (semsets k i))\<rparr>"

section \<open>Programs\<close>

datatype sysres = Okay (result_of: int) | Error (errno_of: int)

text \<open>A program may go on for ever: the datatype is coinductive.\<close>

codatatype prog = Ret int | Stop halt | Call syscall "sysres \<Rightarrow> prog"

text \<open>\<open>cur p\<close> is what process \<open>p\<close> still has to do; a process that sleeps in a call is in \<open>asleep\<close>.\<close>

record system =
  kern :: sysv
  cur :: "pid \<Rightarrow> prog"
  asleep :: "pid \<Rightarrow> bool"

definition resume :: "system \<Rightarrow> pid \<Rightarrow> sysv \<Rightarrow> prog \<Rightarrow> system" where
  "resume s p k g = s\<lparr>kern := k, cur := (cur s)(p := g), asleep := (asleep s)(p := False)\<rparr>"

text \<open>
  A system call of process \<open>p\<close>.  A set that is removed under a sleeping process is reported
  with another error than one that is not there when the call is made.
\<close>

inductive call_step :: "pid \<Rightarrow> system \<Rightarrow> system \<Rightarrow> bool" for p s where
  call_done: "cur s p = Call c f \<Longrightarrow> exec p c (kern s) = Can (r, k) \<Longrightarrow> call_step p s (resume s p k (f (Okay r)))"
| call_fail: "cur s p = Call c f \<Longrightarrow> exec p c (kern s) = Fails e \<Longrightarrow>
    call_step p s (resume s p (kern s) (f (Error (if asleep s p \<and> e = EINVAL then EIDRM else e))))"
| call_sleep: "cur s p = Call c f \<Longrightarrow> exec p c (kern s) = Sleeps \<Longrightarrow> call_step p s (s\<lparr>asleep := (asleep s)(p := True)\<rparr>)"
| call_signalled: "cur s p = Call c f \<Longrightarrow> exec p c (kern s) = Sleeps \<Longrightarrow> call_step p s (resume s p (kern s) (f (Error EINTR)))"
| call_noget: "cur s p = Call (Semget key m b) f \<Longrightarrow> call_step p s (resume s p (kern s) (f (Error e)))"

text \<open>
  The steps of \<open>n\<close> processes.  \<open>may k p g\<close>: with the kernel in state \<open>k\<close>, process \<open>p\<close> may call the
  function with program \<open>g\<close>.
\<close>

inductive sem_step :: "nat \<Rightarrow> (sysv \<Rightarrow> pid \<Rightarrow> prog \<Rightarrow> bool) \<Rightarrow> system \<Rightarrow> system \<Rightarrow> bool" for n may where
  sem_begin: "p < n \<Longrightarrow> cur s p = Ret v \<Longrightarrow> may (kern s) p g \<Longrightarrow> sem_step n may s (resume s p (kern s) g)"
| sem_call: "p < n \<Longrightarrow> call_step p s s' \<Longrightarrow> sem_step n may s s'"
| sem_exit: "p < n \<Longrightarrow> sem_step n may s (resume s p (exit_undo p (kern s)) (Ret 0))"

definition all_idle :: "system \<Rightarrow> bool" where
  "all_idle s \<longleftrightarrow> semsets (kern s) = (\<lambda>i. None) \<and> semkeys (kern s) = (\<lambda>key. None) \<and> (\<forall>p. cur s p = Ret 0 \<and> \<not> asleep s p)"

lemma resume_sel [simp]:
  "kern (resume s p k g) = k" "cur (resume s p k g) = (cur s)(p := g)" "asleep (resume s p k g) = (asleep s)(p := False)"
  by (simp_all add: resume_def)

text \<open>A member whose operations are all undone: value and adjustments keep their sum.\<close>

lemma sum_update: "p < n \<Longrightarrow> (\<Sum>q<n. (f(p := v)) q) = (\<Sum>q<n. f q) - f p + (v :: int)" for n :: nat
proof -
  assume p: "p < n"
  have "(\<Sum>q\<in>{..<n} - {p}. (f(p := v)) q) = (\<Sum>q\<in>{..<n} - {p}. f q)" by (rule sum.cong) auto
  then show ?thesis using sum.remove [of "{..<n}" p f] sum.remove [of "{..<n}" p "f(p := v)"] p by simp
qed

section \<open>Schedules\<close>

text \<open>One turn of a process, with no signal: the step relation followed along a schedule.\<close>

definition turn :: "pid \<Rightarrow> system \<Rightarrow> system" where
  "turn p s = (case cur s p of
     Call c f \<Rightarrow> (case exec p c (kern s) of
         Can (r, k) \<Rightarrow> resume s p k (f (Okay r))
       | Sleeps \<Rightarrow> s\<lparr>asleep := (asleep s)(p := True)\<rparr>
       | Fails e \<Rightarrow> resume s p (kern s) (f (Error (if asleep s p \<and> e = EINVAL then EIDRM else e))))
   | _ \<Rightarrow> s)"

definition call :: "pid \<Rightarrow> prog \<Rightarrow> system \<Rightarrow> system" where
  "call p g s = resume s p (kern s) g"

lemma turn_step: "p < n \<Longrightarrow> cur s p = Call c f \<Longrightarrow> sem_step n may s (turn p s)"
  by (rule sem_call) (auto simp: turn_def split: attempt.splits intro: call_done call_sleep dest: call_fail [of s p c f])

lemma reach_turn:
  assumes "reachable st (sem_step n may) s" "p < n"
  shows "reachable st (sem_step n may) (turn p s)"
proof (cases "cur s p")
  case (Call c f)
  show ?thesis using assms(1) turn_step [OF assms(2) Call] by (rule reachable_step)
qed (simp_all add: turn_def assms(1))

lemma reach_turns: "reachable st (sem_step n may) s \<Longrightarrow> p < n \<Longrightarrow> reachable st (sem_step n may) ((turn p ^^ m) s)"
  by (induction m) (auto intro: reach_turn)

lemma reach_call: "reachable st (sem_step n may) s \<Longrightarrow> p < n \<Longrightarrow> cur s p = Ret v \<Longrightarrow> may (kern s) p g \<Longrightarrow> reachable st (sem_step n may) (call p g s)"
  unfolding call_def by (erule reachable_step, rule sem_begin)

lemma turn_eqs:
  "cur s p = Call c f \<Longrightarrow> exec p c (kern s) = Can (r, k) \<Longrightarrow> turn p s = resume s p k (f (Okay r))"
  "cur s p = Call c f \<Longrightarrow> exec p c (kern s) = Sleeps \<Longrightarrow> turn p s = s\<lparr>asleep := (asleep s)(p := True)\<rparr>"
  "cur s p = Call c f \<Longrightarrow> exec p c (kern s) = Fails e \<Longrightarrow> turn p s = resume s p (kern s) (f (Error (if asleep s p \<and> e = EINVAL then EIDRM else e)))"
  by (simp_all add: turn_def)

end
