(* ===== verification/Sem_Lib.thy ===== *)
theory Sem_Lib
  imports Sem_Kernel
begin

text \<open>
  The semaphore library \<open>apue2e/lib/semaph.c\<close>: every function as the program of its system
  calls.  Member 0 of a set is the semaphore, member 1 counts the processes down from a
  large number, member 2 is a lock.
\<close>

definition BIGCOUNT :: int where "BIGCOUNT = 10000"
definition IPC_PRIVATE :: int where "IPC_PRIVATE = 0"

definition op_lock :: "sembuf list" where
  "op_lock = [\<lparr>sb_num = 2, sb_op = 0, sb_undo = False\<rparr>, \<lparr>sb_num = 2, sb_op = 1, sb_undo = True\<rparr>]"

definition op_endcreate :: "sembuf list" where
  "op_endcreate = [\<lparr>sb_num = 1, sb_op = -1, sb_undo = True\<rparr>, \<lparr>sb_num = 2, sb_op = -1, sb_undo = True\<rparr>]"

definition op_open :: "sembuf list" where
  "op_open = [\<lparr>sb_num = 1, sb_op = -1, sb_undo = True\<rparr>]"

definition op_close :: "sembuf list" where
  "op_close = [\<lparr>sb_num = 2, sb_op = 0, sb_undo = False\<rparr>, \<lparr>sb_num = 2, sb_op = 1, sb_undo = True\<rparr>, \<lparr>sb_num = 1, sb_op = 1, sb_undo = True\<rparr>]"

definition op_unlock :: "sembuf list" where
  "op_unlock = [\<lparr>sb_num = 2, sb_op = -1, sb_undo = True\<rparr>]"

definition op_op :: "int \<Rightarrow> sembuf list" where
  "op_op v = [\<lparr>sb_num = 0, sb_op = v, sb_undo = True\<rparr>]"

text \<open>Go on unless the call failed.\<close>

definition or_stop :: "string \<Rightarrow> (int \<Rightarrow> prog) \<Rightarrow> sysres \<Rightarrow> prog" where
  "or_stop msg f r = (case r of Okay v \<Rightarrow> f v | Error e \<Rightarrow> Stop (Err_sys msg))"

section \<open>Creating\<close>

text \<open>\<open>sem_create\<close> from its end: the program points after each of its system calls.\<close>

definition create_end :: "semid \<Rightarrow> prog" where
  "create_end sid = Call (Semop sid op_endcreate) (or_stop ''can't end create'' (\<lambda>v. Ret (int sid)))"

definition create_count :: "semid \<Rightarrow> prog" where
  "create_count sid = Call (Setval sid 1 BIGCOUNT) (or_stop ''can SETVAL[1]'' (\<lambda>v. create_end sid))"

definition create_init :: "semid \<Rightarrow> int \<Rightarrow> prog" where
  "create_init sid initval = Call (Setval sid 0 initval) (or_stop ''can SETVAL[0]'' (\<lambda>v. create_count sid))"

definition create_locked :: "semid \<Rightarrow> int \<Rightarrow> prog" where
  "create_locked sid initval = Call (Getval sid 1) (or_stop ''can't GETVAL'' (\<lambda>semval. if semval = 0 then create_init sid initval else create_end sid))"

text \<open>
  The loop of \<open>sem_create\<close>, which may go on for ever: \<open>None\<close> is the label \<open>again\<close>, \<open>Some sid\<close> the call that takes the lock.
\<close>

primcorec create_from :: "int \<Rightarrow> int \<Rightarrow> semid option \<Rightarrow> prog" where
  "create_from key initval at = (case at of
     None \<Rightarrow> Call (Semget key 3 True) (\<lambda>r. case r of
         Okay sid \<Rightarrow> create_from key initval (Some (nat sid))
       | Error e \<Rightarrow> Ret (-1))
   | Some sid \<Rightarrow> Call (Semop sid op_lock) (\<lambda>r. case r of
         Okay v \<Rightarrow> create_locked sid initval
       | Error e \<Rightarrow> if e = EINVAL then create_from key initval None else Stop (Err_sys ''can't lock'')))"

definition create_again :: "int \<Rightarrow> int \<Rightarrow> prog" where
  "create_again key initval = create_from key initval None"

definition create_lock :: "int \<Rightarrow> int \<Rightarrow> semid \<Rightarrow> prog" where
  "create_lock key initval sid = create_from key initval (Some sid)"

definition sem_create :: "int \<Rightarrow> int \<Rightarrow> prog" where
  "sem_create key initval =
     (if key = IPC_PRIVATE then Ret (-1)
      else if key = -1 then Ret (-1)
      else create_again key initval)"

section \<open>Opening, closing, waiting\<close>

definition sem_open :: "int \<Rightarrow> prog" where
  "sem_open key =
     (if key = IPC_PRIVATE then Ret (-1)
      else if key = -1 then Ret (-1)
      else Call (Semget key 3 False) (\<lambda>r. case r of
        Error e \<Rightarrow> Ret (-1)
      | Okay sid \<Rightarrow> Call (Semop (nat sid) op_open) (or_stop ''can't open'' (\<lambda>v. Ret sid))))"

definition sem_rm :: "semid \<Rightarrow> prog" where
  "sem_rm sid = Call (Rmid sid) (or_stop ''can't IPC_RMID'' (\<lambda>v. Ret 0))"

definition close_unlock :: "semid \<Rightarrow> prog" where
  "close_unlock sid = Call (Semop sid op_unlock) (or_stop ''can't unlock'' (\<lambda>v. Ret 0))"

definition close_locked :: "semid \<Rightarrow> prog" where
  "close_locked sid = Call (Getval sid 1) (or_stop ''can't GETVAL'' (\<lambda>semval.
     if semval > BIGCOUNT then Stop (Err_dump ''sem[1] > BIGCOUNT'')
     else if semval = BIGCOUNT then sem_rm sid
     else close_unlock sid))"

definition sem_close :: "semid \<Rightarrow> prog" where
  "sem_close sid = Call (Semop sid op_close) (or_stop ''can't semop'' (\<lambda>v. close_locked sid))"

text \<open>The amount is stored in a 16-bit member before it is compared with 0.\<close>

definition sem_op :: "semid \<Rightarrow> int \<Rightarrow> prog" where
  "sem_op sid amount = (let v = signed_take_bit 15 amount in
     if v = 0 then Stop (Err_sys ''can't have value == 0'')
      else Call (Semop sid (op_op v)) (or_stop ''sem_op error'' (\<lambda>r. Ret 0)))"

definition sem_wait :: "semid \<Rightarrow> prog" where
  "sem_wait sid = sem_op sid (-1)"

definition sem_signal :: "semid \<Rightarrow> prog" where
  "sem_signal sid = sem_op sid 1"

lemma create_again_eq:
  "create_again key initval = Call (Semget key 3 True) (\<lambda>r. case r of Okay sid \<Rightarrow> create_lock key initval (nat sid) | Error e \<Rightarrow> Ret (-1))"
  unfolding create_again_def create_lock_def by (subst create_from.code) simp

lemma create_lock_eq:
  "create_lock key initval sid = Call (Semop sid op_lock) (\<lambda>r. case r of
     Okay v \<Rightarrow> create_locked sid initval
   | Error e \<Rightarrow> if e = EINVAL then create_again key initval else Stop (Err_sys ''can't lock''))"
  unfolding create_again_def create_lock_def by (subst create_from.code) simp

end
