(* ===== verification/Sem_Inv.thy ===== *)
theory Sem_Inv
  imports Sem_Lib
begin

text \<open>
  The library of \<open>apue2e/lib/semaph.c\<close> without \<open>sem_open\<close>: what holds at every program point
  of every process while all of them create, use and close semaphores.
\<close>

declare One_nat_def [simp del]

section \<open>Who may call what\<close>

definition user :: "sysv \<Rightarrow> pid \<Rightarrow> semid \<Rightarrow> bool" where
  "user k p sid \<longleftrightarrow> (\<exists>S. semsets k sid = Some S \<and> semadj S p 1 = 1)"

definition no_user :: "sysv \<Rightarrow> pid \<Rightarrow> bool" where
  "no_user k p \<longleftrightarrow> (\<forall>sid S. semsets k sid = Some S \<longrightarrow> semadj S p 1 = 0)"

definition lib_calls :: "sysv \<Rightarrow> pid \<Rightarrow> prog \<Rightarrow> bool" where
  "lib_calls k p g \<longleftrightarrow>
     (\<exists>key v. g = sem_create key v \<and> no_user k p) \<or>
     (\<exists>sid. g = sem_close sid \<and> user k p sid) \<or>
     (\<exists>sid v. g = sem_op sid v \<and> user k p sid)"

section \<open>Program points\<close>

definition create_point :: "prog \<Rightarrow> bool" where
  "create_point g \<longleftrightarrow> (\<exists>key v. g = create_again key v \<or>
     (\<exists>sid. g = create_lock key v sid))"

definition use_point :: "semid \<Rightarrow> prog \<Rightarrow> bool" where
  "use_point sid g \<longleftrightarrow> g = sem_close sid \<or> (\<exists>v. g = sem_op sid v)"

text \<open>The points between taking the lock and giving it back, with what is known of the counter there.\<close>

definition zero_point :: "semid \<Rightarrow> prog \<Rightarrow> bool" where
  "zero_point sid g \<longleftrightarrow> (\<exists>v. g = create_init sid v) \<or> g = create_count sid"

definition check_point :: "semid \<Rightarrow> prog \<Rightarrow> bool" where
  "check_point sid g \<longleftrightarrow> (\<exists>v. g = create_locked sid v)"

definition full_point :: "semid \<Rightarrow> prog \<Rightarrow> bool" where
  "full_point sid g \<longleftrightarrow> g = sem_rm sid"

definition count_point :: "semid \<Rightarrow> prog \<Rightarrow> bool" where
  "count_point sid g \<longleftrightarrow> g = create_end sid \<or> g = close_locked sid \<or> g = close_unlock sid"

definition holder :: "semid \<Rightarrow> prog \<Rightarrow> bool" where
  "holder sid g \<longleftrightarrow> zero_point sid g \<or> check_point sid g \<or> full_point sid g \<or> count_point sid g"

lemmas point_defs = zero_point_def check_point_def full_point_def count_point_def

lemmas prog_defs = create_init_def create_count_def create_locked_def create_end_def close_locked_def close_unlock_def sem_rm_def

lemma holder_cases:
  assumes "holder sid g"
  obtains (init) v where "g = create_init sid v" | (count) "g = create_count sid" | (locked) v where "g = create_locked sid v"
  | (end_) "g = create_end sid" | (rm) "g = sem_rm sid" | (cl) "g = close_locked sid" | (unlock) "g = close_unlock sid"
  using assms by (auto simp: holder_def point_defs)

lemma holder_unique: "holder i g \<Longrightarrow> holder j g \<Longrightarrow> i = j"
  by (auto simp: holder_def point_defs prog_defs)

lemma not_holder [simp]: "\<not> holder i (Ret v)" "\<not> holder i (Stop h)"
  by (auto simp: holder_def point_defs prog_defs)

lemma create_again_not_holder: "\<not> holder i (create_again key v)"
  unfolding create_again_eq by (auto simp: holder_def point_defs prog_defs)

lemma op_lists: "op_lock \<noteq> op_endcreate" "op_lock \<noteq> op_unlock" "op_close \<noteq> op_endcreate" "op_close \<noteq> op_unlock" "op_op v \<noteq> op_endcreate" "op_op v \<noteq> op_unlock"
  by (simp_all add: op_lock_def op_endcreate_def op_unlock_def op_close_def op_op_def)

lemma create_lock_not_holder: "\<not> holder i (create_lock a v j)"
  unfolding create_lock_eq using op_lists by (auto simp: holder_def point_defs prog_defs)

lemma use_not_holder: "use_point j g \<Longrightarrow> \<not> holder i g"
  using op_lists by (auto simp: use_point_def holder_def point_defs prog_defs sem_close_def sem_op_def Let_def split: if_splits)

section \<open>The invariant\<close>

definition counted :: "nat \<Rightarrow> semset \<Rightarrow> bool" where
  "counted n S \<longleftrightarrow> semval S 1 + (\<Sum>p<n. semadj S p 1) = BIGCOUNT"

definition unset :: "semset \<Rightarrow> bool" where
  "unset S \<longleftrightarrow> semval S 1 = 0 \<and> (\<forall>p. semadj S p 1 = 0)"

definition set_inv :: "nat \<Rightarrow> semset \<Rightarrow> bool" where
  "set_inv n S \<longleftrightarrow> nsems S = 3 \<and> (\<forall>p. semadj S p 1 = 0 \<or> semadj S p 1 = 1 \<and> p < n) \<and> (\<forall>p. semadj S p 2 = 0 \<or> semadj S p 2 = -1) \<and>
     (\<forall>p q. semadj S p 2 = -1 \<longrightarrow> semadj S q 2 = -1 \<longrightarrow> p = q) \<and>
     semval S 2 = (if \<exists>p. semadj S p 2 = -1 then 1 else 0) \<and> (unset S \<or> counted n S)"

definition single :: "sysv \<Rightarrow> pid \<Rightarrow> bool" where
  "single k p \<longleftrightarrow> (\<forall>i j. user k p i \<longrightarrow> user k p j \<longrightarrow> i = j)"

definition point_inv :: "nat \<Rightarrow> sysv \<Rightarrow> pid \<Rightarrow> prog \<Rightarrow> bool" where
  "point_inv n k p g \<longleftrightarrow> single k p \<and> ((\<exists>v. g = Ret v) \<or> (\<exists>h. g = Stop h \<and> (\<forall>m. h \<noteq> Err_dump m)) \<or> create_point g \<and> no_user k p \<or>
     (\<exists>sid. use_point sid g \<and> user k p sid) \<or>
     (\<exists>sid S. holder sid g \<and> no_user k p \<and> semsets k sid = Some S \<and> semadj S p 2 = -1 \<and>
        (zero_point sid g \<longrightarrow> unset S) \<and> (full_point sid g \<longrightarrow> semval S 1 = BIGCOUNT) \<and> (count_point sid g \<or> full_point sid g \<longrightarrow> counted n S)))"

definition sem_inv :: "nat \<Rightarrow> system \<Rightarrow> bool" where
  "sem_inv n s \<longleftrightarrow> (\<forall>p. point_inv n (kern s) p (cur s p)) \<and>
     (\<forall>sid S. semsets (kern s) sid = Some S \<longrightarrow> set_inv n S \<and> (\<forall>p. semadj S p 2 = -1 \<longrightarrow> holder sid (cur s p) \<or> (\<exists>h. cur s p = Stop h)) \<and> sid < next_id (kern s)) \<and>
     (\<forall>key sid. semkeys (kern s) key = Some sid \<longrightarrow> semsets (kern s) sid \<noteq> None)"

lemma user_count:
  assumes "set_inv n S" "counted n S"
  shows "semval S 1 \<le> BIGCOUNT" "BIGCOUNT - int n \<le> semval S 1" "semval S 1 = BIGCOUNT \<longleftrightarrow> (\<forall>p. semadj S p 1 = 0)"
proof -
  have a: "\<And>p. semadj S p 1 = 0 \<or> semadj S p 1 = 1 \<and> p < n" using assms(1) unfolding set_inv_def by blast
  then have r: "\<And>p. 0 \<le> semadj S p 1 \<and> semadj S p 1 \<le> 1" by (metis order_refl zero_le_one)
  have "0 \<le> (\<Sum>p<n. semadj S p 1)" using r by (intro sum_nonneg) blast
  moreover have "(\<Sum>p<n. semadj S p 1) \<le> (\<Sum>p<n. 1)" using r by (intro sum_mono) blast
  ultimately show "semval S 1 \<le> BIGCOUNT" "BIGCOUNT - int n \<le> semval S 1" using assms(2) unfolding counted_def by simp_all
  have "(\<Sum>p<n. semadj S p 1) = 0 \<longleftrightarrow> (\<forall>p\<in>{..<n}. semadj S p 1 = 0)" using r by (intro sum_nonneg_eq_0_iff) auto
  moreover have "(\<forall>p\<in>{..<n}. semadj S p 1 = 0) \<longleftrightarrow> (\<forall>p. semadj S p 1 = 0)" using a by (metis lessThan_iff zero_neq_one)
  ultimately show "semval S 1 = BIGCOUNT \<longleftrightarrow> (\<forall>p. semadj S p 1 = 0)" using assms(2) unfolding counted_def by auto
qed

section \<open>Program points, told apart\<close>

lemma create_locked_neq: "create_locked i v \<noteq> close_locked j"
proof -
  define after where "after g = (case g of Call c f \<Rightarrow> f (Okay 0) | _ \<Rightarrow> g)" for g
  have "after (create_locked i v) = create_init i v" by (simp add: after_def create_locked_def or_stop_def)
  moreover have "after (close_locked j) = close_unlock j" by (simp add: after_def close_locked_def or_stop_def BIGCOUNT_def)
  moreover have "create_init i v \<noteq> close_unlock j" by (simp add: create_init_def close_unlock_def)
  ultimately show ?thesis by metis
qed

lemma zero_points [simp]:
  "zero_point i (create_init j v) \<longleftrightarrow> i = j" "zero_point i (create_count j) \<longleftrightarrow> i = j" "\<not> zero_point i (create_locked j v)" "\<not> zero_point i (create_end j)"
  "\<not> zero_point i (close_locked j)" "\<not> zero_point i (close_unlock j)" "\<not> zero_point i (sem_rm j)"
  by (auto simp: zero_point_def prog_defs)

lemma full_points [simp]:
  "\<not> full_point i (create_init j v)" "\<not> full_point i (create_count j)" "\<not> full_point i (create_locked j v)" "\<not> full_point i (create_end j)"
  "\<not> full_point i (close_locked j)" "\<not> full_point i (close_unlock j)" "full_point i (sem_rm j) \<longleftrightarrow> i = j"
  by (auto simp: full_point_def prog_defs)

lemma count_points [simp]:
  "\<not> count_point i (create_init j v)" "\<not> count_point i (create_count j)" "\<not> count_point i (create_locked j v)" "count_point i (create_end j) \<longleftrightarrow> i = j"
  "count_point i (close_locked j) \<longleftrightarrow> i = j" "count_point i (close_unlock j) \<longleftrightarrow> i = j" "\<not> count_point i (sem_rm j)"
  by (auto simp: count_point_def create_locked_neq create_locked_neq [symmetric]) (auto simp: prog_defs op_endcreate_def op_unlock_def)

lemma check_points [simp]:
  "\<not> check_point i (create_init j v)" "\<not> check_point i (create_count j)" "check_point i (create_locked j v) \<longleftrightarrow> i = j" "\<not> check_point i (create_end j)"
  "\<not> check_point i (close_locked j)" "\<not> check_point i (close_unlock j)" "\<not> check_point i (sem_rm j)"
  by (auto simp: check_point_def create_locked_neq create_locked_neq [symmetric]) (auto simp: prog_defs)

lemma holder_points [simp]:
  "holder i (create_init j v) \<longleftrightarrow> i = j" "holder i (create_count j) \<longleftrightarrow> i = j" "holder i (create_locked j v) \<longleftrightarrow> i = j" "holder i (create_end j) \<longleftrightarrow> i = j"
  "holder i (close_locked j) \<longleftrightarrow> i = j" "holder i (close_unlock j) \<longleftrightarrow> i = j" "holder i (sem_rm j) \<longleftrightarrow> i = j"
  by (simp_all add: holder_def)

section \<open>One process moves\<close>

text \<open>A set that is not there is as one that nobody has touched.\<close>

definition the_set :: "sysv \<Rightarrow> semid \<Rightarrow> semset" where
  "the_set k i = (case semsets k i of None \<Rightarrow> new_set 3 | Some S \<Rightarrow> S)"

lemma new_set_sel [simp]: "nsems (new_set n) = n" "semval (new_set n) i = 0" "semadj (new_set n) p i = 0"
  by (simp_all add: new_set_def)

lemma user_iff: "user k p i \<longleftrightarrow> semadj (the_set k i) p 1 = 1"
  by (auto simp: user_def the_set_def split: option.splits)

lemma no_user_iff: "no_user k p \<longleftrightarrow> (\<forall>i. semadj (the_set k i) p 1 = 0)"
  by (auto simp: no_user_def the_set_def split: option.splits)

lemma holds_iff: "semsets k i = Some S \<and> semadj S p 2 = -1 \<longleftrightarrow> semsets k i = Some S \<and> semadj (the_set k i) p 2 = -1 \<and> S = the_set k i"
  by (auto simp: the_set_def)

text \<open>What a step of another process leaves as process \<open>q\<close> sees it.\<close>

definition same :: "nat \<Rightarrow> pid \<Rightarrow> semset \<Rightarrow> semset \<Rightarrow> bool" where
  "same n q S S' \<longleftrightarrow> semadj S' q 1 = semadj S q 1 \<and> semadj S' q 2 = semadj S q 2 \<and>
     (semadj S q 2 = -1 \<longrightarrow> (unset S \<longrightarrow> unset S') \<and> (counted n S \<longrightarrow> counted n S') \<and> (counted n S \<longrightarrow> semval S 1 = BIGCOUNT \<longrightarrow> semval S' 1 = BIGCOUNT))"

lemma same_refl [simp]: "same n q S S"
  by (simp add: same_def)

text \<open>The condition of a process, over the sets as above.\<close>

lemma point_inv_iff:
  "point_inv n k p g \<longleftrightarrow> single k p \<and> ((\<exists>v. g = Ret v) \<or> (\<exists>h. g = Stop h \<and> (\<forall>m. h \<noteq> Err_dump m)) \<or> create_point g \<and> no_user k p \<or>
     (\<exists>sid. use_point sid g \<and> user k p sid) \<or>
     (\<exists>sid. holder sid g \<and> no_user k p \<and> semadj (the_set k sid) p 2 = -1 \<and>
        (zero_point sid g \<longrightarrow> unset (the_set k sid)) \<and> (full_point sid g \<longrightarrow> semval (the_set k sid) 1 = BIGCOUNT) \<and> (count_point sid g \<or> full_point sid g \<longrightarrow> counted n (the_set k sid))))"
proof -
  have "(\<exists>S. semsets k sid = Some S \<and> semadj S p 2 = -1 \<and> P S) \<longleftrightarrow> semadj (the_set k sid) p 2 = -1 \<and> P (the_set k sid)" for sid P
    by (auto simp: the_set_def split: option.splits)
  from this [of _ "\<lambda>S. (zero_point _ g \<longrightarrow> unset S) \<and> (full_point _ g \<longrightarrow> semval S 1 = BIGCOUNT) \<and> (count_point _ g \<or> full_point _ g \<longrightarrow> counted n S)"]
  show ?thesis unfolding point_inv_def by blast
qed

lemma other_point:
  assumes q: "point_inv n k q g" and s: "\<And>i. same n q (the_set k i) (the_set k' i)"
  shows "point_inv n k' q g"
proof -
  have a: "semadj (the_set k' i) q 1 = semadj (the_set k i) q 1" "semadj (the_set k' i) q 2 = semadj (the_set k i) q 2" for i
    using s [of i] by (simp_all add: same_def)
  have b: "semadj (the_set k i) q 2 = -1 \<Longrightarrow> unset (the_set k i) \<Longrightarrow> unset (the_set k' i)" "semadj (the_set k i) q 2 = -1 \<Longrightarrow> counted n (the_set k i) \<Longrightarrow> counted n (the_set k' i)"
    "semadj (the_set k i) q 2 = -1 \<Longrightarrow> counted n (the_set k i) \<Longrightarrow> semval (the_set k i) 1 = BIGCOUNT \<Longrightarrow> semval (the_set k' i) 1 = BIGCOUNT" for i
    using s [of i] by (simp_all add: same_def)
  have u: "user k' q i = user k q i" for i by (simp add: user_iff a)
  have nu: "no_user k' q = no_user k q" by (simp add: no_user_iff a)
  have si: "single k' q = single k q" by (simp add: single_def u)
  show ?thesis using q b unfolding point_inv_iff u nu si a by blast
qed

lemma step_sem_inv:
  assumes I: "sem_inv n s" and other: "\<And>q i. q \<noteq> p \<Longrightarrow> same n q (the_set (kern s) i) (the_set k' i)"
    and own: "point_inv n k' p g" and lock: "\<And>i. semadj (the_set k' i) p 2 = -1 \<Longrightarrow> holder i g \<or> (\<exists>h. g = Stop h)"
    and sets: "\<And>i S. semsets k' i = Some S \<Longrightarrow> set_inv n S \<and> i < next_id k'"
    and keys: "\<And>key i. semkeys k' key = Some i \<Longrightarrow> semsets k' i \<noteq> None"
  shows "sem_inv n (resume s p k' g)"
proof -
  have "point_inv n k' q (((cur s)(p := g)) q)" for q
  proof (cases "q = p")
    case False
    then show ?thesis using other_point [OF _ other] I by (simp add: sem_inv_def)
  qed (simp add: own)
  moreover have "holder i (((cur s)(p := g)) q) \<or> (\<exists>h. ((cur s)(p := g)) q = Stop h)" if "semsets k' i = Some S" "semadj S q 2 = -1" for i S q
  proof (cases "q = p")
    case True
    then show ?thesis using lock [of i] that by (simp add: the_set_def)
  next
    case False
    then have "semadj (the_set (kern s) i) q 2 = -1" using other [of q i] that by (simp add: the_set_def same_def)
    then obtain T where "semsets (kern s) i = Some T" "semadj T q 2 = -1" by (auto simp: the_set_def split: option.splits)
    then show ?thesis using I False unfolding sem_inv_def by simp
  qed
  ultimately show ?thesis using sets keys unfolding sem_inv_def resume_sel by blast
qed

section \<open>Semaphore operations\<close>

text \<open>What a list of operations of process \<open>p\<close> does to the counter and to the lock.\<close>

definition moves :: "semset \<Rightarrow> pid \<Rightarrow> int \<Rightarrow> int \<Rightarrow> semset \<Rightarrow> bool" where
  "moves S p c l S' \<longleftrightarrow> nsems S' = nsems S \<and> semval S' 1 = semval S 1 + c \<and> semval S' 2 = semval S 2 + l \<and>
     (\<forall>q. semadj S' q 1 = semadj S q 1 - (if q = p then c else 0)) \<and> (\<forall>q. semadj S' q 2 = semadj S q 2 - (if q = p then l else 0))"

lemmas try_defs = Let_def moves_def fun_upd_def

lemma try_lock: "sem_try p op_lock S = Can S' \<Longrightarrow> moves S p 0 1 S' \<and> semval S 2 = 0"
  by (auto simp: op_lock_def try_defs split: if_splits)

lemma try_endcreate: "sem_try p op_endcreate S = Can S' \<Longrightarrow> moves S p (-1) (-1) S'"
  by (auto simp: op_endcreate_def try_defs split: if_splits)

lemma try_close: "sem_try p op_close S = Can S' \<Longrightarrow> moves S p 1 1 S' \<and> semval S 2 = 0"
  by (auto simp: op_close_def try_defs split: if_splits)

lemma try_unlock: "sem_try p op_unlock S = Can S' \<Longrightarrow> moves S p 0 (-1) S'"
  by (auto simp: op_unlock_def try_defs split: if_splits)

lemma try_op: "sem_try p (op_op v) S = Can S' \<Longrightarrow> moves S p 0 0 S'"
  by (auto simp: op_op_def try_defs split: if_splits)

lemma moves_counted:
  assumes "moves S p c l S'" "p < n"
  shows "counted n S' \<longleftrightarrow> counted n S"
proof -
  have "semadj S' q 1 = ((\<lambda>q. semadj S q 1)(p := semadj S p 1 - c)) q" for q using assms(1) by (auto simp: moves_def)
  then have "(\<Sum>q<n. semadj S' q 1) = (\<Sum>q<n. semadj S q 1) - c"
    using sum_update [OF assms(2), of "\<lambda>q. semadj S q 1" "semadj S p 1 - c"] by (simp only:)
  then show ?thesis using assms(1) by (simp add: counted_def moves_def)
qed

lemma moves_inv:
  assumes S: "set_inv n S" and m: "moves S p c l S'" and p: "p < n"
    and c: "semadj S p 1 - c = 0 \<or> semadj S p 1 - c = 1" and l: "semadj S p 2 - l = 0 \<or> semadj S p 2 - l = -1"
    and free: "l = 1 \<longrightarrow> semval S 2 = 0" and u: "unset S \<Longrightarrow> c = 0"
  shows "set_inv n S'"
proof -
  have m1: "nsems S' = nsems S" "semval S' 1 = semval S 1 + c" "semval S' 2 = semval S 2 + l"
    "\<And>q. semadj S' q 1 = semadj S q 1 - (if q = p then c else 0)" "\<And>q. semadj S' q 2 = semadj S q 2 - (if q = p then l else 0)"
    using m unfolding moves_def by blast+
  have s: "nsems S = 3" "\<And>q. semadj S q 1 = 0 \<or> semadj S q 1 = 1 \<and> q < n" "\<And>q. semadj S q 2 = 0 \<or> semadj S q 2 = -1"
    "\<And>q r. semadj S q 2 = -1 \<Longrightarrow> semadj S r 2 = -1 \<Longrightarrow> q = r" "semval S 2 = (if \<exists>q. semadj S q 2 = -1 then 1 else 0)" "unset S \<or> counted n S"
    using S unfolding set_inv_def by blast+
  have a1: "semadj S' q 1 = 0 \<or> semadj S' q 1 = 1 \<and> q < n" for q using s(2) [of q] c p by (simp add: m1)
  have a2: "semadj S' q 2 = 0 \<or> semadj S' q 2 = -1" for q using s(3) [of q] l by (simp add: m1)
  have uc: "unset S' \<or> counted n S'" using s(6) moves_counted [OF m p] u by (auto simp: unset_def m1)
  consider "l = 0" | "l = 1" "semadj S p 2 = 0" | "l = -1" "semadj S p 2 = -1" using s(3) [of p] l by auto
  then have a3: "(\<forall>q r. semadj S' q 2 = -1 \<longrightarrow> semadj S' r 2 = -1 \<longrightarrow> q = r) \<and> semval S' 2 = (if \<exists>q. semadj S' q 2 = -1 then 1 else 0)"
  proof cases
    case 1
    then have "semadj S' q 2 = semadj S q 2" for q by (simp add: m1)
    then show ?thesis using s(4,5) 1 by (simp add: m1(3))
  next
    case 2
    then have "semval S 2 = 0" using free by simp
    then have "semadj S q 2 \<noteq> -1" for q using s(5) by (metis zero_neq_one)
    then have "semadj S' q 2 = -1 \<longleftrightarrow> q = p" for q using 2 by (simp add: m1)
    then show ?thesis using 2 \<open>semval S 2 = 0\<close> by (simp add: m1(3))
  next
    case 3
    then have "q \<noteq> p \<Longrightarrow> semadj S q 2 \<noteq> -1" for q using s(4) by blast
    then have "semadj S' q 2 \<noteq> -1" for q using 3 by (cases "q = p") (simp_all add: m1(5))
    moreover have "semval S 2 = 1" using s(5) 3 by auto
    ultimately show ?thesis using 3 by (simp add: m1(3))
  qed
  show ?thesis unfolding set_inv_def m1(1) s(1) using a1 a2 a3 uc by blast
qed

lemma moves_same:
  assumes m: "moves S p c l S'" and p: "p < n" and q: "q \<noteq> p" and S: "set_inv n S"
    and c: "c = 0 \<or> c = semadj S p 1 \<or> semadj S p 2 = -1"
  shows "same n q S S'"
proof -
  have "c = 0 \<or> c = semadj S p 1" if "semadj S q 2 = -1" using c that q S unfolding set_inv_def by blast
  moreover have "c = semadj S p 1 \<Longrightarrow> unset S \<Longrightarrow> c = 0" by (simp add: unset_def)
  moreover have "c = semadj S p 1 \<Longrightarrow> counted n S \<Longrightarrow> semval S 1 = BIGCOUNT \<Longrightarrow> c = 0" using user_count(3) [OF S] by simp
  moreover have "unset S \<Longrightarrow> c = 0 \<Longrightarrow> unset S'" using m by (simp add: unset_def moves_def)
  ultimately show ?thesis using m q moves_counted [OF m p] unfolding same_def moves_def by auto
qed

section \<open>Every step\<close>

lemma sem_invD:
  assumes "sem_inv n s"
  shows "point_inv n (kern s) p (cur s p)" "semsets (kern s) i = Some S \<Longrightarrow> set_inv n S \<and> i < next_id (kern s)"
    "semsets (kern s) i = Some S \<Longrightarrow> semadj S p 2 = -1 \<Longrightarrow> holder i (cur s p) \<or> (\<exists>h. cur s p = Stop h)"
    "semkeys (kern s) key = Some i \<Longrightarrow> semsets (kern s) i \<noteq> None"
  using assms unfolding sem_inv_def by blast+

lemma lock_place:
  assumes "sem_inv n s" "cur s p = Call c f" "semadj (the_set (kern s) i) p 2 = -1"
  shows "holder i (cur s p)"
  using assms sem_invD(3) [OF assms(1), of i _ p] by (auto simp: the_set_def split: option.splits)

text \<open>A step that changes nothing in the kernel.\<close>

lemma still_inv:
  assumes I: "sem_inv n s" and own: "point_inv n (kern s) p g" and c: "cur s p = Call c f"
    and lock: "\<And>i. holder i (cur s p) \<Longrightarrow> holder i g \<or> (\<exists>h. g = Stop h)"
  shows "sem_inv n (resume s p (kern s) g)"
  using lock lock_place [OF I c] sem_invD [OF I] by (intro step_sem_inv [OF I _ own]) auto

definition put_set :: "sysv \<Rightarrow> semid \<Rightarrow> semset \<Rightarrow> sysv" where
  "put_set k sid S = k\<lparr>semsets := (semsets k)(sid \<mapsto> S)\<rparr>"

lemma put_set_sel [simp]:
  "semsets (put_set k sid S) = (semsets k)(sid \<mapsto> S)" "semkeys (put_set k sid S) = semkeys k" "next_id (put_set k sid S) = next_id k"
  "the_set (put_set k sid S) i = (if i = sid then S else the_set k i)"
  by (simp_all add: put_set_def the_set_def)

lemma put_inv:
  assumes I: "sem_inv n s" and c: "cur s p = Call c f" and S: "semsets (kern s) sid = Some S"
    and S': "set_inv n S'" and other: "\<And>q. q \<noteq> p \<Longrightarrow> same n q S S'" and own: "point_inv n (put_set (kern s) sid S') p g"
    and old: "\<And>i. holder i (cur s p) \<Longrightarrow> i = sid" and lock: "semadj S' p 2 = -1 \<Longrightarrow> holder sid g \<or> (\<exists>h. g = Stop h)"
  shows "sem_inv n (resume s p (put_set (kern s) sid S') g)"
proof (rule step_sem_inv [OF I _ own])
  fix i
  show "semadj (the_set (put_set (kern s) sid S') i) p 2 = -1 \<Longrightarrow> holder i g \<or> (\<exists>h. g = Stop h)"
    using lock lock_place [OF I c, of i] old [of i] by (auto split: if_splits)
next
  fix q i assume "q \<noteq> p"
  then show "same n q (the_set (kern s) i) (the_set (put_set (kern s) sid S') i)" using other S by (simp add: the_set_def)
next
  fix i T assume "semsets (put_set (kern s) sid S') i = Some T"
  then show "set_inv n T \<and> i < next_id (put_set (kern s) sid S')" using S' S sem_invD(2) [OF I] by (auto split: if_splits)
next
  fix key i assume "semkeys (put_set (kern s) sid S') key = Some i"
  then show "semsets (put_set (kern s) sid S') i \<noteq> None" using sem_invD(4) [OF I] by simp
qed

lemma move_inv:
  assumes I: "sem_inv n s" and p: "p < n" and c: "cur s p = Call c f" and S: "semsets (kern s) sid = Some S" and m: "moves S p a l S'"
    and cl: "semadj S p 1 - a = 0 \<or> semadj S p 1 - a = 1" "semadj S p 2 - l = 0 \<or> semadj S p 2 - l = -1" "l = 1 \<longrightarrow> semval S 2 = 0" "unset S \<Longrightarrow> a = 0"
    and o: "a = 0 \<or> a = semadj S p 1 \<or> semadj S p 2 = -1" and own: "point_inv n (put_set (kern s) sid S') p g"
    and old: "\<And>i. holder i (cur s p) \<Longrightarrow> i = sid" and lock: "semadj S p 2 - l = -1 \<Longrightarrow> holder sid g \<or> (\<exists>h. g = Stop h)"
  shows "sem_inv n (resume s p (put_set (kern s) sid S') g)"
proof -
  have si: "set_inv n S" using sem_invD(2) [OF I S] by simp
  have "semadj S' p 2 = semadj S p 2 - l" using m by (simp add: moves_def)
  then show ?thesis using lock by (intro put_inv [OF I c S moves_inv [OF si m p cl] moves_same [OF m p _ si o] own old]) simp_all
qed

text \<open>The operations of a call, on the set they are made on.\<close>

lemma exec_semop:
  assumes "exec p (Semop sid ops) k = Can (r, k')"
  obtains S S' where "semsets k sid = Some S" "sem_try p ops S = Can S'" "k' = put_set k sid S'" "r = 0"
  using assms that by (auto simp: put_set_def split: option.splits if_splits attempt.splits)

lemma exec_setval:
  assumes "exec p (Setval sid j v) k = Can (r, k')"
  obtains S where "semsets k sid = Some S" "k' = put_set k sid (S\<lparr>semval := (semval S)(j := v), semadj := (\<lambda>q. (semadj S q)(j := 0))\<rparr>)"
  using assms that by (auto simp: put_set_def split: option.splits if_splits)

lemma exec_getval:
  assumes "exec p (Getval sid j) k = Can (r, k')"
  obtains S where "semsets k sid = Some S" "r = semval S j" "k' = k"
  using assms that by (auto split: option.splits if_splits)

lemma own_single: "no_user k p \<Longrightarrow> single k p"
  by (simp add: single_def user_iff no_user_iff)

lemma done_lock:
  assumes I: "sem_inv n s" and p: "p < n" and c: "cur s p = Call (Semop sid op_lock) f" and nu: "no_user (kern s) p" and nh: "\<And>i. \<not> holder i (cur s p)"
    and e: "exec p (Semop sid op_lock) (kern s) = Can (r, k)"
  shows "sem_inv n (resume s p k (create_locked sid v))"
proof -
  obtain S S' where S: "semsets (kern s) sid = Some S" and t: "sem_try p op_lock S = Can S'" and k: "k = put_set (kern s) sid S'" using e by (rule exec_semop)
  have m: "moves S p 0 1 S'" and f: "semval S 2 = 0" using try_lock [OF t] by auto
  have a: "semadj S p 1 = 0" "semadj S p 2 = 0" using nu S lock_place [OF I c, of sid] nh sem_invD(2) [OF I S] by (auto simp: no_user_def set_inv_def the_set_def)
  then have a': "semadj S' p 1 = 0" "semadj S' p 2 = -1" using m by (simp_all add: moves_def)
  then have nu': "no_user k p" using nu by (auto simp: no_user_iff k)
  then have "point_inv n k p (create_locked sid v)" using a' by (auto simp: point_inv_iff own_single k)
  then show ?thesis using a f nh unfolding k by (intro move_inv [OF I p c S m]) auto
qed

lemma done_close:
  assumes I: "sem_inv n s" and p: "p < n" and c: "cur s p = Call (Semop sid op_close) f" and u: "user (kern s) p sid" and nh: "\<And>i. \<not> holder i (cur s p)"
    and e: "exec p (Semop sid op_close) (kern s) = Can (r, k)"
  shows "sem_inv n (resume s p k (close_locked sid))"
proof -
  obtain S S' where S: "semsets (kern s) sid = Some S" and t: "sem_try p op_close S = Can S'" and k: "k = put_set (kern s) sid S'" using e by (rule exec_semop)
  have m: "moves S p 1 1 S'" and f: "semval S 2 = 0" using try_close [OF t] by auto
  have si: "set_inv n S" using sem_invD(2) [OF I S] by simp
  have a: "semadj S p 1 = 1" "semadj S p 2 = 0" using u S lock_place [OF I c, of sid] nh si by (auto simp: user_def set_inv_def the_set_def)
  then have a': "semadj S' p 1 = 0" "semadj S' p 2 = -1" using m by (simp_all add: moves_def)
  have un: "\<not> unset S" using a(1) unfolding unset_def by (metis zero_neq_one)
  then have cn: "counted n S'" using si moves_counted [OF m p] by (simp add: set_inv_def)
  have "single (kern s) p" using sem_invD(1) [OF I, of p] by (simp add: point_inv_def)
  then have "semadj (the_set (kern s) i) p 1 \<noteq> 1" if "i \<noteq> sid" for i using u that by (auto simp: single_def user_iff)
  moreover have "semadj (the_set (kern s) i) p 1 = 0 \<or> semadj (the_set (kern s) i) p 1 = 1" for i
    using sem_invD(2) [OF I, of i] by (auto simp: the_set_def set_inv_def split: option.splits)
  ultimately have nu': "no_user k p" using a' by (auto simp: no_user_iff k)
  then have "point_inv n k p (close_locked sid)" using a' cn by (auto simp: point_inv_iff own_single k)
  then show ?thesis using a f nh un unfolding k by (intro move_inv [OF I p c S m]) auto
qed

lemma done_op:
  assumes I: "sem_inv n s" and p: "p < n" and c: "cur s p = Call (Semop sid (op_op v)) f" and nh: "\<And>i. \<not> holder i (cur s p)"
    and e: "exec p (Semop sid (op_op v)) (kern s) = Can (r, k)"
  shows "sem_inv n (resume s p k (Ret 0))"
proof -
  obtain S S' where S: "semsets (kern s) sid = Some S" and t: "sem_try p (op_op v) S = Can S'" and k: "k = put_set (kern s) sid S'" using e by (rule exec_semop)
  have m: "moves S p 0 0 S'" using try_op [OF t] .
  have si: "set_inv n S" using sem_invD(2) [OF I S] by simp
  have a: "semadj S p 2 = 0" using S lock_place [OF I c, of sid] nh si by (auto simp: set_inv_def the_set_def)
  have "user k p i = user (kern s) p i" for i using m S by (auto simp: user_iff k moves_def the_set_def)
  then have "point_inv n k p (Ret 0)" using sem_invD(1) [OF I, of p] by (simp add: point_inv_def single_def)
  moreover have "semadj S p 1 = 0 \<or> semadj S p 1 = 1" using si by (auto simp: set_inv_def)
  ultimately show ?thesis using a nh unfolding k by (intro move_inv [OF I p c S m]) auto
qed

text \<open>Where the lock is held.\<close>

lemma holder_facts:
  assumes I: "sem_inv n s" and h: "holder sid (cur s p)"
  obtains S where "semsets (kern s) sid = Some S" "set_inv n S" "no_user (kern s) p" "semadj S p 1 = 0" "semadj S p 2 = -1"
    "zero_point sid (cur s p) \<Longrightarrow> unset S" "full_point sid (cur s p) \<Longrightarrow> semval S 1 = BIGCOUNT" "count_point sid (cur s p) \<or> full_point sid (cur s p) \<Longrightarrow> counted n S"
proof -
  have "\<not> create_point (cur s p)" using h create_again_not_holder create_lock_not_holder unfolding create_point_def by metis
  moreover have "\<not> use_point i (cur s p)" for i using h use_not_holder by blast
  moreover have "i = sid" if "holder i (cur s p)" for i using h that by (rule holder_unique [symmetric])
  ultimately obtain S where S: "semsets (kern s) sid = Some S" "no_user (kern s) p" "semadj S p 2 = -1"
    "zero_point sid (cur s p) \<longrightarrow> unset S" "full_point sid (cur s p) \<longrightarrow> semval S 1 = BIGCOUNT" "count_point sid (cur s p) \<or> full_point sid (cur s p) \<longrightarrow> counted n S"
    using h sem_invD(1) [OF I, of p] unfolding point_inv_def by (metis not_holder)
  moreover have "set_inv n S" using sem_invD(2) [OF I S(1)] by simp
  moreover have "semadj S p 1 = 0" using S by (simp add: no_user_def)
  ultimately show thesis using that by blast
qed

lemma held_inv:
  assumes I: "sem_inv n s" and c: "cur s p = Call c f" and h: "holder sid (cur s p)" and S: "semsets (kern s) sid = Some S"
    and g: "holder sid g" and z: "zero_point sid g \<Longrightarrow> unset S" and fl: "full_point sid g \<Longrightarrow> semval S 1 = BIGCOUNT" and ct: "count_point sid g \<or> full_point sid g \<Longrightarrow> counted n S"
  shows "sem_inv n (resume s p (kern s) g)"
proof (rule still_inv [OF I _ c])
  obtain T where "semsets (kern s) sid = Some T" "no_user (kern s) p" "semadj T p 2 = -1" by (rule holder_facts [OF I h])
  then show "point_inv n (kern s) p g" using assms own_single unfolding point_inv_def by auto
  fix i assume "holder i (cur s p)"
  then show "holder i g \<or> (\<exists>h. g = Stop h)" using holder_unique [OF _ h] g by blast
qed

lemma done_locked:
  assumes I: "sem_inv n s" and few: "int n < BIGCOUNT" and c: "cur s p = create_locked sid v" and e: "exec p (Getval sid 1) (kern s) = Can (r, k)"
  shows "sem_inv n (resume s p k (if r = 0 then create_init sid v else create_end sid))"
proof -
  have h: "holder sid (cur s p)" by (simp add: c)
  obtain T where T: "semsets (kern s) sid = Some T" "r = semval T 1" "k = kern s" using e by (rule exec_getval)
  have si: "set_inv n T" using sem_invD(2) [OF I T(1)] by simp
  then have "unset T \<or> counted n T" by (simp add: set_inv_def)
  moreover have "unset T \<Longrightarrow> r = 0" by (simp add: unset_def T)
  moreover have "counted n T \<Longrightarrow> r \<noteq> 0" using user_count(2) [OF si] few T(2) by fastforce
  ultimately show ?thesis using T by (auto intro!: held_inv [OF I c [unfolded create_locked_def] h T(1)])
qed

lemma done_closing:
  assumes I: "sem_inv n s" and c: "cur s p = close_locked sid" and e: "exec p (Getval sid 1) (kern s) = Can (r, k)"
  shows "r \<le> BIGCOUNT" "sem_inv n (resume s p k (if r = BIGCOUNT then sem_rm sid else close_unlock sid))"
proof -
  have h: "holder sid (cur s p)" by (simp add: c)
  obtain T where T: "semsets (kern s) sid = Some T" "r = semval T 1" "k = kern s" using e by (rule exec_getval)
  have si: "set_inv n T" using sem_invD(2) [OF I T(1)] by simp
  have ct: "counted n T" by (rule holder_facts [OF I h]) (simp add: T c)
  show "r \<le> BIGCOUNT" using user_count(1) [OF si ct] T by simp
  show "sem_inv n (resume s p k (if r = BIGCOUNT then sem_rm sid else close_unlock sid))" using T ct by (auto intro!: held_inv [OF I c [unfolded close_locked_def] h T(1)])
qed

lemma other_not_held:
  assumes "set_inv n S" "semadj S p 2 = -1" "q \<noteq> p"
  shows "semadj S q 2 \<noteq> -1"
  using assms unfolding set_inv_def by blast

lemma done_init:
  assumes I: "sem_inv n s" and c: "cur s p = create_init sid v" and e: "exec p (Setval sid 0 v) (kern s) = Can (r, k)"
  shows "sem_inv n (resume s p k (create_count sid))"
proof -
  have h: "holder sid (cur s p)" by (simp add: c)
  obtain S where S: "semsets (kern s) sid = Some S" and k: "k = put_set (kern s) sid (S\<lparr>semval := (semval S)(0 := v), semadj := (\<lambda>q. (semadj S q)(0 := 0))\<rparr>)" using e by (rule exec_setval)
  define S' where "S' = S\<lparr>semval := (semval S)(0 := v), semadj := (\<lambda>q. (semadj S q)(0 := 0))\<rparr>"
  have sel: "nsems S' = nsems S" "semval S' 1 = semval S 1" "semval S' 2 = semval S 2" "\<And>q. semadj S' q 1 = semadj S q 1" "\<And>q. semadj S' q 2 = semadj S q 2" by (simp_all add: S'_def)
  have uc: "unset S' = unset S" "counted n S' = counted n S" by (simp_all add: unset_def counted_def sel)
  have old: "set_inv n S" "no_user (kern s) p" "semadj S p 2 = -1" "unset S" using holder_facts [OF I h] S c by (metis option.inject zero_points(1))+
  have "set_inv n S'" using old(1) unfolding set_inv_def sel uc .
  moreover have "semadj S p 1 = 0" using old(2) S by (simp add: no_user_def)
  then have "no_user k p" using old(2) unfolding k S'_def [symmetric] by (simp add: no_user_iff sel)
  ultimately show ?thesis using old S unfolding k S'_def [symmetric]
    by (intro put_inv [OF I c [unfolded create_init_def] S]) (auto simp: sel uc same_def point_inv_iff own_single c)
qed

lemma done_count:
  assumes I: "sem_inv n s" and c: "cur s p = create_count sid" and e: "exec p (Setval sid 1 BIGCOUNT) (kern s) = Can (r, k)"
  shows "sem_inv n (resume s p k (create_end sid))"
proof -
  have h: "holder sid (cur s p)" by (simp add: c)
  obtain S where S: "semsets (kern s) sid = Some S" and k: "k = put_set (kern s) sid (S\<lparr>semval := (semval S)(1 := BIGCOUNT), semadj := (\<lambda>q. (semadj S q)(1 := 0))\<rparr>)" using e by (rule exec_setval)
  define S' where "S' = S\<lparr>semval := (semval S)(1 := BIGCOUNT), semadj := (\<lambda>q. (semadj S q)(1 := 0))\<rparr>"
  have sel: "nsems S' = nsems S" "semval S' 1 = BIGCOUNT" "semval S' 2 = semval S 2" "\<And>q. semadj S' q 1 = 0" "\<And>q. semadj S' q 2 = semadj S q 2" by (simp_all add: S'_def)
  have ct: "counted n S'" by (simp add: counted_def sel)
  have old: "set_inv n S" "no_user (kern s) p" "semadj S p 2 = -1" "unset S" using holder_facts [OF I h] S c by (metis option.inject zero_points(2))+
  have "set_inv n S'" using old(1) ct unfolding set_inv_def sel by blast
  moreover have "no_user k p" using old(2) unfolding k S'_def [symmetric] by (simp add: no_user_iff sel)
  moreover have "same n q S S'" if "q \<noteq> p" for q using other_not_held [OF old(1,3) that] old(4) by (simp add: same_def sel unset_def)
  ultimately show ?thesis using old ct unfolding k S'_def [symmetric]
    by (intro put_inv [OF I c [unfolded create_count_def] S]) (auto simp: sel point_inv_iff own_single c)
qed

lemma done_unlocking:
  assumes I: "sem_inv n s" and p: "p < n" and c: "cur s p = Call (Semop sid ops) f" and h: "holder sid (cur s p)"
    and t: "\<And>S S'. sem_try p ops S = Can S' \<Longrightarrow> moves S p a (-1) S'" and a: "a = 0 \<or> a = -1" and ct: "count_point sid (cur s p)" and few: "int n < BIGCOUNT"
    and e: "exec p (Semop sid ops) (kern s) = Can (r, k)"
  shows "sem_inv n (resume s p k (Ret v))"
proof -
  obtain S S' where S: "semsets (kern s) sid = Some S" and t1: "sem_try p ops S = Can S'" and k: "k = put_set (kern s) sid S'" using e by (rule exec_semop)
  note m = t [OF t1]
  have old: "set_inv n S" "no_user (kern s) p" "semadj S p 2 = -1" "semadj S p 1 = 0" "counted n S" using holder_facts [OF I h] S ct by (metis option.inject)+
  have un: "\<not> unset S" using user_count(2) [OF old(1,5)] few by (simp add: unset_def)
  have "user k p i \<Longrightarrow> i = sid" for i using old(2) by (auto simp: user_iff no_user_iff k split: if_splits)
  then have "point_inv n k p (Ret v)" by (simp add: point_inv_def single_def) metis
  then show ?thesis using old a un holder_unique [OF _ h] unfolding k by (intro move_inv [OF I p c S m]) auto
qed

lemma done_rm:
  assumes I: "sem_inv n s" and c: "cur s p = sem_rm sid" and e: "exec p (Rmid sid) (kern s) = Can (r, k)"
  shows "sem_inv n (resume s p k (Ret 0))"
proof -
  have h: "holder sid (cur s p)" by (simp add: c)
  obtain S where S: "semsets (kern s) sid = Some S" "set_inv n S" "no_user (kern s) p" "semadj S p 2 = -1" "semval S 1 = BIGCOUNT" "counted n S"
    by (rule holder_facts [OF I h]) (auto simp: c)
  have k: "k = (kern s)\<lparr>semsets := (semsets (kern s))(sid := None), semkeys := (\<lambda>key. if semkeys (kern s) key = Some sid then None else semkeys (kern s) key)\<rparr>"
    using e S by simp
  have t: "the_set k i = (if i = sid then new_set 3 else the_set (kern s) i)" for i by (simp add: k the_set_def)
  have u: "semadj S q 1 = 0" for q using S user_count(3) by blast
  show ?thesis
  proof (rule step_sem_inv [OF I])
    fix q i assume "q \<noteq> p"
    moreover from this have "semadj S q 2 = 0" using S(2) other_not_held [OF S(2,4)] unfolding set_inv_def by blast
    ultimately show "same n q (the_set (kern s) i) (the_set k i)" using S(1) u by (simp add: t) (simp add: same_def the_set_def)
  next
    have "no_user k p" using S(3) by (simp add: no_user_iff t)
    then show "point_inv n k p (Ret 0)" by (simp add: point_inv_def own_single)
  next
    fix i assume "semadj (the_set k i) p 2 = -1"
    then have "i \<noteq> sid" "holder i (cur s p)" using lock_place [OF I c [unfolded sem_rm_def], of i] by (auto simp: t split: if_splits)
    then show "holder i (Ret 0) \<or> (\<exists>h. Ret 0 = Stop h)" by (simp add: c)
  next
    fix i T assume "semsets k i = Some T"
    then show "set_inv n T \<and> i < next_id k" using sem_invD(2) [OF I, of i T] by (auto simp: k split: if_splits)
  next
    fix key i assume "semkeys k key = Some i"
    then show "semsets k i \<noteq> None" using sem_invD(4) [OF I, of key i] by (auto simp: k split: if_splits)
  qed
qed

lemma done_get:
  assumes I: "sem_inv n s" and c: "cur s p = Call (Semget key 3 True) f" and nu: "no_user (kern s) p" and nh: "\<And>i. \<not> holder i (cur s p)"
    and e: "exec p (Semget key 3 True) (kern s) = Can (r, k)" and g: "create_point g"
  shows "sem_inv n (resume s p k g)"
proof (cases "semkeys (kern s) key")
  case (Some i)
  then have "k = kern s" using e by (auto split: option.splits if_splits)
  then show ?thesis using nu nh g by (intro still_inv [OF I _ c, unfolded \<open>k = kern s\<close> [symmetric]]) (auto simp: point_inv_def own_single)
next
  case None
  then have k: "k = (kern s)\<lparr>semsets := (semsets (kern s))(next_id (kern s) \<mapsto> new_set 3), semkeys := (semkeys (kern s))(key \<mapsto> next_id (kern s)), next_id := next_id (kern s) + 1\<rparr>"
    using e by simp
  have "semsets (kern s) (next_id (kern s)) = None" using sem_invD(2) [OF I] by (metis less_irrefl option.exhaust)
  then have t: "the_set k i = the_set (kern s) i" for i by (simp add: k the_set_def)
  show ?thesis
  proof (rule step_sem_inv [OF I])
    show "point_inv n k p g" using nu g by (simp add: point_inv_iff own_single no_user_iff t)
  next
    fix i assume "semadj (the_set k i) p 2 = -1"
    then show "holder i g \<or> (\<exists>h. g = Stop h)" using lock_place [OF I c, of i] nh by (simp add: t)
  next
    fix i T assume "semsets k i = Some T"
    moreover have "set_inv n (new_set 3)" by (simp add: set_inv_def unset_def)
    ultimately show "set_inv n T \<and> i < next_id k" using sem_invD(2) [OF I, of i T] by (auto simp: k split: if_splits)
  next
    fix ky i assume "semkeys k ky = Some i"
    then show "semsets k i \<noteq> None" using sem_invD(4) [OF I, of ky i] by (auto simp: k split: if_splits)
  qed (simp add: t)
qed

end
