(* ===== verification/Sem_Steps.thy ===== *)
theory Sem_Steps
  imports Sem_Inv
begin

text \<open>
  Every step of the processes keeps the invariant of the semaphore library: a system call that
  succeeds, one that fails or is interrupted, and the exit of a process.
\<close>

lemma exit_moves:
  assumes S: "set_inv n S" and few: "int n < BIGCOUNT"
  shows "moves S p (semadj S p 1) (semadj S p 2) (set_exit p S)"
proof -
  have a: "semadj S p 1 = 0 \<or> semadj S p 1 = 1" "semadj S p 2 = 0 \<or> semadj S p 2 = -1" "unset S \<or> counted n S"
    and v: "semval S 2 = (if \<exists>p. semadj S p 2 = -1 then 1 else 0)" using S unfolding set_inv_def by blast+
  have "0 \<le> semval S 1 \<and> semval S 1 \<le> BIGCOUNT" using user_count(1,2) [OF S] a(3) few by (auto simp: unset_def BIGCOUNT_def)
  then have "semval (set_exit p S) 1 = semval S 1 + semadj S p 1" using a(1) by (auto simp: set_exit_def BIGCOUNT_def SEMVMX_def)
  moreover have "semval (set_exit p S) 2 = semval S 2 + semadj S p 2" using a(2) v by (auto simp: set_exit_def SEMVMX_def)
  ultimately show ?thesis by (simp add: moves_def set_exit_def)
qed

lemma exit_inv:
  assumes I: "sem_inv n s" and p: "p < n" and few: "int n < BIGCOUNT"
  shows "sem_inv n (resume s p (exit_undo p (kern s)) (Ret 0))"
proof -
  let ?k = "exit_undo p (kern s)"
  have some: "semsets ?k i = Some T \<longleftrightarrow> (\<exists>S. semsets (kern s) i = Some S \<and> T = set_exit p S)" for i T by (auto simp: exit_undo_def)
  have own: "semadj (the_set ?k i) p j = 0" for i j by (simp add: the_set_def exit_undo_def set_exit_def split: option.splits)
  show ?thesis
  proof (rule step_sem_inv [OF I])
    fix q i assume q: "q \<noteq> p"
    show "same n q (the_set (kern s) i) (the_set ?k i)"
    proof (cases "semsets (kern s) i")
      case (Some S)
      then have S: "set_inv n S" using sem_invD(2) [OF I Some] by simp
      then have "same n q S (set_exit p S)" by (intro moves_same [OF exit_moves [OF S few] p q S]) simp
      then show ?thesis using Some by (simp add: the_set_def exit_undo_def)
    qed (simp add: the_set_def exit_undo_def)
  next
    show "point_inv n ?k p (Ret 0)" using own by (simp add: point_inv_def own_single no_user_iff)
  next
    fix i T assume "semsets ?k i = Some T"
    then obtain S where T: "semsets (kern s) i = Some S" "T = set_exit p S" using some by blast
    then have S: "set_inv n S" "i < next_id (kern s)" using sem_invD(2) [OF I T(1)] by auto
    then have "semadj S p 2 \<noteq> 1" unfolding set_inv_def by (metis one_neq_neg_one zero_neq_one)
    then have "set_inv n T" unfolding T by (intro moves_inv [OF S(1) exit_moves [OF S(1) few] p]) (simp_all add: unset_def)
    then show "set_inv n T \<and> i < next_id ?k" using S by (simp add: exit_undo_def)
  next
    fix key i assume "semkeys ?k key = Some i"
    then show "semsets ?k i \<noteq> None" using sem_invD(4) [OF I, of key i] by (simp add: exit_undo_def)
  qed (simp add: own)
qed

text \<open>After a call that failed: back to where the process was, at another point of creation, or on the way out.\<close>

lemma fail_inv:
  assumes I: "sem_inv n s" and c: "cur s p = Call c f"
  shows "sem_inv n (resume s p (kern s) (f (Error e)))"
proof -
  have si: "single (kern s) p" and pt: "point_inv n (kern s) p (cur s p)" using sem_invD(1) [OF I, of p] by (simp_all add: point_inv_def)
  have stop: "sem_inv n (resume s p (kern s) (Stop (Err_sys m)))" for m
    using si by (intro still_inv [OF I _ c]) (simp_all add: point_inv_def)
  consider (create) "create_point (cur s p)" "no_user (kern s) p" | (use) sid where "use_point sid (cur s p)" | (hold) sid where "holder sid (cur s p)"
    using pt c unfolding point_inv_def by auto
  then show ?thesis
  proof cases
    case create
    then have nh: "\<not> holder i (cur s p)" for i using create_again_not_holder create_lock_not_holder unfolding create_point_def by metis
    have go: "sem_inv n (resume s p (kern s) g)" if "(\<exists>v. g = Ret v) \<or> create_point g" for g
      using si that create nh by (intro still_inv [OF I _ c]) (auto simp: point_inv_def)
    from create(1) c consider key v where "Call c f = create_again key v" | key v sid where "Call c f = create_lock key v sid"
      unfolding create_point_def by auto
    then show ?thesis
    proof cases
      case 1
      then show ?thesis unfolding create_again_eq by (auto intro: go)
    next
      case 2
      then have "f = (\<lambda>r. case r of Okay x \<Rightarrow> create_locked sid v | Error e \<Rightarrow> if e = EINVAL then create_again key v else Stop (Err_sys ''can't lock''))"
        unfolding create_lock_eq by simp
      moreover have "create_point (create_again key v)" unfolding create_point_def by blast
      ultimately show ?thesis using go stop by auto
    qed
  next
    case use
    then have "\<exists>m h. f = or_stop m h" using c by (auto simp: use_point_def sem_close_def sem_op_def Let_def split: if_splits)
    then show ?thesis using stop by (auto simp: or_stop_def)
  next
    case hold
    then have "\<exists>m h. f = or_stop m h" by (rule holder_cases) (use c in \<open>auto simp: prog_defs\<close>)
    then show ?thesis using stop by (auto simp: or_stop_def)
  qed
qed

lemma done_inv:
  assumes I: "sem_inv n s" and p: "p < n" and few: "int n < BIGCOUNT" and c: "cur s p = Call c f" and e: "exec p c (kern s) = Can (r, k)"
  shows "sem_inv n (resume s p k (f (Okay r)))"
proof -
  have pt: "point_inv n (kern s) p (cur s p)" using sem_invD(1) [OF I] .
  consider (create) "create_point (cur s p)" "no_user (kern s) p" | (use) sid where "use_point sid (cur s p)" "user (kern s) p sid" | (hold) sid where "holder sid (cur s p)"
    using pt c unfolding point_inv_def by auto
  then show ?thesis
  proof cases
    case create
    then have nh: "\<not> holder i (cur s p)" for i using create_again_not_holder create_lock_not_holder unfolding create_point_def by metis
    from create(1) c consider key v where "Call c f = create_again key v" | key v sid where "Call c f = create_lock key v sid"
      unfolding create_point_def by auto
    then show ?thesis
    proof cases
      case 1
      then have g: "c = Semget key 3 True" "f (Okay r) = create_lock key v (nat r)" unfolding create_again_eq by auto
      then have "create_point (f (Okay r))" unfolding create_point_def by blast
      then show ?thesis using done_get [OF I c [unfolded g(1)] create(2) nh e [unfolded g(1)]] by blast
    next
      case 2
      then have g: "c = Semop sid op_lock" "f (Okay r) = create_locked sid v" unfolding create_lock_eq by auto
      show ?thesis unfolding g(2) by (rule done_lock [OF I p c [unfolded g(1)] create(2) nh e [unfolded g(1)]])
    qed
  next
    case use
    note nh = use_not_holder [OF use(1)]
    from use(1) c consider "c = Semop sid op_close" "f (Okay r) = close_locked sid" | v where "c = Semop sid (op_op v)" "f (Okay r) = Ret 0"
      by (auto simp: use_point_def sem_close_def sem_op_def Let_def or_stop_def split: if_splits)
    then show ?thesis
    proof cases
      case g: 1
      show ?thesis unfolding g(2) by (rule done_close [OF I p c [unfolded g(1)] use(2) nh e [unfolded g(1)]])
    next
      case g: 2
      show ?thesis unfolding g(2) by (rule done_op [OF I p c [unfolded g(1)] nh e [unfolded g(1)]])
    qed
  next
    case hold
    then show ?thesis
    proof (cases rule: holder_cases)
      case (init v)
      then have "c = Setval sid 0 v" "f (Okay r) = create_count sid" using c by (simp_all add: create_init_def or_stop_def)
      then show ?thesis using done_init [OF I init] e by simp
    next
      case count
      then have "c = Setval sid 1 BIGCOUNT" "f (Okay r) = create_end sid" using c by (simp_all add: create_count_def or_stop_def)
      then show ?thesis using done_count [OF I count] e by simp
    next
      case (locked v)
      then have "c = Getval sid 1" "f (Okay r) = (if r = 0 then create_init sid v else create_end sid)" using c by (simp_all add: create_locked_def or_stop_def)
      then show ?thesis using done_locked [OF I few locked] e by simp
    next
      case end_
      then have g: "c = Semop sid op_endcreate" "f (Okay r) = Ret (int sid)" using c by (simp_all add: create_end_def or_stop_def)
      have "count_point sid (cur s p)" using end_ by simp
      then show ?thesis unfolding g(2) using done_unlocking [OF I p c [unfolded g(1)] hold try_endcreate _ _ few e [unfolded g(1)]] by simp
    next
      case rm
      then have "c = Rmid sid" "f (Okay r) = Ret 0" using c by (simp_all add: sem_rm_def or_stop_def)
      then show ?thesis using done_rm [OF I rm] e by simp
    next
      case cl
      then have g: "c = Getval sid 1" "f (Okay r) = (if r > BIGCOUNT then Stop (Err_dump ''sem[1] > BIGCOUNT'') else if r = BIGCOUNT then sem_rm sid else close_unlock sid)"
        using c by (auto simp: close_locked_def or_stop_def)
      then show ?thesis using done_closing [OF I cl] e by fastforce
    next
      case unlock
      then have g: "c = Semop sid op_unlock" "f (Okay r) = Ret 0" using c by (simp_all add: close_unlock_def or_stop_def)
      have "count_point sid (cur s p)" using unlock by simp
      then show ?thesis unfolding g(2) using done_unlocking [OF I p c [unfolded g(1)] hold try_unlock _ _ few e [unfolded g(1)]] by simp
    qed
  qed
qed

lemma begin_inv:
  assumes I: "sem_inv n s" and c: "cur s p = Ret v" and g: "lib_calls (kern s) p g"
  shows "sem_inv n (resume s p (kern s) g)"
proof (rule step_sem_inv [OF I])
  have "single (kern s) p" using sem_invD(1) [OF I, of p] by (simp add: point_inv_def)
  moreover have "(\<exists>v. g = Ret v) \<or> create_point g \<and> no_user (kern s) p \<or> (\<exists>sid. use_point sid g \<and> user (kern s) p sid)"
    using g unfolding lib_calls_def sem_create_def create_point_def use_point_def by (auto split: if_splits)
  ultimately show "point_inv n (kern s) p g" unfolding point_inv_def by blast
  fix i assume "semadj (the_set (kern s) i) p 2 = -1"
  then show "holder i g \<or> (\<exists>h. g = Stop h)" using sem_invD(3) [OF I, of i _ p] c by (auto simp: the_set_def split: option.splits)
qed (use sem_invD [OF I] in auto)

lemma sem_step_inv:
  assumes st: "sem_step n lib_calls s s'" and I: "sem_inv n s" and few: "int n < BIGCOUNT"
  shows "sem_inv n s'"
  using st
proof (cases rule: sem_step.cases)
  case (sem_call p)
  from sem_call(2) show ?thesis
  proof (cases rule: call_step.cases)
    case (call_sleep c f)
    then show ?thesis using I by (simp add: sem_inv_def)
  qed (auto intro: done_inv [OF I sem_call(1) few] fail_inv [OF I])
qed (auto intro: begin_inv [OF I] exit_inv [OF I _ few])

lemma idle_inv: "all_idle s \<Longrightarrow> sem_inv n s"
  by (simp add: all_idle_def sem_inv_def point_inv_def single_def user_def)

text \<open>The counter goes down from its start, so there must be fewer processes than that.\<close>

definition sem_start :: "nat \<Rightarrow> system \<Rightarrow> bool" where
  "sem_start n s \<longleftrightarrow> int n < BIGCOUNT \<and> all_idle s"

interpretation sems: invariant "sem_start n" "sem_step n lib_calls" "\<lambda>s. int n < BIGCOUNT \<and> sem_inv n s" for n
  by unfold_locales (auto simp: sem_start_def intro: idle_inv sem_step_inv)

end
