(* ===== verification/Sem_Correct.thy ===== *)
theory Sem_Correct
  imports Sem_Steps
begin

text \<open>
  What the semaphore library promises of sets that processes create, use and close in any
  order, and the two races it leaves open.
\<close>

section \<open>Two runs\<close>

definition booted :: system where
  "booted = \<lparr>kern = \<lparr>semsets = (\<lambda>i. None), semkeys = (\<lambda>key. None), next_id = 0\<rparr>, cur = (\<lambda>p. Ret 0), asleep = (\<lambda>p. False)\<rparr>"

definition open_calls :: "sysv \<Rightarrow> pid \<Rightarrow> prog \<Rightarrow> bool" where
  "open_calls k p g \<longleftrightarrow> lib_calls k p g \<or> (\<exists>key. g = sem_open key \<and> no_user k p)"

lemma booted_start: "int n < BIGCOUNT \<Longrightarrow> sem_start n booted"
  by (simp add: sem_start_def all_idle_def booted_def)

text \<open>Process 0 creates a semaphore with key 7 and goes on until it is about to remove it.\<close>

definition made :: system where "made = (turn 0 ^^ 6) (call 0 (sem_create 7 1) booted)"

definition closing :: system where "closing = (turn 0 ^^ 2) (call 0 (sem_close 0) made)"

text \<open>Process 1 opens it then; or asks for the lock, and sleeps while the set is removed.\<close>

definition opened :: system where "opened = (turn 1 ^^ 2) (call 1 (sem_open 7) closing)"

definition slept :: system where "slept = turn 0 ((turn 1 ^^ 2) (call 1 (sem_create 7 1) closing))"

lemmas run_defs = turn_def call_def booted_def resume_def sem_create_def prog_defs sem_close_def sem_open_def or_stop_def
  op_lock_def op_endcreate_def op_close_def op_unlock_def op_open_def op_op_def new_set_def IPC_PRIVATE_def BIGCOUNT_def SEMVMX_def SEMAEM_def errno_defs

lemma made_facts:
  "kern made = \<lparr>semsets = [0 \<mapsto> \<lparr>nsems = 3, semval = (\<lambda>i. 0)(0 := 1, 1 := 9999), semadj = (\<lambda>p i. 0)(0 := (\<lambda>i. 0)(1 := 1))\<rparr>], semkeys = [7 \<mapsto> 0], next_id = 1\<rparr>"
  "cur made = (\<lambda>p. Ret 0)" "asleep made = (\<lambda>p. False)"
proof -
  let ?k = "\<lparr>semsets = [0 \<mapsto> new_set 3], semkeys = [7 \<mapsto> 0], next_id = 1\<rparr>"
  let ?S = "\<lparr>nsems = 3, semval = (\<lambda>i. 0)(2 := 1), semadj = (\<lambda>p i. 0)(0 := (\<lambda>i. 0)(2 := -1))\<rparr>"
  have 1: "turn 0 (call 0 (sem_create 7 1) booted) = \<lparr>kern = ?k, cur = (\<lambda>p. Ret 0)(0 := create_lock 7 1 0), asleep = (\<lambda>p. False)\<rparr>" (is "_ = ?s1")
    unfolding sem_create_def create_again_eq by (simp add: run_defs fun_eq_iff One_nat_def)
  have c: "cur ?s1 0 = Call (Semop 0 op_lock) (\<lambda>r. case r of Okay v \<Rightarrow> create_locked 0 1 | Error e \<Rightarrow> if e = EINVAL then create_again 7 1 else Stop (Err_sys ''can't lock''))"
    unfolding create_lock_eq [symmetric] by simp
  have "exec 0 (Semop 0 op_lock) ?k = Can (0, ?k\<lparr>semsets := [0 \<mapsto> ?S]\<rparr>)" by (simp add: run_defs fun_eq_iff)
  from turn_eqs(1) [OF c, of 0] this
  have 2: "turn 0 ?s1 = \<lparr>kern = ?k\<lparr>semsets := [0 \<mapsto> ?S]\<rparr>, cur = (\<lambda>p. Ret 0)(0 := create_locked 0 1), asleep = (\<lambda>p. False)\<rparr>" (is "_ = ?s2")
    by (simp add: resume_def fun_eq_iff)
  have "made = (turn 0 ^^ 4) (turn 0 (turn 0 (call 0 (sem_create 7 1) booted)))" by (simp add: made_def numeral_eq_Suc funpow_swap1)
  then have m: "made = (turn 0 ^^ 4) ?s2" unfolding 1 2 .
  show "kern made = \<lparr>semsets = [0 \<mapsto> \<lparr>nsems = 3, semval = (\<lambda>i. 0)(0 := 1, 1 := 9999), semadj = (\<lambda>p i. 0)(0 := (\<lambda>i. 0)(1 := 1))\<rparr>], semkeys = [7 \<mapsto> 0], next_id = 1\<rparr>"
    "cur made = (\<lambda>p. Ret 0)" "asleep made = (\<lambda>p. False)"
    unfolding m by (simp_all add: run_defs numeral_eq_Suc fun_eq_iff)
qed

lemma closing_facts:
  "kern closing = \<lparr>semsets = [0 \<mapsto> \<lparr>nsems = 3, semval = (\<lambda>i. 0)(0 := 1, 1 := 10000, 2 := 1), semadj = (\<lambda>p i. 0)(0 := (\<lambda>i. 0)(2 := -1))\<rparr>], semkeys = [7 \<mapsto> 0], next_id = 1\<rparr>"
  "cur closing 0 = sem_rm 0" "cur closing (Suc p) = Ret 0" "asleep closing p = False"
  unfolding closing_def by (simp_all add: made_facts run_defs numeral_eq_Suc fun_eq_iff)

lemma slept_facts: "cur slept 1 = create_lock 7 1 0" "semsets (kern slept) 0 = None" "asleep slept 1"
proof -
  define s1 where "s1 = turn 1 (call 1 (sem_create 7 1) closing)"
  have e: "sem_create 7 1 = create_again 7 1" by (simp add: sem_create_def IPC_PRIVATE_def)
  have s1: "cur s1 1 = create_lock 7 1 0" "cur s1 0 = sem_rm 0" "kern s1 = kern closing"
    unfolding s1_def e create_again_eq using closing_facts(3) [of 0] by (simp_all add: turn_def call_def resume_def closing_facts)
  have "exec 1 (Semop 0 op_lock) (kern s1) = Sleeps" by (simp add: s1 closing_facts op_lock_def)
  then have s2: "turn 1 s1 = s1\<lparr>asleep := (asleep s1)(1 := True)\<rparr>" by (rule turn_eqs(2) [OF s1(1) [unfolded create_lock_eq]])
  have "cur (turn 1 s1) 0 = Call (Rmid 0) (or_stop ''can't IPC_RMID'' (\<lambda>v. Ret 0))" by (simp add: s2 s1 sem_rm_def)
  from turn_eqs(1) [OF this] obtain k where "turn 0 (turn 1 s1) = resume (turn 1 s1) 0 k (Ret 0)" and k: "semsets k 0 = None"
    by (simp add: s2 s1 closing_facts or_stop_def)
  moreover have "slept = turn 0 (turn 1 s1)" by (simp add: slept_def s1_def numeral_2_eq_2)
  ultimately have s3: "slept = resume (turn 1 s1) 0 k (Ret 0)" by (simp only:)
  show "cur slept 1 = create_lock 7 1 0" "semsets (kern slept) 0 = None" "asleep slept 1"
    unfolding s3 using k s1(1) by (simp_all add: s2)
qed

lemma made_reached:
  assumes "\<And>k p g. lib_calls k p g \<Longrightarrow> may k p g" "0 < n" "int n < BIGCOUNT"
  shows "reachable (sem_start n) (sem_step n may) made" "reachable (sem_start n) (sem_step n may) closing"
proof -
  have "no_user (kern booted) 0" by (simp add: no_user_def booted_def)
  then have "may (kern booted) 0 (sem_create 7 1)" using assms(1) unfolding lib_calls_def by blast
  moreover have "cur booted 0 = Ret 0" by (simp add: booted_def)
  ultimately show m: "reachable (sem_start n) (sem_step n may) made" unfolding made_def
    using assms booted_start by (intro reach_turns reach_call reachable_start) auto
  have "user (kern made) 0 0" by (simp add: user_def made_facts)
  then have "may (kern made) 0 (sem_close 0)" using assms(1) unfolding lib_calls_def by blast
  moreover have "cur made 0 = Ret 0" by (simp add: made_facts)
  ultimately show "reachable (sem_start n) (sem_step n may) closing" unfolding closing_def
    using assms m by (intro reach_turns reach_call) auto
qed

section \<open>The turns of a process that holds the lock\<close>

lemma getval_turn:
  assumes I: "sem_inv n s" and c: "cur s p = Call (Getval sid 1) f" and h: "holder sid (cur s p)"
  obtains S where "semsets (kern s) sid = Some S" "cur (turn p s) p = f (Okay (semval S 1))"
proof -
  obtain S where "semsets (kern s) sid = Some S" "set_inv n S" by (rule holder_facts [OF I h])
  then show thesis using that turn_eqs(1) [OF c] by (simp add: set_inv_def)
qed

lemma setval_turn:
  assumes I: "sem_inv n s" and c: "cur s p = Call (Setval sid j v) f" and h: "holder sid (cur s p)" and v: "0 \<le> v" "v \<le> SEMVMX" "j < 3"
  shows "cur (turn p s) p = f (Okay 0)"
proof -
  obtain S where "semsets (kern s) sid = Some S" "set_inv n S" by (rule holder_facts [OF I h])
  then show ?thesis using turn_eqs(1) [OF c] v by (simp add: set_inv_def)
qed

lemma locked_turn:
  assumes I: "int n < BIGCOUNT \<and> sem_inv n s" and c: "cur s p = create_locked sid v"
  shows "cur (turn p s) p = create_init sid v \<or> cur (turn p s) p = create_end sid"
proof -
  have h: "holder sid (cur s p)" by (simp add: c)
  show ?thesis by (rule getval_turn [OF conjunct2 [OF I] c [unfolded create_locked_def] h]) (auto simp: or_stop_def)
qed

lemma closing_turn:
  assumes I: "int n < BIGCOUNT \<and> sem_inv n s" and c: "cur s p = close_locked sid"
  shows "cur (turn p s) p = sem_rm sid \<or> cur (turn p s) p = close_unlock sid"
proof -
  have h: "holder sid (cur s p)" by (simp add: c)
  obtain S where S: "semsets (kern s) sid = Some S" "set_inv n S" "counted n S" using holder_facts [OF conjunct2 [OF I] h] c by (metis count_points(5))
  obtain T where T: "semsets (kern s) sid = Some T" "cur (turn p s) p = or_stop ''can't GETVAL'' (\<lambda>semval.
     if semval > BIGCOUNT then Stop (Err_dump ''sem[1] > BIGCOUNT'') else if semval = BIGCOUNT then sem_rm sid else close_unlock sid) (Okay (semval T 1))"
    by (rule getval_turn [OF conjunct2 [OF I] c [unfolded close_locked_def] h])
  have "\<not> semval T 1 > BIGCOUNT" using user_count(1) [OF S(2,3)] S T by simp
  then show ?thesis unfolding T(2) by (simp add: or_stop_def)
qed

lemma init_turn:
  assumes I: "int n < BIGCOUNT \<and> sem_inv n s" and c: "cur s p = create_init sid v" and v: "0 \<le> v" "v \<le> SEMVMX"
  shows "cur (turn p s) p = create_count sid"
proof -
  have h: "holder sid (cur s p)" by (simp add: c)
  show ?thesis using setval_turn [OF conjunct2 [OF I] c [unfolded create_init_def] h v] by (simp add: or_stop_def)
qed

lemma count_turn:
  assumes I: "int n < BIGCOUNT \<and> sem_inv n s" and c: "cur s p = create_count sid"
  shows "cur (turn p s) p = create_end sid"
proof -
  have h: "holder sid (cur s p)" by (simp add: c)
  show ?thesis using setval_turn [OF conjunct2 [OF I] c [unfolded create_count_def] h] by (simp add: or_stop_def BIGCOUNT_def SEMVMX_def)
qed

lemma last_turn:
  assumes I: "int n < BIGCOUNT \<and> sem_inv n s" and c: "cur s p = create_end sid \<or> cur s p = sem_rm sid \<or> cur s p = close_unlock sid"
  shows "\<exists>v. cur (turn p s) p = Ret v"
proof -
  have h: "holder sid (cur s p)" using c by auto
  obtain S where S: "semsets (kern s) sid = Some S" "set_inv n S" "semadj S p 1 = 0" "semadj S p 2 = -1" "counted n S"
    using holder_facts [OF conjunct2 [OF I] h] c by (metis count_points(4,6) full_points(7))
  have v: "nsems S = 3" "semval S 2 = 1" using S by (auto simp: set_inv_def)
  have w: "1 \<le> semval S 1" "semval S 1 \<le> BIGCOUNT" using user_count(1,2) [OF S(2,5)] I by simp_all
  from c show ?thesis
  proof (elim disjE)
    assume g: "cur s p = create_end sid"
    show ?thesis using turn_eqs(1) [OF g [unfolded create_end_def]] S v w
      by (simp add: op_endcreate_def or_stop_def SEMVMX_def SEMAEM_def BIGCOUNT_def)
  next
    assume g: "cur s p = sem_rm sid"
    show ?thesis using turn_eqs(1) [OF g [unfolded sem_rm_def]] S by (simp add: or_stop_def)
  next
    assume g: "cur s p = close_unlock sid"
    show ?thesis using turn_eqs(1) [OF g [unfolded close_unlock_def]] S v by (simp add: op_unlock_def or_stop_def SEMVMX_def SEMAEM_def)
  qed
qed

section \<open>Sets in use\<close>

lemma users_sum:
  assumes S: "set_inv n S" and k: "semsets k sid = Some S"
  shows "(\<Sum>p<n. semadj S p 1) = int (card {p. user k p sid})"
proof -
  have a: "\<And>p. semadj S p 1 = 0 \<or> semadj S p 1 = 1 \<and> p < n" using S unfolding set_inv_def by blast
  then have "(\<Sum>p<n. semadj S p 1) = (\<Sum>p<n. if user k p sid then 1 else 0)" using k by (intro sum.cong) (auto simp: user_def)
  also have "\<dots> = int (card {p. p < n \<and> user k p sid})" by (simp add: sum.If_cases Int_def)
  also have "{p. p < n \<and> user k p sid} = {p. user k p sid}" using a k by (auto simp: user_def) (metis zero_neq_one)
  finally show ?thesis .
qed

lemma no_dump: "point_inv n k p g \<Longrightarrow> g \<noteq> Stop (Err_dump m)"
proof -
  have "Stop (Err_dump m) \<noteq> create_again key v" for key v unfolding create_again_eq by simp
  then show "point_inv n k p g \<Longrightarrow> g \<noteq> Stop (Err_dump m)"
    by (auto simp: point_inv_def create_point_def create_lock_eq use_point_def sem_close_def sem_op_def Let_def split: if_splits)
qed

text \<open>The calls the library makes, and where.\<close>

lemma library_calls:
  assumes I: "sem_inv n s" and c: "cur s p = Call c f"
  obtains (get) key where "c = Semget key 3 True" | (op) sid ops where "c = Semop sid ops" "\<And>S S'. sem_try p ops S = Can S' \<Longrightarrow> \<exists>a l. moves S p a l S'"
  | (getv) sid where "c = Getval sid 1" | (setv) sid v where "c = Setval sid 0 v" | (setc) sid where "c = Setval sid 1 BIGCOUNT" "cur s p = create_count sid"
  | (rm) sid where "c = Rmid sid" "cur s p = sem_rm sid"
proof -
  consider (create) "create_point (cur s p)" | (use) sid where "use_point sid (cur s p)" | (hold) sid where "holder sid (cur s p)"
    using sem_invD(1) [OF I, of p] c unfolding point_inv_def by auto
  then show thesis
  proof cases
    case create
    then consider key v where "Call c f = create_again key v" | key v sid where "Call c f = create_lock key v sid"
      using c unfolding create_point_def by auto
    then show thesis
    proof cases
      case 1
      then show thesis unfolding create_again_eq by (auto intro: get)
    next
      case 2
      then show thesis using op try_lock by (metis create_lock_eq prog.inject(3))
    qed
  next
    case use
    then consider "c = Semop sid op_close" | v where "c = Semop sid (op_op v)"
      using c by (auto simp: use_point_def sem_close_def sem_op_def Let_def split: if_splits)
    then show thesis using op try_close try_op by metis
  next
    case hold
    then show thesis
    proof (cases rule: holder_cases)
      case count
      then show thesis using setc c by (simp add: create_count_def)
    next
      case rm: rm
      then show thesis using that(6) c by (simp add: sem_rm_def)
    next
      case end_
      then have "c = Semop sid op_endcreate" using c by (simp add: create_end_def)
      then show thesis using op try_endcreate by metis
    next
      case unlock
      then have "c = Semop sid op_unlock" using c by (simp add: close_unlock_def)
      then show thesis using op try_unlock by metis
    qed (use c getv setv in \<open>auto simp: create_init_def create_locked_def close_locked_def\<close>)
  qed
qed

text \<open>A set with a user is still there after a step, and still counted.\<close>

lemma used_set_done:
  assumes I: "sem_inv n s" and p: "p < n" and S: "semsets (kern s) sid = Some S" "semadj S q 1 = 1" and ct: "counted n S"
    and c: "cur s p = Call c f" and e: "exec p c (kern s) = Can (r, k)"
  obtains S' where "semsets k sid = Some S'" "counted n S'"
proof -
  have si: "set_inv n S" "sid < next_id (kern s)" using sem_invD(2) [OF I S(1)] by simp_all
  have un: "\<not> unset S" using S(2) unfolding unset_def by (metis zero_neq_one)
  from I c show thesis
  proof (cases rule: library_calls)
    case (get key)
    then have "semsets k sid = Some S" using e S si by (auto split: option.splits if_splits)
    then show thesis using that ct by blast
  next
    case (op i ops)
    obtain T T' where T: "semsets (kern s) i = Some T" "sem_try p ops T = Can T'" "k = put_set (kern s) i T'" using e unfolding op(1) by (rule exec_semop)
    then have "i = sid \<Longrightarrow> counted n T'" using op(2) [OF T(2)] moves_counted [OF _ p] S ct by auto
    then show thesis using that T S ct by (cases "i = sid") auto
  next
    case (getv i)
    then have "k = kern s" using e by (auto split: option.splits if_splits)
    then show thesis using that S ct by blast
  next
    case (setv i v)
    then obtain T where "semsets (kern s) i = Some T" "k = put_set (kern s) i (T\<lparr>semval := (semval T)(0 := v), semadj := (\<lambda>q. (semadj T q)(0 := 0))\<rparr>)" using exec_setval e by metis
    then show thesis using that S ct by (cases "i = sid") (auto simp: counted_def)
  next
    case (setc i)
    then have h: "holder i (cur s p)" by simp
    then have "i \<noteq> sid" using un S setc by (metis holder_facts [OF I] option.inject zero_points(2))
    moreover obtain T where "semsets (kern s) i = Some T" "k = put_set (kern s) i (T\<lparr>semval := (semval T)(1 := BIGCOUNT), semadj := (\<lambda>q. (semadj T q)(1 := 0))\<rparr>)" using exec_setval e setc(1) by metis
    ultimately show thesis using that S ct by simp
  next
    case (rm i)
    then have h: "holder i (cur s p)" by simp
    have "semval S 1 \<noteq> BIGCOUNT" using user_count(3) [OF si(1) ct] S(2) by (metis zero_neq_one)
    then have "i \<noteq> sid" using S rm by (metis holder_facts [OF I h] option.inject full_points(7))
    moreover have "semsets k = (semsets (kern s))(i := None)" using e rm by (auto split: option.splits)
    ultimately show thesis using that S ct by simp
  qed
qed

lemma used_set_stays:
  assumes I: "sem_inv n s" and few: "int n < BIGCOUNT" and S: "semsets (kern s) sid = Some S" "semadj S q 1 = 1" and st: "sem_step n lib_calls s s'"
  obtains S' where "semsets (kern s') sid = Some S'" "counted n S'"
proof -
  have si: "set_inv n S" using sem_invD(2) [OF I S(1)] by simp
  have un: "\<not> unset S" using S(2) unfolding unset_def by (metis zero_neq_one)
  then have ct: "counted n S" using si by (simp add: set_inv_def)
  show thesis using st
  proof (cases rule: sem_step.cases)
    case (sem_call p)
    from sem_call(2) show thesis
    proof (cases rule: call_step.cases)
      case (call_done c f r k)
      then show thesis using used_set_done [OF I sem_call(1) S ct] that by (metis resume_sel(1))
    qed (use S(1) ct that in auto)
  next
    case (sem_exit p)
    then have "semsets (kern s') sid = Some (set_exit p S)" using S by (simp add: exit_undo_def)
    then show thesis using that moves_counted [OF exit_moves [OF si few] sem_exit(2)] ct by blast
  qed (use S(1) ct that in auto)
qed







section \<open>Two races\<close>

text \<open>
  A process that finds its set gone when it asks for the lock goes back and creates it
  again only if it had not been waiting: one that sleeps when the set is removed is told
  so by another error, and stops.
\<close>

theorem removed_while_asleep:
  assumes p: "p < n" and c: "cur s p = create_lock key v sid" and gone: "semsets (kern s) sid = None"
  shows "sem_step n may s (turn p s) \<and> cur (turn p s) p = (if asleep s p then Stop (Err_sys ''can't lock'') else create_again key v)"
proof
  show "sem_step n may s (turn p s)" by (rule turn_step [OF p c [unfolded create_lock_eq]])
  show "cur (turn p s) p = (if asleep s p then Stop (Err_sys ''can't lock'') else create_again key v)"
    using turn_eqs(3) [OF c [unfolded create_lock_eq]] gone by (simp add: errno_defs)
qed

theorem removed_while_asleep_witness:
  "reachable (sem_start 2) (sem_step 2 lib_calls) slept \<and> sem_step 2 lib_calls slept (turn 1 slept) \<and> cur (turn 1 slept) 1 = Stop (Err_sys ''can't lock'')"
proof -
  have "reachable (sem_start 2) (sem_step 2 lib_calls) closing" using made_reached(2) by (simp add: BIGCOUNT_def)
  moreover have "no_user (kern closing) 1" by (auto simp: no_user_def closing_facts)
  then have "lib_calls (kern closing) 1 (sem_create 7 1)" unfolding lib_calls_def by blast
  ultimately have r: "reachable (sem_start 2) (sem_step 2 lib_calls) slept" unfolding slept_def using closing_facts(3) [of 0]
    by (intro reach_turn reach_turns reach_call) (simp_all add: One_nat_def)
  note k = slept_facts
  show ?thesis using r removed_while_asleep [OF _ k(1,2), of 2 lib_calls] k(3) by simp
qed

text \<open>
  With \<open>sem_open\<close>, which takes no lock, a set can be removed in use: a process that closes it
  last reads the counter, another opens the set, and then the first removes it.
\<close>

theorem open_races_with_close:
  "\<exists>s. reachable (sem_start 2) (sem_step 2 open_calls) s \<and> user (kern s) 1 0 \<and> cur s 1 = Ret 0 \<and>
     (\<exists>s'. sem_step 2 open_calls s s' \<and> semsets (kern s') 0 = None \<and> cur s' 1 = Ret 0)"
proof -
  have "reachable (sem_start 2) (sem_step 2 open_calls) closing" using made_reached(2) [of open_calls 2] by (simp add: BIGCOUNT_def open_calls_def)
  moreover have "open_calls (kern closing) 1 (sem_open 7)" unfolding open_calls_def no_user_def by (auto simp: closing_facts)
  ultimately have r: "reachable (sem_start 2) (sem_step 2 open_calls) opened" unfolding opened_def using closing_facts(3) [of 0]
    by (intro reach_turns reach_call) (simp_all add: One_nat_def)
  have k: "user (kern opened) 1 0" "cur opened 1 = Ret 0" "cur opened 0 = sem_rm 0" "semsets (kern (turn 0 opened)) 0 = None" "cur (turn 0 opened) 1 = Ret 0"
    by (simp_all add: opened_def user_def closing_facts run_defs numeral_eq_Suc)
  have "sem_step 2 open_calls opened (turn 0 opened)" using k(3) unfolding sem_rm_def by (rule turn_step [rotated]) simp
  then show ?thesis using r k by blast
qed

end
