(* ===== verification/Bin_Sems.thy ===== *)
theory Bin_Sems
  imports Sem_Kernel
begin

text \<open>
  Binary semaphores and event flags over System V semaphores: \<open>tlpi-dist/svsem/binary_sems.c\<close>
  and \<open>tlpi-dist/svsem/event_flags.c\<close>, every function as the program of its system calls.
\<close>

text \<open>What a function that ends with a system call gives its caller.\<close>

definition ret_call :: "sysres \<Rightarrow> prog" where
  "ret_call r = (case r of Okay v \<Rightarrow> Ret v | Error e \<Rightarrow> Ret (-1))"

section \<open>Binary semaphores\<close>

definition initSemAvailable :: "semid \<Rightarrow> nat \<Rightarrow> prog" where
  "initSemAvailable sid num = Call (Setval sid num 1) ret_call"

definition initSemInUse :: "semid \<Rightarrow> nat \<Rightarrow> prog" where
  "initSemInUse sid num = Call (Setval sid num 0) ret_call"

text \<open>The two flags are the global variables \<open>bsUseSemUndo\<close> and \<open>bsRetryOnEintr\<close>.  A retry may go on for ever.\<close>

primcorec reserveSem :: "bool \<Rightarrow> bool \<Rightarrow> semid \<Rightarrow> nat \<Rightarrow> prog" where
  "reserveSem bsUseSemUndo bsRetryOnEintr sid num =
     Call (Semop sid [\<lparr>sb_num = num, sb_op = -1, sb_undo = bsUseSemUndo\<rparr>]) (\<lambda>r. case r of
         Okay v \<Rightarrow> Ret 0
       | Error e \<Rightarrow> if e \<noteq> EINTR \<or> \<not> bsRetryOnEintr then Ret (-1) else reserveSem bsUseSemUndo bsRetryOnEintr sid num)"

definition releaseSem :: "bool \<Rightarrow> semid \<Rightarrow> nat \<Rightarrow> prog" where
  "releaseSem bsUseSemUndo sid num = Call (Semop sid [\<lparr>sb_num = num, sb_op = 1, sb_undo = bsUseSemUndo\<rparr>]) ret_call"

section \<open>Event flags\<close>

primcorec waitForEventFlag :: "semid \<Rightarrow> nat \<Rightarrow> prog" where
  "waitForEventFlag sid num =
     Call (Semop sid [\<lparr>sb_num = num, sb_op = 0, sb_undo = False\<rparr>]) (\<lambda>r. case r of
         Okay v \<Rightarrow> Ret 0
       | Error e \<Rightarrow> if e \<noteq> EINTR then Ret (-1) else waitForEventFlag sid num)"

definition clearEventFlag :: "semid \<Rightarrow> nat \<Rightarrow> prog" where
  "clearEventFlag sid num = Call (Setval sid num 1) ret_call"

definition setEventFlag :: "semid \<Rightarrow> nat \<Rightarrow> prog" where
  "setEventFlag sid num = Call (Setval sid num 0) ret_call"

text \<open>\<open>k\<close> is what the caller does with the result and with the flag the function stores.\<close>

definition getFlagState :: "semid \<Rightarrow> nat \<Rightarrow> (int \<Rightarrow> bool option \<Rightarrow> prog) \<Rightarrow> prog" where
  "getFlagState sid num k = Call (Getval sid num) (\<lambda>r. case r of
     Okay v \<Rightarrow> if v = -1 then k (-1) None else k 0 (Some (v = 0))
   | Error e \<Rightarrow> k (-1) None)"

section \<open>One semaphore, many processes\<close>

definition holds_sem :: "sysv \<Rightarrow> semid \<Rightarrow> nat \<Rightarrow> pid \<Rightarrow> bool" where
  "holds_sem k sid num p \<longleftrightarrow> (\<exists>S. semsets k sid = Some S \<and> semadj S p num = 1)"

text \<open>With \<open>SEM_UNDO\<close>: a process reserves a semaphore it does not hold, and releases one it holds.\<close>

definition bin_calls :: "bool \<Rightarrow> semid \<Rightarrow> nat \<Rightarrow> sysv \<Rightarrow> pid \<Rightarrow> prog \<Rightarrow> bool" where
  "bin_calls retry sid num k p g \<longleftrightarrow>
     g = reserveSem True retry sid num \<and> \<not> holds_sem k sid num p \<or> g = releaseSem True sid num \<and> holds_sem k sid num p"

text \<open>The set is there and \<open>initSemAvailable\<close> has been called; every process is idle.\<close>

definition bin_start :: "semid \<Rightarrow> nat \<Rightarrow> system \<Rightarrow> bool" where
  "bin_start sid num s \<longleftrightarrow> (\<exists>S. semsets (kern s) sid = Some S \<and> num < nsems S \<and> semval S num = 1 \<and> (\<forall>p. semadj S p num = 0)) \<and>
     (\<forall>p. \<exists>v. cur s p = Ret v)"

definition bin_point :: "bool \<Rightarrow> semid \<Rightarrow> nat \<Rightarrow> sysv \<Rightarrow> pid \<Rightarrow> prog \<Rightarrow> bool" where
  "bin_point retry sid num k p g \<longleftrightarrow> (\<exists>v. g = Ret v) \<or> bin_calls retry sid num k p g"

definition bin_set :: "nat \<Rightarrow> nat \<Rightarrow> semset \<Rightarrow> bool" where
  "bin_set n num S \<longleftrightarrow> num < nsems S \<and> (\<forall>p. semadj S p num = 0 \<or> semadj S p num = 1 \<and> p < n) \<and> 0 \<le> semval S num \<and> semval S num + (\<Sum>p<n. semadj S p num) = 1"

definition bin_inv :: "bool \<Rightarrow> nat \<Rightarrow> semid \<Rightarrow> nat \<Rightarrow> system \<Rightarrow> bool" where
  "bin_inv retry n sid num s \<longleftrightarrow> (\<exists>S. semsets (kern s) sid = Some S \<and> bin_set n num S) \<and> (\<forall>p. bin_point retry sid num (kern s) p (cur s p))"

lemma reserve_call:
  "reserveSem undo retry sid num = Call c f \<longleftrightarrow> c = Semop sid [\<lparr>sb_num = num, sb_op = -1, sb_undo = undo\<rparr>] \<and>
     f = (\<lambda>r. case r of Okay v \<Rightarrow> Ret 0 | Error e \<Rightarrow> if e \<noteq> EINTR \<or> \<not> retry then Ret (-1) else reserveSem undo retry sid num)"
  by (subst reserveSem.code) auto

lemma bin_holders:
  assumes S: "bin_set n num S"
  shows "semadj S p num = 1 \<Longrightarrow> semadj S q num = 1 \<Longrightarrow> p = q" "semval S num = (if \<exists>p. semadj S p num = 1 then 0 else 1)"
proof -
  have a: "\<And>p. semadj S p num = 0 \<or> semadj S p num = 1 \<and> p < n" and v: "0 \<le> semval S num" "semval S num + (\<Sum>p<n. semadj S p num) = 1"
    using S unfolding bin_set_def by blast+
  let ?H = "{p. semadj S p num = 1}"
  have f: "finite ?H" using a by (intro finite_subset [of ?H "{..<n}"]) (auto, metis zero_neq_one)
  have "(\<Sum>p<n. semadj S p num) = (\<Sum>p\<in>?H. semadj S p num)"
    using a by (intro sum.mono_neutral_right) (auto, metis zero_neq_one)
  then have c: "semval S num + int (card ?H) = 1" using v(2) by simp
  then have "card ?H \<le> 1" using v(1) by simp
  then show "semadj S p num = 1 \<Longrightarrow> semadj S q num = 1 \<Longrightarrow> p = q" using f by (metis (mono_tags) card_le_Suc0_iff_eq mem_Collect_eq One_nat_def)
  show "semval S num = (if \<exists>p. semadj S p num = 1 then 0 else 1)"
  proof (cases "?H = {}")
    case True
    then show ?thesis using c by auto
  next
    case False
    then have "1 \<le> card ?H" using f by (simp add: Suc_leI card_gt_0_iff)
    then show ?thesis using c v(1) False by auto
  qed
qed

text \<open>Process \<open>p\<close> adds \<open>d\<close> to the semaphore, to be undone at its exit.\<close>

lemma bin_move:
  assumes I: "bin_inv retry n sid num s" and p: "p < n" and S: "semsets (kern s) sid = Some S" and S': "semsets k sid = Some S'"
    and m: "nsems S' = nsems S" "semval S' num = semval S num + d" "\<And>q. semadj S' q num = semadj S q num - (if q = p then d else 0)"
    and ok: "0 \<le> semval S num + d" "semadj S p num - d = 0 \<or> semadj S p num - d = 1"
  shows "bin_inv retry n sid num (resume s p k (Ret v))"
proof -
  have b: "bin_set n num S" using I S unfolding bin_inv_def by auto
  have "semadj S' q num = ((\<lambda>q. semadj S q num)(p := semadj S p num - d)) q" for q by (simp add: m(3))
  then have "(\<Sum>q<n. semadj S' q num) = (\<Sum>q<n. semadj S q num) - d"
    using sum_update [OF p, of "\<lambda>q. semadj S q num" "semadj S p num - d"] by (simp only:)
  moreover have "semadj S' q num = 0 \<or> semadj S' q num = 1 \<and> q < n" for q using b ok(2) p unfolding bin_set_def m(3) by auto
  ultimately have "bin_set n num S'" using b m ok(1) unfolding bin_set_def by simp
  moreover have "holds_sem k sid num q = holds_sem (kern s) sid num q" if "q \<noteq> p" for q using S S' m(3) that by (simp add: holds_sem_def)
  then have "bin_point retry sid num k q (((cur s)(p := Ret v)) q)" for q
    using I unfolding bin_inv_def bin_point_def bin_calls_def by (cases "q = p") auto
  ultimately show ?thesis using S' unfolding bin_inv_def by simp
qed

lemma bin_still:
  assumes "bin_inv retry n sid num s" "bin_point retry sid num (kern s) p g"
  shows "bin_inv retry n sid num (resume s p (kern s) g)"
  using assms unfolding bin_inv_def by simp

lemma bin_try:
  assumes e: "exec p (Semop sid [\<lparr>sb_num = num, sb_op = d, sb_undo = True\<rparr>]) k = Can (r, k')" and d: "d \<noteq> 0"
  obtains S S' where "semsets k sid = Some S" "semsets k' sid = Some S'" "nsems S' = nsems S" "semval S' num = semval S num + d"
    "\<And>q. semadj S' q num = semadj S q num - (if q = p then d else 0)" "0 \<le> semval S num + d"
  using assms by (auto simp: Let_def split: option.splits if_splits attempt.splits)

lemma bin_call:
  assumes I: "bin_inv retry n sid num s" and p: "p < n" and st: "call_step p s s'"
  shows "bin_inv retry n sid num s'"
proof -
  obtain S where S: "semsets (kern s) sid = Some S" "bin_set n num S" using I unfolding bin_inv_def by blast
  have pt: "bin_point retry sid num (kern s) p (cur s p)" using I unfolding bin_inv_def by blast
  have ret: "bin_inv retry n sid num (resume s p (kern s) (Ret v))" for v by (rule bin_still [OF I]) (simp add: bin_point_def)
  have go: "bin_inv retry n sid num (resume s p k (Ret v))"
    if "exec p (Semop sid [\<lparr>sb_num = num, sb_op = d, sb_undo = True\<rparr>]) (kern s) = Can (r, k)" "d \<noteq> 0" "semadj S p num - d = 0 \<or> semadj S p num - d = 1" for d r k v
    by (rule bin_try [OF that(1,2)]) (use S that(3) in \<open>auto intro!: bin_move [OF I p]\<close>)
  have a: "semadj S p num = 0 \<or> semadj S p num = 1" using S(2) unfolding bin_set_def by blast
  have err: "bin_inv retry n sid num (resume s p (kern s) (f (Error e)))" if c: "cur s p = Call c f" for c f e
  proof (cases "f (Error e) = cur s p")
    case True
    then show ?thesis using bin_still [OF I pt] by simp
  next
    case False
    have "cur s p = reserveSem True retry sid num \<or> cur s p = releaseSem True sid num" using pt c unfolding bin_point_def bin_calls_def by auto
    then have "f (Error e) = Ret (-1)"
    proof
      assume g: "cur s p = reserveSem True retry sid num"
      then have "reserveSem True retry sid num = Call c f" using c by simp
      then show ?thesis using False g unfolding reserve_call by (auto split: if_splits)
    next
      assume "cur s p = releaseSem True sid num"
      then show ?thesis using c by (auto simp: releaseSem_def ret_call_def)
    qed
    then show ?thesis using ret by simp
  qed
  from st show ?thesis
  proof (cases rule: call_step.cases)
    case (call_sleep c f)
    then show ?thesis using I unfolding bin_inv_def by simp
  next
    case (call_done c f r k)
    consider "cur s p = reserveSem True retry sid num" "\<not> holds_sem (kern s) sid num p" | "cur s p = releaseSem True sid num" "holds_sem (kern s) sid num p"
      using pt call_done(2) unfolding bin_point_def bin_calls_def by auto
    then show ?thesis
    proof cases
      case 1
      then have "reserveSem True retry sid num = Call c f" using call_done(2) by simp
      then have "c = Semop sid [\<lparr>sb_num = num, sb_op = -1, sb_undo = True\<rparr>]" "f (Okay r) = Ret 0" unfolding reserve_call by auto
      then show ?thesis using go [of "-1"] 1(2) a S(1) call_done by (auto simp: holds_sem_def)
    next
      case 2
      then have "c = Semop sid [\<lparr>sb_num = num, sb_op = 1, sb_undo = True\<rparr>]" "f (Okay r) = Ret r" using call_done(2) by (simp_all add: releaseSem_def ret_call_def)
      then show ?thesis using go [of 1] 2(2) S(1) call_done by (auto simp: holds_sem_def)
    qed
  qed (auto intro: err)
qed

lemma bin_exit:
  assumes I: "bin_inv retry n sid num s" and p: "p < n"
  shows "bin_inv retry n sid num (resume s p (exit_undo p (kern s)) (Ret 0))"
proof -
  obtain S where S: "semsets (kern s) sid = Some S" "bin_set n num S" using I unfolding bin_inv_def by blast
  have "semadj S p num = 0 \<or> semadj S p num = 1" using S(2) unfolding bin_set_def by blast
  moreover have "semval S num = (if \<exists>p. semadj S p num = 1 then 0 else 1)" by (rule bin_holders(2) [OF S(2)])
  ultimately show ?thesis using S
    by (intro bin_move [OF I p S(1), where S' = "set_exit p S" and d = "semadj S p num"]) (auto simp: exit_undo_def set_exit_def SEMVMX_def)
qed

interpretation bins: invariant "bin_start sid num" "sem_step n (bin_calls retry sid num)" "bin_inv retry n sid num" for sid num n retry
proof
  fix s assume s: "bin_start sid num s"
  then show "bin_inv retry n sid num s" unfolding bin_start_def bin_inv_def bin_set_def bin_point_def by auto
next
  fix s s' assume I: "bin_inv retry n sid num s" and st: "sem_step n (bin_calls retry sid num) s s'"
  from st show "bin_inv retry n sid num s'"
    by (cases rule: sem_step.cases) (auto intro: bin_still [OF I] bin_call [OF I] bin_exit [OF I] simp: bin_point_def)
qed

definition one_free :: system where
  "one_free = \<lparr>kern = \<lparr>semsets = [0 \<mapsto> \<lparr>nsems = 1, semval = (\<lambda>i. 1), semadj = (\<lambda>p i. 0)\<rparr>], semkeys = (\<lambda>key. None), next_id = 1\<rparr>,
     cur = (\<lambda>p. Ret 0), asleep = (\<lambda>p. False)\<rparr>"



text \<open>An event flag is waited for until it is set: the call that returns saw the value 0.\<close>

lemma wait_sees_flag_set:
  assumes st: "call_step p s s'" and c: "cur s p = waitForEventFlag sid num" and r: "cur s' p = Ret 0"
  shows "\<exists>S. semsets (kern s) sid = Some S \<and> semval S num = 0"
proof -
  have w: "waitForEventFlag sid num = Call (Semop sid [\<lparr>sb_num = num, sb_op = 0, sb_undo = False\<rparr>])
      (\<lambda>r. case r of Okay v \<Rightarrow> Ret 0 | Error e \<Rightarrow> if e \<noteq> EINTR then Ret (-1) else waitForEventFlag sid num)" by (rule waitForEventFlag.code)
  then have "waitForEventFlag sid num \<noteq> Ret 0" by (metis prog.distinct(3))
  with st show ?thesis
    by (cases rule: call_step.cases) (use c w r in \<open>auto split: option.splits if_splits attempt.splits\<close>)
qed

end
