(* ===== verification/Shm_Xfr.thy ===== *)
theory Shm_Xfr
  imports Bin_Sems Stream_IO
begin

text \<open>
  Copying a stream through shared memory: \<open>tlpi-dist/svshm/svshm_xfr_writer.c\<close> reads blocks
  from its standard input into the segment, \<open>svshm_xfr_reader.c\<close> writes them to its standard
  output, and two binary semaphores make them take turns.
\<close>

definition SEM_KEY :: int where "SEM_KEY = 0x5678"
definition WRITE_SEM :: nat where "WRITE_SEM = 0"
definition READ_SEM :: nat where "READ_SEM = 1"
definition BUF_SIZE :: nat where "BUF_SIZE = 1024"

text \<open>The functions on semaphores as the two programs use them: the flags have their default values.\<close>

definition reserve :: "semid \<Rightarrow> nat \<Rightarrow> prog" where
  "reserve = reserveSem False True"

definition release :: "semid \<Rightarrow> nat \<Rightarrow> prog" where
  "release = releaseSem False"

definition semget :: "int \<Rightarrow> nat \<Rightarrow> bool \<Rightarrow> prog" where
  "semget key n create = Call (Semget key n create) ret_call"

definition semctl_rmid :: "semid \<Rightarrow> prog" where
  "semctl_rmid sid = Call (Rmid sid) ret_call"

text \<open>Where each program is: the call it has made, by what it does with the result.\<close>

datatype wpoint = W_start | W_got | W_avail semid | W_inuse semid | W_turn semid | W_gave semid | W_last semid | W_rmd | W_done | W_fail string

datatype rpoint = R_start | R_got | R_turn semid | R_gave semid | R_end | R_done | R_fail string

text \<open>
  The writer is process 0 and the reader process 1.  \<open>cnt\<close> and \<open>buf\<close> are the shared segment,
  there from the moment the writer has created it; the last four are what the programs count.
\<close>

record xfr =
  sys :: system
  shm_there :: bool
  cnt :: int
  buf :: bytes
  stdin :: stream
  stdout :: sink
  wp :: wpoint
  rp :: rpoint
  wbytes :: int
  wxfrs :: int
  rbytes :: int
  rxfrs :: int

definition w_go :: "xfr \<Rightarrow> wpoint \<Rightarrow> prog \<Rightarrow> xfr" where
  "w_go s pt g = s\<lparr>sys := resume (sys s) 0 (kern (sys s)) g, wp := pt\<rparr>"

definition r_go :: "xfr \<Rightarrow> rpoint \<Rightarrow> prog \<Rightarrow> xfr" where
  "r_go s pt g = s\<lparr>sys := resume (sys s) 1 (kern (sys s)) g, rp := pt\<rparr>"

text \<open>
  What the writer does with the result \<open>v\<close> of its last call, up to its next call on semaphores.
  \<open>ok\<close>: the calls on the segment succeed.
\<close>

definition writer_next :: "bool \<Rightarrow> xfr \<Rightarrow> int \<Rightarrow> xfr" where
  "writer_next ok s v = (case wp s of
     W_start \<Rightarrow> w_go s W_got (semget SEM_KEY 2 True)
   | W_got \<Rightarrow>
       if v = -1 then s\<lparr>wp := W_fail ''semget''\<rparr>
       else w_go s (W_avail (nat v)) (initSemAvailable (nat v) WRITE_SEM)
   | W_avail sid \<Rightarrow>
       if v = -1 then s\<lparr>wp := W_fail ''initSemAvailable''\<rparr>
       else w_go s (W_inuse sid) (initSemInUse sid READ_SEM)
   | W_inuse sid \<Rightarrow>
       if v = -1 then s\<lparr>wp := W_fail ''initSemInUse''\<rparr>
       else if \<not> ok then s\<lparr>wp := W_fail ''shmget''\<rparr>
       else w_go (s\<lparr>shm_there := True, wxfrs := 0, wbytes := 0\<rparr>) (W_turn sid) (reserve sid WRITE_SEM)
   | W_turn sid \<Rightarrow>
       if v = -1 then s\<lparr>wp := W_fail ''reserveSem''\<rparr>
       else (case sys_read (stdin s) BUF_SIZE of
           (Inl e, i) \<Rightarrow> s\<lparr>stdin := i, cnt := -1, wp := W_fail ''read''\<rparr>
         | (Inr b, i) \<Rightarrow> w_go (s\<lparr>stdin := i, buf := patch (buf s) 0 b, cnt := int (length b)\<rparr>) (W_gave sid) (release sid READ_SEM))
   | W_gave sid \<Rightarrow>
       if v = -1 then s\<lparr>wp := W_fail ''releaseSem''\<rparr>
       else if cnt s = 0 then w_go s (W_last sid) (reserve sid WRITE_SEM)
       else w_go (s\<lparr>wxfrs := wxfrs s + 1, wbytes := wbytes s + cnt s\<rparr>) (W_turn sid) (reserve sid WRITE_SEM)
   | W_last sid \<Rightarrow>
       if v = -1 then s\<lparr>wp := W_fail ''reserveSem''\<rparr>
       else w_go s W_rmd (semctl_rmid sid)
   | W_rmd \<Rightarrow>
       if v = -1 then s\<lparr>wp := W_fail ''semctl''\<rparr>
       else if \<not> ok then s\<lparr>wp := W_fail ''shmdt''\<rparr>
       else s\<lparr>shm_there := False, wp := W_done\<rparr>
   | W_done \<Rightarrow> s
   | W_fail m \<Rightarrow> s)"

definition reader_next :: "bool \<Rightarrow> xfr \<Rightarrow> int \<Rightarrow> xfr" where
  "reader_next ok s v = (case rp s of
     R_start \<Rightarrow> r_go s R_got (semget SEM_KEY 0 False)
   | R_got \<Rightarrow>
       if v = -1 then s\<lparr>rp := R_fail ''semget''\<rparr>
       else if \<not> shm_there s then s\<lparr>rp := R_fail ''shmget''\<rparr>
       else if \<not> ok then s\<lparr>rp := R_fail ''shmat''\<rparr>
       else r_go (s\<lparr>rxfrs := 0, rbytes := 0\<rparr>) (R_turn (nat v)) (reserve (nat v) READ_SEM)
   | R_turn sid \<Rightarrow>
       if v = -1 then s\<lparr>rp := R_fail ''reserveSem''\<rparr>
       else if cnt s = 0 then
         if \<not> ok then s\<lparr>rp := R_fail ''shmdt''\<rparr>
         else r_go s R_end (release sid WRITE_SEM)
       else (case sys_write (stdout s) (take (to_size_t (cnt s)) (buf s)) of
           (Inl e, k) \<Rightarrow> s\<lparr>rbytes := rbytes s + cnt s, stdout := k, rp := R_fail ''partial/failed write''\<rparr>
         | (Inr m, k) \<Rightarrow>
             if int m \<noteq> cnt s then s\<lparr>rbytes := rbytes s + cnt s, stdout := k, rp := R_fail ''partial/failed write''\<rparr>
             else r_go (s\<lparr>rbytes := rbytes s + cnt s, stdout := k\<rparr>) (R_gave sid) (release sid WRITE_SEM))
   | R_gave sid \<Rightarrow>
       if v = -1 then s\<lparr>rp := R_fail ''releaseSem''\<rparr>
       else r_go (s\<lparr>rxfrs := rxfrs s + 1\<rparr>) (R_turn sid) (reserve sid READ_SEM)
   | R_end \<Rightarrow>
       if v = -1 then s\<lparr>rp := R_fail ''releaseSem''\<rparr>
       else s\<lparr>rp := R_done\<rparr>
   | R_done \<Rightarrow> s
   | R_fail m \<Rightarrow> s)"

text \<open>Either program goes on, or one of them is in a call on semaphores, which may be interrupted.\<close>

inductive xfr_step :: "xfr \<Rightarrow> xfr \<Rightarrow> bool" where
  writer_runs: "cur (sys s) 0 = Ret v \<Longrightarrow> xfr_step s (writer_next ok s v)"
| reader_runs: "cur (sys s) 1 = Ret v \<Longrightarrow> xfr_step s (reader_next ok s v)"
| sem_runs: "p < 2 \<Longrightarrow> call_step p (sys s) k \<Longrightarrow> xfr_step s (s\<lparr>sys := k\<rparr>)"

text \<open>Neither the set nor the segment is there, and the programs have not started.\<close>

definition xfr_start :: "bytes \<Rightarrow> xfr \<Rightarrow> bool" where
  "xfr_start input s \<longleftrightarrow> semsets (kern (sys s)) = (\<lambda>i. None) \<and> semkeys (kern (sys s)) = (\<lambda>key. None) \<and> (\<forall>p. cur (sys s) p = Ret 0) \<and>
     \<not> shm_there s \<and> cnt s = 0 \<and> length (buf s) = BUF_SIZE \<and> pending (stdin s) = input \<and> sent (stdout s) = [] \<and> wp s = W_start \<and> rp s = R_start"

end
