(* ===== verification/Shm_Inv.thy ===== *)
theory Shm_Inv
  imports Shm_Xfr "HOL-Library.Sublist"
begin

text \<open>
  The two programs of \<open>tlpi-dist/svshm\<close> never use the segment at the same time, and what the reader
  has written is always the beginning of what the writer reads.
\<close>

declare One_nat_def [simp del]

section \<open>The calls on the set of two semaphores\<close>

definition two_set :: "sysv \<Rightarrow> semid \<Rightarrow> int \<Rightarrow> int \<Rightarrow> bool" where
  "two_set k sid a b \<longleftrightarrow> (\<exists>S. semsets k sid = Some S \<and> nsems S = 2 \<and> semval S 0 = a \<and> semval S 1 = b) \<and> semkeys k SEM_KEY = Some sid"

lemma two_setE:
  assumes "two_set k sid a b"
  obtains S where "semsets k sid = Some S" "nsems S = 2" "semval S 0 = a" "semval S 1 = b" "semkeys k SEM_KEY = Some sid"
  using assms unfolding two_set_def by blast

lemma reserve_step:
  assumes st: "call_step p y y'" and c: "cur y p = reserve sid num" and t: "two_set (kern y) sid a b" and n: "num = 0 \<or> num = 1" and hi: "a \<le> 1" "b \<le> 1"
  shows "kern y' = kern y \<and> cur y' = cur y \<or>
    1 \<le> (if num = 0 then a else b) \<and> cur y' = (cur y)(p := Ret 0) \<and> two_set (kern y') sid (if num = 0 then a - 1 else a) (if num = 1 then b - 1 else b)"
proof -
  obtain S where S: "semsets (kern y) sid = Some S" "nsems S = 2" "semval S 0 = a" "semval S 1 = b" "semkeys (kern y) SEM_KEY = Some sid" using t by (rule two_setE)
  have call: "c = Semop sid [\<lparr>sb_num = num, sb_op = -1, sb_undo = False\<rparr>]" "f (Okay r) = Ret 0" "f (Error EINTR) = cur y p" if "cur y p = Call c f" for c f r
    using that c reserve_call [of False True sid num c f] unfolding reserve_def by auto
  from st show ?thesis
  proof (cases rule: call_step.cases)
    case (call_done d f r k)
    note d = call(1) [OF call_done(2)] call(2) [OF call_done(2)]
    show ?thesis using call_done S n unfolding d two_set_def by (auto simp: Let_def split: if_splits)
  next
    case (call_fail d f e)
    note d = call(1) [OF call_fail(2)]
    show ?thesis using call_fail S n hi unfolding d by (auto simp: Let_def SEMVMX_def split: if_splits)
  next
    case (call_signalled d f)
    then show ?thesis using call(3) [OF call_signalled(2)] by (simp add: fun_upd_idem)
  next
    case (call_noget key m b f e)
    then show ?thesis using call(1) [OF call_noget(2)] by simp
  qed simp
qed

lemma release_step:
  assumes st: "call_step p y y'" and c: "cur y p = release sid num" and t: "two_set (kern y) sid a b" and n: "num = 0 \<or> num = 1" and hi: "0 \<le> a" "0 \<le> b" "a \<le> 1" "b \<le> 1"
  shows "cur y' = (cur y)(p := Ret 0) \<and> two_set (kern y') sid (if num = 0 then a + 1 else a) (if num = 1 then b + 1 else b)"
proof -
  obtain S where S: "semsets (kern y) sid = Some S" "nsems S = 2" "semval S 0 = a" "semval S 1 = b" "semkeys (kern y) SEM_KEY = Some sid" using t by (rule two_setE)
  have "cur y p = Call (Semop sid [\<lparr>sb_num = num, sb_op = 1, sb_undo = False\<rparr>]) ret_call" unfolding c by (simp add: release_def releaseSem_def)
  with st show ?thesis
    by (cases rule: call_step.cases) (use S n hi in \<open>auto simp: Let_def SEMVMX_def ret_call_def two_set_def split: if_splits\<close>)
qed

lemma setval_step:
  assumes st: "call_step p y y'" and c: "cur y p = Call (Setval sid num v) ret_call" and t: "two_set (kern y) sid a b" and n: "num = 0 \<or> num = 1" and v: "v = 0 \<or> v = 1"
  shows "cur y' = (cur y)(p := Ret 0) \<and> two_set (kern y') sid (if num = 0 then v else a) (if num = 1 then v else b)"
proof -
  obtain S where S: "semsets (kern y) sid = Some S" "nsems S = 2" "semval S 0 = a" "semval S 1 = b" "semkeys (kern y) SEM_KEY = Some sid" using t by (rule two_setE)
  from st c show ?thesis
    by (cases rule: call_step.cases) (use S n v in \<open>auto simp: SEMVMX_def ret_call_def two_set_def split: if_splits\<close>)
qed

lemma create_step:
  assumes st: "call_step p y y'" and c: "cur y p = semget SEM_KEY 2 True" and k: "semkeys (kern y) SEM_KEY = None"
  shows "(\<exists>sid. cur y' = (cur y)(p := Ret (int sid)) \<and> two_set (kern y') sid 0 0) \<or> cur y' = (cur y)(p := Ret (-1)) \<and> kern y' = kern y"
proof -
  from st c [unfolded semget_def] show ?thesis
    by (cases rule: call_step.cases) (use k in \<open>auto simp: ret_call_def two_set_def new_set_def\<close>)
qed

lemma lookup_step:
  assumes st: "call_step p y y'" and c: "cur y p = semget SEM_KEY 0 False"
  shows "kern y' = kern y \<and> (\<exists>v. cur y' = (cur y)(p := Ret v) \<and> (v = -1 \<or> (\<exists>sid. v = int sid \<and> semkeys (kern y) SEM_KEY = Some sid)))"
proof -
  from st c [unfolded semget_def] show ?thesis
    by (cases rule: call_step.cases) (auto simp: ret_call_def split: option.splits if_splits)
qed

lemma rmid_step:
  assumes st: "call_step p y y'" and c: "cur y p = semctl_rmid sid"
  shows "\<exists>v. cur y' = (cur y)(p := Ret v)"
proof -
  from st c [unfolded semctl_rmid_def] show ?thesis
    by (cases rule: call_step.cases) (auto simp: ret_call_def split: option.splits)
qed

section \<open>The invariant\<close>

text \<open>Where a program has the segment to itself, and where it waits or has not begun.\<close>

definition w_has :: "semid \<Rightarrow> wpoint \<Rightarrow> prog \<Rightarrow> bool" where
  "w_has sid pt g \<longleftrightarrow> pt = W_turn sid \<and> g = Ret 0 \<or> pt = W_gave sid \<and> g = release sid READ_SEM \<or> pt = W_last sid \<and> g = Ret 0 \<or>
     pt = W_rmd \<and> g = semctl_rmid sid \<or> (\<exists>m v. pt = W_fail m \<and> g = Ret v)"

definition w_waits :: "semid \<Rightarrow> wpoint \<Rightarrow> prog \<Rightarrow> bool" where
  "w_waits sid pt g \<longleftrightarrow> pt = W_turn sid \<and> g = reserve sid WRITE_SEM \<or> pt = W_gave sid \<and> g = Ret 0 \<or> pt = W_last sid \<and> g = reserve sid WRITE_SEM"

definition r_has :: "semid \<Rightarrow> rpoint \<Rightarrow> prog \<Rightarrow> bool" where
  "r_has sid pt g \<longleftrightarrow> pt = R_turn sid \<and> g = Ret 0 \<or> (pt = R_gave sid \<or> pt = R_end) \<and> g = release sid WRITE_SEM"

definition r_over :: "rpoint \<Rightarrow> prog \<Rightarrow> bool" where
  "r_over pt g \<longleftrightarrow> pt = R_end \<and> g = Ret 0 \<or> pt = R_done \<and> (\<exists>v. g = Ret v) \<or> (\<exists>m v. pt = R_fail m \<and> g = Ret v)"

definition r_waits :: "semid \<Rightarrow> rpoint \<Rightarrow> prog \<Rightarrow> bool" where
  "r_waits sid pt g \<longleftrightarrow> pt = R_start \<and> (\<exists>v. g = Ret v) \<or> pt = R_got \<and> (g = semget SEM_KEY 0 False \<or> g = Ret (-1) \<or> g = Ret (int sid)) \<or>
     pt = R_turn sid \<and> g = reserve sid READ_SEM \<or> pt = R_gave sid \<and> g = Ret 0 \<or> r_over pt g"

definition r_failed :: "rpoint \<Rightarrow> bool" where
  "r_failed pt \<longleftrightarrow> (\<exists>m. pt = R_fail m)"

definition r_finished :: "rpoint \<Rightarrow> bool" where
  "r_finished pt \<longleftrightarrow> pt = R_end \<or> pt = R_done"

text \<open>A block is in the segment that the reader has not written yet; an empty one marks the end.\<close>

definition block :: "xfr \<Rightarrow> bytes \<Rightarrow> bool" where
  "block s input \<longleftrightarrow> (\<exists>x. cnt s = int (length x) \<and> length x \<le> BUF_SIZE \<and> take (length x) (buf s) = x \<and>
     (if x = [] then sent (stdout s) = input else sent (stdout s) @ x @ pending (stdin s) = input))"

definition fresh :: "semid \<Rightarrow> int \<Rightarrow> xfr \<Rightarrow> bool" where
  "fresh sid b s \<longleftrightarrow> wp s = W_gave sid \<and> cur (sys s) 0 = release sid READ_SEM \<or> b = 1 \<or> rp s = R_turn sid \<and> cur (sys s) 1 = Ret 0"

definition data :: "semid \<Rightarrow> int \<Rightarrow> xfr \<Rightarrow> bytes \<Rightarrow> bool" where
  "data sid b s input \<longleftrightarrow> prefix (sent (stdout s)) input \<and> length (buf s) = BUF_SIZE \<and> (\<not> r_failed (rp s) \<longrightarrow>
     (if fresh sid b s then block s input \<and> \<not> r_finished (rp s) \<and> (wp s = W_gave sid \<or> wp s = W_turn sid \<and> cnt s \<noteq> 0 \<or> wp s = W_last sid \<and> cnt s = 0)
      else if r_finished (rp s) then sent (stdout s) = input \<and> cnt s = 0 \<and> (wp s = W_gave sid \<or> wp s = W_last sid \<or> wp s = W_rmd)
      else (wp s = W_turn sid \<or> wp s = W_gave sid \<and> cnt s \<noteq> 0) \<and> sent (stdout s) @ pending (stdin s) = input \<or> (\<exists>m. wp s = W_fail m)))"

text \<open>One turn at most, and one exactly unless the reader has failed.\<close>

definition turns :: "int \<Rightarrow> int \<Rightarrow> bool \<Rightarrow> bool \<Rightarrow> bool \<Rightarrow> bool" where
  "turns a b w r failed \<longleftrightarrow> a + b + of_bool w + of_bool r \<le> 1 \<and> (failed \<or> 1 \<le> a + b + of_bool w + of_bool r)"

definition running :: "semid \<Rightarrow> xfr \<Rightarrow> bytes \<Rightarrow> bool" where
  "running sid s input \<longleftrightarrow> (\<exists>a b. two_set (kern (sys s)) sid a b \<and> 0 \<le> a \<and> 0 \<le> b \<and>
     (w_has sid (wp s) (cur (sys s) 0) \<or> w_waits sid (wp s) (cur (sys s) 0)) \<and> (r_has sid (rp s) (cur (sys s) 1) \<or> r_waits sid (rp s) (cur (sys s) 1)) \<and>
     turns a b (w_has sid (wp s) (cur (sys s) 0)) (r_has sid (rp s) (cur (sys s) 1)) (r_failed (rp s)) \<and> data sid b s input)"

definition r_early :: "sysv \<Rightarrow> rpoint \<Rightarrow> prog \<Rightarrow> bool" where
  "r_early k pt g \<longleftrightarrow> pt = R_start \<and> (\<exists>v. g = Ret v) \<or> pt = R_got \<and> (g = semget SEM_KEY 0 False \<or> g = Ret (-1) \<or> (\<exists>sid. g = Ret (int sid) \<and> semkeys k SEM_KEY = Some sid)) \<or>
     (\<exists>m v. pt = R_fail m \<and> g = Ret v)"

definition w_early :: "sysv \<Rightarrow> wpoint \<Rightarrow> prog \<Rightarrow> bool" where
  "w_early k pt g \<longleftrightarrow> pt = W_start \<and> (\<exists>v. g = Ret v) \<and> semkeys k SEM_KEY = None \<or>
     pt = W_got \<and> (g = semget SEM_KEY 2 True \<and> semkeys k SEM_KEY = None \<or> g = Ret (-1) \<or> (\<exists>sid. g = Ret (int sid) \<and> two_set k sid 0 0)) \<or>
     (\<exists>sid. pt = W_avail sid \<and> (g = initSemAvailable sid WRITE_SEM \<and> two_set k sid 0 0 \<or> g = Ret 0 \<and> two_set k sid 1 0)) \<or>
     (\<exists>sid. pt = W_inuse sid \<and> (g = initSemInUse sid READ_SEM \<or> g = Ret 0) \<and> two_set k sid 1 0) \<or> (\<exists>m v. pt = W_fail m \<and> g = Ret v)"

definition setting_up :: "xfr \<Rightarrow> bytes \<Rightarrow> bool" where
  "setting_up s input \<longleftrightarrow> sent (stdout s) = [] \<and> pending (stdin s) = input \<and> \<not> shm_there s \<and> length (buf s) = BUF_SIZE \<and>
     w_early (kern (sys s)) (wp s) (cur (sys s) 0) \<and> r_early (kern (sys s)) (rp s) (cur (sys s) 1)"

definition over :: "xfr \<Rightarrow> bytes \<Rightarrow> bool" where
  "over s input \<longleftrightarrow> r_over (rp s) (cur (sys s) 1) \<and> prefix (sent (stdout s)) input \<and> (\<not> r_failed (rp s) \<longrightarrow> sent (stdout s) = input) \<and>
     (wp s = W_rmd \<or> wp s = W_done \<or> (\<exists>m. wp s = W_fail m)) \<and> (\<exists>v. cur (sys s) 0 = Ret v)"

definition xfr_inv :: "bytes \<Rightarrow> xfr \<Rightarrow> bool" where
  "xfr_inv input s \<longleftrightarrow> setting_up s input \<or> (\<exists>sid. running sid s input) \<or> over s input"

lemma reserve_neq [simp]: "reserve i j \<noteq> Ret v" "Ret v \<noteq> reserve i j" "reserve i j \<noteq> release i' j'" "release i' j' \<noteq> reserve i j"
  unfolding reserve_def release_def releaseSem_def by (subst reserveSem.code; simp)+

lemma calls_neq [simp]:
  "release i j \<noteq> Ret v" "semget key m c \<noteq> Ret v" "semctl_rmid i \<noteq> Ret v" "initSemAvailable i j \<noteq> Ret v" "initSemInUse i j \<noteq> Ret v"
  "Ret v \<noteq> release i j" "Ret v \<noteq> semget key m c" "Ret v \<noteq> semctl_rmid i" "Ret v \<noteq> initSemAvailable i j" "Ret v \<noteq> initSemInUse i j"
  by (simp_all add: release_def releaseSem_def semget_def semctl_rmid_def initSemAvailable_def initSemInUse_def)

lemma no_call_step [simp]: "cur y p = Ret v \<Longrightarrow> \<not> call_step p y y'"
  by (auto elim: call_step.cases)

lemma call_other: "call_step p y y' \<Longrightarrow> q \<noteq> p \<Longrightarrow> cur y' q = cur y q"
  by (erule call_step.cases) auto

section \<open>Setting up\<close>

lemmas go_defs = w_go_def r_go_def

lemma start_setting_up: "xfr_start input s \<Longrightarrow> setting_up s input"
  by (auto simp: xfr_start_def setting_up_def w_early_def r_early_def)

lemma setup_writer_call:
  assumes I: "setting_up s input" and st: "call_step 0 (sys s) k"
  shows "setting_up (s\<lparr>sys := k\<rparr>) input"
proof -
  have r: "cur k 1 = cur (sys s) 1" using call_other [OF st] by simp
  have e: "r_early (kern (sys s)) (rp s) (cur (sys s) 1)" and w: "w_early (kern (sys s)) (wp s) (cur (sys s) 0)" using I unfolding setting_up_def by simp_all
  from w consider (get) "wp s = W_got" "cur (sys s) 0 = semget SEM_KEY 2 True" "semkeys (kern (sys s)) SEM_KEY = None"
    | (avail) sid where "wp s = W_avail sid" "cur (sys s) 0 = initSemAvailable sid WRITE_SEM" "two_set (kern (sys s)) sid 0 0"
    | (inuse) sid where "wp s = W_inuse sid" "cur (sys s) 0 = initSemInUse sid READ_SEM" "two_set (kern (sys s)) sid 1 0"
    using st unfolding w_early_def by auto
  then have "w_early (kern k) (wp s) (cur k 0) \<and> r_early (kern k) (rp s) (cur (sys s) 1)"
  proof cases
    case get
    have e': "rp s = R_start \<and> (\<exists>v. cur (sys s) 1 = Ret v) \<or> rp s = R_got \<and> (cur (sys s) 1 = semget SEM_KEY 0 False \<or> cur (sys s) 1 = Ret (-1)) \<or> (\<exists>m v. rp s = R_fail m \<and> cur (sys s) 1 = Ret v)"
      using e get(3) unfolding r_early_def by auto
    from create_step [OF st get(2,3)] show ?thesis using e' get(1) unfolding w_early_def r_early_def by auto
  next
    case avail
    from setval_step [OF st avail(2) [unfolded initSemAvailable_def] avail(3)] have "cur k = (cur (sys s))(0 := Ret 0)" "two_set (kern k) sid 1 0"
      by (simp_all add: WRITE_SEM_def)
    then show ?thesis using avail e unfolding w_early_def r_early_def two_set_def by auto
  next
    case inuse
    from setval_step [OF st inuse(2) [unfolded initSemInUse_def] inuse(3)] have "cur k = (cur (sys s))(0 := Ret 0)" "two_set (kern k) sid 1 0"
      by (simp_all add: READ_SEM_def)
    then show ?thesis using inuse e unfolding w_early_def r_early_def two_set_def by auto
  qed
  then show ?thesis using I r unfolding setting_up_def by simp
qed

lemma setup_reader_call:
  assumes I: "setting_up s input" and st: "call_step 1 (sys s) k"
  shows "setting_up (s\<lparr>sys := k\<rparr>) input"
proof -
  have w: "cur k 0 = cur (sys s) 0" using call_other [OF st] by simp
  have e: "r_early (kern (sys s)) (rp s) (cur (sys s) 1)" using I unfolding setting_up_def by simp
  then have g: "rp s = R_got" "cur (sys s) 1 = semget SEM_KEY 0 False" using st unfolding r_early_def by auto
  from lookup_step [OF st g(2)] have "kern k = kern (sys s)" "r_early (kern k) (rp s) (cur k 1)" using g(1) unfolding r_early_def by auto
  then show ?thesis using I w unfolding setting_up_def by simp
qed

lemma setup_reader:
  assumes I: "setting_up s input" and c: "cur (sys s) 1 = Ret v"
  shows "setting_up (reader_next ok s v) input"
  using assms unfolding setting_up_def by (cases "rp s") (auto simp: reader_next_def go_defs r_early_def)

lemma setup_writer:
  assumes I: "setting_up s input" and c: "cur (sys s) 0 = Ret v"
  shows "setting_up (writer_next ok s v) input \<or> (\<exists>sid. running sid (writer_next ok s v) input)"
proof -
  have e: "w_early (kern (sys s)) (wp s) (Ret v)" and r: "r_early (kern (sys s)) (rp s) (cur (sys s) 1)" using I c unfolding setting_up_def by simp_all
  show ?thesis
  proof (cases "\<exists>sid. wp s = W_inuse sid \<and> ok \<and> v \<noteq> -1")
    case False
    let ?s = "writer_next ok s v"
    from e consider "wp s = W_start" "semkeys (kern (sys s)) SEM_KEY = None" | "wp s = W_got" "v = -1" | sid where "wp s = W_got" "v = int sid" "two_set (kern (sys s)) sid 0 0"
      | sid where "wp s = W_avail sid" "v = 0" "two_set (kern (sys s)) sid 1 0" | sid where "wp s = W_inuse sid" "v = 0" "two_set (kern (sys s)) sid 1 0" | m where "wp s = W_fail m"
      unfolding w_early_def by auto
    then have "w_early (kern (sys ?s)) (wp ?s) (cur (sys ?s) 0) \<and> ?s = s\<lparr>sys := sys ?s, wp := wp ?s\<rparr> \<and> kern (sys ?s) = kern (sys s) \<and> cur (sys ?s) 1 = cur (sys s) 1"
      by cases (use False c in \<open>simp_all add: writer_next_def go_defs w_early_def\<close>)
    then have "w_early (kern (sys ?s)) (wp ?s) (cur (sys ?s) 0)" "kern (sys ?s) = kern (sys s)" "cur (sys ?s) 1 = cur (sys s) 1" and s': "?s = s\<lparr>sys := sys ?s, wp := wp ?s\<rparr>" by blast+
    moreover have "sent (stdout ?s) = sent (stdout s)" "stdin ?s = stdin s" "shm_there ?s = shm_there s" "buf ?s = buf s" "rp ?s = rp s" by (subst s', simp)+
    ultimately have "setting_up ?s input" using I unfolding setting_up_def by simp
    then show ?thesis ..
  next
    case True
    then obtain sid where w: "wp s = W_inuse sid" "ok" "v \<noteq> -1" by blast
    then have t: "two_set (kern (sys s)) sid 1 0" using e unfolding w_early_def by auto
    then have key: "semkeys (kern (sys s)) SEM_KEY = Some sid" by (simp add: two_set_def)
    let ?s = "writer_next ok s v"
    have s': "?s = w_go (s\<lparr>shm_there := True, wxfrs := 0, wbytes := 0\<rparr>) (W_turn sid) (reserve sid WRITE_SEM)" using w by (simp add: writer_next_def)
    have sel: "kern (sys ?s) = kern (sys s)" "cur (sys ?s) 0 = reserve sid WRITE_SEM" "cur (sys ?s) 1 = cur (sys s) 1" "wp ?s = W_turn sid" "rp ?s = rp s"
      "sent (stdout ?s) = []" "pending (stdin ?s) = input" "length (buf ?s) = BUF_SIZE" using I unfolding s' setting_up_def by (simp_all add: go_defs)
    have r': "r_waits sid (rp s) (cur (sys s) 1)" "\<not> r_has sid (rp s) (cur (sys s) 1)" "rp s \<noteq> R_turn sid" "\<not> r_finished (rp s)"
      using r key unfolding r_early_def r_waits_def r_has_def r_over_def r_finished_def by auto
    have "data sid 0 ?s input" unfolding data_def fresh_def sel using r' by simp
    then have "running sid ?s input" unfolding running_def sel using t r' by (intro exI [of _ 1] exI [of _ 0]) (simp add: w_has_def w_waits_def turns_def)
    then show ?thesis by blast
  qed
qed

section \<open>Taking turns\<close>

lemma runningI:
  assumes "two_set (kern (sys s)) sid a b" "0 \<le> a" "0 \<le> b" "w_has sid (wp s) (cur (sys s) 0) \<or> w_waits sid (wp s) (cur (sys s) 0)"
    "r_has sid (rp s) (cur (sys s) 1) \<or> r_waits sid (rp s) (cur (sys s) 1)"
    "turns a b (w_has sid (wp s) (cur (sys s) 0)) (r_has sid (rp s) (cur (sys s) 1)) (r_failed (rp s))" "data sid b s input"
  shows "running sid s input"
  using assms unfolding running_def by blast

lemma running_same:
  assumes "kern k = kern (sys s)" "cur k = cur (sys s)"
  shows "running sid (s\<lparr>sys := k\<rparr>) input = running sid s input"
  unfolding running_def data_def fresh_def block_def by (simp add: assms)

lemma data_same: "fresh sid b' (s\<lparr>sys := k\<rparr>) = fresh sid b s \<Longrightarrow> data sid b' (s\<lparr>sys := k\<rparr>) input = data sid b s input"
  by (simp add: data_def block_def)

lemma running_writer_call:
  assumes I: "running sid s input" and st: "call_step 0 (sys s) k"
  shows "running sid (s\<lparr>sys := k\<rparr>) input \<or> over (s\<lparr>sys := k\<rparr>) input"
proof -
  obtain a b where t: "two_set (kern (sys s)) sid a b" and ab: "0 \<le> a" "0 \<le> b" and w: "w_has sid (wp s) (cur (sys s) 0) \<or> w_waits sid (wp s) (cur (sys s) 0)"
    and r: "r_has sid (rp s) (cur (sys s) 1) \<or> r_waits sid (rp s) (cur (sys s) 1)" and d: "data sid b s input"
    and n: "turns a b (w_has sid (wp s) (cur (sys s) 0)) (r_has sid (rp s) (cur (sys s) 1)) (r_failed (rp s))" using I unfolding running_def by blast
  have o: "cur k 1 = cur (sys s) 1" using call_other [OF st] by simp
  have hi: "a \<le> 1" "b \<le> 1" using n ab by (auto simp: turns_def of_bool_def split: if_splits)
  from w consider (take) "wp s = W_turn sid \<or> wp s = W_last sid" "cur (sys s) 0 = reserve sid WRITE_SEM"
    | (give) "wp s = W_gave sid" "cur (sys s) 0 = release sid READ_SEM" | (rm) "wp s = W_rmd" "cur (sys s) 0 = semctl_rmid sid"
    using st unfolding w_has_def w_waits_def by auto
  then show ?thesis
  proof cases
    case take
    from reserve_step [OF st take(2) t _ hi] consider "kern k = kern (sys s)" "cur k = cur (sys s)" | "1 \<le> a" "cur k = (cur (sys s))(0 := Ret 0)" "two_set (kern k) sid (a - 1) b"
      by (auto simp: WRITE_SEM_def)
    then show ?thesis
    proof cases
      case 1
      then show ?thesis using I running_same by blast
    next
      case 2
      have "fresh sid b (s\<lparr>sys := k\<rparr>) = fresh sid b s" using take 2(2) by (auto simp: fresh_def)
      then have "data sid b (s\<lparr>sys := k\<rparr>) input" using d data_same by blast
      moreover have "w_has sid (wp s) (Ret 0)" "\<not> w_has sid (wp s) (cur (sys s) 0)" using take by (auto simp: w_has_def)
      ultimately have "running sid (s\<lparr>sys := k\<rparr>) input" using 2 ab r n o
        by (intro runningI [where a = "a - 1" and b = b]) (simp_all add: turns_def)
      then show ?thesis ..
    qed
  next
    case give
    then have "w_has sid (wp s) (cur (sys s) 0)" by (simp add: w_has_def)
    then have z: "a = 0" "b = 0" "\<not> r_has sid (rp s) (cur (sys s) 1)" using n ab by (auto simp: turns_def of_bool_def split: if_splits)
    from release_step [OF st give(2) t _ ab hi] have k: "cur k = (cur (sys s))(0 := Ret 0)" "two_set (kern k) sid 0 1" by (auto simp: READ_SEM_def z)
    have "fresh sid 1 (s\<lparr>sys := k\<rparr>) = fresh sid b s" using give by (simp add: fresh_def)
    then have "data sid 1 (s\<lparr>sys := k\<rparr>) input" using d data_same by blast
    then have "running sid (s\<lparr>sys := k\<rparr>) input" unfolding running_def using k give r z o
      by (intro exI [of _ 0] exI [of _ 1]) (auto simp: w_has_def w_waits_def turns_def)
    then show ?thesis ..
  next
    case rm
    then have "w_has sid (wp s) (cur (sys s) 0)" by (simp add: w_has_def)
    then have z: "a = 0" "b = 0" "\<not> r_has sid (rp s) (cur (sys s) 1)" using n ab by (auto simp: turns_def of_bool_def split: if_splits)
    obtain v where k: "cur k = (cur (sys s))(0 := Ret v)" using rmid_step [OF st rm(2)] by blast
    have "\<not> fresh sid b s" using z rm unfolding fresh_def r_has_def by auto
    then have f: "r_failed (rp s) \<or> r_finished (rp s) \<and> sent (stdout s) = input" using d rm unfolding data_def by (auto split: if_splits)
    have "r_waits sid (rp s) (cur (sys s) 1)" using r z by blast
    then have "r_over (rp s) (cur (sys s) 1)" using f unfolding r_waits_def r_failed_def r_finished_def by auto
    moreover have "prefix (sent (stdout s)) input" using d unfolding data_def by blast
    ultimately have "over (s\<lparr>sys := k\<rparr>) input" using f rm(1) k unfolding over_def by auto
    then show ?thesis ..
  qed
qed

lemma running_reader_call:
  assumes I: "running sid s input" and st: "call_step 1 (sys s) k"
  shows "running sid (s\<lparr>sys := k\<rparr>) input"
proof -
  obtain a b where t: "two_set (kern (sys s)) sid a b" and ab: "0 \<le> a" "0 \<le> b" and w: "w_has sid (wp s) (cur (sys s) 0) \<or> w_waits sid (wp s) (cur (sys s) 0)"
    and r: "r_has sid (rp s) (cur (sys s) 1) \<or> r_waits sid (rp s) (cur (sys s) 1)" and d: "data sid b s input"
    and n: "turns a b (w_has sid (wp s) (cur (sys s) 0)) (r_has sid (rp s) (cur (sys s) 1)) (r_failed (rp s))" using I unfolding running_def by blast
  have o: "cur k 0 = cur (sys s) 0" using call_other [OF st] by simp
  have hi: "a \<le> 1" "b \<le> 1" using n ab by (auto simp: turns_def of_bool_def split: if_splits)
  have key: "semkeys (kern (sys s)) SEM_KEY = Some sid" using t by (simp add: two_set_def)
  from r consider (get) "rp s = R_got" "cur (sys s) 1 = semget SEM_KEY 0 False" | (take) "rp s = R_turn sid" "cur (sys s) 1 = reserve sid READ_SEM"
    | (give) "rp s = R_gave sid \<or> rp s = R_end" "cur (sys s) 1 = release sid WRITE_SEM"
    using st unfolding r_has_def r_waits_def r_over_def by auto
  then show ?thesis
  proof cases
    case get
    from lookup_step [OF st get(2)] key have k: "kern k = kern (sys s)" "cur k 1 = Ret (-1) \<or> cur k 1 = Ret (int sid)" by auto
    have "fresh sid b (s\<lparr>sys := k\<rparr>) = fresh sid b s" using get o by (simp add: fresh_def)
    then have "data sid b (s\<lparr>sys := k\<rparr>) input" using d data_same by blast
    moreover have "\<not> r_has sid (rp s) (cur k 1)" "r_waits sid (rp s) (cur k 1)" using get k(2) unfolding r_has_def r_waits_def by auto
    moreover have "\<not> r_has sid (rp s) (cur (sys s) 1)" using get unfolding r_has_def by auto
    ultimately show ?thesis using t ab w n o k(1) by (intro runningI [where a = a and b = b]) (simp_all add: turns_def)
  next
    case take
    from reserve_step [OF st take(2) t _ hi] consider "kern k = kern (sys s)" "cur k = cur (sys s)" | "1 \<le> b" "cur k = (cur (sys s))(1 := Ret 0)" "two_set (kern k) sid a (b - 1)"
      by (auto simp: READ_SEM_def)
    then show ?thesis
    proof cases
      case 1
      then show ?thesis using I running_same by blast
    next
      case 2
      have "\<not> r_has sid (rp s) (cur (sys s) 1)" using take unfolding r_has_def by simp
      then have "fresh sid (b - 1) (s\<lparr>sys := k\<rparr>) = fresh sid b s" using take 2 hi by (auto simp: fresh_def)
      then have "data sid (b - 1) (s\<lparr>sys := k\<rparr>) input" using d data_same by blast
      moreover have "r_has sid (rp s) (Ret 0)" using take by (simp add: r_has_def)
      ultimately show ?thesis using 2 ab w n o \<open>\<not> r_has sid (rp s) (cur (sys s) 1)\<close>
        by (intro runningI [where a = a and b = "b - 1"]) (simp_all add: turns_def)
    qed
  next
    case give
    then have h: "r_has sid (rp s) (cur (sys s) 1)" by (simp add: r_has_def)
    then have z: "a = 0" "b = 0" "\<not> w_has sid (wp s) (cur (sys s) 0)" using n ab by (auto simp: turns_def of_bool_def split: if_splits)
    from release_step [OF st give(2) t _ ab hi] have k: "cur k = (cur (sys s))(1 := Ret 0)" "two_set (kern k) sid 1 0" by (auto simp: WRITE_SEM_def z)
    have "fresh sid 0 (s\<lparr>sys := k\<rparr>) = fresh sid b s" using give z o by (auto simp: fresh_def)
    then have "data sid 0 (s\<lparr>sys := k\<rparr>) input" using d data_same by blast
    moreover have "\<not> r_has sid (rp s) (Ret 0)" "r_waits sid (rp s) (Ret 0)" using give(1) by (auto simp: r_has_def r_waits_def r_over_def)
    ultimately show ?thesis using k w z o by (intro runningI [where a = 1 and b = 0]) (simp_all add: turns_def)
  qed
qed

lemma running_writer:
  assumes I: "running sid s input" and c: "cur (sys s) 0 = Ret v"
  shows "running sid (writer_next ok s v) input"
proof -
  obtain a b where t: "two_set (kern (sys s)) sid a b" and ab: "0 \<le> a" "0 \<le> b" and w: "w_has sid (wp s) (cur (sys s) 0) \<or> w_waits sid (wp s) (cur (sys s) 0)"
    and r: "r_has sid (rp s) (cur (sys s) 1) \<or> r_waits sid (rp s) (cur (sys s) 1)" and d: "data sid b s input"
    and n: "turns a b (w_has sid (wp s) (cur (sys s) 0)) (r_has sid (rp s) (cur (sys s) 1)) (r_failed (rp s))" using I unfolding running_def by blast
  from w c consider (turn) "wp s = W_turn sid" "v = 0" | (gave) "wp s = W_gave sid" "v = 0" | (last) "wp s = W_last sid" "v = 0" | (fail) m where "wp s = W_fail m"
    unfolding w_has_def w_waits_def by auto
  then show ?thesis
  proof cases
    case fail
    then show ?thesis using I by (simp add: writer_next_def)
  next
    case turn
    then have h: "w_has sid (wp s) (cur (sys s) 0)" using c by (simp add: w_has_def)
    then have z: "a = 0" "b = 0" "\<not> r_has sid (rp s) (cur (sys s) 1)" using n ab by (auto simp: turns_def of_bool_def split: if_splits)
    have nf: "\<not> fresh sid 0 s" using z turn unfolding fresh_def r_has_def by auto
    have d': "prefix (sent (stdout s)) input" "length (buf s) = BUF_SIZE" "\<not> r_failed (rp s) \<Longrightarrow> \<not> r_finished (rp s) \<and> sent (stdout s) @ pending (stdin s) = input"
      using d nf turn unfolding data_def z by (auto split: if_splits)
    show ?thesis
    proof (cases "sys_read (stdin s) BUF_SIZE")
      case (Pair x i)
      show ?thesis
      proof (cases x)
        case (Inl e)
        then have s': "writer_next ok s v = s\<lparr>stdin := i, cnt := -1, wp := W_fail ''read''\<rparr>" using Pair turn by (simp add: writer_next_def)
        have "data sid 0 (writer_next ok s v) input" using d' nf unfolding s' data_def fresh_def by auto
        moreover have "w_has sid (W_fail m) (Ret v)" for m unfolding w_has_def by blast
        ultimately show ?thesis using t r z c unfolding s' by (intro runningI [where a = 0 and b = 0]) (simp_all add: turns_def)
      next
        case (Inr x')
        then have rd: "sys_read (stdin s) BUF_SIZE = (Inr x', i)" using Pair by simp
        let ?s = "writer_next ok s v"
        have s': "?s = w_go (s\<lparr>stdin := i, buf := patch (buf s) 0 x', cnt := int (length x')\<rparr>) (W_gave sid) (release sid READ_SEM)" using rd turn by (simp add: writer_next_def)
        have b0: "0 < BUF_SIZE" by (simp add: BUF_SIZE_def)
        have x: "length x' \<le> BUF_SIZE" "x' \<noteq> [] \<Longrightarrow> pending (stdin s) = x' @ pending i" "x' = [] \<Longrightarrow> pending (stdin s) = []"
          using rds.rd_data [OF b0 rd] rds.rd_eof [OF b0, of "stdin s" i] rd by (auto, cases x', auto)
        have sel: "kern (sys ?s) = kern (sys s)" "cur (sys ?s) 0 = release sid READ_SEM" "cur (sys ?s) 1 = cur (sys s) 1" "wp ?s = W_gave sid" "rp ?s = rp s"
          "stdout ?s = stdout s" "stdin ?s = i" "cnt ?s = int (length x')" "buf ?s = patch (buf s) 0 x'" unfolding s' by (simp_all add: go_defs)
        have l: "length (patch (buf s) 0 x') = BUF_SIZE" "take (length x') (patch (buf s) 0 x') = x'" using x(1) d'(2) by (simp_all add: patch_def)
        have "fresh sid 0 ?s" by (simp add: fresh_def sel)
        moreover have "block ?s input" if "\<not> r_failed (rp s)"
          unfolding block_def sel using d'(3) [OF that] x l by (intro exI [of _ x']) (cases "x' = []", simp_all)
        ultimately have "data sid 0 ?s input" using d'(1,3) l(1) unfolding data_def sel by (simp only: if_True) blast
        moreover have "w_has sid (W_gave sid) (release sid READ_SEM)" by (simp add: w_has_def)
        ultimately show ?thesis using t r z by (intro runningI [where a = 0 and b = 0]) (simp_all add: sel turns_def)
      qed
    qed
  next
    case gave
    let ?s = "writer_next ok s v"
    have nw: "\<not> w_has sid (wp s) (cur (sys s) 0)" using gave c by (simp add: w_has_def)
    have w': "w_waits sid (wp ?s) (cur (sys ?s) 0)" "\<not> w_has sid (wp ?s) (cur (sys ?s) 0)" using gave by (simp_all add: writer_next_def go_defs w_waits_def w_has_def)
    have sel: "kern (sys ?s) = kern (sys s)" "cur (sys ?s) 1 = cur (sys s) 1" "wp ?s = (if cnt s = 0 then W_last sid else W_turn sid)" "rp ?s = rp s"
      "stdout ?s = stdout s" "stdin ?s = stdin s" "cnt ?s = cnt s" "buf ?s = buf s" using gave by (simp_all add: writer_next_def go_defs)
    have "fresh sid b ?s = fresh sid b s" unfolding fresh_def sel using gave(1) c by auto
    then have "data sid b ?s input" using d gave(1) unfolding data_def block_def sel by (auto split: if_splits)
    then show ?thesis using t ab r n nw w' by (intro runningI [where a = a and b = b]) (simp_all add: sel turns_def)
  next
    case last
    let ?s = "writer_next ok s v"
    have h: "w_has sid (wp s) (cur (sys s) 0)" using last c by (simp add: w_has_def)
    then have z: "a = 0" "b = 0" "\<not> r_has sid (rp s) (cur (sys s) 1)" using n ab by (auto simp: turns_def of_bool_def split: if_splits)
    have nf: "\<not> fresh sid 0 s" using z last unfolding fresh_def r_has_def by auto
    have s': "?s = w_go s W_rmd (semctl_rmid sid)" using last by (simp add: writer_next_def)
    have "\<not> fresh sid 0 ?s" using nf unfolding s' fresh_def by (simp add: go_defs)
    then have "data sid 0 ?s input" using d nf last unfolding data_def z s' by (auto simp: go_defs)
    moreover have "w_has sid W_rmd (semctl_rmid sid)" by (simp add: w_has_def)
    ultimately show ?thesis using t r z unfolding s' by (intro runningI [where a = 0 and b = 0]) (simp_all add: go_defs turns_def)
  qed
qed

text \<open>The reader's turn: it writes the block, or sees the end.\<close>

lemma reader_turn:
  assumes I: "running sid s input" and e: "rp s = R_turn sid" and v: "v = 0" and c: "cur (sys s) 1 = Ret v"
  shows "running sid (reader_next ok s v) input"
proof -
  let ?s = "reader_next ok s v"
  have h: "r_has sid (rp s) (cur (sys s) 1)" using e v c by (simp add: r_has_def)
  obtain a b where t: "two_set (kern (sys s)) sid a b" and ab: "0 \<le> a" "0 \<le> b" and w: "w_has sid (wp s) (cur (sys s) 0) \<or> w_waits sid (wp s) (cur (sys s) 0)"
    and d: "data sid b s input" and n: "turns a b (w_has sid (wp s) (cur (sys s) 0)) (r_has sid (rp s) (cur (sys s) 1)) (r_failed (rp s))" using I unfolding running_def by blast
  have z: "a = 0" "b = 0" "\<not> w_has sid (wp s) (cur (sys s) 0)" using n ab h by (auto simp: turns_def of_bool_def split: if_splits)
  have fr: "fresh sid b s" using e v c by (simp add: fresh_def)
  then have l: "length (buf s) = BUF_SIZE" and wp: "wp s = W_gave sid \<or> wp s = W_turn sid \<and> cnt s \<noteq> 0 \<or> wp s = W_last sid \<and> cnt s = 0" and "block s input"
    using d e unfolding data_def by (auto simp: r_failed_def)
  then obtain x where x: "cnt s = int (length x)" "length x \<le> BUF_SIZE" "take (length x) (buf s) = x" "x = [] \<Longrightarrow> sent (stdout s) = input"
    "x \<noteq> [] \<Longrightarrow> sent (stdout s) @ x @ pending (stdin s) = input" unfolding block_def by auto
  have keep: "kern (sys ?s) = kern (sys s)" "cur (sys ?s) 0 = cur (sys s) 0" "wp ?s = wp s" "stdin ?s = stdin s" "cnt ?s = cnt s" "buf ?s = buf s"
    using e by (simp_all add: reader_next_def go_defs split: prod.splits sum.splits)
  have nf: "\<not> fresh sid 0 ?s" if "rp ?s \<noteq> R_turn sid" using z(3) that unfolding fresh_def keep by (auto simp: w_has_def)
  have fin: ?thesis if r: "r_has sid (rp ?s) (cur (sys ?s) 1) \<or> r_waits sid (rp ?s) (cur (sys ?s) 1) \<and> r_failed (rp ?s)" and d: "data sid 0 ?s input"
    using t w z r d by (intro runningI [where a = 0 and b = 0]) (auto simp: keep turns_def)
  have failed: ?thesis if f: "?s = s\<lparr>rbytes := q, stdout := k, rp := R_fail m\<rparr>" and p: "prefix (sent k) input" for q k m
  proof (rule fin)
    show "r_has sid (rp ?s) (cur (sys ?s) 1) \<or> r_waits sid (rp ?s) (cur (sys ?s) 1) \<and> r_failed (rp ?s)" unfolding f using c by (simp add: r_waits_def r_over_def r_failed_def)
    show "data sid 0 ?s input" using p l unfolding f data_def by (simp add: r_failed_def)
  qed
  show ?thesis
  proof (cases "x = []")
    case True
    then have e': "?s = (if ok then r_go s R_end (release sid WRITE_SEM) else s\<lparr>rp := R_fail ''shmdt''\<rparr>)" using e v x by (simp add: reader_next_def)
    show ?thesis
    proof (cases ok)
      case False
      then have "?s = s\<lparr>rbytes := rbytes s, stdout := stdout s, rp := R_fail ''shmdt''\<rparr>" using e' by simp
      then show ?thesis by (rule failed) (simp add: x(4) True)
    next
      case ok: True
      then have g: "rp ?s = R_end" "cur (sys ?s) 1 = release sid WRITE_SEM" "stdout ?s = stdout s" using e' by (simp_all add: go_defs)
      have "data sid 0 ?s input" using nf wp x(1,4) True l unfolding data_def keep g by (auto simp: r_finished_def)
      then show ?thesis by (intro fin) (simp_all add: g r_has_def)
    qed
  next
    case False
    then have nz: "cnt s \<noteq> 0" using x by simp
    have "to_size_t (cnt s) = length x" using x(1,2) by (simp add: to_size_t_def BUF_SIZE_def)
    then have wr: "take (to_size_t (cnt s)) (buf s) = x" using x(3) by simp
    have inp: "input = sent (stdout s) @ x @ pending (stdin s)" using x(5) False by simp
    show ?thesis
    proof (cases "sys_write (stdout s) x")
      case (Pair y k)
      show ?thesis
      proof (cases y)
        case (Inl er)
        then have "?s = s\<lparr>rbytes := rbytes s + cnt s, stdout := k, rp := R_fail ''partial/failed write''\<rparr>" using e v nz Pair wr by (simp add: reader_next_def)
        moreover have "sent k = sent (stdout s)" using wrs.wr_error Pair Inl by blast
        ultimately show ?thesis using inp by (intro failed) auto
      next
        case (Inr m)
        then have k: "m \<le> length x" "sent k = sent (stdout s) @ take m x" using wrs.wr_some [of "stdout s" x m k] Pair by simp_all
        show ?thesis
        proof (cases "m = length x")
          case False
          then have "?s = s\<lparr>rbytes := rbytes s + cnt s, stdout := k, rp := R_fail ''partial/failed write''\<rparr>" using e v nz Pair wr Inr x(1) by (simp add: reader_next_def)
          moreover have "prefix (sent k) input" unfolding k inp by (simp add: take_is_prefix prefix_prefix)
          ultimately show ?thesis using failed by blast
        next
          case True
          then have "?s = r_go (s\<lparr>rbytes := rbytes s + cnt s, stdout := k\<rparr>) (R_gave sid) (release sid WRITE_SEM)" using e v nz Pair wr Inr x(1) by (simp add: reader_next_def)
          then have g: "rp ?s = R_gave sid" "cur (sys ?s) 1 = release sid WRITE_SEM" "stdout ?s = k" by (simp_all add: go_defs)
          have "data sid 0 ?s input" using nf wp nz l k True inp unfolding data_def keep g by (auto simp: r_finished_def)
          then show ?thesis by (intro fin) (simp_all add: g r_has_def)
        qed
      qed
    qed
  qed
qed

lemma running_reader:
  assumes I: "running sid s input" and c: "cur (sys s) 1 = Ret v"
  shows "running sid (reader_next ok s v) input"
proof -
  obtain a b where t: "two_set (kern (sys s)) sid a b" and ab: "0 \<le> a" "0 \<le> b" and w: "w_has sid (wp s) (cur (sys s) 0) \<or> w_waits sid (wp s) (cur (sys s) 0)"
    and r: "r_has sid (rp s) (cur (sys s) 1) \<or> r_waits sid (rp s) (cur (sys s) 1)" and d: "data sid b s input"
    and n: "turns a b (w_has sid (wp s) (cur (sys s) 0)) (r_has sid (rp s) (cur (sys s) 1)) (r_failed (rp s))" using I unfolding running_def by blast
  let ?s = "reader_next ok s v"
  have "rp s = R_turn sid \<and> v = 0 \<or> \<not> r_has sid (rp s) (Ret v) \<and> rp s \<noteq> R_turn sid" using r c unfolding r_has_def r_waits_def r_over_def by auto
  then show ?thesis
  proof
    assume e: "\<not> r_has sid (rp s) (Ret v) \<and> rp s \<noteq> R_turn sid"
    then have nh: "\<not> r_has sid (rp s) (Ret v)" and rw: "r_waits sid (rp s) (Ret v)" using r c by auto
    have "kern (sys ?s) = kern (sys s) \<and> cur (sys ?s) 0 = cur (sys s) 0 \<and> wp ?s = wp s \<and> stdout ?s = stdout s \<and> stdin ?s = stdin s \<and> cnt ?s = cnt s \<and> buf ?s = buf s"
      using e rw by (cases "rp s") (simp_all add: reader_next_def go_defs r_waits_def r_over_def)
    then have sel: "kern (sys ?s) = kern (sys s)" "cur (sys ?s) 0 = cur (sys s) 0" "wp ?s = wp s" "stdout ?s = stdout s" "stdin ?s = stdin s" "cnt ?s = cnt s" "buf ?s = buf s" by blast+
    have r': "r_waits sid (rp ?s) (cur (sys ?s) 1) \<and> \<not> r_has sid (rp ?s) (cur (sys ?s) 1) \<and> r_finished (rp ?s) = r_finished (rp s) \<and> (r_failed (rp s) \<longrightarrow> r_failed (rp ?s)) \<and>
        \<not> (rp ?s = R_turn sid \<and> cur (sys ?s) 1 = Ret 0)" using rw c e
      by (cases "rp s") (auto simp: reader_next_def go_defs r_waits_def r_has_def r_over_def r_finished_def r_failed_def)
    then have "fresh sid b ?s = fresh sid b s" unfolding fresh_def sel using e by auto
    then have "data sid b ?s input" using d r' unfolding data_def block_def sel by (auto split: if_splits)
    moreover have "turns a b (w_has sid (wp s) (cur (sys s) 0)) (r_has sid (rp ?s) (cur (sys ?s) 1)) (r_failed (rp ?s))" using n nh r' c by (auto simp: turns_def)
    ultimately show ?thesis using t ab w r' by (intro runningI [where a = a and b = b]) (simp_all add: sel)
  next
    assume "rp s = R_turn sid \<and> v = 0"
    then show ?thesis using reader_turn [OF I] c by blast
  qed
qed

section \<open>Every step\<close>

lemma over_step:
  assumes I: "over s input" and st: "xfr_step s s'"
  shows "over s' input"
  using st
proof (cases rule: xfr_step.cases)
  case (writer_runs v ok)
  then have "wp s = W_rmd \<or> wp s = W_done \<or> (\<exists>m. wp s = W_fail m)" using I unfolding over_def by blast
  then have "s' = s\<lparr>wp := wp s', shm_there := shm_there s'\<rparr> \<and> (wp s' = W_rmd \<or> wp s' = W_done \<or> (\<exists>m. wp s' = W_fail m))"
    unfolding writer_runs(1) by (elim disjE exE) (simp_all add: writer_next_def)
  then obtain pt there where "s' = s\<lparr>wp := pt, shm_there := there\<rparr>" "pt = W_rmd \<or> pt = W_done \<or> (\<exists>m. pt = W_fail m)" by blast
  then show ?thesis using I unfolding over_def by simp
next
  case (reader_runs v ok)
  then consider "rp s = R_end" "v = 0" | "rp s = R_done" | m where "rp s = R_fail m" using I unfolding over_def r_over_def by auto
  then show ?thesis
  proof cases
    case 1
    then have "s' = s\<lparr>rp := R_done\<rparr>" using reader_runs by (simp add: reader_next_def)
    then show ?thesis using I 1 reader_runs(2) unfolding over_def by (simp add: r_over_def r_failed_def)
  qed (use I reader_runs in \<open>simp_all add: reader_next_def\<close>)
next
  case (sem_runs p k)
  have "\<exists>v. cur (sys s) 0 = Ret v" "\<exists>v. cur (sys s) 1 = Ret v" using I unfolding over_def r_over_def by auto
  then show ?thesis using sem_runs by (auto simp: less_2_cases_iff One_nat_def)
qed

lemma xfr_step_inv:
  assumes I: "xfr_inv input s" and st: "xfr_step s s'"
  shows "xfr_inv input s'"
proof -
  from I consider (early) "setting_up s input" | (run) sid where "running sid s input" | (over) "over s input" unfolding xfr_inv_def by blast
  then show ?thesis
  proof cases
    case over
    then show ?thesis using over_step [OF over st] unfolding xfr_inv_def by blast
  next
    case early
    from st show ?thesis
    proof (cases rule: xfr_step.cases)
      case (sem_runs p k)
      then have "p = 0 \<or> p = 1" by linarith
      then show ?thesis using sem_runs setup_writer_call [OF early] setup_reader_call [OF early] unfolding xfr_inv_def by blast
    qed (use setup_writer [OF early] setup_reader [OF early] in \<open>auto simp: xfr_inv_def\<close>)
  next
    case run
    from st show ?thesis
    proof (cases rule: xfr_step.cases)
      case (sem_runs p k)
      then have "p = 0 \<or> p = 1" by linarith
      then show ?thesis using sem_runs running_writer_call [OF run] running_reader_call [OF run] unfolding xfr_inv_def by blast
    qed (use running_writer [OF run] running_reader [OF run] in \<open>unfold xfr_inv_def, blast+\<close>)
  qed
qed

lemma start_xfr_inv: "xfr_start input s \<Longrightarrow> xfr_inv input s"
  unfolding xfr_inv_def by (blast intro: start_setting_up)

interpretation xfrs: invariant "xfr_start input" xfr_step "xfr_inv input" for input
  by unfold_locales (erule start_xfr_inv, erule xfr_step_inv)

end
