(* ===== verification/Shm_Correct.thy ===== *)
theory Shm_Correct
  imports Shm_Inv
begin

text \<open>
  What the pair of programs of \<open>tlpi-dist/svshm\<close> promises: a faithful copy, exclusive use of the
  segment, and that they never both wait.
\<close>

section \<open>Using the segment\<close>

definition w_uses :: "xfr \<Rightarrow> bool" where
  "w_uses s \<longleftrightarrow> (\<exists>sid. wp s = W_turn sid \<and> cur (sys s) 0 = Ret 0 \<or> wp s = W_gave sid \<and> cur (sys s) 0 = release sid READ_SEM)"

definition r_uses :: "xfr \<Rightarrow> bool" where
  "r_uses s \<longleftrightarrow> (\<exists>sid. rp s = R_turn sid \<and> cur (sys s) 1 = Ret 0 \<or> rp s = R_gave sid \<and> cur (sys s) 1 = release sid WRITE_SEM)"

text \<open>Somebody can go on: with its own code, or with a call that is done at once.\<close>

definition can_go :: "xfr \<Rightarrow> bool" where
  "can_go s \<longleftrightarrow> (\<exists>v. cur (sys s) 0 = Ret v) \<and> wp s \<noteq> W_done \<or> (\<exists>v. cur (sys s) 1 = Ret v) \<and> rp s \<noteq> R_done \<or>
     (\<exists>p<2. \<exists>c f r k. cur (sys s) p = Call c f \<and> exec p c (kern (sys s)) = Can (r, k))"

text \<open>The start, with a small input.\<close>

definition xfr0 :: xfr where
  "xfr0 = \<lparr>sys = \<lparr>kern = \<lparr>semsets = (\<lambda>i. None), semkeys = (\<lambda>key. None), next_id = 0\<rparr>, cur = (\<lambda>p. Ret 0), asleep = (\<lambda>p. False)\<rparr>,
     shm_there = False, cnt = 0, buf = replicate BUF_SIZE NUL, stdin = [Bytes ''abc''], stdout = \<lparr>sent = [], script = []\<rparr>,
     wp = W_start, rp = R_start, wbytes = 0, wxfrs = 0, rbytes = 0, rxfrs = 0\<rparr>"

lemma xfr0_start: "xfr_start ''abc'' xfr0"
  by (simp add: xfr_start_def xfr0_def)

section \<open>A run\<close>

definition go :: "pid \<Rightarrow> xfr \<Rightarrow> xfr" where
  "go p s = (case cur (sys s) p of
     Ret v \<Rightarrow> if p = 0 then writer_next True s v else reader_next True s v
   | _ \<Rightarrow> s\<lparr>sys := turn p (sys s)\<rparr>)"

lemma reach_go:
  assumes r: "reachable (xfr_start input) xfr_step s" and p: "p < 2"
  shows "reachable (xfr_start input) xfr_step (go p s)"
proof (cases "cur (sys s) p")
  case (Ret v)
  then have "xfr_step s (go p s)" using p writer_runs [of s v True] reader_runs [of s v True] by (auto simp: go_def less_2_cases_iff One_nat_def)
  then show ?thesis using r by (rule reachable_step [rotated])
next
  case (Stop h)
  then show ?thesis using r by (simp add: go_def turn_def)
next
  case (Call c f)
  then have "call_step p (sys s) (turn p (sys s))" by (auto simp: turn_def split: attempt.splits intro: call_done call_sleep dest: call_fail [of "sys s" p c f])
  then have "xfr_step s (go p s)" using sem_runs [OF p] Call by (simp add: go_def)
  then show ?thesis using r by (rule reachable_step [rotated])
qed

lemma reach_gos: "reachable (xfr_start input) xfr_step s \<Longrightarrow> p < 2 \<Longrightarrow> reachable (xfr_start input) xfr_step ((go p ^^ m) s)"
  by (induction m) (auto intro: reach_go)

lemma go_reserve:
  assumes c: "cur (sys s) p = reserve sid num" and S: "semsets (kern (sys s)) sid = Some S" "num < nsems S" "1 \<le> semval S num" "semval S num \<le> 1"
  shows "go p s = s\<lparr>sys := resume (sys s) p ((kern (sys s))\<lparr>semsets := (semsets (kern (sys s)))(sid \<mapsto> S\<lparr>semval := (semval S)(num := semval S num - 1)\<rparr>)\<rparr>) (Ret 0)\<rparr>"
proof -
  have r: "reserve sid num = Call (Semop sid [\<lparr>sb_num = num, sb_op = -1, sb_undo = False\<rparr>])
      (\<lambda>r. case r of Okay v \<Rightarrow> Ret 0 | Error e \<Rightarrow> if e \<noteq> EINTR \<or> \<not> True then Ret (-1) else reserveSem False True sid num)"
    unfolding reserve_def by (rule reserveSem.code)
  have "turn p (sys s) = resume (sys s) p ((kern (sys s))\<lparr>semsets := (semsets (kern (sys s)))(sid \<mapsto> S\<lparr>semval := (semval S)(num := semval S num - 1)\<rparr>)\<rparr>) (Ret 0)"
    using turn_eqs(1) [OF c [unfolded r]] S by (simp add: SEMVMX_def Let_def)
  then show ?thesis by (simp add: go_def c r)
qed

definition xfr1 :: xfr where "xfr1 = (go 1 ^^ 3) ((go 0 ^^ 7) xfr0)"
definition xfr2 :: xfr where "xfr2 = (go 1 ^^ 4) ((go 0 ^^ 4) xfr1)"
definition xfr3 :: xfr where "xfr3 = (go 1 ^^ 4) ((go 0 ^^ 4) xfr2)"

lemmas go_run_defs = go_def turn_def resume_def writer_next_def reader_next_def go_defs semget_def release_def releaseSem_def initSemAvailable_def initSemInUse_def
  ret_call_def new_set_def WRITE_SEM_def READ_SEM_def SEMVMX_def Let_def

lemma xfr1_eq:
  "xfr1 = xfr0\<lparr>sys := \<lparr>kern = \<lparr>semsets = [0 \<mapsto> \<lparr>nsems = 2, semval = (\<lambda>i. 0)(0 := 1), semadj = (\<lambda>p i. 0)\<rparr>], semkeys = [SEM_KEY \<mapsto> 0], next_id = 1\<rparr>,
     cur = (\<lambda>p. Ret 0)(0 := reserve 0 WRITE_SEM, 1 := reserve 0 READ_SEM), asleep = (\<lambda>p. False)\<rparr>, shm_there := True, wp := W_turn 0, rp := R_turn 0\<rparr>"
  unfolding xfr1_def xfr0_def by (simp add: go_run_defs numeral_eq_Suc fun_eq_iff One_nat_def)

text \<open>The states of that run: after setting up, after one block, and at the end of the reader.\<close>

abbreviation two_sems :: "int \<Rightarrow> int \<Rightarrow> prog \<Rightarrow> prog \<Rightarrow> system" where
  "two_sems a b g h \<equiv> \<lparr>kern = \<lparr>semsets = [0 \<mapsto> \<lparr>nsems = 2, semval = (\<lambda>i. 0)(0 := a, 1 := b), semadj = (\<lambda>p i. 0)\<rparr>], semkeys = [SEM_KEY \<mapsto> 0], next_id = 1\<rparr>,
     cur = (\<lambda>p. Ret 0)(0 := g, 1 := h), asleep = (\<lambda>p. False)\<rparr>"

lemma go0_reserve:
  assumes "sys s = two_sems 1 0 (reserve 0 WRITE_SEM) h"
  shows "go 0 s = s\<lparr>sys := two_sems 0 0 (Ret 0) h\<rparr>"
  using assms by (subst go_reserve) (auto simp: WRITE_SEM_def resume_def fun_eq_iff)

lemma go1_reserve:
  assumes "sys s = two_sems 0 1 g (reserve 0 READ_SEM)"
  shows "go 1 s = s\<lparr>sys := two_sems 0 0 g (Ret 0)\<rparr>"
  using assms by (subst go_reserve) (auto simp: READ_SEM_def resume_def fun_eq_iff)

lemma go0_block:
  assumes s: "sys s = two_sems 0 0 (Ret 0) h" "wp s = W_turn 0" and r: "sys_read (stdin s) BUF_SIZE = (Inr b, i)"
  shows "(go 0 ^^ 3) s = s\<lparr>sys := two_sems 0 1 (reserve 0 WRITE_SEM) h, stdin := i, buf := patch (buf s) 0 b, cnt := int (length b),
     wp := (if b = [] then W_last 0 else W_turn 0), wxfrs := (if b = [] then wxfrs s else wxfrs s + 1), wbytes := (if b = [] then wbytes s else wbytes s + int (length b))\<rparr>"
  using assms by (simp add: go_run_defs numeral_3_eq_3 fun_eq_iff)

lemma go1_block:
  assumes s: "sys s = two_sems 0 0 g (Ret 0)" "rp s = R_turn 0" and x: "cnt s = int (length x)" "x \<noteq> []" "take (length x) (buf s) = x" "length x \<le> BUF_SIZE" and k: "script (stdout s) = []"
  shows "(go 1 ^^ 3) s = s\<lparr>sys := two_sems 1 0 g (reserve 0 READ_SEM), stdout := (stdout s)\<lparr>sent := sent (stdout s) @ x\<rparr>, rxfrs := rxfrs s + 1, rbytes := rbytes s + cnt s\<rparr>"
proof -
  have "to_size_t (cnt s) = length x" using x by (simp add: to_size_t_def BUF_SIZE_def)
  then have w: "sys_write (stdout s) (take (to_size_t (cnt s)) (buf s)) = (Inr (length x), (stdout s)\<lparr>sent := sent (stdout s) @ x\<rparr>)" using x k by (simp add: sys_write_def)
  show ?thesis using s x w by (simp add: go_run_defs numeral_3_eq_3 fun_eq_iff)
qed

lemma go1_end:
  assumes s: "sys s = two_sems 0 0 g (Ret 0)" "rp s = R_turn 0" "cnt s = 0"
  shows "(go 1 ^^ 3) s = s\<lparr>sys := two_sems 1 0 g (Ret 0), rp := R_done\<rparr>"
  using assms by (simp add: go_run_defs numeral_3_eq_3 fun_eq_iff)

lemma xfr1_facts: "sys xfr1 = two_sems 1 0 (reserve 0 WRITE_SEM) (reserve 0 READ_SEM)" "wp xfr1 = W_turn 0" "rp xfr1 = R_turn 0" "stdin xfr1 = [Bytes ''abc'']"
  "stdout xfr1 = \<lparr>sent = [], script = []\<rparr>" "length (buf xfr1) = BUF_SIZE"
  unfolding xfr1_eq by (simp_all add: xfr0_def fun_eq_iff)

lemma turns4: "(go p ^^ 4) s = (go p ^^ 3) (go p s)"
  by (simp add: numeral_eq_Suc)

lemma xfr2_facts: "sys xfr2 = two_sems 1 0 (reserve 0 WRITE_SEM) (reserve 0 READ_SEM)" "wp xfr2 = W_turn 0" "rp xfr2 = R_turn 0" "stdin xfr2 = []"
proof -
  note f = xfr1_facts
  define s1 where "s1 = go 0 xfr1"
  have s1: "s1 = xfr1\<lparr>sys := two_sems 0 0 (Ret 0) (reserve 0 READ_SEM)\<rparr>" unfolding s1_def by (rule go0_reserve [OF f(1)])
  define s2 where "s2 = (go 0 ^^ 3) s1"
  have "sys_read (stdin s1) BUF_SIZE = (Inr ''abc'', [])" by (simp add: s1 f BUF_SIZE_def)
  from go0_block [OF _ _ this] have s2: "sys s2 = two_sems 0 1 (reserve 0 WRITE_SEM) (reserve 0 READ_SEM)" "stdin s2 = []" "cnt s2 = 3" "wp s2 = W_turn 0" "rp s2 = R_turn 0"
    "stdout s2 = \<lparr>sent = [], script = []\<rparr>" "buf s2 = patch (buf xfr1) 0 ''abc''" unfolding s2_def by (simp_all add: s1 f)
  define s3 where "s3 = go 1 s2"
  have s3: "s3 = s2\<lparr>sys := two_sems 0 0 (reserve 0 WRITE_SEM) (Ret 0)\<rparr>" unfolding s3_def by (rule go1_reserve [OF s2(1)])
  have x: "xfr2 = (go 1 ^^ 3) s3" unfolding xfr2_def turns4 s1_def s2_def s3_def ..
  have b: "take (length ''abc'') (buf s3) = ''abc''" by (simp add: s3 s2 patch_def)
  have e: "xfr2 = s3\<lparr>sys := two_sems 1 0 (reserve 0 WRITE_SEM) (reserve 0 READ_SEM), stdout := (stdout s3)\<lparr>sent := sent (stdout s3) @ ''abc''\<rparr>, rxfrs := rxfrs s3 + 1, rbytes := rbytes s3 + cnt s3\<rparr>"
    unfolding x by (rule go1_block [OF _ _ _ _ b]) (simp_all add: s3 s2 BUF_SIZE_def)
  show "sys xfr2 = two_sems 1 0 (reserve 0 WRITE_SEM) (reserve 0 READ_SEM)" "wp xfr2 = W_turn 0" "rp xfr2 = R_turn 0" "stdin xfr2 = []"
    unfolding e by (simp_all add: s3 s2)
qed

lemma xfr3_done: "rp xfr3 = R_done"
proof -
  note f = xfr2_facts
  define s1 where "s1 = go 0 xfr2"
  have s1: "s1 = xfr2\<lparr>sys := two_sems 0 0 (Ret 0) (reserve 0 READ_SEM)\<rparr>" unfolding s1_def by (rule go0_reserve [OF f(1)])
  define s2 where "s2 = (go 0 ^^ 3) s1"
  have "sys_read (stdin s1) BUF_SIZE = (Inr [], [])" by (simp add: s1 f)
  from go0_block [OF _ _ this] have s2: "sys s2 = two_sems 0 1 (reserve 0 WRITE_SEM) (reserve 0 READ_SEM)" "cnt s2 = 0" "rp s2 = R_turn 0" unfolding s2_def by (simp_all add: s1 f)
  define s3 where "s3 = go 1 s2"
  have s3: "s3 = s2\<lparr>sys := two_sems 0 0 (reserve 0 WRITE_SEM) (Ret 0)\<rparr>" unfolding s3_def by (rule go1_reserve [OF s2(1)])
  have x: "xfr3 = (go 1 ^^ 3) s3" unfolding xfr3_def turns4 s1_def s2_def s3_def ..
  have "(go 1 ^^ 3) s3 = s3\<lparr>sys := two_sems 1 0 (reserve 0 WRITE_SEM) (Ret 0), rp := R_done\<rparr>" by (rule go1_end) (simp_all add: s3 s2)
  then show ?thesis unfolding x by simp
qed

lemma xfr_runs: "reachable (xfr_start ''abc'') xfr_step xfr1" "reachable (xfr_start ''abc'') xfr_step xfr3"
  unfolding xfr1_def xfr2_def xfr3_def by (intro reach_gos reachable_start xfr0_start; simp)+

section \<open>Never both waiting\<close>

lemma reserve_can:
  assumes "two_set k sid a b" "num = 0 \<or> num = 1" "1 \<le> (if num = 0 then a else b)" "(if num = 0 then a else b) \<le> 1"
  shows "\<exists>c f r k'. reserve sid num = Call c f \<and> exec p c k = Can (r, k')"
  using assms unfolding reserve_def by (subst reserveSem.code) (auto simp: two_set_def Let_def SEMVMX_def)

lemma release_can:
  assumes "two_set k sid a b" "num = 0 \<or> num = 1" "0 \<le> (if num = 0 then a else b)" "(if num = 0 then a else b) \<le> 1"
  shows "\<exists>c f r k'. release sid num = Call c f \<and> exec p c k = Can (r, k')"
  using assms unfolding release_def releaseSem_def by (auto simp: two_set_def Let_def SEMVMX_def)

lemma can_goI:
  assumes "p < 2" "cur (sys s) p = g" "\<exists>c f r k. g = Call c f \<and> exec p c (kern (sys s)) = Can (r, k)"
  shows "can_go s"
  using assms unfolding can_go_def by metis

lemma setting_up_goes:
  assumes "setting_up s input" "\<not> (\<exists>m. wp s = W_fail m)"
  shows "can_go s"
proof (cases "\<exists>v. cur (sys s) 0 = Ret v")
  case True
  then show ?thesis using assms unfolding can_go_def setting_up_def w_early_def by auto
next
  case False
  then have "\<exists>c f r k. cur (sys s) 0 = Call c f \<and> exec 0 c (kern (sys s)) = Can (r, k)" using assms unfolding setting_up_def w_early_def
    by (auto simp: semget_def initSemAvailable_def initSemInUse_def two_set_def WRITE_SEM_def READ_SEM_def SEMVMX_def)
  then show ?thesis by (intro can_goI [of 0 s "cur (sys s) 0"]) auto
qed

lemma running_goes:
  assumes I: "running sid s input" and ok: "\<not> (\<exists>m. wp s = W_fail m)" "\<not> r_failed (rp s)"
  shows "can_go s"
proof -
  obtain a b where t: "two_set (kern (sys s)) sid a b" and ab: "0 \<le> a" "0 \<le> b" and w: "w_has sid (wp s) (cur (sys s) 0) \<or> w_waits sid (wp s) (cur (sys s) 0)"
    and r: "r_has sid (rp s) (cur (sys s) 1) \<or> r_waits sid (rp s) (cur (sys s) 1)" and d: "data sid b s input"
    and n: "turns a b (w_has sid (wp s) (cur (sys s) 0)) (r_has sid (rp s) (cur (sys s) 1)) (r_failed (rp s))" using I unfolding running_def by blast
  have hi: "a \<le> 1" "b \<le> 1" using n ab by (auto simp: turns_def of_bool_def split: if_splits)
  have wl: "can_go s" if "cur (sys s) 0 = Ret v" "wp s \<noteq> W_done" for v using that unfolding can_go_def by blast
  have rl: "can_go s" if "cur (sys s) 1 = Ret v" "rp s \<noteq> R_done" for v using that unfolding can_go_def by blast
  note rel = release_can [OF t, of _] note res = reserve_can [OF t]
  consider (wt) "w_has sid (wp s) (cur (sys s) 0)" | (rt) "r_has sid (rp s) (cur (sys s) 1)" | (av) "a = 1" "w_waits sid (wp s) (cur (sys s) 0)" | (bv) "b = 1" "r_waits sid (rp s) (cur (sys s) 1)"
  proof (cases "w_has sid (wp s) (cur (sys s) 0) \<or> r_has sid (rp s) (cur (sys s) 1)")
    case False
    then have "a = 1 \<or> b = 1" using n ab ok(2) unfolding turns_def by auto
    then show ?thesis using that(3,4) w r False by blast
  qed (use that(1,2) in blast)
  then show ?thesis
  proof cases
    case wt
    then consider "cur (sys s) 0 = Ret 0" "wp s \<noteq> W_done" | "cur (sys s) 0 = release sid READ_SEM" | "cur (sys s) 0 = semctl_rmid sid" using ok unfolding w_has_def by auto
    then show ?thesis
    proof cases
      case 2
      then show ?thesis using rel [of READ_SEM 0] ab hi by (intro can_goI [OF _ 2]) (auto simp: READ_SEM_def)
    next
      case 3
      then show ?thesis using t by (intro can_goI [OF _ 3]) (auto simp: semctl_rmid_def two_set_def)
    qed (rule wl)
  next
    case rt
    then consider "cur (sys s) 1 = Ret 0" "rp s \<noteq> R_done" | "cur (sys s) 1 = release sid WRITE_SEM" unfolding r_has_def by auto
    then show ?thesis
    proof cases
      case 2
      then show ?thesis using rel [of WRITE_SEM 1] ab hi by (intro can_goI [OF _ 2]) (auto simp: WRITE_SEM_def)
    qed (rule rl)
  next
    case av
    then consider "cur (sys s) 0 = Ret 0" "wp s \<noteq> W_done" | "cur (sys s) 0 = reserve sid WRITE_SEM" unfolding w_waits_def by auto
    then show ?thesis
    proof cases
      case 2
      then show ?thesis using res [of WRITE_SEM 0] av by (intro can_goI [OF _ 2]) (auto simp: WRITE_SEM_def)
    qed (rule wl)
  next
    case bv
    have "\<not> r_finished (rp s)" using d bv ok unfolding data_def fresh_def by auto
    then consider v where "cur (sys s) 1 = Ret v" "rp s \<noteq> R_done" | "cur (sys s) 1 = semget SEM_KEY 0 False" | "cur (sys s) 1 = reserve sid READ_SEM"
      using bv ok unfolding r_waits_def r_over_def r_finished_def r_failed_def by auto
    then show ?thesis
    proof cases
      case 2
      then show ?thesis using t by (intro can_goI [OF _ 2]) (auto simp: semget_def two_set_def)
    next
      case 3
      then show ?thesis using res [of READ_SEM 1] bv by (intro can_goI [OF _ 3]) (auto simp: READ_SEM_def)
    qed (rule rl)
  qed
qed

section \<open>The copy\<close>

lemma inv_prefix:
  assumes "xfr_inv input s"
  shows "prefix (sent (stdout s)) input" "rp s = R_done \<Longrightarrow> sent (stdout s) = input"
proof -
  have run: "prefix (sent (stdout s)) input \<and> (rp s = R_done \<longrightarrow> sent (stdout s) = input)" if "running sid s input" for sid
    using that unfolding running_def data_def by (auto simp: r_failed_def r_finished_def split: if_splits)
  have "prefix (sent (stdout s)) input \<and> (rp s = R_done \<longrightarrow> sent (stdout s) = input)"
    using assms run unfolding xfr_inv_def setting_up_def over_def r_early_def by (auto simp: r_failed_def)
  then show "prefix (sent (stdout s)) input" "rp s = R_done \<Longrightarrow> sent (stdout s) = input" by blast+
qed

text \<open>
  C9.  Through every interleaving of the two programs, signals included, what the reader has written is the
  beginning of what the writer's input holds; and when the reader ends, it has written all of it.
\<close>

theorem transfer_is_faithful:
  assumes "reachable (xfr_start input) xfr_step s"
  shows "prefix (sent (stdout s)) input \<and> (rp s = R_done \<longrightarrow> sent (stdout s) = input)"
  using inv_prefix [OF xfrs.always [OF assms]] by blast

text \<open>
  The writer, from the moment it has reserved its semaphore to the moment it releases the
  reader's, and the reader likewise, never overlap: the segment is used by one of them at a time.
\<close>

theorem turns_exclusive:
  assumes "reachable (xfr_start input) xfr_step s"
  shows "\<not> (w_uses s \<and> r_uses s)"
proof -
  from xfrs.always [OF assms] consider "setting_up s input" | sid where "running sid s input" | "over s input" unfolding xfr_inv_def by blast
  then show ?thesis
  proof cases
    case 1
    then show ?thesis unfolding setting_up_def r_early_def r_uses_def by auto
  next
    case 2
    then obtain a b where "turns a b (w_has sid (wp s) (cur (sys s) 0)) (r_has sid (rp s) (cur (sys s) 1)) (r_failed (rp s))" "0 \<le> a" "0 \<le> b"
      and w: "w_has sid (wp s) (cur (sys s) 0) \<or> w_waits sid (wp s) (cur (sys s) 0)" and r: "r_has sid (rp s) (cur (sys s) 1) \<or> r_waits sid (rp s) (cur (sys s) 1)"
      unfolding running_def by blast
    then have "\<not> (w_has sid (wp s) (cur (sys s) 0) \<and> r_has sid (rp s) (cur (sys s) 1))" by (auto simp: turns_def)
    moreover have "w_uses s \<Longrightarrow> w_has sid (wp s) (cur (sys s) 0)" using w unfolding w_uses_def w_has_def w_waits_def by auto
    moreover have "r_uses s \<Longrightarrow> r_has sid (rp s) (cur (sys s) 1)" using r unfolding r_uses_def r_has_def r_waits_def r_over_def by auto
    ultimately show ?thesis by blast
  next
    case 3
    then show ?thesis unfolding over_def r_over_def r_uses_def by auto
  qed
qed

text \<open>
  C32.  Neither program is stuck: as long as none has failed and they have not both ended, one of them can go on
  with its own code or has made a call that need not wait.
\<close>

theorem transfer_never_stuck:
  assumes r: "reachable (xfr_start input) xfr_step s" and ok: "\<forall>m. wp s \<noteq> W_fail m" "\<forall>m. rp s \<noteq> R_fail m" and more: "wp s \<noteq> W_done \<or> rp s \<noteq> R_done"
  shows "can_go s"
proof -
  from xfrs.always [OF r] consider "setting_up s input" | sid where "running sid s input" | "over s input" unfolding xfr_inv_def by blast
  then show ?thesis
  proof cases
    case 1
    then show ?thesis using setting_up_goes ok by blast
  next
    case 2
    then show ?thesis using running_goes ok unfolding r_failed_def by blast
  next
    case 3
    then show ?thesis using ok more unfolding over_def r_over_def can_go_def by auto
  qed
qed

theorem transfer_is_faithful_witness: "rp xfr3 = R_done \<and> sent (stdout xfr3) = ''abc''"
  using transfer_is_faithful [OF xfr_runs(2)] xfr3_done by blast

theorem turns_exclusive_witness: "w_uses (go 0 xfr1) \<and> \<not> r_uses (go 0 xfr1)"
proof -
  have "w_uses (go 0 xfr1)" unfolding w_uses_def go0_reserve [OF xfr1_facts(1)] by (simp add: xfr1_facts)
  then show ?thesis using turns_exclusive [OF reach_go [OF xfr_runs(1)], of 0] by simp
qed

theorem transfer_never_stuck_witness: "wp xfr1 = W_turn 0 \<and> can_go xfr1"
  using transfer_never_stuck [OF xfr_runs(1)] by (simp add: xfr1_facts)

end
