(* ===== verification/Fd_Pass.thy ===== *)
theory Fd_Pass
  imports Stream_IO
begin

text \<open>
  Passing a descriptor or an error over a stream socket: \<open>apue2e/lib/sendfd.c\<close>, \<open>senderr.c\<close> and
  \<open>recvfd.c\<close>.  Data of an error message comes first; a null byte and a status byte end the answer.
\<close>

definition MAXLINE :: nat where "MAXLINE = 4096"

section \<open>Sending\<close>

text \<open>The sending end: the bytes, and the descriptors with the place in the stream they travel with.\<close>

record chan =
  csink :: sink
  passed :: "(nat \<times> int) list"

definition sys_sendmsg :: "chan \<Rightarrow> bytes \<Rightarrow> int option \<Rightarrow> (int + nat) \<times> chan" where
  "sys_sendmsg c b control = (case sys_write (csink c) b of
     (Inl e, k) \<Rightarrow> (Inl e, c\<lparr>csink := k\<rparr>)
   | (Inr n, k) \<Rightarrow> (Inr n, c\<lparr>csink := k, passed := (case control of
         Some d \<Rightarrow> if 0 < n then passed c @ [(length (sent (csink c)), d)] else passed c
       | None \<Rightarrow> passed c)\<rparr>))"

text \<open>A status never is 0: \<open>-256\<close> and its multiples give 1.\<close>

definition status_byte :: "int \<Rightarrow> char" where
  "status_byte fd = (let b = char_of (nat ((- fd) mod 256)) in if b = NUL then CHR 0x01 else b)"

text \<open>\<open>mem\<close>: the control buffer is there or can be allocated.\<close>

definition send_fd :: "bool \<Rightarrow> chan \<Rightarrow> int \<Rightarrow> int \<times> chan" where
  "send_fd mem c fd_to_send =
     (if 0 \<le> fd_to_send \<and> \<not> mem then (-1, c)
      else
        let (r, c) = (if fd_to_send < 0 then sys_sendmsg c [NUL, status_byte fd_to_send] None
                      else sys_sendmsg c [NUL, NUL] (Some fd_to_send)) in
        if r \<noteq> Inr 2 then (-1, c) else (0, c))"

definition send_err :: "bool \<Rightarrow> chan \<Rightarrow> int \<Rightarrow> string \<Rightarrow> (int \<times> chan) res" where
  "send_err mem c errcode msg =
     res_bind
       (if 0 < length msg
        then res_bind (writen (csink c) msg) (\<lambda>(r, k). Inr (r = int (length msg), c\<lparr>csink := k\<rparr>))
        else Inr (True, c)) (\<lambda>(ok, c).
     if \<not> ok then Inr (-1, c)
     else
       let errcode = (if errcode \<ge> 0 then -1 else errcode); (r, c) = send_fd mem c errcode in
       if r < 0 then Inr (-1, c) else Inr (0, c))"

section \<open>Receiving\<close>

text \<open>What one \<open>recvmsg\<close> brings: data, and a descriptor if one came with it; nothing at the end.\<close>

type_synonym arrival = "bytes \<times> int option"

text \<open>The loop over the data: a null byte must be the last but one.\<close>

function recv_scan :: "bytes \<Rightarrow> int option \<Rightarrow> nat \<Rightarrow> nat \<Rightarrow> int \<Rightarrow> int \<Rightarrow> (nat \<times> int \<times> int) res" where
  "recv_scan buf control ptr nr status newfd =
     (if ptr < nr then
        if buf ! ptr = NUL then
          if ptr + 1 \<noteq> nr - 1 then Inl (Err_dump ''message format error'')
          else
            let st = of_char (buf ! (ptr + 1)) in
            if st = 0 then
              (case control of
                 None \<Rightarrow> Inl (Err_dump ''status = 0 but no fd'')
               | Some fd \<Rightarrow> recv_scan buf control (ptr + 1) (nr - 2) 0 fd)
            else recv_scan buf control (ptr + 1) (nr - 2) st (- st)
        else recv_scan buf control (ptr + 1) nr status newfd
      else Inr (nr, status, newfd))"
  by pat_completeness auto
termination by (relation "measure (\<lambda>(buf, control, ptr, nr, status, newfd). nr - ptr)") auto

declare recv_scan.simps [simp del]

text \<open>\<open>k\<close> is where the user's function writes; what is left of the arrivals is returned too.\<close>

primrec recv_fd :: "bool \<Rightarrow> (int + arrival) list \<Rightarrow> sink \<Rightarrow> (int \<times> sink \<times> (int + arrival) list) res" where
  "recv_fd mem [] k = Inr (-1, k, [])"
| "recv_fd mem (a # as) k =
     (if \<not> mem then Inr (-1, k, a # as)
      else case a of
        Inl e \<Rightarrow> Inl (Err_sys ''recvmsg error'')
      | Inr (buf, control) \<Rightarrow>
          if buf = [] then Inr (-1, k, as)
          else res_bind (recv_scan buf control 0 (length buf) (-1) 0) (\<lambda>(nr, status, newfd).
            let (ok, k) = (if 0 < nr then (case sys_write k (take nr buf) of (r, k) \<Rightarrow> (r = Inr nr, k)) else (True, k)) in
            if \<not> ok then Inr (-1, k, as)
            else if status \<ge> 0 then Inr (newfd, k, as)
            else recv_fd mem as k))"

section \<open>What arrives is what was sent\<close>

lemma scan_plain:
  assumes "\<forall>i. ptr \<le> i \<longrightarrow> i < nr \<longrightarrow> buf ! i \<noteq> NUL"
  shows "recv_scan buf control ptr nr status newfd = Inr (nr, status, newfd)"
  using assms
proof (induction buf control ptr nr status newfd rule: recv_scan.induct)
  case (1 buf control ptr nr status newfd)
  show ?case
  proof (cases "ptr < nr")
    case True
    then have "buf ! ptr \<noteq> NUL" using 1 by simp
    then show ?thesis using 1 True by (subst recv_scan.simps) simp
  qed (subst recv_scan.simps, simp)
qed

lemma scan_skip:
  assumes "ptr \<le> m" "m \<le> nr" "\<forall>i. ptr \<le> i \<longrightarrow> i < m \<longrightarrow> buf ! i \<noteq> NUL"
  shows "recv_scan buf control ptr nr status newfd = recv_scan buf control m nr status newfd"
  using assms
proof (induction buf control ptr nr status newfd rule: recv_scan.induct)
  case (1 buf control ptr nr status newfd)
  show ?case
  proof (cases "ptr = m")
    case False
    then have "buf ! ptr \<noteq> NUL" "ptr < nr" using 1 by auto
    then have "recv_scan buf control ptr nr status newfd = recv_scan buf control (ptr + 1) nr status newfd" by (subst recv_scan.simps) simp
    then show ?thesis using 1 False \<open>buf ! ptr \<noteq> NUL\<close> \<open>ptr < nr\<close> by simp
  qed simp
qed

lemma scan_data:
  assumes "NUL \<notin> set x"
  shows "recv_scan x control 0 (length x) status newfd = Inr (length x, status, newfd)"
  using assms by (intro scan_plain) (auto dest: nth_mem)

lemma scan_last:
  assumes x: "NUL \<notin> set x"
  shows "recv_scan (x @ [NUL, c]) control 0 (length (x @ [NUL, c])) status newfd =
    (if c = NUL then (case control of None \<Rightarrow> Inl (Err_dump ''status = 0 but no fd'') | Some fd \<Rightarrow> Inr (length x, 0, fd))
     else Inr (length x, of_char c, - of_char c))"
proof -
  let ?b = "x @ [NUL, c]" and ?n = "length x"
  have z: "(of_char c :: int) = 0 \<longleftrightarrow> c = NUL" using of_char_eq_iff [of c NUL, where ?'a = int] by simp
  have e: "recv_scan ?b control 0 (?n + 2) status newfd = recv_scan ?b control ?n (?n + 2) status newfd"
    using x by (intro scan_skip) (auto simp: nth_append dest: nth_mem)
  have stop: "recv_scan b ctl (Suc ?n) ?n st f = Inr (?n, st, f)" for b ctl st f by (subst recv_scan.simps) simp
  have "recv_scan ?b control ?n (?n + 2) status newfd = (if c = NUL then (case control of None \<Rightarrow> Inl (Err_dump ''status = 0 but no fd'') | Some fd \<Rightarrow> Inr (?n, 0, fd))
     else Inr (?n, of_char c, - of_char c))"
    by (subst recv_scan.simps) (simp add: nth_append z stop Let_def split: option.splits)
  then show ?thesis using e by simp
qed

lemma status_nonzero: "status_byte fd \<noteq> NUL"
  by (simp add: status_byte_def Let_def)

lemma status_value:
  assumes "0 < code" "code < 256"
  shows "of_char (status_byte (- code)) = code"
proof -
  have "nat (code mod 256) = nat code" using assms by simp
  moreover have "take_bit 8 (nat code) = nat code" using assms by (simp add: take_bit_eq_mod)
  ultimately have "status_byte (- code) = char_of (nat code)" using assms
    by (auto simp: status_byte_def Let_def char_of_eq_iff)
  moreover have "(of_char (char_of (nat code)) :: int) = int (of_char (char_of (nat code)))" by (simp only: of_nat_of_char)
  ultimately show ?thesis using assms by (simp add: of_char_of)
qed

text \<open>The data of an answer may be cut anywhere but between the null byte and the status.\<close>

definition whole_end :: "bytes list \<Rightarrow> bool" where
  "whole_end xs \<longleftrightarrow> xs \<noteq> [] \<and> [] \<notin> set xs \<and> 2 \<le> length (last xs)"

lemma recv_error:
  assumes "concat xs = msg @ [NUL, c]" "whole_end xs" "NUL \<notin> set msg" "c \<noteq> NUL" "script k = []"
  shows "recv_fd True (map (\<lambda>x. Inr (x, None)) xs @ rest) k = Inr (- of_char c, k\<lparr>sent := sent k @ msg\<rparr>, rest)"
  using assms
proof (induction xs arbitrary: msg k)
  case (Cons x xs)
  have w: "sys_write k y = (Inr (length y), k\<lparr>sent := sent k @ y\<rparr>)" for y using Cons.prems(5) by (simp add: sys_write_def)
  have xne: "x \<noteq> []" using Cons.prems(2) by (auto simp: whole_end_def)
  show ?case
  proof (cases "xs = []")
    case True
    then have x: "x = msg @ [NUL, c]" using Cons.prems(1) by simp
    have c: "(0 :: int) \<le> of_char c" by (metis of_nat_of_char of_nat_0_le_iff)
    show ?thesis using True x scan_last [OF Cons.prems(3), of c None "-1" 0] Cons.prems(4) c w
      by (cases "msg = []") (simp_all add: res_bind_def)
  next
    case False
    have l: "whole_end xs" using Cons.prems(2) False by (auto simp: whole_end_def)
    then have "2 \<le> length (concat xs)" by (metis (no_types, lifting) append_butlast_last_id concat_append concat.simps(2) length_append trans_le_add1 trans_le_add2 whole_end_def)
    moreover have e: "x @ concat xs = msg @ [NUL, c]" using Cons.prems(1) by simp
    moreover from e have "length x + length (concat xs) = length msg + 2" by (metis length_append length_Cons list.size(3) numeral_2_eq_2)
    ultimately have "length x \<le> length msg" by linarith
    then obtain ys where y: "msg = x @ ys" "concat xs = ys @ [NUL, c]"
      using e by (metis append_eq_append_conv_if append_take_drop_id)
    have nx: "NUL \<notin> set x" "NUL \<notin> set ys" using Cons.prems(3) y by auto
    have IH: "recv_fd True (map (\<lambda>x. Inr (x, None)) xs @ rest) (k\<lparr>sent := sent k @ x\<rparr>) = Inr (- of_char c, (k\<lparr>sent := sent k @ x\<rparr>)\<lparr>sent := sent (k\<lparr>sent := sent k @ x\<rparr>) @ ys\<rparr>, rest)"
      by (rule Cons.IH [OF y(2) l nx(2) Cons.prems(4)]) (simp add: Cons.prems(5))
    show ?thesis using xne scan_data [OF nx(1)] w IH y(1) by (simp add: res_bind_def)
  qed
qed (simp add: whole_end_def)

text \<open>Cut there, the answer stops the receiver.\<close>

lemma recv_cut:
  assumes "NUL \<notin> set x" "script k = []" "[] \<notin> set ys" "NUL \<notin> set (concat ys)"
  shows "recv_fd True (map (\<lambda>x. Inr (x, None)) ys @ Inr (x @ [NUL], None) # rest) k = Inl (Err_dump ''message format error'')"
  using assms(2-4)
proof (induction ys arbitrary: k)
  case Nil
  have "recv_scan (x @ [NUL]) None 0 (length x + 1) (-1) 0 = recv_scan (x @ [NUL]) None (length x) (length x + 1) (-1) 0"
    using assms(1) by (intro scan_skip) (auto simp: nth_append dest: nth_mem)
  also have "\<dots> = Inl (Err_dump ''message format error'')" by (subst recv_scan.simps) (simp add: nth_append)
  finally show ?case by (simp add: res_bind_def)
next
  case (Cons y ys)
  have w: "sys_write k y = (Inr (length y), k\<lparr>sent := sent k @ y\<rparr>)" using Cons.prems(1) by (simp add: sys_write_def)
  have "y \<noteq> []" using Cons.prems(2) by auto
  then show ?case using Cons scan_data [of y None "-1" 0] w by (simp add: res_bind_def)
qed

lemma recv_descriptor:
  "recv_fd True (Inr ([NUL, NUL], Some fd) # rest) k = Inr (fd, k, rest)"
  using scan_last [of "[]" NUL "Some fd" "-1" 0] by (simp add: res_bind_def)

text \<open>A connection that takes everything.\<close>

definition clean :: "chan \<Rightarrow> bool" where
  "clean c \<longleftrightarrow> script (csink c) = []"

definition put :: "chan \<Rightarrow> bytes \<Rightarrow> chan" where
  "put c b = c\<lparr>csink := (csink c)\<lparr>sent := sent (csink c) @ b\<rparr>\<rparr>"

lemma clean_put [simp]: "clean (put c b) = clean c" "sent (csink (put c b)) = sent (csink c) @ b" "passed (put c b) = passed c"
  by (simp_all add: clean_def put_def)

lemma send_fd_clean:
  assumes "clean c"
  shows "fd < 0 \<Longrightarrow> send_fd mem c fd = (0, put c [NUL, status_byte fd])"
    "0 \<le> fd \<Longrightarrow> mem \<Longrightarrow> send_fd mem c fd = (0, (put c [NUL, NUL])\<lparr>passed := passed c @ [(length (sent (csink c)), fd)]\<rparr>)"
  using assms by (simp_all add: send_fd_def sys_sendmsg_def sys_write_def clean_def put_def)

lemma writen_clean:
  assumes "script k = []" "b \<noteq> []"
  shows "writen k b = Inr (int (length b), k\<lparr>sent := sent k @ b\<rparr>)"
proof -
  have "writen_loop (Suc (length b)) sys_write (length b) b k = Inr (int (length b), k\<lparr>sent := sent k @ b\<rparr>)"
    using assms by (cases "length b") (simp_all add: sys_write_def)
  then show ?thesis by (simp add: writen_def)
qed

lemma send_err_clean:
  assumes "clean c"
  shows "send_err mem c errcode msg = Inr (0, put c (msg @ [NUL, status_byte (if errcode \<ge> 0 then -1 else errcode)]))"
proof (cases "msg = []")
  case True
  then show ?thesis using assms by (simp add: send_err_def res_bind_def send_fd_clean(1))
next
  case False
  then have "writen (csink c) msg = Inr (int (length msg), (csink c)\<lparr>sent := sent (csink c) @ msg\<rparr>)" using assms by (intro writen_clean) (simp_all add: clean_def)
  then have "send_err mem c errcode msg = (let (r, c) = send_fd mem (put c msg) (if errcode \<ge> 0 then -1 else errcode) in if r < 0 then Inr (-1, c) else Inr (0, c))"
    using False by (simp add: send_err_def res_bind_def put_def)
  then show ?thesis using assms by (simp add: send_fd_clean(1)) (simp add: put_def)
qed

end
