(* ===== verification/Opend_Model.thy ===== *)
theory Opend_Model
  imports Fd_Pass
begin

text \<open>
  The open server of \<open>apue2e/opend\<close>, with its client function in \<open>apue2e/open\<close>, the version that is
  started by its client in \<open>apue2e/opend.fe\<close>, and the functions of \<open>apue2e/lib\<close> they use to
  take a request apart and to set up the connection.
\<close>

section \<open>Requests\<close>

definition MAXARGC :: nat where "MAXARGC = 50"
definition CL_OPEN :: string where "CL_OPEN = ''open''"

definition white :: "char \<Rightarrow> bool" where
  "white c \<longleftrightarrow> c = CHR '' '' \<or> c = CHR 0x09 \<or> c = CHR 0x0A"

text \<open>What \<open>strtok\<close> finds, call after call.\<close>

function tokens :: "string \<Rightarrow> string list" where
  "tokens s = (let t = dropWhile white s in
     if t = [] then [] else takeWhile (\<lambda>c. \<not> white c) t # tokens (dropWhile (\<lambda>c. \<not> white c) t))"
  by pat_completeness auto
termination
proof (relation "measure length", simp)
  fix s t assume t: "t = dropWhile white s" "t \<noteq> []"
  then obtain c r where c: "t = c # r" "\<not> white c" by (metis hd_dropWhile list.collapse)
  then have "length (dropWhile (\<lambda>c. \<not> white c) t) \<le> length r" by (simp add: length_dropWhile_le)
  moreover have "length t \<le> length s" using t by (simp add: length_dropWhile_le)
  ultimately show "(dropWhile (\<lambda>c. \<not> white c) t, s) \<in> measure length" using c by simp
qed

declare tokens.simps [simp del]

text \<open>\<open>argv[0]\<close> is the start of the buffer, not the first token.\<close>

definition buf_args :: "bytes \<Rightarrow> (string list \<Rightarrow> 'g \<Rightarrow> int \<times> 'g) \<Rightarrow> 'g \<Rightarrow> int \<times> 'g" where
  "buf_args buf optfunc g =
     (let s = cstr buf; ts = tokens s in
      if ts = [] then (-1, g)
      else if length ts \<ge> MAXARGC then (-1, g)
      else optfunc ((takeWhile white s @ hd ts) # tl ts) g)"

text \<open>\<open>atoi\<close> is \<open>strtol\<close>, which stops at the ends of \<open>long\<close>, cut to an \<open>int\<close>.\<close>

definition atoi :: "string \<Rightarrow> int" where
  "atoi s = signed_take_bit 31 (max (- (2 ^ 63)) (min (2 ^ 63 - 1) (atol s)))"

text \<open>The global variables of the server.\<close>

record globals =
  log_to_stderr :: bool
  errmsg :: string
  oflag :: int
  pathname :: string

definition cli_args :: "string list \<Rightarrow> globals \<Rightarrow> int \<times> globals" where
  "cli_args argv g =
     (if length argv \<noteq> 3 \<or> argv ! 0 \<noteq> CL_OPEN then (-1, g\<lparr>errmsg := ''usage: <pathname> <oflag>'' @ [NL]\<rparr>)
      else (0, g\<lparr>pathname := argv ! 1, oflag := atoi (argv ! 2)\<rparr>))"

text \<open>A text that is printed into \<open>errmsg\<close> must fit.\<close>

definition into_errmsg :: "string \<Rightarrow> string res" where
  "into_errmsg m = (if length m < MAXLINE then Inr m else Inl (Overrun ''errmsg''))"

text \<open>
  The log: \<open>log_doit\<close> cuts the text to its buffer and then adds a newline.  As a daemon it passes
  the line to \<open>syslog\<close> as the format.  A format that comes from outside must have no conversion but \<open>%%\<close>.
\<close>

fun plain_format :: "string \<Rightarrow> bool" where
  "plain_format [] = True"
| "plain_format (c # s) = (if c = CHR ''%'' then (case s of [] \<Rightarrow> False | d # t \<Rightarrow> d = CHR ''%'' \<and> plain_format t) else plain_format s)"

fun expand :: "string \<Rightarrow> string" where
  "expand [] = []"
| "expand (c # s) = c # (if c = CHR ''%'' then (case s of [] \<Rightarrow> [] | d # t \<Rightarrow> expand t) else expand s)"

definition log_doit :: "bool \<Rightarrow> string \<Rightarrow> unit res" where
  "log_doit to_stderr m =
     (let buf = take (MAXLINE - 1) m in
      if length buf + 1 \<ge> MAXLINE then Inl (Overrun ''buf'')
      else if \<not> to_stderr \<and> \<not> plain_format buf then Inl (Overrun ''syslog'')
      else Inr ())"

definition log_format :: "bool \<Rightarrow> string \<Rightarrow> unit res" where
  "log_format to_stderr fmt = (if plain_format fmt then log_doit to_stderr (expand fmt) else Inl (Overrun ''log_msg''))"

text \<open>What \<open>open\<close> and \<open>strerror\<close> do for the server, and whether memory for a control buffer is there.\<close>

record open_env =
  os_open :: "string \<Rightarrow> int \<Rightarrow> int + int"
  strerror :: "int \<Rightarrow> string"
  have_mem :: bool

definition not_terminated :: "string \<Rightarrow> bytes \<Rightarrow> string" where
  "not_terminated who buf = ''request '' @ who @ ''not null terminated: '' @ pad (length buf) (cstr buf) @ [NL]"

definition cannot_open :: "open_env \<Rightarrow> string \<Rightarrow> int \<Rightarrow> string" where
  "cannot_open e path en = ''can't open '' @ path @ '': '' @ strerror e en @ [NL]"

text \<open>The request of a client with user ID \<open>uid\<close>; \<open>buf\<close> is what was read, \<open>c\<close> the connection \<open>clifd\<close>.\<close>

definition asked :: "bytes \<Rightarrow> 32 word \<Rightarrow> string" where
  "asked buf uid = ''request: '' @ cstr buf @ '', from uid '' @ dec_int (sint uid)"

definition sent_fd :: "int \<Rightarrow> int \<Rightarrow> string \<Rightarrow> string" where
  "sent_fd newfd clifd path = ''sent fd '' @ dec_int newfd @ '' over fd '' @ dec_int clifd @ '' for '' @ path"

definition request :: "open_env \<Rightarrow> globals \<Rightarrow> chan \<Rightarrow> bytes \<Rightarrow> int \<Rightarrow> 32 word \<Rightarrow> (globals \<times> chan) res" where
  "request e g c buf clifd uid =
     (if last buf \<noteq> NUL
      then
        res_bind (into_errmsg (not_terminated (''from uid '' @ dec_int (sint uid) @ '' '') buf)) (\<lambda>m.
        res_bind (send_err (have_mem e) c (-1) m) (\<lambda>(r, c). Inr (g\<lparr>errmsg := m\<rparr>, c)))
      else
        res_bind (log_doit (log_to_stderr g) (asked buf uid)) (\<lambda>_.
        let (r, g) = buf_args buf cli_args g in
        if r < 0
        then
          res_bind (send_err (have_mem e) c (-1) (errmsg g)) (\<lambda>(r, c).
          res_bind (log_format (log_to_stderr g) (errmsg g)) (\<lambda>_. Inr (g, c)))
        else (case os_open e (pathname g) (oflag g) of
            Inl en \<Rightarrow>
              res_bind (into_errmsg (cannot_open e (pathname g) en)) (\<lambda>m.
              res_bind (send_err (have_mem e) c (-1) m) (\<lambda>(r, c).
              res_bind (log_format (log_to_stderr g) m) (\<lambda>_. Inr (g\<lparr>errmsg := m\<rparr>, c))))
          | Inr newfd \<Rightarrow>
              let (r, c) = send_fd (have_mem e) c newfd in
              if r < 0 then Inl (Err_sys ''send_fd error'')
              else res_bind (log_doit (log_to_stderr g) (sent_fd newfd clifd (pathname g))) (\<lambda>_. Inr (g, c)))))"

text \<open>The version for a server that has only one client and does not log.\<close>

definition request_fe :: "open_env \<Rightarrow> globals \<Rightarrow> chan \<Rightarrow> bytes \<Rightarrow> (globals \<times> chan) res" where
  "request_fe e g c buf =
     (if last buf \<noteq> NUL
      then
        res_bind (into_errmsg (not_terminated [] buf)) (\<lambda>m.
        res_bind (send_err (have_mem e) c (-1) m) (\<lambda>(r, c). Inr (g\<lparr>errmsg := m\<rparr>, c)))
      else
        let (r, g) = buf_args buf cli_args g in
        if r < 0 then res_bind (send_err (have_mem e) c (-1) (errmsg g)) (\<lambda>(r, c). Inr (g, c))
        else (case os_open e (pathname g) (oflag g) of
            Inl en \<Rightarrow>
              res_bind (into_errmsg (cannot_open e (pathname g) en)) (\<lambda>m.
              res_bind (send_err (have_mem e) c (-1) m) (\<lambda>(r, c). Inr (g\<lparr>errmsg := m\<rparr>, c)))
          | Inr newfd \<Rightarrow>
              let (r, c) = send_fd (have_mem e) c newfd in
              if r < 0 then Inl (Err_sys ''send_fd error'') else Inr (g, c)))"

text \<open>Its main loop, on what the reads of its standard input return.\<close>

primrec opend_fe :: "open_env \<Rightarrow> (int + bytes) list \<Rightarrow> globals \<Rightarrow> chan \<Rightarrow> (globals \<times> chan) res" where
  "opend_fe e [] g c = Inr (g, c)"
| "opend_fe e (r # rs) g c = (case r of
     Inl en \<Rightarrow> Inl (Err_sys ''read error on stream pipe'')
   | Inr buf \<Rightarrow> if buf = [] then Inr (g, c) else res_bind (request_fe e g c buf) (\<lambda>(g, c). opend_fe e rs g c))"

section \<open>The client\<close>

definition open_msg :: "string \<Rightarrow> int \<Rightarrow> bytes res" where
  "open_msg name flags =
     (let buf = '' '' @ dec_int flags in
      if length buf \<ge> 10 then Inl (Overrun ''buf'')
      else Inr (CL_OPEN @ '' '' @ name @ buf @ [NUL]))"

text \<open>
  \<open>csfd\<close> is the static variable, \<open>conn\<close> what \<open>cli_conn\<close> returns; \<open>to\<close> is the connection to the server,
  \<open>err\<close> the standard error output, and \<open>as\<close> is what arrives from the server.
\<close>

definition csopen :: "bool \<Rightarrow> int \<Rightarrow> int \<Rightarrow> sink \<Rightarrow> sink \<Rightarrow> (int + arrival) list \<Rightarrow> string \<Rightarrow> int \<Rightarrow>
    (int \<times> int \<times> sink \<times> sink \<times> (int + arrival) list) res" where
  "csopen mem conn csfd to err as name flags =
     (let csfd = (if csfd < 0 then conn else csfd) in
      if csfd < 0 then Inl (Err_sys ''cli_conn error'')
      else res_bind (open_msg name flags) (\<lambda>m.
      case sys_write to m of
        (r, to) \<Rightarrow>
          if r \<noteq> Inr (length m) then Inl (Err_sys ''writev error'')
          else res_bind (recv_fd mem as err) (\<lambda>(fd, err, as). Inr (fd, csfd, to, err, as))))"

section \<open>Setting up a connection\<close>

definition STALE :: int where "STALE = 30"
definition SUN_PATH :: nat where "SUN_PATH = 108"
definition CLI_PATH :: string where "CLI_PATH = ''/var/tmp/''"

record sockstat =
  is_sock :: bool
  mode :: nat
  atime :: int
  ctime :: int
  mtime :: int
  owner :: "32 word"

text \<open>\<open>closed\<close>: the descriptor was given up; \<open>unlinked\<close>: the name that was removed.\<close>

record accepted =
  a_fd :: int
  a_uid :: "32 word option"
  closed :: bool
  unlinked :: "string option"

definition refuse :: "int \<Rightarrow> accepted" where
  "refuse rval = \<lparr>a_fd = rval, a_uid = None, closed = True, unlinked = None\<rparr>"

text \<open>\<open>conn\<close> is what \<open>accept\<close> returns with the name of the caller, \<open>st\<close> what \<open>stat\<close> finds under a name.\<close>

definition serv_accept :: "int \<times> string \<Rightarrow> (string \<Rightarrow> sockstat option) \<Rightarrow> int \<Rightarrow> accepted res" where
  "serv_accept conn st now =
     (case conn of (clifd, path) \<Rightarrow>
      if clifd < 0 then Inr \<lparr>a_fd = -1, a_uid = None, closed = False, unlinked = None\<rparr>
      else if length path \<ge> SUN_PATH then Inl (Overrun ''sun_path'')
      else case st path of
        None \<Rightarrow> Inr (refuse (-2))
      | Some b \<Rightarrow>
          if \<not> is_sock b then Inr (refuse (-3))
          else if mode b mod 64 \<noteq> 0 \<or> mode b div 64 mod 8 \<noteq> 7 then Inr (refuse (-4))
          else
            let staletime = now - STALE in
            if atime b < staletime \<or> ctime b < staletime \<or> mtime b < staletime then Inr (refuse (-5))
            else Inr \<lparr>a_fd = clifd, a_uid = Some (owner b), closed = False, unlinked = Some path\<rparr>)"

text \<open>
  The results of the calls in order are arguments: \<open>socket\<close>, \<open>bind\<close>, \<open>listen\<close> here, \<open>socket\<close>, \<open>bind\<close>,
  \<open>chmod\<close>, \<open>connect\<close> below.  A name that is in use is removed first.
\<close>

definition serv_listen :: "string \<Rightarrow> int \<Rightarrow> bool \<Rightarrow> bool \<Rightarrow> accepted res" where
  "serv_listen name fd bind_ok listen_ok =
     (if fd < 0 then Inr \<lparr>a_fd = -1, a_uid = None, closed = False, unlinked = None\<rparr>
      else if length name \<ge> SUN_PATH then Inl (Overrun ''sun_path'')
      else if \<not> bind_ok then Inr ((refuse (-2))\<lparr>unlinked := Some name\<rparr>)
      else if \<not> listen_ok then Inr ((refuse (-3))\<lparr>unlinked := Some name\<rparr>)
      else Inr \<lparr>a_fd = fd, a_uid = None, closed = False, unlinked = Some name\<rparr>)"

definition cli_path :: "nat \<Rightarrow> string" where
  "cli_path pid = CLI_PATH @ replicate (5 - length (dec pid)) (CHR ''0'') @ dec pid"

definition cli_conn :: "string \<Rightarrow> nat \<Rightarrow> int \<Rightarrow> bool \<Rightarrow> bool \<Rightarrow> bool \<Rightarrow> accepted res" where
  "cli_conn name pid fd bind_ok chmod_ok connect_ok =
     (let path = cli_path pid in
      if fd < 0 then Inr \<lparr>a_fd = -1, a_uid = None, closed = False, unlinked = None\<rparr>
      else if length path \<ge> SUN_PATH then Inl (Overrun ''sun_path'')
      else if \<not> bind_ok then Inr ((refuse (-2))\<lparr>unlinked := Some path\<rparr>)
      else if \<not> chmod_ok then Inr ((refuse (-3))\<lparr>unlinked := Some path\<rparr>)
      else if length name \<ge> SUN_PATH then Inl (Overrun ''sun_path'')
      else if \<not> connect_ok then Inr ((refuse (-4))\<lparr>unlinked := Some path\<rparr>)
      else Inr \<lparr>a_fd = fd, a_uid = None, closed = False, unlinked = Some path\<rparr>)"

section \<open>The table of clients\<close>

definition NALLOC :: nat where "NALLOC = 10"

record Client =
  c_fd :: int
  c_uid :: "32 word"

text \<open>The null pointer is the empty list; \<open>mem\<close> is what new memory happens to hold, if there is any.\<close>

definition client_alloc :: "(nat \<Rightarrow> 32 word) option \<Rightarrow> Client list \<Rightarrow> Client list res" where
  "client_alloc mem client = (case mem of
     None \<Rightarrow> Inl (Err_sys ''can't alloc for client array'')
   | Some m \<Rightarrow> Inr (client @ map (\<lambda>i. \<lparr>c_fd = -1, c_uid = m i\<rparr>) [0..<NALLOC]))"

primrec find_fd :: "int \<Rightarrow> Client list \<Rightarrow> nat option" where
  "find_fd fd [] = None"
| "find_fd fd (c # cs) = (if c_fd c = fd then Some 0 else map_option Suc (find_fd fd cs))"

text \<open>From the label \<open>again\<close>.\<close>

primrec client_search :: "nat \<Rightarrow> (nat \<Rightarrow> 32 word) option \<Rightarrow> Client list \<Rightarrow> int \<Rightarrow> 32 word \<Rightarrow> (nat \<times> Client list) res" where
  "client_search 0 mem client fd uid = Inl Loops"
| "client_search (Suc fuel) mem client fd uid = (case find_fd (-1) client of
     Some i \<Rightarrow> Inr (i, client[i := \<lparr>c_fd = fd, c_uid = uid\<rparr>])
   | None \<Rightarrow> res_bind (client_alloc mem client) (\<lambda>client. client_search fuel mem client fd uid))"

definition client_add :: "(nat \<Rightarrow> 32 word) option \<Rightarrow> Client list \<Rightarrow> int \<Rightarrow> 32 word \<Rightarrow> (nat \<times> Client list) res" where
  "client_add mem client fd uid = 
     res_bind (if client = [] then client_alloc mem client else Inr client) (\<lambda>client. client_search 2 mem client fd uid)"

definition client_del :: "Client list \<Rightarrow> int \<Rightarrow> Client list res" where
  "client_del client fd = (case find_fd fd client of
     Some i \<Rightarrow> Inr (client[i := (client ! i)\<lparr>c_fd := -1\<rparr>])
   | None \<Rightarrow> Inl (Err_quit (''can't find client entry for fd '' @ dec_int fd)))"

section \<open>The loop with poll\<close>

text \<open>
  \<open>pollfd\<close> is the array of \<open>npoll\<close> entries: descriptor, \<open>POLLIN\<close> and \<open>POLLHUP\<close> of its returned events.
  \<open>chans\<close> is what has been sent on each connection, \<open>conns\<close> the connections that are open with the
  user ID that was found when they were accepted.
\<close>

record pollfd =
  p_fd :: int
  p_in :: bool
  p_hup :: bool

record server =
  glob :: globals
  client :: "Client list"
  pollfd :: "pollfd list"
  maxi :: nat
  chans :: "int \<Rightarrow> chan"
  conns :: "int \<rightharpoonup> 32 word"

text \<open>What the system does in one turn of the loop: the events of the entries, the next connection, and the reads.\<close>

record turn_env =
  t_ready :: bool
  t_in :: "nat \<Rightarrow> bool"
  t_hup :: "nat \<Rightarrow> bool"
  t_conn :: "int \<times> string"
  t_stat :: "string \<Rightarrow> sockstat option"
  t_now :: int
  t_read :: "int \<Rightarrow> int + bytes"
  t_mem :: "(nat \<Rightarrow> 32 word) option"
  t_open :: open_env

definition sys_poll :: "turn_env \<Rightarrow> server \<Rightarrow> server" where
  "sys_poll e s = s\<lparr>pollfd := map (\<lambda>i. let p = pollfd s ! i in
     if i \<le> maxi s then p\<lparr>p_in := 0 \<le> p_fd p \<and> t_in e i, p_hup := 0 \<le> p_fd p \<and> t_hup e i\<rparr> else p) [0..<length (pollfd s)]\<rparr>"

definition poll_accept :: "turn_env \<Rightarrow> server \<Rightarrow> server res" where
  "poll_accept e s =
     res_bind (serv_accept (t_conn e) (t_stat e) (t_now e)) (\<lambda>a.
      let clifd = a_fd a; uid = (case a_uid a of Some u \<Rightarrow> u | None \<Rightarrow> 0) in
      if clifd < 0 then Inl (Err_sys ''serv_accept error'')
      else res_bind (client_add (t_mem e) (client s) clifd uid) (\<lambda>(i, cl).
        if i \<ge> length (pollfd s) then Inl (Overrun ''pollfd'')
        else Inr (s\<lparr>client := cl, pollfd := (pollfd s)[i := (pollfd s ! i)\<lparr>p_fd := clifd\<rparr>], maxi := max i (maxi s), conns := (conns s)(clifd \<mapsto> uid)\<rparr>)))"

definition hungup :: "server \<Rightarrow> nat \<Rightarrow> int \<Rightarrow> server res" where
  "hungup s i clifd = res_bind (client_del (client s) clifd) (\<lambda>cl.
     Inr (s\<lparr>client := cl, pollfd := (pollfd s)[i := (pollfd s ! i)\<lparr>p_fd := -1\<rparr>], conns := (conns s)(clifd := None)\<rparr>))"

definition serve :: "turn_env \<Rightarrow> server \<Rightarrow> int \<Rightarrow> bytes \<Rightarrow> 32 word \<Rightarrow> server res" where
  "serve e s clifd buf uid = res_bind (request (t_open e) (glob s) (chans s clifd) buf clifd uid) (\<lambda>(g, c).
     Inr (s\<lparr>glob := g, chans := (chans s)(clifd := c)\<rparr>))"

definition poll_client :: "turn_env \<Rightarrow> nat \<Rightarrow> server \<Rightarrow> server res" where
  "poll_client e i s =
     (let clifd = c_fd (client s ! i) in
      if clifd < 0 then Inr s
      else if p_hup (pollfd s ! i) then hungup s i clifd
      else if p_in (pollfd s ! i) then (case t_read e clifd of
          Inl en \<Rightarrow> Inl (Err_sys ''read error'')
        | Inr buf \<Rightarrow> if buf = [] then hungup s i clifd else serve e s clifd buf (c_uid (client s ! i)))
      else Inr s)"

primrec poll_clients :: "turn_env \<Rightarrow> nat list \<Rightarrow> server \<Rightarrow> server res" where
  "poll_clients e [] s = Inr s"
| "poll_clients e (i # is) s = res_bind (poll_client e i s) (poll_clients e is)"

definition poll_turn :: "turn_env \<Rightarrow> server \<Rightarrow> server res" where
  "poll_turn e s =
     (if \<not> t_ready e then Inl (Err_sys ''poll error'')
      else
        let s = sys_poll e s in
        res_bind (if p_in (pollfd s ! 0) then poll_accept e s else Inr s) (\<lambda>s.
        poll_clients e [1..<Suc (maxi s)] s))"

text \<open>The start: \<open>mem\<close> and \<open>pmem\<close> are the contents of the new arrays, if there is memory for them.\<close>

definition poll_start :: "(nat \<Rightarrow> 32 word) option \<Rightarrow> pollfd list option \<Rightarrow> int \<Rightarrow> globals \<Rightarrow> server res" where
  "poll_start mem pmem listenfd g = (case pmem of
     None \<Rightarrow> Inl (Err_sys ''malloc error'')
   | Some ps \<Rightarrow>
       if listenfd < 0 then Inl (Err_sys ''serv_listen error'')
       else res_bind (client_add mem [] listenfd 0) (\<lambda>(i, cl).
         Inr \<lparr>glob = g, client = cl, pollfd = ps[0 := (ps ! 0)\<lparr>p_fd := listenfd\<rparr>], maxi = 0,
           chans = (\<lambda>fd. \<lparr>csink = \<lparr>sent = [], script = []\<rparr>, passed = []\<rparr>), conns = (\<lambda>fd. None)\<rparr>))"

section \<open>The loop with select\<close>

definition FD_SETSIZE :: int where "FD_SETSIZE = 1024"

record sserver =
  s_glob :: globals
  s_client :: "Client list"
  allset :: "int set"
  maxfd :: int
  s_maxi :: int
  s_listenfd :: int
  s_chans :: "int \<Rightarrow> chan"
  s_conns :: "int \<rightharpoonup> 32 word"

record select_env =
  e_ready :: bool
  e_set :: "int set"
  e_conn :: "int \<times> string"
  e_stat :: "string \<Rightarrow> sockstat option"
  e_now :: int
  e_read :: "int \<Rightarrow> int + bytes"
  e_mem :: "(nat \<Rightarrow> 32 word) option"
  e_open :: open_env

definition select_accept :: "select_env \<Rightarrow> sserver \<Rightarrow> sserver res" where
  "select_accept e s =
     res_bind (serv_accept (e_conn e) (e_stat e) (e_now e)) (\<lambda>a.
      let clifd = a_fd a; uid = (case a_uid a of Some u \<Rightarrow> u | None \<Rightarrow> 0) in
      if clifd < 0 then Inl (Err_sys ''serv_accept error'')
      else res_bind (client_add (e_mem e) (s_client s) clifd uid) (\<lambda>(i, cl).
        if clifd \<ge> FD_SETSIZE then Inl (Overrun ''allset'')
        else Inr (s\<lparr>s_client := cl, allset := insert clifd (allset s), maxfd := max clifd (maxfd s), s_maxi := max (int i) (s_maxi s),
          s_conns := (s_conns s)(clifd \<mapsto> uid)\<rparr>)))"

definition select_client :: "select_env \<Rightarrow> int set \<Rightarrow> nat \<Rightarrow> sserver \<Rightarrow> sserver res" where
  "select_client e rset i s =
     (let clifd = c_fd (s_client s ! i) in
      if clifd < 0 then Inr s
      else if clifd \<in> rset then (case e_read e clifd of
          Inl en \<Rightarrow> Inl (Err_sys ''read error'')
        | Inr buf \<Rightarrow>
            if buf = []
            then res_bind (client_del (s_client s) clifd) (\<lambda>cl.
              Inr (s\<lparr>s_client := cl, allset := allset s - {clifd}, s_conns := (s_conns s)(clifd := None)\<rparr>))
            else res_bind (request (e_open e) (s_glob s) (s_chans s clifd) buf clifd (c_uid (s_client s ! i))) (\<lambda>(g, c).
              Inr (s\<lparr>s_glob := g, s_chans := (s_chans s)(clifd := c)\<rparr>)))
      else Inr s)"

primrec select_clients :: "select_env \<Rightarrow> int set \<Rightarrow> nat list \<Rightarrow> sserver \<Rightarrow> sserver res" where
  "select_clients e rset [] s = Inr s"
| "select_clients e rset (i # is) s = res_bind (select_client e rset i s) (select_clients e rset is)"

definition select_turn :: "select_env \<Rightarrow> sserver \<Rightarrow> sserver res" where
  "select_turn e s =
     (if \<not> e_ready e then Inl (Err_sys ''select error'')
      else
        let rset = {fd \<in> allset s \<inter> e_set e. fd \<le> maxfd s} in
        if s_listenfd s \<in> rset then select_accept e s
        else select_clients e rset [0..<nat (s_maxi s + 1)] s)"

definition select_start :: "int \<Rightarrow> globals \<Rightarrow> sserver res" where
  "select_start listenfd g =
     (if listenfd < 0 then Inl (Err_sys ''serv_listen error'')
      else if listenfd \<ge> FD_SETSIZE then Inl (Overrun ''allset'')
      else Inr \<lparr>s_glob = g, s_client = [], allset = {listenfd}, maxfd = listenfd, s_maxi = -1, s_listenfd = listenfd,
        s_chans = (\<lambda>fd. \<lparr>csink = \<lparr>sent = [], script = []\<rparr>, passed = []\<rparr>), s_conns = (\<lambda>fd. None)\<rparr>)"

end
