(* ===== verification/Opend_Table.thy ===== *)
theory Opend_Table
  imports Opend_Model Machine
begin

text \<open>
  The tables of clients of \<open>apue2e/opend/client.c\<close> and \<open>apue2e/calld/client.c\<close> as a map from slots to connections: the contract
  of \<open>client_add\<close> and \<open>client_del\<close> that the loops rely on, and what follows from it for the
  connections that are open.
\<close>

section \<open>The contract\<close>

type_synonym slots = "nat \<rightharpoonup> int \<times> 32 word"

text \<open>The first free slot, and that no connection is in two slots.\<close>

definition first_free :: "slots \<Rightarrow> nat \<Rightarrow> bool" where
  "first_free f i \<longleftrightarrow> f i = None \<and> (\<forall>j<i. f j \<noteq> None)"

definition one_slot :: "slots \<Rightarrow> bool" where
  "one_slot f \<longleftrightarrow> (\<forall>i j fd u v. f i = Some (fd, u) \<longrightarrow> f j = Some (fd, v) \<longrightarrow> i = j)"

text \<open>The slots from \<open>lo\<close> on are the connections \<open>c\<close>.\<close>

definition agrees :: "nat \<Rightarrow> slots \<Rightarrow> (int \<rightharpoonup> 32 word) \<Rightarrow> bool" where
  "agrees lo f c \<longleftrightarrow> (\<forall>fd u. c fd = Some u \<longleftrightarrow> (\<exists>i\<ge>lo. f i = Some (fd, u)))"

definition in_slots :: "slots \<Rightarrow> int \<Rightarrow> bool" where
  "in_slots f fd \<longleftrightarrow> (\<exists>i u. f i = Some (fd, u))"

locale client_table =
  fixes slot :: "'t \<Rightarrow> slots"
    and add :: "'m option \<Rightarrow> 't \<Rightarrow> int \<Rightarrow> 32 word \<Rightarrow> (nat \<times> 't) res"
    and del :: "'t \<Rightarrow> int \<Rightarrow> 't res"
  assumes add_slot: "\<lbrakk>add mem t fd u = Inr (i, t'); 0 \<le> fd\<rbrakk> \<Longrightarrow> first_free (slot t) i \<and> slot t' = (slot t)(i \<mapsto> (fd, u))"
    and add_total: "\<exists>i t'. add (Some m) t fd u = Inr (i, t')"
    and del_slot: "\<lbrakk>one_slot (slot t); slot t i = Some (fd, u)\<rbrakk> \<Longrightarrow> \<exists>t'. del t fd = Inr t' \<and> slot t' = (slot t)(i := None)"
begin

lemma add_one_slot:
  assumes "add mem t fd u = Inr (i, t')" "0 \<le> fd" "one_slot (slot t)" "\<not> in_slots (slot t) fd"
  shows "one_slot (slot t')"
  using add_slot [OF assms(1,2)] assms(3,4) by (auto simp: one_slot_def in_slots_def)

lemma add_agrees:
  assumes "add mem t fd u = Inr (i, t')" "0 \<le> fd" "agrees lo (slot t) c" "\<not> in_slots (slot t) fd" "\<forall>j<lo. slot t j \<noteq> None"
  shows "agrees lo (slot t') (c(fd \<mapsto> u))"
proof -
  have f: "first_free (slot t) i" "slot t' = (slot t)(i \<mapsto> (fd, u))" using add_slot [OF assms(1,2)] by auto
  then have "lo \<le> i" using assms(5) by (auto simp: first_free_def not_le [symmetric])
  then have e: "(\<exists>j\<ge>lo. slot t' j = Some (x, v)) \<longleftrightarrow> (if x = fd then v = u else \<exists>j\<ge>lo. slot t j = Some (x, v))" for x v
  proof (cases "x = fd")
    case True
    moreover have "slot t j \<noteq> Some (fd, v)" for j using assms(4) by (auto simp: in_slots_def)
    ultimately show ?thesis unfolding f(2) using \<open>lo \<le> i\<close> by auto
  next
    case False
    have "j \<noteq> i" if "slot t j = Some (x, v)" for j using f(1) that by (auto simp: first_free_def)
    then show ?thesis unfolding f(2) using False by auto
  qed
  have "c x = Some v \<longleftrightarrow> (\<exists>j\<ge>lo. slot t j = Some (x, v))" for x v using assms(3) unfolding agrees_def by blast
  then show ?thesis unfolding agrees_def e by (simp only: fun_upd_apply option.inject split: if_split) blast
qed

lemma del_agrees:
  assumes "one_slot (slot t)" "slot t i = Some (fd, u)" "agrees lo (slot t) c" "lo \<le> i"
  shows "\<exists>t'. del t fd = Inr t' \<and> slot t' = (slot t)(i := None) \<and> one_slot (slot t') \<and> agrees lo (slot t') (c(fd := None))"
proof -
  obtain t' where d: "del t fd = Inr t'" and t': "slot t' = (slot t)(i := None)" using del_slot [OF assms(1,2)] by blast
  have "one_slot (slot t')" using assms(1) unfolding t' one_slot_def by simp
  moreover have "(\<exists>j\<ge>lo. slot t' j = Some (x, v)) \<longleftrightarrow> x \<noteq> fd \<and> (\<exists>j\<ge>lo. slot t j = Some (x, v))" for x v
  proof (cases "x = fd")
    case True
    have "j = i" if "slot t j = Some (fd, v)" for j using assms(1,2) that unfolding one_slot_def by blast
    then show ?thesis unfolding t' using True by auto
  next
    case False
    then have "j \<noteq> i" if "slot t j = Some (x, v)" for j using assms(2) that by auto
    then show ?thesis unfolding t' using False by auto
  qed
  then have "agrees lo (slot t') (c(fd := None))" using assms(3) unfolding agrees_def by simp
  ultimately show ?thesis using d t' by blast
qed

text \<open>The slot of a new connection is smaller than the number of descriptors.\<close>

lemma add_bound:
  assumes "add mem t fd u = Inr (i, t')" "0 \<le> fd" "fd < int n" "one_slot (slot t)" "\<not> in_slots (slot t) fd"
    "\<forall>j x v. slot t j = Some (x, v) \<longrightarrow> 0 \<le> x \<and> x < int n"
  shows "i < n"
proof -
  let ?f = "\<lambda>j. fst (the (slot t j))"
  have used: "\<exists>x v. slot t j = Some (x, v)" if "j < i" for j using add_slot [OF assms(1,2)] that by (auto simp: first_free_def)
  have "inj_on ?f {..<i}"
  proof (rule inj_onI)
    fix a b assume "a \<in> {..<i}" "b \<in> {..<i}" "?f a = ?f b"
    then show "a = b" using used [of a] used [of b] assms(4) by (auto simp: one_slot_def)
  qed
  moreover have "?f ` {..<i} \<subseteq> {0..<int n} - {fd}"
  proof (rule image_subsetI)
    fix j assume "j \<in> {..<i}"
    then obtain x v where "slot t j = Some (x, v)" using used [of j] by auto
    then show "?f j \<in> {0..<int n} - {fd}" using assms(5) assms(6) [rule_format, of j x v] by (auto simp: in_slots_def)
  qed
  ultimately have "card {..<i} \<le> card ({0..<int n} - {fd})" by (intro card_inj_on_le [of ?f]) auto
  moreover have "card ({0..<int n} - {fd}) = n - 1" using assms(2,3) by simp
  ultimately show ?thesis using assms(2,3) by simp
qed

end

section \<open>The table of the program\<close>

definition slot :: "Client list \<Rightarrow> slots" where
  "slot cl i = (if i < length cl \<and> c_fd (cl ! i) \<noteq> -1 then Some (c_fd (cl ! i), c_uid (cl ! i)) else None)"

lemma find_fd_Some: "find_fd fd cl = Some i \<longleftrightarrow> i < length cl \<and> c_fd (cl ! i) = fd \<and> (\<forall>j<i. c_fd (cl ! j) \<noteq> fd)"
proof (induction cl arbitrary: i)
  case (Cons c cl)
  then show ?case by (cases i) (auto simp: less_Suc_eq_0_disj)
qed simp

lemma find_fd_None: "find_fd fd cl = None \<longleftrightarrow> (\<forall>i<length cl. c_fd (cl ! i) \<noteq> fd)"
  by (induction cl) (auto simp: less_Suc_eq_0_disj)

lemma alloc_slot:
  assumes "client_alloc mem cl = Inr cl'"
  shows "slot cl' = slot cl" "length cl' = length cl + NALLOC" "find_fd (-1) cl' \<noteq> None"
proof -
  obtain m where c: "cl' = cl @ map (\<lambda>i. \<lparr>c_fd = -1, c_uid = m i\<rparr>) [0..<NALLOC]" using assms by (auto simp: client_alloc_def split: option.splits)
  then show "slot cl' = slot cl" "length cl' = length cl + NALLOC" by (auto simp: slot_def nth_append fun_eq_iff)
  show "find_fd (-1) cl' \<noteq> None" using c by (auto simp: find_fd_None nth_append NALLOC_def intro!: exI [of _ "length cl"])
qed

lemma found_slot:
  assumes "find_fd (-1) cl = Some i" "0 \<le> fd"
  shows "first_free (slot cl) i" "slot (cl[i := \<lparr>c_fd = fd, c_uid = u\<rparr>]) = (slot cl)(i \<mapsto> (fd, u))"
  using assms by (auto simp: find_fd_Some first_free_def slot_def fun_eq_iff nth_list_update)

text \<open>Two rounds of the search are enough, as the comment in the code says.\<close>

lemma search_enough: "client_search (Suc (Suc f)) mem cl fd u = client_search 2 mem cl fd u"
proof (cases "find_fd (-1) cl")
  case None
  show ?thesis
  proof (cases "client_alloc mem cl")
    case (Inr cl')
    then show ?thesis using None alloc_slot(3) [OF Inr] by (auto simp: numeral_2_eq_2)
  qed (use None in \<open>simp add: numeral_2_eq_2\<close>)
qed (simp add: numeral_2_eq_2)

lemma search_slot:
  assumes "client_search 2 mem cl fd u = Inr (i, cl')" "0 \<le> fd"
  shows "first_free (slot cl) i \<and> slot cl' = (slot cl)(i \<mapsto> (fd, u)) \<and> i < length cl' \<and> length cl \<le> length cl'"
proof (cases "find_fd (-1) cl")
  case None
  then obtain c2 where c2: "client_alloc mem cl = Inr c2" using assms(1) by (cases "client_alloc mem cl") (auto simp: numeral_2_eq_2)
  obtain k where k: "find_fd (-1) c2 = Some k" using alloc_slot(3) [OF c2] by blast
  then have "i = k" "cl' = c2[k := \<lparr>c_fd = fd, c_uid = u\<rparr>]" using assms(1) None c2 by (auto simp: numeral_2_eq_2)
  then show ?thesis using found_slot [OF k assms(2)] alloc_slot [OF c2] k by (simp add: find_fd_Some)
next
  case (Some k)
  then have "i = k" "cl' = cl[k := \<lparr>c_fd = fd, c_uid = u\<rparr>]" using assms(1) by (auto simp: numeral_2_eq_2)
  then show ?thesis using found_slot [OF Some assms(2)] Some by (simp add: find_fd_Some)
qed

lemma add_table:
  assumes "client_add mem cl fd u = Inr (i, cl')" "0 \<le> fd"
  shows "first_free (slot cl) i \<and> slot cl' = (slot cl)(i \<mapsto> (fd, u)) \<and> i < length cl' \<and> length cl \<le> length cl'"
proof (cases "cl = []")
  case True
  then obtain c1 where c1: "client_alloc mem cl = Inr c1" "client_search 2 mem c1 fd u = Inr (i, cl')"
    using assms(1) by (cases "client_alloc mem cl") (auto simp: client_add_def)
  then show ?thesis using search_slot [OF c1(2) assms(2)] alloc_slot [OF c1(1)] by simp
next
  case False
  then show ?thesis using search_slot [OF _ assms(2)] assms(1) by (simp add: client_add_def)
qed

lemma add_returns: "\<exists>i cl'. client_add (Some m) cl fd u = Inr (i, cl')"
proof -
  have "\<exists>i cl'. client_search 2 (Some m) c fd u = Inr (i, cl')" for c
  proof (cases "find_fd (-1) c")
    case None
    obtain c' where c': "client_alloc (Some m) c = Inr c'" by (simp add: client_alloc_def)
    then show ?thesis using None alloc_slot(3) [OF c'] by (auto simp: numeral_2_eq_2)
  qed (simp add: numeral_2_eq_2)
  then show ?thesis by (auto simp: client_add_def client_alloc_def)
qed

lemma add_halts:
  assumes "client_add mem cl fd u = Inl h"
  shows "h = Err_sys ''can't alloc for client array''"
proof (cases mem)
  case None
  then show ?thesis using assms by (auto simp: client_add_def client_alloc_def numeral_2_eq_2 split: if_splits option.splits)
next
  case (Some m)
  then show ?thesis using assms add_returns [of m cl fd u] by auto
qed

lemma del_table:
  assumes "one_slot (slot cl)" "slot cl i = Some (fd, u)"
  shows "client_del cl fd = Inr (cl[i := (cl ! i)\<lparr>c_fd := -1\<rparr>])" "slot (cl[i := (cl ! i)\<lparr>c_fd := -1\<rparr>]) = (slot cl)(i := None)"
proof -
  have i: "i < length cl" "c_fd (cl ! i) = fd" "fd \<noteq> -1" using assms(2) by (auto simp: slot_def split: if_splits)
  have "c_fd (cl ! j) \<noteq> fd" if "j < i" for j
  proof
    assume "c_fd (cl ! j) = fd"
    then have "slot cl j = Some (fd, c_uid (cl ! j))" using i that by (auto simp: slot_def)
    then show False using assms that unfolding one_slot_def by blast
  qed
  then have "find_fd fd cl = Some i" using i by (simp add: find_fd_Some)
  then show "client_del cl fd = Inr (cl[i := (cl ! i)\<lparr>c_fd := -1\<rparr>])" by (simp add: client_del_def)
  show "slot (cl[i := (cl ! i)\<lparr>c_fd := -1\<rparr>]) = (slot cl)(i := None)" using i by (auto simp: slot_def fun_eq_iff nth_list_update)
qed

interpretation tab: client_table slot client_add client_del
proof unfold_locales
  show "first_free (slot t) i \<and> slot t' = (slot t)(i \<mapsto> (fd, u))" if "client_add mem t fd u = Inr (i, t')" "0 \<le> fd" for mem t fd u i t'
    using add_table [OF that] by blast
  show "\<exists>i t'. client_add (Some m) t fd u = Inr (i, t')" for m t fd u by (rule add_returns)
  show "\<exists>t'. client_del t fd = Inr t' \<and> slot t' = (slot t)(i := None)" if "one_slot (slot t)" "slot t i = Some (fd, u)" for t i fd u
    using del_table [OF that] by blast
qed

text \<open>The descriptor of a connection that is let in is the one \<open>accept\<close> returned.\<close>

lemma serv_accept_fd: "serv_accept conn st now = Inr a \<Longrightarrow> 0 \<le> a_fd a \<Longrightarrow> a_fd a = fst conn"
  by (auto simp: serv_accept_def Let_def refuse_def split: prod.splits if_splits option.splits)

end
