(* ===== verification/Opend_Inv.thy ===== *)
theory Opend_Inv
  imports Opend_Table
begin

text \<open>
  The two loops of the open server: the well-formed states of each, that a turn keeps them, and that
  a turn of one loop has the effect of one or two turns of the other.
\<close>

declare One_nat_def [simp del]

section \<open>The loop with poll\<close>

definition fd_of :: "slots \<Rightarrow> nat \<Rightarrow> int" where
  "fd_of f i = (case f i of Some (fd, u) \<Rightarrow> fd | None \<Rightarrow> -1)"

text \<open>\<open>l\<close> is the descriptor that is listened on, \<open>n\<close> the number of descriptors a process can have.\<close>

definition table_ok :: "int \<Rightarrow> nat \<Rightarrow> slots \<Rightarrow> bool" where
  "table_ok l n f \<longleftrightarrow> one_slot f \<and> (\<forall>i fd u. f i = Some (fd, u) \<longrightarrow> 0 \<le> fd \<and> fd < int n)"

definition poll_inv :: "int \<Rightarrow> nat \<Rightarrow> server \<Rightarrow> bool" where
  "poll_inv l n s \<longleftrightarrow>
     table_ok l n (slot (client s)) \<and> slot (client s) 0 = Some (l, 0) \<and> agrees 1 (slot (client s)) (conns s) \<and>
     length (pollfd s) = n \<and> maxi s < n \<and> maxi s < length (client s) \<and>
     (\<forall>c\<in>set (client s). -1 \<le> c_fd c) \<and>
     (\<forall>i>maxi s. slot (client s) i = None) \<and>
     (\<forall>i\<le>maxi s. p_fd (pollfd s ! i) = fd_of (slot (client s)) i)"

text \<open>What the kernel promises of a new connection: a descriptor that is not in use.\<close>

definition fresh_conn :: "int \<Rightarrow> nat \<Rightarrow> (int \<rightharpoonup> 32 word) \<Rightarrow> int \<Rightarrow> bool" where
  "fresh_conn l n c fd \<longleftrightarrow> fd < int n \<and> fd \<noteq> l \<and> c fd = None"

lemma poll_invD:
  assumes "poll_inv l n s"
  shows "table_ok l n (slot (client s))" "one_slot (slot (client s))" "slot (client s) 0 = Some (l, 0)" "agrees 1 (slot (client s)) (conns s)"
    "length (pollfd s) = n" "maxi s < n" "maxi s < length (client s)"
    "maxi s < i \<Longrightarrow> slot (client s) i = None" "i \<le> maxi s \<Longrightarrow> p_fd (pollfd s ! i) = fd_of (slot (client s)) i"
    "c \<in> set (client s) \<Longrightarrow> -1 \<le> c_fd c" "slot (client s) i = Some (fd, u) \<Longrightarrow> 0 \<le> fd \<and> fd < int n"
  using assms unfolding poll_inv_def table_ok_def by blast+

lemma not_in_table:
  assumes "agrees 1 f c" "f 0 = Some (l, u)" "fd \<noteq> l" "c fd = None"
  shows "\<not> in_slots f fd"
proof
  assume "in_slots f fd"
  then obtain i v where i: "f i = Some (fd, v)" by (auto simp: in_slots_def)
  then have "1 \<le> i" using assms(2,3) by (cases i) (auto simp: One_nat_def)
  then have "c fd = Some v" using i assms(1) unfolding agrees_def by blast
  then show False using assms(4) by simp
qed

lemma entry_of_slot:
  assumes "slot cl i = Some (fd, u)"
  shows "c_fd (cl ! i) = fd" "c_uid (cl ! i) = u" "i < length cl"
  using assms by (auto simp: slot_def split: if_splits)

lemma entry_free:
  assumes "slot cl i = None" "i < length cl"
  shows "c_fd (cl ! i) = -1"
  using assms by (auto simp: slot_def split: if_splits)

lemma sys_poll_fields:
  "client (sys_poll e s) = client s" "maxi (sys_poll e s) = maxi s" "conns (sys_poll e s) = conns s" "chans (sys_poll e s) = chans s"
  "glob (sys_poll e s) = glob s" "length (pollfd (sys_poll e s)) = length (pollfd s)"
  by (simp_all add: sys_poll_def)

lemma sys_poll_at:
  assumes "i < length (pollfd s)"
  shows "p_fd (pollfd (sys_poll e s) ! i) = p_fd (pollfd s ! i)"
    "i \<le> maxi s \<Longrightarrow> p_in (pollfd (sys_poll e s) ! i) \<longleftrightarrow> 0 \<le> p_fd (pollfd s ! i) \<and> t_in e i"
    "i \<le> maxi s \<Longrightarrow> p_hup (pollfd (sys_poll e s) ! i) \<longleftrightarrow> 0 \<le> p_fd (pollfd s ! i) \<and> t_hup e i"
    "maxi s < i \<Longrightarrow> pollfd (sys_poll e s) ! i = pollfd s ! i"
  using assms by (simp_all add: sys_poll_def Let_def)

lemma sys_poll_inv: "poll_inv l n s \<Longrightarrow> poll_inv l n (sys_poll e s)"
  unfolding poll_inv_def by (auto simp: sys_poll_fields sys_poll_at)

lemma add_client_inv:
  assumes inv: "poll_inv l n s" and add: "client_add mem (client s) fd u = Inr (i, cl)" and fd: "0 \<le> fd" "fresh_conn l n (conns s) fd"
  shows "i < n" "0 < i"
    "poll_inv l n (s\<lparr>client := cl, pollfd := (pollfd s)[i := (pollfd s ! i)\<lparr>p_fd := fd\<rparr>], maxi := max i (maxi s), conns := (conns s)(fd \<mapsto> u)\<rparr>)"
proof -
  note d = poll_invD [OF inv]
  have new: "\<not> in_slots (slot (client s)) fd" using fd(2) by (intro not_in_table [OF d(4) d(3)]) (auto simp: fresh_conn_def)
  have f: "first_free (slot (client s)) i" "slot cl = (slot (client s))(i \<mapsto> (fd, u))" "i < length cl" "length (client s) \<le> length cl"
    using add_table [OF add fd(1)] by auto
  show i: "i < n" using d(11) fd by (intro tab.add_bound [OF add fd(1) _ d(2) new]) (auto simp: fresh_conn_def)
  show i0: "0 < i" using f(1) d(3) by (cases i) (auto simp: first_free_def)
  have "i \<le> Suc (maxi s)" using f(1) d(8) [of "Suc (maxi s)"] by (meson first_free_def le_neq_implies_less lessI not_le_imp_less)
  then have above: "j \<le> maxi s" if "j \<le> max i (maxi s)" "j \<noteq> i" for j using that by linarith
  have one: "one_slot (slot cl)" using tab.add_one_slot [OF add fd(1) d(2) new] .
  have rng: "0 \<le> x \<and> x < int n" if "slot cl j = Some (x, v)" for j x v
    using that d(11) [of j x v] fd unfolding f(2) by (auto simp: fresh_conn_def split: if_splits)
  have ag: "agrees 1 (slot cl) ((conns s)(fd \<mapsto> u))" using d(3) by (intro tab.add_agrees [OF add fd(1) d(4) new]) (simp add: One_nat_def)
  have lo: "-1 \<le> c_fd c" if c: "c \<in> set cl" for c
  proof -
    obtain j where j: "j < length cl" "c = cl ! j" using c by (metis in_set_conv_nth)
    show ?thesis using rng [of j] entry_of_slot(1) [of cl j] entry_free [of cl j] j by (cases "slot cl j") auto
  qed
  have pf: "p_fd ((pollfd s)[i := (pollfd s ! i)\<lparr>p_fd := fd\<rparr>] ! j) = fd_of (slot cl) j" if "j \<le> max i (maxi s)" for j
    using d(9) [OF above [OF that]] i unfolding f(2) by (cases "j = i") (simp_all add: d(5) fd_of_def)
  show "poll_inv l n (s\<lparr>client := cl, pollfd := (pollfd s)[i := (pollfd s ! i)\<lparr>p_fd := fd\<rparr>], maxi := max i (maxi s), conns := (conns s)(fd \<mapsto> u)\<rparr>)"
    unfolding poll_inv_def table_ok_def using one rng ag lo pf d(3,5,6,7,8) i i0 f(3,4) by (auto simp: f(2))
qed

lemma hungup_inv:
  assumes inv: "poll_inv l n s" and i: "slot (client s) i = Some (fd, u)" "0 < i"
  shows "\<exists>cl. hungup s i fd = Inr (s\<lparr>client := cl, pollfd := (pollfd s)[i := (pollfd s ! i)\<lparr>p_fd := -1\<rparr>], conns := (conns s)(fd := None)\<rparr>) \<and>
    slot cl = (slot (client s))(i := None) \<and> length cl = length (client s) \<and>
    poll_inv l n (s\<lparr>client := cl, pollfd := (pollfd s)[i := (pollfd s ! i)\<lparr>p_fd := -1\<rparr>], conns := (conns s)(fd := None)\<rparr>)"
proof -
  note d = poll_invD [OF inv]
  let ?cl = "(client s)[i := (client s ! i)\<lparr>c_fd := -1\<rparr>]"
  note t = del_table [OF d(2) i(1)]
  obtain t' where "client_del (client s) fd = Inr t'" "one_slot (slot t')" "agrees 1 (slot t') ((conns s)(fd := None))"
    using tab.del_agrees [OF d(2) i(1) d(4)] i(2) by (auto simp: One_nat_def)
  then have a: "one_slot (slot ?cl)" "agrees 1 (slot ?cl) ((conns s)(fd := None))" using t(1) by simp_all
  have im: "i \<le> maxi s" using d(8) [of i] i(1) by (metis not_le_imp_less option.distinct(1))
  have lo: "-1 \<le> c_fd c" if "c \<in> set ?cl" for c using set_update_subset_insert [of "client s" i] that d(10) by fastforce
  have "poll_inv l n (s\<lparr>client := ?cl, pollfd := (pollfd s)[i := (pollfd s ! i)\<lparr>p_fd := -1\<rparr>], conns := (conns s)(fd := None)\<rparr>)"
    unfolding poll_inv_def table_ok_def using a lo d(3,5,6,7,8,9,11) i(2) im
    by (auto simp: t(2) fd_of_def nth_list_update split: if_splits)
  moreover have "hungup s i fd = Inr (s\<lparr>client := ?cl, pollfd := (pollfd s)[i := (pollfd s ! i)\<lparr>p_fd := -1\<rparr>], conns := (conns s)(fd := None)\<rparr>)"
    by (simp add: hungup_def t(1))
  ultimately show ?thesis using t(2) by auto
qed

end
