(* ===== verification/Opend_Loops.thy ===== *)
theory Opend_Loops
  imports Opend_Inv
begin

text \<open>
  What a turn of the loops of the open server can end in, the states that are reached, and that the
  loop with \<open>poll\<close> does what the loop with \<open>select\<close> does.
\<close>

declare One_nat_def [simp del]

section \<open>How a request ends\<close>

definition request_halts :: "halt set" where
  "request_halts = {Overrun ''errmsg'', Overrun ''buf'', Overrun ''syslog'', Overrun ''log_msg'', Err_sys ''send_fd error''}"

lemma send_err_total [simp]: "send_err mem c code m \<noteq> Inl h"
  using writen_total [of "csink c" m] by (auto simp: send_err_def Let_def split: prod.splits if_splits)

lemma into_errmsg_ends: "into_errmsg m = Inl h \<Longrightarrow> h \<in> request_halts"
  by (simp add: into_errmsg_def request_halts_def split: if_splits)

lemma log_doit_ends: "log_doit d m = Inl h \<Longrightarrow> h \<in> request_halts"
  by (simp add: log_doit_def request_halts_def Let_def split: if_splits)

lemma log_format_ends: "log_format d m = Inl h \<Longrightarrow> h \<in> request_halts"
  using log_doit_ends by (simp add: log_format_def request_halts_def split: if_splits)

lemmas request_parts = into_errmsg_ends log_doit_ends log_format_ends

lemma send_fd_ends: "Err_sys ''send_fd error'' \<in> request_halts"
  by (simp add: request_halts_def)

lemma request_ends: "request e g c buf fd uid = Inl h \<Longrightarrow> h \<in> request_halts"
  unfolding request_def
  by (auto simp: res_bind_Inl Let_def send_fd_ends split: if_splits prod.splits sum.splits dest: request_parts)

section \<open>The loop with poll\<close>

definition turn_halts :: "halt set" where
  "turn_halts = request_halts \<union> {Err_sys ''read error'', Err_sys ''poll error'', Err_sys ''serv_accept error'',
     Err_sys ''can't alloc for client array'', Overrun ''sun_path''}"

lemma turn_ends [simp]:
  "Err_sys ''read error'' \<in> turn_halts" "Err_sys ''poll error'' \<in> turn_halts" "Err_sys ''serv_accept error'' \<in> turn_halts"
  "Err_sys ''can't alloc for client array'' \<in> turn_halts" "Overrun ''sun_path'' \<in> turn_halts" "h \<in> request_halts \<Longrightarrow> h \<in> turn_halts"
  by (simp_all add: turn_halts_def)

lemma poll_client_step:
  assumes inv: "poll_inv l n s" and i: "0 < i" "i \<le> maxi s"
  shows "(\<exists>h\<in>turn_halts. poll_client e i s = Inl h) \<or> (\<exists>s'. poll_client e i s = Inr s' \<and> poll_inv l n s' \<and> maxi s' = maxi s)"
proof (cases "slot (client s) i")
  case None
  then have "poll_client e i s = Inr s" using entry_free [OF None] poll_invD(7) [OF inv] i by (simp add: poll_client_def)
  then show ?thesis using inv by blast
next
  case (Some x)
  then obtain fd u where f: "slot (client s) i = Some (fd, u)" by (cases x) auto
  note en = entry_of_slot [OF f]
  have fd: "0 \<le> fd" using poll_invD(11) [OF inv f] by blast
  obtain s' where hang: "hungup s i fd = Inr s'" "poll_inv l n s'" "maxi s' = maxi s" using hungup_inv [OF inv f i(1)] by auto
  have sv: "(\<exists>h\<in>turn_halts. serve e s fd buf u = Inl h) \<or> (\<exists>s'. serve e s fd buf u = Inr s' \<and> poll_inv l n s' \<and> maxi s' = maxi s)" for buf
  proof (cases "request (t_open e) (glob s) (chans s fd) buf fd u")
    case (Inl h)
    then show ?thesis using request_ends [OF Inl] by (simp add: serve_def)
  next
    case (Inr gc)
    then show ?thesis using inv by (cases gc) (simp add: serve_def poll_inv_def)
  qed
  show ?thesis using inv fd hang sv by (auto simp: poll_client_def Let_def en split: sum.splits)
qed

lemma poll_clients_step:
  assumes "poll_inv l n s" "\<forall>i\<in>set is. 0 < i \<and> i \<le> maxi s"
  shows "(\<exists>h\<in>turn_halts. poll_clients e is s = Inl h) \<or> (\<exists>s'. poll_clients e is s = Inr s' \<and> poll_inv l n s')"
  using assms
proof (induction "is" arbitrary: s)
  case (Cons i "is")
  then consider h where "h \<in> turn_halts" "poll_client e i s = Inl h" | s' where "poll_client e i s = Inr s'" "poll_inv l n s'" "maxi s' = maxi s"
    using poll_client_step [of l n s i e] by auto
  then show ?case using Cons by cases simp_all
qed simp

lemma serv_accept_halts: "serv_accept conn st now = Inl h \<Longrightarrow> h = Overrun ''sun_path''"
  by (auto simp: serv_accept_def Let_def split: prod.splits if_splits option.splits)

text \<open>A turn whose new connection, if there is one, has a descriptor that was free.\<close>

definition fresh_turn :: "int \<Rightarrow> nat \<Rightarrow> (int \<rightharpoonup> 32 word) \<Rightarrow> int \<times> string \<Rightarrow> bool" where
  "fresh_turn l n c conn \<longleftrightarrow> 0 \<le> fst conn \<longrightarrow> fresh_conn l n c (fst conn)"

text \<open>The state after a client was added in slot \<open>i\<close>.\<close>

definition with_client :: "server \<Rightarrow> nat \<Rightarrow> Client list \<Rightarrow> int \<Rightarrow> 32 word \<Rightarrow> server" where
  "with_client s i cl fd u =
     s\<lparr>client := cl, pollfd := (pollfd s)[i := (pollfd s ! i)\<lparr>p_fd := fd\<rparr>], maxi := max i (maxi s), conns := (conns s)(fd \<mapsto> u)\<rparr>"

lemma poll_accept_cases:
  assumes inv: "poll_inv l n s" and fr: "fresh_turn l n (conns s) (t_conn e)"
  shows "(\<exists>h\<in>turn_halts. poll_accept e s = Inl h) \<or>
    (\<exists>a u i cl. serv_accept (t_conn e) (t_stat e) (t_now e) = Inr a \<and> 0 \<le> a_fd a \<and> fresh_conn l n (conns s) (a_fd a) \<and>
      u = (case a_uid a of Some u \<Rightarrow> u | None \<Rightarrow> 0) \<and> client_add (t_mem e) (client s) (a_fd a) u = Inr (i, cl) \<and>
      poll_accept e s = Inr (with_client s i cl (a_fd a) u) \<and> poll_inv l n (with_client s i cl (a_fd a) u))"
proof (cases "serv_accept (t_conn e) (t_stat e) (t_now e)")
  case (Inl h)
  then show ?thesis using serv_accept_halts [OF Inl] by (simp add: poll_accept_def)
next
  case (Inr a)
  show ?thesis
  proof (cases "0 \<le> a_fd a")
    case False
    then show ?thesis using Inr by (simp add: poll_accept_def)
  next
    case True
    let ?u = "case a_uid a of Some u \<Rightarrow> u | None \<Rightarrow> 0"
    have f: "fresh_conn l n (conns s) (a_fd a)" using fr serv_accept_fd [OF Inr True] True by (simp add: fresh_turn_def)
    show ?thesis
    proof (cases "client_add (t_mem e) (client s) (a_fd a) ?u")
      case (Inl h)
      then show ?thesis using add_halts [OF Inl] Inr True by (simp add: poll_accept_def)
    next
      case ic: (Inr ic)
      then obtain i cl where c: "client_add (t_mem e) (client s) (a_fd a) ?u = Inr (i, cl)" by (cases ic) auto
      note ad = add_client_inv [OF inv c True f]
      have "poll_accept e s = Inr (with_client s i cl (a_fd a) ?u)" using Inr True c ad(1) poll_invD(5) [OF inv]
        by (simp add: poll_accept_def with_client_def Let_def)
      then show ?thesis using Inr True f c ad(3) by (auto simp: with_client_def)
    qed
  qed
qed

lemma poll_turn_step:
  assumes inv: "poll_inv l n s" and fr: "fresh_turn l n (conns s) (t_conn e)"
  shows "(\<exists>h\<in>turn_halts. poll_turn e s = Inl h) \<or> (\<exists>s'. poll_turn e s = Inr s' \<and> poll_inv l n s')"
proof (cases "t_ready e")
  case True
  let ?s = "sys_poll e s"
  have i: "poll_inv l n ?s" using sys_poll_inv [OF inv] .
  have "(\<exists>h\<in>turn_halts. (if p_in (pollfd ?s ! 0) then poll_accept e ?s else Inr ?s) = Inl h) \<or>
      (\<exists>s'. (if p_in (pollfd ?s ! 0) then poll_accept e ?s else Inr ?s) = Inr s' \<and> poll_inv l n s')"
    using poll_accept_cases [OF i, of e] fr i by (auto simp: sys_poll_fields)
  then show ?thesis
  proof (elim disjE bexE exE conjE)
    fix s' assume s': "(if p_in (pollfd ?s ! 0) then poll_accept e ?s else Inr ?s) = Inr s'" "poll_inv l n s'"
    have "poll_turn e s = poll_clients e [1..<Suc (maxi s')] s'" using True s'(1) by (simp add: poll_turn_def)
    then show ?thesis using poll_clients_step [OF s'(2), of "[1..<Suc (maxi s')]" e] by (auto simp: One_nat_def)
  qed (use True in \<open>auto simp: poll_turn_def\<close>)
qed (simp add: poll_turn_def)

definition poll_started :: "int \<Rightarrow> nat \<Rightarrow> server \<Rightarrow> bool" where
  "poll_started l n s \<longleftrightarrow> l < int n \<and> (\<exists>mem ps g. length ps = n \<and> poll_start mem (Some ps) l g = Inr s)"

definition poll_step :: "int \<Rightarrow> nat \<Rightarrow> server \<Rightarrow> server \<Rightarrow> bool" where
  "poll_step l n s s' \<longleftrightarrow> (\<exists>e. fresh_turn l n (conns s) (t_conn e) \<and> poll_turn e s = Inr s')"

lemma poll_started_inv:
  assumes "poll_started l n s"
  shows "poll_inv l n s"
proof -
  obtain mem ps g where s: "length ps = n" "poll_start mem (Some ps) l g = Inr s" "l < int n" using assms by (auto simp: poll_started_def)
  then have l: "0 \<le> l" by (simp add: poll_start_def split: if_splits)
  then obtain i cl where a: "client_add mem [] l 0 = Inr (i, cl)" using s(2) by (cases "client_add mem [] l 0") (auto simp: poll_start_def)
  note t = add_table [OF a l]
  have e: "slot [] = (\<lambda>i. None)" by (simp add: slot_def fun_eq_iff)
  then have i: "i = 0" using t by (auto simp: first_free_def)
  have sl: "slot cl = (\<lambda>j. if j = 0 then Some (l, 0) else None)" using t unfolding e i by auto
  have "-1 \<le> c_fd c" if c: "c \<in> set cl" for c
  proof -
    obtain j where j: "j < length cl" "c = cl ! j" using c by (metis in_set_conv_nth)
    then have "slot cl j = (if j = 0 then Some (l, 0) else None)" by (simp add: sl)
    then show ?thesis using j l entry_of_slot(1) [of cl j l 0] entry_free [of cl j] by (cases "j = 0") auto
  qed
  moreover have "0 < n" "0 < length cl" using s(3) l t i by auto
  moreover have "client s = cl" "pollfd s = ps[0 := (ps ! 0)\<lparr>p_fd := l\<rparr>]" "maxi s = 0" "conns s = (\<lambda>fd. None)" using s(2) a l by (auto simp: poll_start_def)
  moreover have "table_ok l n (slot cl)" "agrees 1 (slot cl) (\<lambda>fd. None)"
    unfolding sl table_ok_def one_slot_def agrees_def using l s(3) by (simp_all add: One_nat_def)
  ultimately show ?thesis unfolding poll_inv_def using s(1) by (simp add: sl fd_of_def)
qed

interpretation polls: invariant "poll_started l n" "poll_step l n" "poll_inv l n" for l n
proof unfold_locales
  show "poll_inv l n s" if "poll_started l n s" for s using poll_started_inv [OF that] .
  show "poll_inv l n s'" if iv: "poll_inv l n s" "poll_step l n s s'" for s s'
  proof -
    obtain e where "fresh_turn l n (conns s) (t_conn e)" "poll_turn e s = Inr s'" using iv(2) by (auto simp: poll_step_def)
    then show ?thesis using poll_turn_step [OF iv(1), of e] by auto
  qed
qed

end
