(* ===== verification/Opend_Select.thy ===== *)
theory Opend_Select
  imports Opend_Loops
begin

text \<open>
  The loop of the open server with \<open>select\<close>: its well-formed states, and that the loop with \<open>poll\<close> has
  the same effect on the clients, turn by turn.
\<close>

declare One_nat_def [simp del]

section \<open>Well-formed states\<close>

definition sel_inv :: "int \<Rightarrow> nat \<Rightarrow> sserver \<Rightarrow> bool" where
  "sel_inv l n t \<longleftrightarrow>
     table_ok l n (slot (s_client t)) \<and> \<not> in_slots (slot (s_client t)) l \<and> agrees 0 (slot (s_client t)) (s_conns t) \<and>
     0 \<le> l \<and> l < int n \<and> s_listenfd t = l \<and> allset t = insert l (dom (s_conns t)) \<and> (\<forall>fd\<in>allset t. fd \<le> maxfd t) \<and>
     -1 \<le> s_maxi t \<and> s_maxi t < int (length (s_client t)) \<and>
     (\<forall>i. s_maxi t < int i \<longrightarrow> slot (s_client t) i = None)"

lemma sel_invD:
  assumes "sel_inv l n t"
  shows "table_ok l n (slot (s_client t))" "one_slot (slot (s_client t))" "\<not> in_slots (slot (s_client t)) l" "agrees 0 (slot (s_client t)) (s_conns t)"
    "0 \<le> l \<and> l < int n" "s_listenfd t = l" "allset t = insert l (dom (s_conns t))" "fd \<in> allset t \<Longrightarrow> fd \<le> maxfd t"
    "-1 \<le> s_maxi t \<and> s_maxi t < int (length (s_client t))"
    "s_maxi t < int i \<Longrightarrow> slot (s_client t) i = None" "slot (s_client t) i = Some (fd, u) \<Longrightarrow> 0 \<le> fd \<and> fd < int n"
  using assms unfolding sel_inv_def table_ok_def by blast+

lemma agrees_dom: "agrees lo f c \<Longrightarrow> lo \<le> i \<Longrightarrow> f i = Some (fd, u) \<Longrightarrow> c fd = Some u"
  unfolding agrees_def by blast

definition sel_gone :: "sserver \<Rightarrow> Client list \<Rightarrow> int \<Rightarrow> sserver" where
  "sel_gone t cl fd = t\<lparr>s_client := cl, allset := allset t - {fd}, s_conns := (s_conns t)(fd := None)\<rparr>"

definition sel_new :: "sserver \<Rightarrow> nat \<Rightarrow> Client list \<Rightarrow> int \<Rightarrow> 32 word \<Rightarrow> sserver" where
  "sel_new t i cl fd u = t\<lparr>s_client := cl, allset := insert fd (allset t), maxfd := max fd (maxfd t), s_maxi := max (int i) (s_maxi t),
     s_conns := (s_conns t)(fd \<mapsto> u)\<rparr>"

lemma sel_gone_inv:
  assumes inv: "sel_inv l n t" and i: "slot (s_client t) i = Some (fd, u)"
  shows "\<exists>cl. client_del (s_client t) fd = Inr cl \<and> slot cl = (slot (s_client t))(i := None) \<and> sel_inv l n (sel_gone t cl fd)"
proof -
  note d = sel_invD [OF inv]
  let ?cl = "(s_client t)[i := (s_client t ! i)\<lparr>c_fd := -1\<rparr>]"
  note c = del_table [OF d(2) i]
  obtain t' where "client_del (s_client t) fd = Inr t'" "one_slot (slot t')" "agrees 0 (slot t') ((s_conns t)(fd := None))"
    using tab.del_agrees [OF d(2) i d(4)] by auto
  then have a: "one_slot (slot ?cl)" "agrees 0 (slot ?cl) ((s_conns t)(fd := None))" using c(1) by simp_all
  have l: "fd \<noteq> l" using d(3) i by (auto simp: in_slots_def)
  have "table_ok l n (slot ?cl)" using a(1) unfolding table_ok_def c(2) by simp (blast dest: d(11))
  moreover have "\<not> in_slots (slot ?cl) l" using d(3) unfolding in_slots_def c(2) by simp
  moreover have "allset t - {fd} = insert l (dom ((s_conns t)(fd := None)))" using d(7) l by auto
  moreover have "\<forall>j. s_maxi t < int j \<longrightarrow> slot ?cl j = None" using d(10) unfolding c(2) by simp
  moreover have "\<forall>x\<in>allset t - {fd}. x \<le> maxfd t" using d(8) by blast
  ultimately have "sel_inv l n (sel_gone t ?cl fd)" using a(2) d(5,6,9) by (simp add: sel_inv_def sel_gone_def)
  then show ?thesis using c by blast
qed

lemma sel_new_inv:
  assumes inv: "sel_inv l n t" and add: "client_add mem (s_client t) fd u = Inr (i, cl)" and fd: "0 \<le> fd" "fresh_conn l n (s_conns t) fd"
  shows "sel_inv l n (sel_new t i cl fd u)"
proof -
  note d = sel_invD [OF inv]
  have new: "\<not> in_slots (slot (s_client t)) fd"
  proof
    assume "in_slots (slot (s_client t)) fd"
    then obtain j v where "slot (s_client t) j = Some (fd, v)" by (auto simp: in_slots_def)
    then show False using agrees_dom [OF d(4), of j fd v] fd(2) by (simp add: fresh_conn_def)
  qed
  have f: "slot cl = (slot (s_client t))(i \<mapsto> (fd, u))" "i < length cl" "length (s_client t) \<le> length cl"
    using add_table [OF add fd(1)] by auto
  have one: "one_slot (slot cl)" using tab.add_one_slot [OF add fd(1) d(2) new] .
  have ag: "agrees 0 (slot cl) ((s_conns t)(fd \<mapsto> u))" by (intro tab.add_agrees [OF add fd(1) d(4) new]) simp
  have fl: "fd < int n" "fd \<noteq> l" using fd(2) by (simp_all add: fresh_conn_def)
  have "table_ok l n (slot cl)" using one fl fd(1) unfolding table_ok_def f(1) by simp (blast dest: d(11))
  moreover have "\<not> in_slots (slot cl) l" using d(3) fl(2) unfolding in_slots_def f(1) by simp
  moreover have "insert fd (allset t) = insert l (dom ((s_conns t)(fd \<mapsto> u)))" using d(7) by auto
  moreover have "\<forall>x\<in>insert fd (allset t). x \<le> max fd (maxfd t)" using d(8) by fastforce
  moreover have "\<forall>j. max (int i) (s_maxi t) < int j \<longrightarrow> slot cl j = None" using d(10) unfolding f(1) by simp
  moreover have "max (int i) (s_maxi t) < int (length cl)" using f d(9) by simp
  ultimately show ?thesis using ag d(5,6,9) by (simp add: sel_inv_def sel_new_def)
qed

section \<open>One loop for the other\<close>

text \<open>The same clients, with the entry of the loop with \<open>poll\<close> for its own socket in front; flags of entries not yet used are clear.\<close>

definition same_server :: "int \<Rightarrow> nat \<Rightarrow> server \<Rightarrow> sserver \<Rightarrow> bool" where
  "same_server l n s t \<longleftrightarrow> poll_inv l n s \<and> sel_inv l n t \<and>
     (\<forall>i. slot (client s) (Suc i) = slot (s_client t) i) \<and>
     glob s = s_glob t \<and> chans s = s_chans t \<and> conns s = s_conns t \<and> int (maxi s) = s_maxi t + 1 \<and>
     (\<forall>i. maxi s < i \<and> i < n \<longrightarrow> \<not> p_in (pollfd s ! i) \<and> \<not> p_hup (pollfd s ! i))"

lemma same_serverD:
  assumes "same_server l n s t"
  shows "poll_inv l n s" "sel_inv l n t" "slot (client s) (Suc i) = slot (s_client t) i"
    "glob s = s_glob t" "chans s = s_chans t" "conns s = s_conns t" "int (maxi s) = s_maxi t + 1"
    "maxi s < i \<Longrightarrow> i < n \<Longrightarrow> \<not> p_in (pollfd s ! i) \<and> \<not> p_hup (pollfd s ! i)"
  using assms unfolding same_server_def by blast+

text \<open>Entry by entry, the events the two calls have reported mean the same.\<close>

definition same_flags :: "turn_env \<Rightarrow> select_env \<Rightarrow> int set \<Rightarrow> server \<Rightarrow> bool" where
  "same_flags e e' rset s \<longleftrightarrow> (\<forall>i fd u. slot (client s) i = Some (fd, u) \<longrightarrow> 0 < i \<longrightarrow>
     (let p = pollfd s ! i in
      (fd \<in> rset \<longleftrightarrow> p_in p \<or> p_hup p) \<and> (p_hup p \<longrightarrow> e_read e' fd = Inr []) \<and> (p_in p \<and> \<not> p_hup p \<longrightarrow> t_read e fd = e_read e' fd)))"

abbreviation matched :: "int \<Rightarrow> nat \<Rightarrow> turn_env \<Rightarrow> select_env \<Rightarrow> int set \<Rightarrow> server \<Rightarrow> sserver \<Rightarrow> bool" where
  "matched l n e e' rset s t \<equiv> same_server l n s t \<and> same_flags e e' rset s"

lemma same_flagsD:
  assumes "same_flags e e' rset s" "slot (client s) i = Some (fd, u)" "0 < i"
  shows "fd \<in> rset \<longleftrightarrow> p_in (pollfd s ! i) \<or> p_hup (pollfd s ! i)" "p_hup (pollfd s ! i) \<Longrightarrow> e_read e' fd = Inr []"
    "p_in (pollfd s ! i) \<Longrightarrow> \<not> p_hup (pollfd s ! i) \<Longrightarrow> t_read e fd = e_read e' fd"
  using assms unfolding same_flags_def Let_def by blast+

lemma gone_matches:
  assumes m: "matched l n e e' rset s t" and i: "slot (client s) (Suc i) = Some (fd, u)"
  shows "\<exists>s' cl. hungup s (Suc i) fd = Inr s' \<and> client_del (s_client t) fd = Inr cl \<and> matched l n e e' rset s' (sel_gone t cl fd)"
proof -
  note d = same_serverD [OF conjunct1 [OF m]]
  have it: "slot (s_client t) i = Some (fd, u)" using i d(3) by simp
  obtain c1 where c1: "hungup s (Suc i) fd = Inr (s\<lparr>client := c1, pollfd := (pollfd s)[Suc i := (pollfd s ! Suc i)\<lparr>p_fd := -1\<rparr>], conns := (conns s)(fd := None)\<rparr>)"
    "slot c1 = (slot (client s))(Suc i := None)"
    "poll_inv l n (s\<lparr>client := c1, pollfd := (pollfd s)[Suc i := (pollfd s ! Suc i)\<lparr>p_fd := -1\<rparr>], conns := (conns s)(fd := None)\<rparr>)"
    using hungup_inv [OF d(1) i] by auto
  obtain c2 where c2: "client_del (s_client t) fd = Inr c2" "slot c2 = (slot (s_client t))(i := None)" "sel_inv l n (sel_gone t c2 fd)"
    using sel_gone_inv [OF d(2) it] by blast
  let ?s = "s\<lparr>client := c1, pollfd := (pollfd s)[Suc i := (pollfd s ! Suc i)\<lparr>p_fd := -1\<rparr>], conns := (conns s)(fd := None)\<rparr>"
  have fl0: "p_in (pollfd ?s ! j) = p_in (pollfd s ! j) \<and> p_hup (pollfd ?s ! j) = p_hup (pollfd s ! j)" for j
    by (cases "Suc i < length (pollfd s)") (auto simp: nth_list_update list_update_beyond)
  note fl = fl0 [THEN conjunct1] fl0 [THEN conjunct2]
  have "same_flags e e' rset ?s" unfolding same_flags_def Let_def
  proof (intro allI impI)
    fix j fd' u' assume j: "slot (client ?s) j = Some (fd', u')" "0 < j"
    then have sj: "slot (client s) j = Some (fd', u')" using c1(2) by (simp split: if_splits)
    show "(fd' \<in> rset) = (p_in (pollfd ?s ! j) \<or> p_hup (pollfd ?s ! j)) \<and> (p_hup (pollfd ?s ! j) \<longrightarrow> e_read e' fd' = Inr []) \<and>
        (p_in (pollfd ?s ! j) \<and> \<not> p_hup (pollfd ?s ! j) \<longrightarrow> t_read e fd' = e_read e' fd')"
      using same_flagsD [OF conjunct2 [OF m] sj j(2)] unfolding fl by blast
  qed
  moreover have "same_server l n ?s (sel_gone t c2 fd)" unfolding same_server_def
    using c1(2,3) c2(2,3) d(3-7) d(8) fl by (simp add: sel_gone_def)
  ultimately show ?thesis using c1(1) c2(1) by blast
qed

lemma answered_matches:
  assumes m: "matched l n e e' rset s t"
  shows "matched l n e e' rset (s\<lparr>glob := g, chans := (chans s)(fd := c)\<rparr>) (t\<lparr>s_glob := g, s_chans := (s_chans t)(fd := c)\<rparr>)"
proof -
  note d = same_serverD [OF conjunct1 [OF m]]
  have "poll_inv l n (s\<lparr>glob := g, chans := (chans s)(fd := c)\<rparr>)" using d(1) by (simp add: poll_inv_def)
  moreover have "sel_inv l n (t\<lparr>s_glob := g, s_chans := (s_chans t)(fd := c)\<rparr>)" using d(2) by (simp add: sel_inv_def)
  ultimately have "same_server l n (s\<lparr>glob := g, chans := (chans s)(fd := c)\<rparr>) (t\<lparr>s_glob := g, s_chans := (s_chans t)(fd := c)\<rparr>)"
    unfolding same_server_def using d(3,5-8) by simp
  moreover have "same_flags e e' rset (s\<lparr>glob := g, chans := (chans s)(fd := c)\<rparr>)" using m by (simp add: same_flags_def)
  ultimately show ?thesis by blast
qed

lemma client_matches:
  assumes m: "matched l n e e' rset s t" and o: "t_open e = e_open e'" and i: "Suc i \<le> maxi s"
  shows "rel_sum (=) (matched l n e e' rset) (poll_client e (Suc i) s) (select_client e' rset i t)"
proof -
  note d = same_serverD [OF conjunct1 [OF m]]
  have len: "Suc i < length (client s)" "i < length (s_client t)" using i d(7) poll_invD(7) [OF d(1)] sel_invD(9) [OF d(2)] by auto
  show ?thesis
  proof (cases "slot (client s) (Suc i)")
    case None
    then have "slot (s_client t) i = None" using d(3) by simp
    then show ?thesis using None m len entry_free [OF None] entry_free [of "s_client t" i] by (simp add: poll_client_def select_client_def)
  next
    case (Some x)
    then obtain fd u where f: "slot (client s) (Suc i) = Some (fd, u)" by (cases x) auto
    then have ft: "slot (s_client t) i = Some (fd, u)" using d(3) by simp
    note en = entry_of_slot [OF f] entry_of_slot [OF ft]
    have fd: "0 \<le> fd" using poll_invD(11) [OF d(1) f] by blast
    obtain s' cl where g: "hungup s (Suc i) fd = Inr s'" "client_del (s_client t) fd = Inr cl" "matched l n e e' rset s' (sel_gone t cl fd)"
      using gone_matches [OF m f] by blast
    note fl = same_flagsD [OF conjunct2 [OF m] f]
    have gone: "rel_sum (=) (matched l n e e' rset) (hungup s (Suc i) fd) (res_bind (client_del (s_client t) fd) (\<lambda>cl. Inr (sel_gone t cl fd)))"
      using g by simp
    have sv: "rel_sum (=) (matched l n e e' rset) (serve e s fd buf u)
        (res_bind (request (e_open e') (s_glob t) (s_chans t fd) buf fd u) (\<lambda>(g, c). Inr (t\<lparr>s_glob := g, s_chans := (s_chans t)(fd := c)\<rparr>)))" for buf
    proof (cases "request (e_open e') (s_glob t) (s_chans t fd) buf fd u")
      case (Inr gc)
      then show ?thesis using answered_matches [OF m] o d(4,5) by (cases gc) (simp add: serve_def)
    qed (simp add: serve_def o d(4,5))
    show ?thesis using fd m gone sv fl zero_less_Suc
      by (cases "p_hup (pollfd s ! Suc i)"; cases "p_in (pollfd s ! Suc i)")
        (auto simp: poll_client_def select_client_def Let_def en sel_gone_def split: sum.splits)
  qed
qed

lemma clients_match:
  assumes "matched l n e e' rset s t" "t_open e = e_open e'" "\<forall>i\<in>set is. Suc i \<le> maxi s"
  shows "rel_sum (=) (matched l n e e' rset) (poll_clients e (map Suc is) s) (select_clients e' rset is t)"
  using assms
proof (induction "is" arbitrary: s t)
  case (Cons i "is")
  have r: "rel_sum (=) (matched l n e e' rset) (poll_client e (Suc i) s) (select_client e' rset i t)"
    using client_matches [OF Cons.prems(1,2)] Cons.prems(3) by simp
  show ?case
  proof (cases "poll_client e (Suc i) s")
    case (Inl h)
    then have "select_client e' rset i t = Inl h" using r by (auto elim: rel_sum.cases)
    then show ?thesis using Inl by simp
  next
    case (Inr s')
    then obtain t' where t': "select_client e' rset i t = Inr t'" "matched l n e e' rset s' t'" using r by (auto elim: rel_sum.cases)
    have "(\<exists>h\<in>turn_halts. poll_client e (Suc i) s = Inl h) \<or> (\<exists>s'. poll_client e (Suc i) s = Inr s' \<and> poll_inv l n s' \<and> maxi s' = maxi s)"
      using same_serverD(1) [OF conjunct1 [OF Cons.prems(1)]] Cons.prems(3) by (intro poll_client_step) simp_all
    then have "maxi s' = maxi s" using Inr by auto
    then show ?thesis using Cons.IH [OF t'(2) Cons.prems(2)] Cons.prems(3) Inr t'(1) by simp
  qed
qed simp

text \<open>
  The events of a turn, the same for both.  A connection that hung up can be read, and the read finds its end.
\<close>

definition same_events :: "turn_env \<Rightarrow> select_env \<Rightarrow> server \<Rightarrow> bool" where
  "same_events e e' s \<longleftrightarrow> t_ready e \<and> e_ready e' \<and> t_open e = e_open e' \<and>
     (\<forall>i fd u. slot (client s) i = Some (fd, u) \<longrightarrow> 0 < i \<longrightarrow>
       (fd \<in> e_set e' \<longleftrightarrow> t_in e i \<or> t_hup e i) \<and> (t_hup e i \<longrightarrow> e_read e' fd = Inr []) \<and> (t_in e i \<and> \<not> t_hup e i \<longrightarrow> t_read e fd = e_read e' fd))"

lemma same_eventsD:
  assumes "same_events e e' s"
  shows "t_ready e" "e_ready e'" "t_open e = e_open e'"
    "slot (client s) i = Some (fd, u) \<Longrightarrow> 0 < i \<Longrightarrow> fd \<in> e_set e' \<longleftrightarrow> t_in e i \<or> t_hup e i"
    "slot (client s) i = Some (fd, u) \<Longrightarrow> 0 < i \<Longrightarrow> t_hup e i \<Longrightarrow> e_read e' fd = Inr []"
    "slot (client s) i = Some (fd, u) \<Longrightarrow> 0 < i \<Longrightarrow> t_in e i \<Longrightarrow> \<not> t_hup e i \<Longrightarrow> t_read e fd = e_read e' fd"
  using assms unfolding same_events_def by blast+

abbreviation sel_ready :: "select_env \<Rightarrow> sserver \<Rightarrow> int set" where
  "sel_ready e t \<equiv> {fd \<in> allset t \<inter> e_set e. fd \<le> maxfd t}"

lemma sel_ready_slot:
  assumes "sel_inv l n t" "slot (s_client t) i = Some (fd, u)"
  shows "fd \<in> sel_ready e t \<longleftrightarrow> fd \<in> e_set e"
proof -
  have "fd \<in> allset t" using agrees_dom [OF sel_invD(4) [OF assms(1)] _ assms(2)] sel_invD(7) [OF assms(1)] by auto
  then show ?thesis using sel_invD(8) [OF assms(1)] by blast
qed

text \<open>After \<open>poll\<close>, the flags of the entries are the events of the turn.\<close>

lemma polled_flags:
  assumes m: "same_server l n s t" and i: "slot (client s) i = Some (fd, u)"
  shows "p_in (pollfd (sys_poll e s) ! i) \<longleftrightarrow> t_in e i" "p_hup (pollfd (sys_poll e s) ! i) \<longleftrightarrow> t_hup e i"
proof -
  note d = poll_invD [OF same_serverD(1) [OF m]]
  have im: "i \<le> maxi s" using d(8) [of i] i by (metis not_le_imp_less option.distinct(1))
  then have "p_fd (pollfd s ! i) = fd" "i < length (pollfd s)" using d(5,6) d(9) [OF im] i by (simp_all add: fd_of_def)
  then show "p_in (pollfd (sys_poll e s) ! i) \<longleftrightarrow> t_in e i" "p_hup (pollfd (sys_poll e s) ! i) \<longleftrightarrow> t_hup e i"
    using d(11) [OF i] im by (simp_all add: sys_poll_at)
qed

lemma polled_clear:
  assumes m: "same_server l n s t" and i: "slot (client s) i = None" "i < n"
  shows "\<not> p_in (pollfd (sys_poll e s) ! i)" "\<not> p_hup (pollfd (sys_poll e s) ! i)"
proof -
  note d = poll_invD [OF same_serverD(1) [OF m]]
  have "\<not> p_in (pollfd (sys_poll e s) ! i) \<and> \<not> p_hup (pollfd (sys_poll e s) ! i)"
  proof (cases "i \<le> maxi s")
    case True
    then have "p_fd (pollfd s ! i) = -1" using d(9) [OF True] i(1) by (simp add: fd_of_def)
    then show ?thesis using True d(5) i(2) by (simp add: sys_poll_at)
  qed (use same_serverD(8) [OF m, of i] d(5) i(2) in \<open>simp add: sys_poll_at\<close>)
  then show "\<not> p_in (pollfd (sys_poll e s) ! i)" "\<not> p_hup (pollfd (sys_poll e s) ! i)" by blast+
qed

lemma polled_same: "same_server l n s t \<Longrightarrow> same_server l n (sys_poll e s) t"
  using polled_clear [of l n s t _ e] poll_invD(8) [of l n s] unfolding same_server_def
  by (simp add: sys_poll_inv sys_poll_fields)

lemma polled_matched:
  assumes m: "same_server l n s t" and ev: "same_events e e' s"
  shows "same_flags e e' (sel_ready e' t) (sys_poll e s)"
  unfolding same_flags_def Let_def sys_poll_fields
proof (intro allI impI)
  fix i fd u assume i: "slot (client s) i = Some (fd, u)" "0 < i"
  then obtain j where j: "slot (s_client t) j = Some (fd, u)" using same_serverD(3) [OF m, of "i - 1"] by auto
  show "(fd \<in> sel_ready e' t) = (p_in (pollfd (sys_poll e s) ! i) \<or> p_hup (pollfd (sys_poll e s) ! i)) \<and>
      (p_hup (pollfd (sys_poll e s) ! i) \<longrightarrow> e_read e' fd = Inr []) \<and>
      (p_in (pollfd (sys_poll e s) ! i) \<and> \<not> p_hup (pollfd (sys_poll e s) ! i) \<longrightarrow> t_read e fd = e_read e' fd)"
    unfolding sel_ready_slot [OF same_serverD(2) [OF m] j] polled_flags [OF m i(1)] using same_eventsD(4-6) [OF ev i] by blast
qed

lemma loop_range: "same_server l n s t \<Longrightarrow> [1..<Suc (maxi s)] = map Suc [0..<nat (s_maxi t + 1)]"
  using same_serverD(7) [of l n s t] by (simp add: map_Suc_upt One_nat_def flip: same_serverD(7))

lemma rel_sum_weaken: "rel_sum (=) R x y \<Longrightarrow> (\<And>a b. R a b \<Longrightarrow> Q a b) \<Longrightarrow> rel_sum (=) Q x y"
  by (auto elim!: rel_sum.cases)

lemma clients_turn:
  assumes m: "matched l n e e' rset s t" and o: "t_open e = e_open e'"
  shows "rel_sum (=) (same_server l n) (poll_clients e [1..<Suc (maxi s)] s) (select_clients e' rset [0..<nat (s_maxi t + 1)] t)"
proof -
  have "\<forall>i\<in>set [0..<nat (s_maxi t + 1)]. Suc i \<le> maxi s" using same_serverD(7) [OF conjunct1 [OF m]] by auto
  then have "rel_sum (=) (matched l n e e' rset) (poll_clients e (map Suc [0..<nat (s_maxi t + 1)]) s) (select_clients e' rset [0..<nat (s_maxi t + 1)] t)"
    by (rule clients_match [OF m o])
  then show ?thesis unfolding loop_range [OF conjunct1 [OF m]] by (rule rel_sum_weaken) blast
qed

lemma quiet_turn:
  assumes m: "same_server l n s t" and ev: "same_events e e' s" and q: "\<not> t_in e 0" "l \<notin> e_set e'"
  shows "rel_sum (=) (same_server l n) (poll_turn e s) (select_turn e' t)"
proof -
  have "\<not> p_in (pollfd (sys_poll e s) ! 0)" using polled_flags(1) [OF m poll_invD(3) [OF same_serverD(1) [OF m]]] q(1) by simp
  then have p: "poll_turn e s = poll_clients e [1..<Suc (maxi s)] (sys_poll e s)" using same_eventsD(1) [OF ev] by (simp add: poll_turn_def sys_poll_fields)
  have t: "select_turn e' t = select_clients e' (sel_ready e' t) [0..<nat (s_maxi t + 1)] t"
    using same_eventsD(2) [OF ev] q(2) sel_invD(6) [OF same_serverD(2) [OF m]] by (simp add: select_turn_def)
  show ?thesis unfolding p t
    using clients_turn [OF conjI [OF polled_same [OF m] polled_matched [OF m ev]] same_eventsD(3) [OF ev]] by (simp add: sys_poll_fields)
qed

section \<open>A new connection\<close>

lemma first_free_unique: "first_free f i \<Longrightarrow> first_free f j \<Longrightarrow> i = j"
  unfolding first_free_def by (metis linorder_neqE_nat)

lemma first_free_shift:
  assumes "first_free f i" "f 0 \<noteq> None" "\<And>k. f (Suc k) = g k" "first_free g j"
  shows "i = Suc j"
proof -
  have "first_free f (Suc j)" unfolding first_free_def
  proof (intro conjI allI impI)
    show "f (Suc j) = None" using assms(3,4) by (simp add: first_free_def)
    fix k assume "k < Suc j"
    then show "f k \<noteq> None" using assms(2-4) by (cases k) (simp_all add: first_free_def)
  qed
  then show ?thesis using first_free_unique [OF assms(1)] by simp
qed

lemma added_matches:
  assumes m: "same_server l n s t" and fr: "fresh_conn l n (conns s) fd" "0 \<le> fd"
    and a: "client_add m1 (client s) fd u = Inr (i, c1)" "client_add m2 (s_client t) fd u = Inr (j, c2)"
    and clear: "\<not> p_in (pollfd s ! i)" "\<not> p_hup (pollfd s ! i)"
  shows "i = Suc j" "same_server l n (with_client s i c1 fd u) (sel_new t j c2 fd u)"
proof -
  note d = same_serverD [OF m]
  note b = add_table [OF a(1) fr(2)] add_table [OF a(2) fr(2)]
  show i: "i = Suc j" using first_free_shift [of "slot (client s)" i "slot (s_client t)" j] b d(3) poll_invD(3) [OF d(1)] by simp
  have n: "i < n" "i < length (pollfd s)" using add_client_inv(1) [OF d(1) a(1) fr(2,1)] poll_invD(5) [OF d(1)] by auto
  have "poll_inv l n (with_client s i c1 fd u)" using add_client_inv(3) [OF d(1) a(1) fr(2,1)] by (simp add: with_client_def)
  moreover have "sel_inv l n (sel_new t j c2 fd u)" using sel_new_inv [OF d(2) a(2) fr(2)] fr(1) d(6) by simp
  moreover have "slot c1 (Suc k) = slot c2 k" for k using b d(3) i by simp
  moreover have "\<not> p_in ((pollfd s)[i := (pollfd s ! i)\<lparr>p_fd := fd\<rparr>] ! k) \<and> \<not> p_hup ((pollfd s)[i := (pollfd s ! i)\<lparr>p_fd := fd\<rparr>] ! k)"
    if "max i (maxi s) < k" "k < n" for k using d(8) [of k] that by simp
  ultimately show "same_server l n (with_client s i c1 fd u) (sel_new t j c2 fd u)"
    unfolding same_server_def using d(4-7) i by (simp add: with_client_def sel_new_def max_def)
qed

lemma added_flags:
  assumes m: "same_server l n s t" and ev: "same_events e e' s" and fr: "fresh_conn l n (conns s) fd" "0 \<le> fd" "fd \<notin> e_set e'"
    and a: "client_add m1 (client s) fd u = Inr (i, c1)" "client_add m2 (s_client t) fd u = Inr (j, c2)"
  shows "same_server l n (with_client (sys_poll e s) i c1 fd u) (sel_new t j c2 fd u)"
    "same_flags e e' (sel_ready e' (sel_new t j c2 fd u)) (with_client (sys_poll e s) i c1 fd u)"
proof -
  let ?p = "sys_poll e s" and ?t = "sel_new t j c2 fd u"
  note b = add_table [OF a(1) fr(2)]
  have n: "i < n" using add_client_inv(1) [OF same_serverD(1) [OF m] a(1) fr(2,1)] .
  have free: "slot (client s) i = None" using b by (simp add: first_free_def)
  note clear = polled_clear [OF m free n, of e]
  show ss: "same_server l n (with_client ?p i c1 fd u) ?t"
    using fr(1,2) a clear by (intro added_matches(2) [OF polled_same [OF m]]) (simp_all add: sys_poll_fields)
  have len: "i < length (pollfd ?p)" using n poll_invD(5) [OF same_serverD(1) [OF m]] by (simp add: sys_poll_fields)
  show "same_flags e e' (sel_ready e' ?t) (with_client ?p i c1 fd u)"
    unfolding same_flags_def Let_def
  proof (intro allI impI)
    fix k x v assume k: "slot (client (with_client ?p i c1 fd u)) k = Some (x, v)" "0 < k"
    then obtain k' where k': "slot (s_client ?t) k' = Some (x, v)" using same_serverD(3) [OF ss, of "k - 1"] by auto
    have r: "x \<in> sel_ready e' ?t \<longleftrightarrow> x \<in> e_set e'" by (rule sel_ready_slot [OF same_serverD(2) [OF ss] k'])
    show "(x \<in> sel_ready e' ?t) = (p_in (pollfd (with_client ?p i c1 fd u) ! k) \<or> p_hup (pollfd (with_client ?p i c1 fd u) ! k)) \<and>
      (p_hup (pollfd (with_client ?p i c1 fd u) ! k) \<longrightarrow> e_read e' x = Inr []) \<and>
      (p_in (pollfd (with_client ?p i c1 fd u) ! k) \<and> \<not> p_hup (pollfd (with_client ?p i c1 fd u) ! k) \<longrightarrow> t_read e x = e_read e' x)"
    proof (cases "k = i")
      case True
      then have "x = fd" using k(1) b by (simp add: with_client_def)
      then show ?thesis unfolding r using True clear fr(3) len by (simp add: with_client_def)
    next
      case False
      then have sk: "slot (client s) k = Some (x, v)" using k(1) b by (simp add: with_client_def)
      have "pollfd (with_client ?p i c1 fd u) ! k = pollfd ?p ! k" using False by (simp add: with_client_def)
      then show ?thesis unfolding r polled_flags [OF m sk, symmetric] using same_eventsD(4-6) [OF ev sk k(2)] polled_flags [OF m sk] by simp
    qed
  qed
qed

lemma accept_turn:
  assumes m: "same_server l n s t" and n: "int n \<le> FD_SETSIZE" and fr: "fresh_turn l n (conns s) (t_conn e)"
    and acc: "t_in e 0" "e_ready ea" "l \<in> e_set ea" "e_conn ea = t_conn e" "e_stat ea = t_stat e" "e_now ea = t_now e"
    and mem: "t_mem e = Some m1" "e_mem ea = Some m2"
    and ev: "same_events e ec s" "l \<notin> e_set ec" "fst (t_conn e) \<notin> e_set ec"
  shows "rel_sum (=) (same_server l n) (poll_turn e s) (res_bind (select_turn ea t) (select_turn ec))"
proof -
  note d = same_serverD [OF m]
  have "p_in (pollfd (sys_poll e s) ! 0)" using polled_flags(1) [OF m poll_invD(3) [OF d(1)]] acc(1) by simp
  then have p: "poll_turn e s = res_bind (poll_accept e (sys_poll e s)) (\<lambda>s. poll_clients e [1..<Suc (maxi s)] s)"
    using same_eventsD(1) [OF ev(1)] by (simp add: poll_turn_def)
  have l: "l \<in> allset t" "l \<le> maxfd t" using sel_invD(7) [OF d(2)] sel_invD(8) [OF d(2), of l] by auto
  then have q: "select_turn ea t = select_accept ea t" using acc(2,3) sel_invD(6) [OF d(2)] by (simp add: select_turn_def)
  show ?thesis
  proof (cases "serv_accept (t_conn e) (t_stat e) (t_now e)")
    case (Inl h)
    then show ?thesis unfolding p q by (simp add: poll_accept_def select_accept_def acc)
  next
    case (Inr x)
    show ?thesis
    proof (cases "0 \<le> a_fd x")
      case False
      then show ?thesis unfolding p q using Inr by (simp add: poll_accept_def select_accept_def acc)
    next
      case True
      let ?u = "case a_uid x of Some u \<Rightarrow> u | None \<Rightarrow> 0" and ?fd = "a_fd x"
      have fx: "?fd = fst (t_conn e)" using serv_accept_fd [OF Inr True] .
      have f: "fresh_conn l n (conns s) ?fd" using fr True fx by (simp add: fresh_turn_def)
      obtain i c1 where c1: "client_add (t_mem e) (client s) ?fd ?u = Inr (i, c1)" using tab.add_total mem(1) by metis
      obtain j c2 where c2: "client_add (e_mem ea) (s_client t) ?fd ?u = Inr (j, c2)" using tab.add_total mem(2) by metis
      have i: "i < length (pollfd s)" using add_client_inv(1) [OF d(1) c1 True f] poll_invD(5) [OF d(1)] by simp
      have pa: "poll_accept e (sys_poll e s) = Inr (with_client (sys_poll e s) i c1 ?fd ?u)"
        using Inr True c1 i by (simp add: poll_accept_def with_client_def sys_poll_fields Let_def)
      have sa: "select_accept ea t = Inr (sel_new t j c2 ?fd ?u)" using Inr True c2 f n
        by (simp add: select_accept_def acc sel_new_def fresh_conn_def Let_def)
      have ne: "?fd \<notin> e_set ec" using ev(3) fx by simp
      note st = added_flags [OF m ev(1) f True ne c1 c2]
      have "select_turn ec (sel_new t j c2 ?fd ?u) = select_clients ec (sel_ready ec (sel_new t j c2 ?fd ?u)) [0..<nat (s_maxi (sel_new t j c2 ?fd ?u) + 1)] (sel_new t j c2 ?fd ?u)"
        using same_eventsD(2) [OF ev(1)] ev(2) sel_invD(6) [OF same_serverD(2) [OF st(1)]] by (simp add: select_turn_def)
      then show ?thesis unfolding p q pa sa using clients_turn [OF conjI [OF st] same_eventsD(3) [OF ev(1)]] by simp
    qed
  qed
qed

section \<open>The start\<close>

lemma start_same:
  assumes "poll_start mem (Some ps) l g = Inr s" "select_start l g = Inr t" "length ps = n" "l < int n" "\<forall>p\<in>set ps. \<not> p_in p \<and> \<not> p_hup p"
  shows "same_server l n s t"
proof -
  have l: "0 \<le> l" using assms(1) by (simp add: poll_start_def split: if_splits)
  then obtain i cl where a: "client_add mem [] l 0 = Inr (i, cl)" using assms(1) by (cases "client_add mem [] l 0") (auto simp: poll_start_def)
  have e: "slot [] = (\<lambda>i. None)" by (simp add: slot_def fun_eq_iff)
  have i: "i = 0" using add_table [OF a l] by (auto simp: first_free_def e)
  have sl: "slot cl (Suc k) = None" for k using add_table [OF a l] by (simp add: e i)
  have s: "client s = cl" "glob s = g" "maxi s = 0" "conns s = (\<lambda>fd. None)" "pollfd s = ps[0 := (ps ! 0)\<lparr>p_fd := l\<rparr>]"
    "chans s = (\<lambda>fd. \<lparr>csink = \<lparr>sent = [], script = []\<rparr>, passed = []\<rparr>)" using assms(1) l a by (auto simp: poll_start_def)
  have t: "t = \<lparr>s_glob = g, s_client = [], allset = {l}, maxfd = l, s_maxi = -1, s_listenfd = l,
        s_chans = (\<lambda>fd. \<lparr>csink = \<lparr>sent = [], script = []\<rparr>, passed = []\<rparr>), s_conns = (\<lambda>fd. None)\<rparr>"
    using assms(2) by (auto simp: select_start_def split: if_splits)
  have "poll_inv l n s" using assms(1,3,4) by (intro poll_started_inv) (auto simp: poll_started_def)
  moreover have "sel_inv l n t" using l assms(4) by (simp add: t sel_inv_def e table_ok_def one_slot_def in_slots_def agrees_def)
  moreover have "\<not> p_in (pollfd s ! k) \<and> \<not> p_hup (pollfd s ! k)" if "0 < k" "k < n" for k using that assms(3,5) by (simp add: s)
  ultimately show ?thesis unfolding same_server_def by (simp add: s t sl e)
qed

end
