(* ===== verification/Opend_Request.thy ===== *)
theory Opend_Request
  imports Opend_Loops
begin

text \<open>
  A request of the open server from the message of the client to the answer: what the tokens of
  the message are, and what the client makes of what it gets back.
\<close>

declare One_nat_def [simp del]

section \<open>Tokens\<close>

lemma tokens_Nil: "\<forall>c\<in>set s. white c \<Longrightarrow> tokens s = []"
  by (subst tokens.simps) (simp add: dropWhile_eq_Nil_conv)

lemma tokens_word:
  assumes "\<forall>c\<in>set w. \<not> white c" "w \<noteq> []" "r = [] \<or> white (hd r)"
  shows "tokens (w @ r) = w # tokens r"
proof -
  obtain c v where w: "w = c # v" "\<not> white c" using assms(1,2) by (cases w) auto
  have t: "takeWhile (\<lambda>c. \<not> white c) (w @ r) = w" "dropWhile (\<lambda>c. \<not> white c) (w @ r) = r"
    using assms(1,3) by (cases r; simp add: takeWhile_append dropWhile_append)+
  have "dropWhile white (w @ r) = w @ r" using w by simp
  then show ?thesis using w(1) t by (subst tokens.simps) (simp add: Let_def)
qed

lemma tokens_white: "white c \<Longrightarrow> tokens (c # r) = tokens r"
  by (subst (1 2) tokens.simps) simp

text \<open>Names and flags a client can send.\<close>

definition good_name :: "string \<Rightarrow> bool" where
  "good_name name \<longleftrightarrow> name \<noteq> [] \<and> (\<forall>c\<in>set name. \<not> white c \<and> c \<noteq> NUL \<and> c \<noteq> CHR ''%'') \<and> length name \<le> 3000"

definition good_flags :: "int \<Rightarrow> bool" where
  "good_flags flags \<longleftrightarrow> 0 \<le> flags \<and> flags < 10 ^ 8"

text \<open>What the C library may say of an error.\<close>

definition good_error :: "open_env \<Rightarrow> int \<Rightarrow> bool" where
  "good_error e en \<longleftrightarrow> length (strerror e en) \<le> 1000 \<and> CHR ''%'' \<notin> set (strerror e en) \<and> NUL \<notin> set (strerror e en)"

lemma dec_plain:
  assumes "c \<in> set (dec n)"
  shows "\<not> white c" "c \<noteq> NUL" "c \<noteq> CHR ''%''" "c \<noteq> CHR ''-''"
  using dec_isdigit [OF assms] by (auto simp: isdigit_def white_def)

lemma dec_int_plain: "c \<in> set (dec_int i) \<Longrightarrow> c \<noteq> NUL \<and> c \<noteq> CHR ''%''"
  using dec_plain(2,3) [of c "nat i"] dec_plain(2,3) [of c "nat (- i)"] by (auto simp: dec_int_def split: if_splits)

lemma length_dec_int:
  assumes "- (2 ^ 31) \<le> i" "i < 2 ^ 31"
  shows "length (dec_int i) \<le> 11"
proof (cases "i < 0")
  case True
  then have "length (dec (nat (- i))) \<le> 10" using assms by (intro length_dec_le) (simp_all add: nat_less_iff)
  then show ?thesis using True by (simp add: dec_int_def)
next
  case False
  then have "length (dec (nat i)) \<le> 10" using assms by (intro length_dec_le) (simp_all add: nat_less_iff)
  then show ?thesis using False by (simp add: dec_int_def)
qed

lemma length_uid: "length (dec_int (sint (u :: 32 word))) \<le> 11"
  using sint_ge [of u] sint_lt [of u] by (intro length_dec_int) simp_all

section \<open>The log\<close>

lemma plain_formatI: "CHR ''%'' \<notin> set s \<Longrightarrow> plain_format s"
  by (induction s) auto

lemma expand_plain: "CHR ''%'' \<notin> set s \<Longrightarrow> expand s = s"
  by (induction s) auto

lemma log_plain:
  assumes "CHR ''%'' \<notin> set m" "length m + 1 < MAXLINE"
  shows "log_doit d m = Inr ()" "log_format d m = Inr ()"
proof -
  have "plain_format (take (MAXLINE - 1) m)" using assms(1) by (intro plain_formatI) (auto dest: in_set_takeD)
  then show "log_doit d m = Inr ()" using assms(2) by (simp add: log_doit_def Let_def)
  then show "log_format d m = Inr ()" using assms(1) by (simp add: log_format_def expand_plain plain_formatI)
qed

section \<open>From the client to the server\<close>

definition message :: "string \<Rightarrow> int \<Rightarrow> bytes" where
  "message name flags = CL_OPEN @ '' '' @ name @ '' '' @ dec_int flags @ [NUL]"

lemma open_msg_ok:
  assumes "good_flags flags"
  shows "open_msg name flags = Inr (message name flags)"
proof -
  have "length (dec (nat flags)) \<le> 8" using assms by (intro length_dec_le) (auto simp: good_flags_def nat_less_iff)
  then show ?thesis using assms by (simp add: open_msg_def message_def good_flags_def dec_int_def)
qed

lemma message_text:
  assumes "good_name name"
  shows "cstr (message name flags) = CL_OPEN @ '' '' @ name @ '' '' @ dec_int flags"
proof -
  have "NUL \<notin> set (CL_OPEN @ '' '' @ name @ '' '' @ dec_int flags)" using assms dec_int_plain [of NUL flags] by (auto simp: good_name_def CL_OPEN_def)
  then show ?thesis unfolding message_def using cstr_append_NUL [of "CL_OPEN @ '' '' @ name @ '' '' @ dec_int flags" "[]"] by simp
qed

lemma message_tokens:
  assumes "good_name name" "good_flags flags"
  shows "tokens (cstr (message name flags)) = [CL_OPEN, name, dec_int flags]"
proof -
  have d: "dec_int flags = dec (nat flags)" using assms(2) by (simp add: good_flags_def dec_int_def)
  have w: "white (CHR '' '')" by (simp add: white_def)
  have "tokens (dec_int flags @ []) = dec_int flags # tokens []" unfolding d by (intro tokens_word) (auto dest: dec_plain)
  moreover have "tokens [] = []" by (simp add: tokens_Nil)
  ultimately have "tokens (dec_int flags) = [dec_int flags]" by simp
  moreover have "tokens (name @ '' '' @ dec_int flags) = name # tokens ('' '' @ dec_int flags)"
    using assms(1) w by (intro tokens_word) (auto simp: good_name_def)
  moreover have "tokens (CL_OPEN @ '' '' @ name @ '' '' @ dec_int flags) = CL_OPEN # tokens ('' '' @ name @ '' '' @ dec_int flags)"
    using w by (intro tokens_word) (auto simp: CL_OPEN_def white_def)
  ultimately show ?thesis using assms(1) w by (simp add: message_text tokens_white)
qed

lemma atoi_dec:
  assumes "good_flags flags"
  shows "atoi (dec_int flags) = flags"
proof -
  have a: "atol (dec_int flags) = flags" using assms by (simp add: good_flags_def dec_int_def)
  have "max (- (2 ^ 63)) (min (2 ^ 63 - 1) flags) = flags" using assms by (simp add: good_flags_def)
  moreover have "signed_take_bit 31 flags = flags" using assms by (intro signed_take_bit_int_eq_self) (simp_all add: good_flags_def)
  ultimately show ?thesis unfolding atoi_def a by simp
qed

lemma message_args:
  assumes "good_name name" "good_flags flags"
  shows "buf_args (message name flags) cli_args g = (0, g\<lparr>pathname := name, oflag := flags\<rparr>)"
proof -
  have "takeWhile white (cstr (message name flags)) = []" using assms(1) by (simp add: message_text CL_OPEN_def white_def)
  then show ?thesis using message_tokens [OF assms] atoi_dec [OF assms(2)]
    by (simp add: buf_args_def Let_def MAXARGC_def cli_args_def numeral_2_eq_2 One_nat_def)
qed

lemma asked_ok:
  assumes "good_name name" "good_flags flags"
  shows "log_doit d (asked (message name flags) uid) = Inr ()"
proof (rule log_plain(1))
  show "CHR ''%'' \<notin> set (asked (message name flags) uid)" unfolding asked_def message_text [OF assms(1)]
    using assms(1) dec_int_plain by (auto simp: good_name_def CL_OPEN_def)
  have "length (dec_int flags) \<le> 11" using assms(2) by (intro length_dec_int) (simp_all add: good_flags_def)
  then show "length (asked (message name flags) uid) + 1 < MAXLINE" unfolding asked_def message_text [OF assms(1)]
    using assms(1) length_uid [of uid] by (simp add: good_name_def CL_OPEN_def MAXLINE_def)
qed

lemma cannot_open_text:
  assumes "good_name name" "good_error e en"
  shows "CHR ''%'' \<notin> set (cannot_open e name en)" "NUL \<notin> set (cannot_open e name en)" "length (cannot_open e name en) + 1 < MAXLINE"
  using assms by (auto simp: cannot_open_def good_name_def good_error_def MAXLINE_def)

text \<open>The answer of the server.\<close>

lemma status_one: "status_byte (- 1) = CHR 0x01"
proof -
  have "(of_char (status_byte (- 1)) :: int) = of_char (CHR 0x01)" using status_value [of 1] by simp
  then show ?thesis by (simp only: of_char_eq_iff)
qed

lemma request_opens:
  assumes "good_name name" "good_flags flags" "clean c" "have_mem e" "os_open e name flags = Inr fd" "0 \<le> fd" "fd < 2 ^ 31" "0 \<le> clifd" "clifd < 2 ^ 31"
  shows "request e g c (message name flags) clifd uid =
    Inr (g\<lparr>pathname := name, oflag := flags\<rparr>, (put c [NUL, NUL])\<lparr>passed := passed c @ [(length (sent (csink c)), fd)]\<rparr>)"
proof -
  have "log_doit d (sent_fd fd clifd name) = Inr ()" for d
  proof (rule log_plain(1))
    show "CHR ''%'' \<notin> set (sent_fd fd clifd name)" using assms(1) dec_int_plain by (auto simp: sent_fd_def good_name_def)
    show "length (sent_fd fd clifd name) + 1 < MAXLINE"
      using assms(1,6-9) length_dec_int [of fd] length_dec_int [of clifd] by (simp add: sent_fd_def good_name_def MAXLINE_def)
  qed
  then show ?thesis using assms message_args [OF assms(1,2)] asked_ok [OF assms(1,2)] send_fd_clean(2) [OF assms(3,6,4)]
    by (simp add: request_def message_def)
qed

lemma request_fails:
  assumes "good_name name" "good_flags flags" "clean c" "os_open e name flags = Inl en" "good_error e en"
  shows "request e g c (message name flags) clifd uid =
    Inr (g\<lparr>pathname := name, oflag := flags, errmsg := cannot_open e name en\<rparr>, put c (cannot_open e name en @ [NUL, CHR 0x01]))"
proof -
  note t = cannot_open_text [OF assms(1,5)]
  have "into_errmsg (cannot_open e name en) = Inr (cannot_open e name en)" using t(3) by (simp add: into_errmsg_def)
  moreover have "send_err (have_mem e) c (-1) (cannot_open e name en) = Inr (0, put c (cannot_open e name en @ [NUL, CHR 0x01]))"
    using send_err_clean [OF assms(3), of "have_mem e" "-1"] status_one by simp
  ultimately show ?thesis using assms(4) message_args [OF assms(1,2)] asked_ok [OF assms(1,2)] log_plain(2) [OF t(1,3)]
    by (simp add: request_def message_def)
qed

section \<open>From the server to the client\<close>

text \<open>
  What the kernel may hand to the client for what the server has sent: the bytes in pieces, each descriptor
  with the piece that starts where it was sent, and the two bytes that end an answer in one piece.
\<close>

primrec descriptors :: "nat \<Rightarrow> arrival list \<Rightarrow> (nat \<times> int) list" where
  "descriptors p [] = []"
| "descriptors p (a # as) = (case snd a of Some d \<Rightarrow> [(p, d)] | None \<Rightarrow> []) @ descriptors (p + length (fst a)) as"

definition delivers :: "chan \<Rightarrow> chan \<Rightarrow> arrival list \<Rightarrow> bool" where
  "delivers c c' as \<longleftrightarrow> whole_end (map fst as) \<and>
     sent (csink c') = sent (csink c) @ concat (map fst as) \<and>
     passed c' = passed c @ descriptors (length (sent (csink c))) as"

lemma no_descriptors: "descriptors p as = [] \<Longrightarrow> map Inr as = map (\<lambda>x. Inr (x, None)) (map fst as)"
proof (induction as arbitrary: p)
  case (Cons a as)
  then show ?case by (cases a) (auto split: option.splits)
qed simp

lemma delivered_error:
  assumes "delivers c (put c (msg @ [NUL, CHR 0x01])) as" "NUL \<notin> set msg" "script k = []"
  shows "recv_fd True (map Inr as) k = Inr (-1, k\<lparr>sent := sent k @ msg\<rparr>, [])"
proof -
  have d: "descriptors (length (sent (csink c))) as = []" "concat (map fst as) = msg @ [NUL, CHR 0x01]" "whole_end (map fst as)"
    using assms(1) by (simp_all add: delivers_def)
  show ?thesis unfolding no_descriptors [OF d(1)] using recv_error [OF d(2,3) assms(2) _ assms(3), of "[]"] by simp
qed

lemma delivered_fd:
  assumes "delivers c ((put c [NUL, NUL])\<lparr>passed := passed c @ [(length (sent (csink c)), fd)]\<rparr>) as"
  shows "recv_fd True (map Inr as) k = Inr (fd, k, [])"
proof -
  have d: "whole_end (map fst as)" "concat (map fst as) = [NUL, NUL]" "descriptors (length (sent (csink c))) as = [(length (sent (csink c)), fd)]"
    using assms by (simp_all add: delivers_def)
  obtain a where a: "as = [a]"
  proof (cases as)
    case Nil
    then show ?thesis using d(1) by (simp add: whole_end_def)
  next
    case (Cons a bs)
    have "bs = []"
    proof (rule ccontr)
      assume b: "bs \<noteq> []"
      then have "2 \<le> length (last (map fst bs))" "fst a \<noteq> []" using d(1) Cons by (auto simp: whole_end_def last_map)
      moreover have "length (last (map fst bs)) \<le> length (concat (map fst bs))" using b by (induction bs) auto
      moreover have "length (fst a) + length (concat (map fst bs)) = 2" using arg_cong [OF d(2), of length] Cons by simp
      ultimately show False by (cases "fst a") auto
    qed
    then show ?thesis using that Cons by simp
  qed
  then have "a = ([NUL, NUL], Some fd)" using d(2,3) by (cases a) (auto split: option.splits)
  then show ?thesis using a recv_descriptor [of fd "[]" k] by simp
qed

end
