(* ===== verification/Opend_Correct.thy ===== *)
theory Opend_Correct
  imports Opend_Select Opend_Request
begin

text \<open>The properties of the open server and of the functions that pass descriptors.\<close>

declare One_nat_def [simp del]

section \<open>Connections\<close>

definition proven_owner :: "turn_env \<Rightarrow> int \<Rightarrow> 32 word \<Rightarrow> bool" where
  "proven_owner e fd u \<longleftrightarrow> fst (t_conn e) = fd \<and> (\<exists>b. t_stat e (snd (t_conn e)) = Some b \<and> is_sock b \<and> mode b mod 512 = 448 \<and>
     owner b = u \<and> t_now e - STALE \<le> atime b \<and> t_now e - STALE \<le> ctime b \<and> t_now e - STALE \<le> mtime b)"

lemma private_mode: "m mod 512 = 448 \<longleftrightarrow> m mod 64 = 0 \<and> m div 64 mod 8 = (7 :: nat)"
proof -
  have "m mod 512 = 64 * (m div 64 mod 8) + m mod 64" using mod_mult2_eq [of m 64 8] by simp
  moreover have "64 * q + r = 448 \<longleftrightarrow> r = 0 \<and> q = 7" if "r < 64" for q r :: nat using that by presburger
  ultimately show ?thesis by simp
qed

lemma accepted_owner:
  assumes "serv_accept (t_conn e) (t_stat e) (t_now e) = Inr a" "0 \<le> a_fd a"
  shows "\<exists>u. a_uid a = Some u \<and> proven_owner e (a_fd a) u"
  using assms by (cases "t_conn e")
    (auto simp: serv_accept_def Let_def refuse_def proven_owner_def private_mode split: if_splits option.splits)

lemma client_conns:
  assumes "poll_client e i s = Inr s'"
  shows "conns s' \<subseteq>\<^sub>m conns s"
  using assms
  by (auto simp: poll_client_def hungup_def serve_def Let_def map_le_def res_bind_def split: if_splits sum.splits prod.splits)

lemma clients_conns: "poll_clients e is s = Inr s' \<Longrightarrow> conns s' \<subseteq>\<^sub>m conns s"
proof (induction "is" arbitrary: s)
  case (Cons i "is")
  then obtain s1 where "poll_client e i s = Inr s1" "poll_clients e is s1 = Inr s'" by (cases "poll_client e i s") auto
  then show ?case using Cons.IH client_conns map_le_trans by blast
qed simp

lemma accept_conns:
  assumes "poll_accept e s = Inr s'" "conns s' fd = Some u"
  shows "conns s fd = Some u \<or> proven_owner e fd u"
proof -
  obtain a where a: "serv_accept (t_conn e) (t_stat e) (t_now e) = Inr a" "0 \<le> a_fd a"
    using assms(1) by (cases "serv_accept (t_conn e) (t_stat e) (t_now e)") (auto simp: poll_accept_def Let_def split: if_splits)
  then obtain v where v: "a_uid a = Some v" "proven_owner e (a_fd a) v" using accepted_owner by blast
  have "conns s' = (conns s)(a_fd a \<mapsto> v)" using assms(1) a v(1)
    by (cases "client_add (t_mem e) (client s) (a_fd a) v") (auto simp: poll_accept_def Let_def split: if_splits)
  then show ?thesis using assms(2) v(2) by (auto split: if_splits)
qed

section \<open>Properties\<close>


text \<open>
  C13.  In every state the loop with \<open>poll\<close> reaches, the connections that are open are exactly the ones in the table
  of clients, each in one slot, with the user ID found when it was accepted, and with the entry of
  \<open>pollfd\<close> of the same number.
\<close>

theorem each_client_has_one_slot:
  assumes "reachable (poll_started l n) (poll_step l n) s"
  shows "(conns s fd = Some u) = (\<exists>!i. 0 < i \<and> i \<le> maxi s \<and> 0 \<le> fd \<and> client s ! i = \<lparr>c_fd = fd, c_uid = u\<rparr> \<and> p_fd (pollfd s ! i) = fd)"
proof -
  note d = poll_invD [OF polls.always [OF assms]]
  have e: "slot (client s) i = Some (fd, u) \<longleftrightarrow> i \<le> maxi s \<and> 0 \<le> fd \<and> client s ! i = \<lparr>c_fd = fd, c_uid = u\<rparr> \<and> p_fd (pollfd s ! i) = fd" for i
  proof
    assume s: "slot (client s) i = Some (fd, u)"
    then have im: "i \<le> maxi s" using d(8) [of i] by (metis not_le_imp_less option.distinct(1))
    show "i \<le> maxi s \<and> 0 \<le> fd \<and> client s ! i = \<lparr>c_fd = fd, c_uid = u\<rparr> \<and> p_fd (pollfd s ! i) = fd"
      using im d(11) [OF s] d(9) [OF im] entry_of_slot [OF s] s by (simp add: fd_of_def)
  qed (use d(7) in \<open>simp add: slot_def\<close>)
  have "(\<exists>!i. 0 < i \<and> slot (client s) i = Some (fd, u)) \<longleftrightarrow> (\<exists>i\<ge>1. slot (client s) i = Some (fd, u))"
    using d(2) unfolding one_slot_def by (auto simp: One_nat_def Suc_le_eq)
  moreover have "conns s fd = Some u \<longleftrightarrow> (\<exists>i\<ge>1. slot (client s) i = Some (fd, u))" using d(4) unfolding agrees_def by blast
  ultimately show ?thesis unfolding e by simp
qed

text \<open>
  C27.  A turn of the loop with \<open>poll\<close>, from a state it reaches and with a new descriptor that was free, does
  not write behind \<open>pollfd\<close>, never misses the entry of a client, does not search for ever, and leaves a
  well-formed state if it returns.
\<close>

theorem server_turn_is_safe:
  assumes "reachable (poll_started l n) (poll_step l n) s" "fresh_turn l n (conns s) (t_conn e)"
  shows "case poll_turn e s of
      Inr s' \<Rightarrow> poll_inv l n s'
    | Inl h \<Rightarrow> h \<noteq> Overrun ''pollfd'' \<and> h \<noteq> Loops \<and> (\<forall>m. h \<noteq> Err_quit m) \<and> h \<in> turn_halts"
  using poll_turn_step [OF polls.always [OF assms(1)] assms(2)] by (auto simp: turn_halts_def request_halts_def)


text \<open>
  C28.  A connection that is new after a turn belongs to the owner of a socket with mode \<open>rwx------\<close> that
  was not older than 30 seconds; no other way leads into the table of clients.
\<close>

theorem connections_have_proven_owners:
  assumes "poll_turn e s = Inr s'" "conns s' fd = Some u"
  shows "conns s fd = Some u \<or> proven_owner e fd u"
proof -
  let ?p = "sys_poll e s"
  have "poll_turn e s = Inl (Err_sys ''poll error'')" if "\<not> t_ready e" using that by (simp add: poll_turn_def)
  then have "t_ready e" using assms(1) by force
  then have "res_bind (if p_in (pollfd ?p ! 0) then poll_accept e ?p else Inr ?p) (\<lambda>s. poll_clients e [1..<Suc (maxi s)] s) = Inr s'"
    using assms(1) unfolding poll_turn_def Let_def by (simp only: not_True_eq_False if_False)
  then obtain s1 where s1: "(if p_in (pollfd ?p ! 0) then poll_accept e ?p else Inr ?p) = Inr s1" "poll_clients e [1..<Suc (maxi s1)] s1 = Inr s'"
    unfolding res_bind_Inr by blast
  have "conns s1 fd = Some u" using clients_conns [OF s1(2)] assms(2) by (metis domI map_le_def)
  then show ?thesis using s1(1) accept_conns [of e ?p s1 fd u] by (auto simp: sys_poll_fields split: if_splits)
qed

text \<open>
  A request of blanks only is answered with the text of the last error, and this may be the
  error of another client: after one client asked for a file that cannot be opened, a client with any other user ID
  that sends blanks is told its name.
\<close>

theorem error_of_another_client:
  assumes "good_name name" "good_flags flags" "os_open e name flags = Inl en" "good_error e en" "clean c1" "clean c2"
    and "\<forall>x\<in>set b. white x" "length b \<le> 100"
  shows "\<exists>g1 c1'. request e g c1 (message name flags) fd1 uid1 = Inr (g1, c1') \<and>
    request e g1 c2 (b @ [NUL]) fd2 uid2 = Inr (g1, put c2 (cannot_open e name en @ [NUL, CHR 0x01]))"
proof -
  note t = cannot_open_text [OF assms(1,4)]
  have "\<not> white NUL" "\<not> white (CHR ''%'')" by (simp_all add: white_def)
  then have nul: "NUL \<notin> set b" "CHR ''%'' \<notin> set b" using assms(7) by blast+
  then have cb: "cstr (b @ [NUL]) = b" using cstr_append_NUL [of b "[]"] by simp
  have "log_doit d (asked (b @ [NUL]) uid2) = Inr ()" for d
  proof (rule log_plain(1))
    show "CHR ''%'' \<notin> set (asked (b @ [NUL]) uid2)" unfolding asked_def cb using nul(2) dec_int_plain by auto
    show "length (asked (b @ [NUL]) uid2) + 1 < MAXLINE" unfolding asked_def cb using assms(8) length_uid [of uid2] by (simp add: MAXLINE_def)
  qed
  moreover have "buf_args (b @ [NUL]) cli_args g' = (-1, g')" for g' using tokens_Nil [OF assms(7)] by (simp add: buf_args_def cb)
  ultimately have "request e g1 c2 (b @ [NUL]) fd2 uid2 = Inr (g1, put c2 (cannot_open e name en @ [NUL, CHR 0x01]))"
    if "errmsg g1 = cannot_open e name en" for g1
    using that send_err_clean [OF assms(6), of "have_mem e" "-1"] status_one log_plain(2) [OF t(1,3)] by (simp add: request_def)
  then show ?thesis using request_fails [OF assms(1,2,5,3,4), of g fd1 uid1] by simp
qed

text \<open>
  A server that runs as a daemon hands the text of every request to \<open>syslog\<close> as the format: a
  percent sign in a request that is not followed by another one is a conversion without argument.
\<close>

theorem request_is_a_format:
  assumes "\<not> log_to_stderr g" "cstr buf = x @ CHR ''%'' # d # y" "CHR ''%'' \<notin> set x" "d \<noteq> CHR ''%''" "last buf = NUL" "length (cstr buf) \<le> 4000"
  shows "request e g c buf clifd uid = Inl (Overrun ''syslog'')"
proof -
  have p: "\<not> plain_format (z @ CHR ''%'' # d # y')" if "CHR ''%'' \<notin> set z" for z y' using that assms(4) by (induction z) auto
  have "length (asked buf uid) + 1 < MAXLINE" using assms(6) length_uid [of uid] by (simp add: asked_def MAXLINE_def)
  moreover have "\<not> plain_format (asked buf uid)"
    using p [of "''request: '' @ x" "y @ '', from uid '' @ dec_int (sint uid)"] assms(3) by (simp add: asked_def assms(2))
  ultimately have "log_doit False (asked buf uid) = Inl (Overrun ''syslog'')" by (simp add: log_doit_def Let_def)
  then show ?thesis using assms(1,5) by (simp add: request_def)
qed

text \<open>
  An error text of 4095 bytes, the longest that fits \<open>errmsg\<close>, stops the client: the receive that
  fills its buffer ends between the null byte and the status.
\<close>

theorem full_message_stops_client:
  assumes "length msg = MAXLINE - 1" "NUL \<notin> set msg" "clean c" "script k = []"
  shows "\<exists>c'. send_err mem c (-1) msg = Inr (0, c') \<and>
    recv_fd True (Inr (take MAXLINE (drop (length (sent (csink c))) (sent (csink c'))), None) # rest) k = Inl (Err_dump ''message format error'')"
proof -
  let ?c = "put c (msg @ [NUL, CHR 0x01])"
  have "take MAXLINE (drop (length (sent (csink c))) (sent (csink ?c))) = msg @ [NUL]" using assms(1) by (simp add: MAXLINE_def)
  moreover have "send_err mem c (-1) msg = Inr (0, ?c)" using send_err_clean [OF assms(3), of mem "-1" msg] status_one by simp
  moreover have "recv_fd True (Inr (msg @ [NUL], None) # rest) k = Inl (Err_dump ''message format error'')"
    using recv_cut [OF assms(2,4), of "[]" rest] by (simp del: recv_fd.simps)
  ultimately show ?thesis by metis
qed

section \<open>Examples\<close>

definition sv_open :: open_env where
  "sv_open = \<lparr>os_open = (\<lambda>path flags. if path = ''/etc/motd'' then Inr 5 else Inl 2), strerror = (\<lambda>en. ''No such file or directory''), have_mem = True\<rparr>"

definition sv_glob :: globals where
  "sv_glob = \<lparr>log_to_stderr = False, errmsg = [], oflag = 0, pathname = []\<rparr>"

definition sv_chan :: chan where
  "sv_chan = \<lparr>csink = \<lparr>sent = [], script = []\<rparr>, passed = []\<rparr>"

definition sv_sock :: sockstat where
  "sv_sock = \<lparr>is_sock = True, mode = 49600, atime = 1000, ctime = 1000, mtime = 1000, owner = 7\<rparr>"

text \<open>A server that listens on descriptor 3, and the turn in which a first client comes.\<close>

definition sv_turn :: turn_env where
  "sv_turn = \<lparr>t_ready = True, t_in = (\<lambda>i. i = 0), t_hup = (\<lambda>i. False), t_conn = (4, ''/var/tmp/00042''), t_stat = (\<lambda>path. Some sv_sock),
     t_now = 1010, t_read = (\<lambda>fd. Inr []), t_mem = Some (\<lambda>i. 0), t_open = sv_open\<rparr>"

definition sv_free :: pollfd where
  "sv_free = \<lparr>p_fd = 0, p_in = False, p_hup = False\<rparr>"

definition sv_server :: server where
  "sv_server = \<lparr>glob = sv_glob, client = \<lparr>c_fd = 3, c_uid = 0\<rparr> # replicate 9 \<lparr>c_fd = -1, c_uid = 0\<rparr>, pollfd = [sv_free\<lparr>p_fd := 3\<rparr>, sv_free, sv_free, sv_free, sv_free, sv_free],
     maxi = 0, chans = (\<lambda>fd. sv_chan), conns = (\<lambda>fd. None)\<rparr>"

definition sv_served :: server where
  "sv_served = \<lparr>glob = sv_glob, client = \<lparr>c_fd = 3, c_uid = 0\<rparr> # \<lparr>c_fd = 4, c_uid = 7\<rparr> # replicate 8 \<lparr>c_fd = -1, c_uid = 0\<rparr>,
     pollfd = [sv_free\<lparr>p_fd := 3, p_in := True\<rparr>, sv_free\<lparr>p_fd := 4\<rparr>, sv_free, sv_free, sv_free, sv_free],
     maxi = 1, chans = (\<lambda>fd. sv_chan), conns = [4 \<mapsto> 7]\<rparr>"

definition sv_select :: sserver where
  "sv_select = projr (select_start 3 sv_glob)"

definition sv_event :: "int set \<Rightarrow> select_env" where
  "sv_event fds = \<lparr>e_ready = True, e_set = fds, e_conn = (4, ''/var/tmp/00042''), e_stat = (\<lambda>path. Some sv_sock), e_now = 1010, e_read = (\<lambda>fd. Inr []),
     e_mem = Some (\<lambda>i. 0), e_open = sv_open\<rparr>"

lemma sv_add:
  "client_add (Some (\<lambda>i. 0)) [] 3 0 = Inr (0, client sv_server)"
  "client_add (Some (\<lambda>i. 0)) (client sv_server) 4 7 = Inr (1, client sv_served)"
  by code_simp+

lemma sv_server_start: "poll_start (Some (\<lambda>i. 0)) (Some [sv_free, sv_free, sv_free, sv_free, sv_free, sv_free]) 3 sv_glob = Inr sv_server"
  unfolding poll_start_def sv_add(1) by (simp add: sv_server_def sv_chan_def)

lemma sv_poll: "sys_poll sv_turn sv_server = sv_server\<lparr>pollfd := [sv_free\<lparr>p_fd := 3, p_in := True\<rparr>, sv_free, sv_free, sv_free, sv_free, sv_free]\<rparr>"
  by (simp add: sys_poll_def sv_server_def sv_free_def sv_turn_def)


lemma sv_accept: "serv_accept (t_conn sv_turn) (t_stat sv_turn) (t_now sv_turn) = Inr \<lparr>a_fd = 4, a_uid = Some 7, closed = False, unlinked = Some ''/var/tmp/00042''\<rparr>"
  by (simp add: serv_accept_def sv_turn_def sv_sock_def SUN_PATH_def STALE_def)

lemma sv_server_turn: "poll_turn sv_turn sv_server = Inr sv_served"
proof -
  have m: "t_mem sv_turn = Some (\<lambda>i. 0)" "client (sv_server\<lparr>pollfd := p\<rparr>) = client sv_server" for p by (simp_all add: sv_turn_def)
  have "poll_accept sv_turn (sys_poll sv_turn sv_server) = Inr sv_served"
    unfolding poll_accept_def sv_accept sv_poll res_bind_simps Let_def accepted.simps option.case m sv_add(2)
    by (simp add: sv_served_def sv_server_def One_nat_def)
  moreover have "poll_client sv_turn 1 sv_served = Inr sv_served" by (simp add: poll_client_def sv_served_def sv_free_def One_nat_def)
  moreover have "p_in (pollfd (sys_poll sv_turn sv_server) ! 0)" unfolding sv_poll by simp
  moreover have "t_ready sv_turn" by (simp add: sv_turn_def)
  moreover have "[1..<Suc (maxi sv_served)] = [1]" by (simp add: sv_served_def upt_rec)
  ultimately show ?thesis by (simp add: poll_turn_def del: upt_Suc)
qed

lemma sv_started: "poll_started 3 6 sv_server"
  using sv_server_start by (auto simp: poll_started_def intro!: exI [of _ "[sv_free, sv_free, sv_free, sv_free, sv_free, sv_free]"])

lemma sv_server_conns: "conns sv_server = (\<lambda>fd. None)" "conns sv_served 4 = Some 7"
  by (simp_all add: sv_server_def sv_served_def)

lemma sv_reached: "reachable (poll_started 3 6) (poll_step 3 6) sv_server" "reachable (poll_started 3 6) (poll_step 3 6) sv_served"
proof -
  show s: "reachable (poll_started 3 6) (poll_step 3 6) sv_server" using sv_started by (rule reachable_start)
  have "poll_step 3 6 sv_server sv_served" using sv_server_turn sv_server_conns(1)
    by (auto simp: poll_step_def fresh_turn_def fresh_conn_def sv_turn_def intro!: exI [of _ sv_turn])
  then show "reachable (poll_started 3 6) (poll_step 3 6) sv_served" using s by (rule reachable_step [rotated])
qed

lemma sv_same: "same_server 3 6 sv_server sv_select"
proof (rule start_same [OF sv_server_start])
  show "select_start 3 sv_glob = Inr sv_select" by (simp add: sv_select_def select_start_def FD_SETSIZE_def)
qed (simp_all add: sv_free_def)

lemma sv_names: "good_name ''/etc/motd''" "good_name ''/etc/secret''" "good_flags 0" "good_error sv_open 2" "clean sv_chan"
  by (simp_all add: good_name_def white_def good_flags_def good_error_def sv_open_def clean_def sv_chan_def)


theorem each_client_has_one_slot_witness:
  "conns sv_served 4 = Some 7 \<and>
    (\<exists>!i. 0 < i \<and> i \<le> maxi sv_served \<and> 0 \<le> (4 :: int) \<and> client sv_served ! i = \<lparr>c_fd = 4, c_uid = 7\<rparr> \<and> p_fd (pollfd sv_served ! i) = 4)"
  using each_client_has_one_slot [OF sv_reached(2), of 4 7] sv_server_conns(2) by simp

theorem server_turn_is_safe_witness:
  "poll_turn sv_turn sv_server = Inr sv_served \<and> poll_inv 3 6 sv_served"
  using server_turn_is_safe [OF sv_reached(1), of sv_turn] sv_server_turn sv_server_conns(1)
  by (simp add: fresh_turn_def fresh_conn_def sv_turn_def)


theorem connections_have_proven_owners_witness:
  "poll_turn sv_turn sv_server = Inr sv_served \<and> conns sv_served 4 = Some 7 \<and> conns sv_server 4 = None \<and> proven_owner sv_turn 4 7"
  using connections_have_proven_owners [OF sv_server_turn sv_server_conns(2)] sv_server_turn sv_server_conns by simp

theorem error_of_another_client_witness:
  "\<exists>g1 c1'. request sv_open sv_glob sv_chan (message ''/etc/secret'' 0) 4 7 = Inr (g1, c1') \<and>
    request sv_open g1 sv_chan ('' '' @ [NUL]) 5 8 = Inr (g1, put sv_chan (cannot_open sv_open ''/etc/secret'' 2 @ [NUL, CHR 0x01]))"
  using error_of_another_client [OF sv_names(2,3) _ sv_names(4,5,5), of "'' ''" sv_glob 4 7 5 8] by (simp add: sv_open_def white_def)

theorem request_is_a_format_witness:
  "request sv_open sv_glob sv_chan (message ''/tmp/%n'' 0) 4 7 = Inl (Overrun ''syslog'')"
proof -
  have "cstr (message ''/tmp/%n'' 0) = ''open /tmp/'' @ CHR ''%'' # CHR ''n'' # '' 0''" by code_simp
  then show ?thesis by (intro request_is_a_format [of sv_glob _ "''open /tmp/''" "CHR ''n''" "'' 0''"]) (simp_all add: sv_glob_def message_def)
qed

theorem full_message_stops_client_witness:
  "\<exists>c'. send_err True sv_chan (-1) (replicate 4095 (CHR ''x'')) = Inr (0, c') \<and>
    recv_fd True [Inr (take MAXLINE (sent (csink c')), None)] \<lparr>sent = [], script = []\<rparr> = Inl (Err_dump ''message format error'')"
  using full_message_stops_client [of "replicate 4095 (CHR ''x'')" sv_chan "\<lparr>sent = [], script = []\<rparr>" True "[]"] sv_names(5)
  by (simp add: MAXLINE_def sv_chan_def del: recv_fd.simps)

end
