(* ===== verification/Calld_Files.thy ===== *)
theory Calld_Files
  imports Opend_Table
begin

text \<open>
  The files of the call server of \<open>apue2e/calld\<close>: \<open>Systems\<close> (\<open>sysfile.c\<close>), \<open>Devices\<close> (\<open>devfile.c\<close>) and
  \<open>Dialers\<close> (\<open>dialfile.c\<close>), read line by line and broken into their fields.
\<close>

section \<open>Lines and fields\<close>

text \<open>One call of \<open>strtok\<close>: the token, and where the next call goes on, behind the byte that ended it.\<close>

definition strtok :: "(char \<Rightarrow> bool) \<Rightarrow> string \<Rightarrow> (string \<times> string) option" where
  "strtok d s = (let t = dropWhile d s in
     if t = [] then None else Some (takeWhile (\<lambda>c. \<not> d c) t, drop 1 (dropWhile (\<lambda>c. \<not> d c) t)))"

text \<open>\<open>fgets\<close> with room for \<open>MAXLINE\<close> bytes, on what is left of the file.\<close>

definition fgets_line :: "string \<Rightarrow> string" where
  "fgets_line r = take (MAXLINE - 1) (takeWhile (\<lambda>c. c \<noteq> NL) r @ take 1 (dropWhile (\<lambda>c. c \<noteq> NL) r))"

text \<open>A line is an entry, or is skipped.\<close>

type_synonym 'e entry_parser = "string \<Rightarrow> 'e option res"

lemma length_fgets_line: "r \<noteq> [] \<Longrightarrow> 0 < length (fgets_line r)"
  by (cases r) (auto simp: fgets_line_def MAXLINE_def)

lemma length_fgets_line_le: "length (fgets_line r) \<le> length r"
proof -
  have "length (takeWhile (\<lambda>c. c \<noteq> NL) r @ take 1 (dropWhile (\<lambda>c. c \<noteq> NL) r)) \<le> length (takeWhile (\<lambda>c. c \<noteq> NL) r @ dropWhile (\<lambda>c. c \<noteq> NL) r)"
    by (simp del: takeWhile_dropWhile_id)
  then show ?thesis unfolding fgets_line_def by (simp only: takeWhile_dropWhile_id length_take)
qed

text \<open>From the label \<open>again\<close>: the next entry and the position behind it, or nothing at the end of the file.\<close>

function next_entry :: "'e entry_parser \<Rightarrow> string \<Rightarrow> nat \<Rightarrow> ('e option \<times> nat) res" where
  "next_entry parse body pos =
     (if drop pos body = [] then Inr (None, pos)
      else
        let line = fgets_line (drop pos body) in
        case parse line of
          Inl h \<Rightarrow> Inl h
        | Inr None \<Rightarrow> next_entry parse body (pos + length line)
        | Inr (Some e) \<Rightarrow> Inr (Some e, pos + length line))"
  by pat_completeness auto
termination
proof (relation "measure (\<lambda>(parse, body, pos). length body - pos)", simp)
  fix parse :: "'e entry_parser" and body pos line assume "drop pos body \<noteq> []" "line = fgets_line (drop pos body)"
  then show "((parse, body, pos + length line), parse, body, pos) \<in> measure (\<lambda>(parse, body, pos). length body - pos)"
    using length_fgets_line [of "drop pos body"] by (simp del: length_greater_0_conv)
qed

declare next_entry.simps [simp del]

lemma next_entry_pos: "next_entry parse body pos = Inr (Some e, p) \<Longrightarrow> pos < p \<and> pos < length body \<and> p \<le> length body"
proof (induction parse body pos rule: next_entry.induct)
  case (1 parse body pos)
  have ne: "drop pos body \<noteq> []" using "1.prems" by (auto simp: next_entry.simps [of parse body pos])
  have l: "0 < length (fgets_line (drop pos body))" "length (fgets_line (drop pos body)) \<le> length (drop pos body)"
    using length_fgets_line [OF ne] length_fgets_line_le [of "drop pos body"] by simp_all
  show ?case using "1.prems" "1.IH" [OF ne refl] ne l
    by (subst (asm) next_entry.simps) (fastforce simp: Let_def split: sum.splits option.splits)
qed

definition missing :: "string \<Rightarrow> string \<Rightarrow> 'a res" where
  "missing what file = Inl (Err_quit (''missing `'' @ what @ [CHR 0x27] @ '' in '' @ file @ '' file''))"

text \<open>The first field of a line decides whether it is skipped.\<close>

definition first_field :: "string \<Rightarrow> string \<Rightarrow> string \<Rightarrow> (string \<Rightarrow> string \<Rightarrow> 'e option res) \<Rightarrow> 'e option res" where
  "first_field what file line k =
     (let s = cstr line in
      case strtok white s of
        None \<Rightarrow> if take 1 s = [NL] then Inr None else missing what file
      | Some (tok, rest) \<Rightarrow> if take 1 tok = ''#'' then Inr None else k tok rest)"

definition field :: "(char \<Rightarrow> bool) \<Rightarrow> string \<Rightarrow> string \<Rightarrow> string \<Rightarrow> (string \<Rightarrow> string \<Rightarrow> 'a res) \<Rightarrow> 'a res" where
  "field d what file rest k = (case strtok d rest of None \<Rightarrow> missing what file | Some (tok, rest) \<Rightarrow> k tok rest)"

abbreviation newline :: "char \<Rightarrow> bool" where
  "newline c \<equiv> c = NL"

section \<open>Systems\<close>

record Systems =
  s_name :: string
  s_time :: string
  s_type :: string
  s_class :: string
  s_phone :: string
  s_login :: string

definition parse_sys :: "string \<Rightarrow> Systems option res" where
  "parse_sys line =
     first_field ''name'' ''Systems'' line (\<lambda>name r.
     field white ''time'' ''Systems'' r (\<lambda>time r.
     field white ''type'' ''Systems'' r (\<lambda>ty r.
     field white ''class'' ''Systems'' r (\<lambda>cl r.
     field white ''phone'' ''Systems'' r (\<lambda>phone r.
     field newline ''login'' ''Systems'' r (\<lambda>login r.
       Inr (Some \<lparr>s_name = name, s_time = time, s_type = ty, s_class = cl, s_phone = phone, s_login = login\<rparr>)))))))"

text \<open>\<open>fp\<close> is the position of the file if it is open, and \<open>body\<close> what it holds; without it the file cannot be opened.\<close>

definition fopen_once :: "string \<Rightarrow> string option \<Rightarrow> nat option \<Rightarrow> (string \<times> nat) res" where
  "fopen_once name body fp = (case body of
     None \<Rightarrow> Inl (Err_sys (''can't open '' @ name))
   | Some t \<Rightarrow> Inr (t, case fp of None \<Rightarrow> 0 | Some p \<Rightarrow> p))"

definition sys_next :: "string option \<Rightarrow> nat option \<Rightarrow> (int \<times> Systems option \<times> nat option) res" where
  "sys_next body fp =
     res_bind (fopen_once ''./Systems'' body fp) (\<lambda>(t, p).
     res_bind (next_entry parse_sys t p) (\<lambda>(e, p).
     Inr (case e of None \<Rightarrow> -1 | Some _ \<Rightarrow> int p, e, Some p)))"

definition sys_posn :: "int \<Rightarrow> nat option \<Rightarrow> nat option res" where
  "sys_posn posn fp =
     (if posn = 0 then Inr (map_option (\<lambda>_. 0) fp)
      else case fp of
        None \<Rightarrow> Inl (Overrun ''fpsys'')
      | Some _ \<Rightarrow> if posn < 0 then Inl (Err_sys ''fseek error'') else Inr (Some (nat posn)))"

section \<open>Devices\<close>

record Devices =
  d_type :: string
  d_line :: string
  d_line2 :: string
  d_class :: string
  d_dialer :: string

definition parse_dev :: "string \<Rightarrow> Devices option res" where
  "parse_dev line =
     first_field ''type'' ''Devices'' line (\<lambda>ty r.
     field white ''line'' ''Devices'' r (\<lambda>ln r.
     field white ''line2'' ''Devices'' r (\<lambda>ln2 r.
     field white ''class'' ''Devices'' r (\<lambda>cl r.
     field white ''dialer'' ''Devices'' r (\<lambda>dialer r.
       Inr (Some \<lparr>d_type = ty, d_line = ln, d_line2 = ln2, d_class = cl, d_dialer = dialer\<rparr>))))))"

text \<open>
  The loop of \<open>dev_find\<close> from a position of the file.  The file is rewound first, so that its position never
  matters.  What is returned is the device or the text for \<open>errmsg\<close>.
\<close>

function dev_scan :: "(Devices \<Rightarrow> bool) \<Rightarrow> string \<Rightarrow> nat \<Rightarrow> Devices option res" where
  "dev_scan ok body pos = (case next_entry parse_dev body pos of
     Inl h \<Rightarrow> Inl h
   | Inr (None, p) \<Rightarrow> Inr None
   | Inr (Some d, p) \<Rightarrow> if ok d then Inr (Some d) else dev_scan ok body p)"
  by pat_completeness auto
termination
  by (relation "measure (\<lambda>(ok, body, pos). length body - pos)") (auto dest: next_entry_pos)

declare dev_scan.simps [simp del]

definition dev_find :: "string option \<Rightarrow> Systems \<Rightarrow> (Devices option \<times> string) res" where
  "dev_find body s =
     res_bind (fopen_once ''./Devices'' body None) (\<lambda>(t, p).
     res_bind (dev_scan (\<lambda>d. s_type s = d_type d \<and> s_class s = d_class d) t 0) (\<lambda>d.
     case d of
       Some _ \<Rightarrow> Inr (d, [])
     | None \<Rightarrow> res_bind (into_errmsg (''device `'' @ s_type s @ [CHR 0x27] @ ''/`'' @ s_class s @ [CHR 0x27] @ '' not found'' @ [NL])) (\<lambda>m. Inr (None, m))))"

section \<open>Dialers\<close>

record Dialers =
  di_dialer :: string
  di_sub :: string
  di_expsend :: string

definition parse_dial :: "string \<Rightarrow> Dialers option res" where
  "parse_dial line =
     first_field ''dialer'' ''Dialers'' line (\<lambda>dialer r.
     field white ''sub'' ''Dialers'' r (\<lambda>sub r.
     field newline ''expsend'' ''Dialers'' r (\<lambda>expsend r.
       Inr (Some \<lparr>di_dialer = dialer, di_sub = sub, di_expsend = expsend\<rparr>))))"

function dial_scan :: "(Dialers \<Rightarrow> bool) \<Rightarrow> string \<Rightarrow> nat \<Rightarrow> Dialers option res" where
  "dial_scan ok body pos = (case next_entry parse_dial body pos of
     Inl h \<Rightarrow> Inl h
   | Inr (None, p) \<Rightarrow> Inr None
   | Inr (Some d, p) \<Rightarrow> if ok d then Inr (Some d) else dial_scan ok body p)"
  by pat_completeness auto
termination
  by (relation "measure (\<lambda>(ok, body, pos). length body - pos)") (auto dest: next_entry_pos)

declare dial_scan.simps [simp del]

text \<open>
  The message of \<open>dial_find\<close> names the dialer the last line of the file begins with, not the one that was looked for;
  with an empty last line, or none, a null pointer is printed.
\<close>

function last_line :: "string \<Rightarrow> string" where
  "last_line r = (if r = [] then [] else let line = fgets_line r; r' = drop (length line) r in if r' = [] then line else last_line r')"
  by pat_completeness auto
termination
proof (relation "measure length", simp)
  fix r line r' assume "r \<noteq> []" "line = fgets_line r" "r' = drop (length line) r"
  then show "(r', r) \<in> measure length" using length_fgets_line [of r] by (cases "fgets_line r") auto
qed

declare last_line.simps [simp del]

definition dial_find :: "string option \<Rightarrow> Devices \<Rightarrow> (Dialers option \<times> string) res" where
  "dial_find body dv =
     res_bind (fopen_once ''./Dialers'' body None) (\<lambda>(t, p).
     res_bind (dial_scan (\<lambda>d. di_dialer d = d_dialer dv) t 0) (\<lambda>d.
     case d of
       Some _ \<Rightarrow> Inr (d, [])
     | None \<Rightarrow> (case strtok white (cstr (last_line t)) of
           None \<Rightarrow> Inl (Overrun ''dialptr->dialer'')
         | Some (name, _) \<Rightarrow> res_bind (into_errmsg (''dialer `'' @ name @ [CHR 0x27] @ '' not found'' @ [NL])) (\<lambda>m. Inr (None, m)))))"

end
