(* ===== verification/Calld_Dial.thy ===== *)
theory Calld_Dial
  imports Calld_Files
begin

text \<open>
  Dialing, the work of a child of the call server: \<open>debug.c\<close>, \<open>ctlstr.c\<close>, \<open>expectstr.c\<close>, \<open>sendstr.c\<close>,
  \<open>ttydial.c\<close>, \<open>ttyopen.c\<close> and \<open>childdial.c\<close> of \<open>apue2e/calld\<close>.
\<close>

section \<open>The state of a child\<close>

text \<open>
  What reads from the line bring: a byte, the alarm, which interrupts the read or comes just before it, or a failure;
  with nothing left the read waits.
\<close>

datatype tty_event = Byte char | Alarm | Fail

text \<open>
  \<open>conn\<close> is the connection to the client, \<open>dbg\<close> the variable \<open>Debug\<close>, \<open>emsg\<close> the variable \<open>errmsg\<close>,
  \<open>tin\<close> and \<open>tout\<close> are the two directions of the line.
\<close>

record child =
  conn :: chan
  dbg :: bool
  emsg :: string
  tin :: "tty_event list"
  tout :: sink
  caught_alrm :: bool

definition debug_out :: "bool \<Rightarrow> string \<Rightarrow> chan \<Rightarrow> chan res" where
  "debug_out Debug line c =
     (if \<not> Debug then Inr c
      else if length line \<ge> MAXLINE then Inl (Overrun ''line'')
      else res_bind (writen (csink c) line) (\<lambda>(r, k).
        if r \<noteq> int (length line) then Inl (Err_sys ''writen error'') else Inr (c\<lparr>csink := k\<rparr>)))"

definition DEBUG_NONL :: "string \<Rightarrow> child \<Rightarrow> child res" where
  "DEBUG_NONL line s = res_bind (debug_out (dbg s) line (conn s)) (\<lambda>c. Inr (s\<lparr>conn := c\<rparr>))"

definition DEBUG :: "string \<Rightarrow> child \<Rightarrow> child res" where
  "DEBUG line s = DEBUG_NONL (line @ [NL]) s"

text \<open>The printable form of a character.\<close>

definition oct_digit :: "nat \<Rightarrow> char" where
  "oct_digit n = char_of (48 + n mod 8)"

definition ctl_str :: "char \<Rightarrow> string" where
  "ctl_str c =
     (let n = (of_char c :: nat) in
      if n = 0 then [CHR 0x5C, CHR ''0'']
      else if n < 32 then [CHR ''^'', char_of (n + 64)]
      else if n = 127 then ''DEL''
      else if n > 127 then [CHR 0x5C, oct_digit (n div 64), oct_digit (n div 8), oct_digit n]
      else [c])"

section \<open>Expecting a string\<close>

text \<open>The byte read, if there is one.  The result of the function is -1 otherwise, but of type \<open>size_t\<close>.\<close>

definition exp_read :: "child \<Rightarrow> (nat \<times> char option \<times> child) res" where
  "exp_read s =
     (if caught_alrm s then res_bind (DEBUG (NL # ''read timeout'') s) (\<lambda>s. Inr (2 ^ 64 - 1, None, s))
      else case tin s of
        [] \<Rightarrow> Inl (Blocked ''read'')
      | Byte c # ev \<Rightarrow> res_bind (DEBUG_NONL (ctl_str c) (s\<lparr>tin := ev\<rparr>)) (\<lambda>s. Inr (1, Some c, s))
      | Alarm # ev \<Rightarrow> res_bind (DEBUG (NL # ''read timeout'') (s\<lparr>tin := ev, caught_alrm := True\<rparr>)) (\<lambda>s. Inr (2 ^ 64 - 1, None, s))
      | Fail # ev \<Rightarrow> Inl (Err_sys ''read error''))"

fun unescape :: "string \<Rightarrow> string + char option" where
  "unescape [] = Inl []"
| "unescape (c # r) =
     (if c = CHR 0x5C
      then (case r of
          [] \<Rightarrow> Inr None
        | d # r' \<Rightarrow>
            if d = CHR ''r'' then (case unescape r' of Inl t \<Rightarrow> Inl (CHR 0x0D # t) | Inr e \<Rightarrow> Inr e)
            else if d = CHR ''s'' then (case unescape r' of Inl t \<Rightarrow> Inl (CHR '' '' # t) | Inr e \<Rightarrow> Inr e)
            else Inr (Some d))
      else (case unescape r of Inl t \<Rightarrow> Inl (c # t) | Inr e \<Rightarrow> Inr e))"

text \<open>The test \<open>exp_read(fd, &c) < 0\<close>, on an unsigned value.\<close>

definition unsigned_below_zero :: "nat \<Rightarrow> bool" where
  "unsigned_below_zero n \<longleftrightarrow> n < 0"

text \<open>Skipping to the first character of the string; \<open>c\<close> is the variable of that name.\<close>

primrec expect_skip :: "nat \<Rightarrow> char \<Rightarrow> char \<Rightarrow> child \<Rightarrow> (int \<times> char \<times> child) res" where
  "expect_skip 0 first c s = Inl Loops"
| "expect_skip (Suc fuel) first c s =
     res_bind (exp_read s) (\<lambda>(r, b, s).
       if unsigned_below_zero r then Inr (-1, c, s)
       else
         let c = (case b of Some x \<Rightarrow> x | None \<Rightarrow> c) in
         if c = first then Inr (0, c, s) else expect_skip fuel first c s)"

text \<open>One read into \<open>inbuf\<close> at \<open>inptr\<close>.\<close>

definition read_into :: "char list \<Rightarrow> nat \<Rightarrow> child \<Rightarrow> (nat \<times> char list \<times> child) res" where
  "read_into inbuf inptr s =
     res_bind (exp_read s) (\<lambda>(r, b, s).
       case b of
         None \<Rightarrow> Inr (r, inbuf, s)
       | Some x \<Rightarrow> if inptr \<ge> length inbuf then Inl (Overrun ''inbuf'') else Inr (r, inbuf[inptr := x], s))"

text \<open>Reading until \<open>matchlen\<close> characters are there; the counter \<open>i\<close> is \<open>inptr + 1\<close>.\<close>

primrec expect_fill :: "nat \<Rightarrow> char list \<Rightarrow> nat \<Rightarrow> child \<Rightarrow> (int \<times> char list \<times> nat \<times> child) res" where
  "expect_fill 0 inbuf inptr s = Inr (0, inbuf, inptr, s)"
| "expect_fill (Suc n) inbuf inptr s =
     res_bind (read_into inbuf (inptr + 1) s) (\<lambda>(r, inbuf, s).
       if unsigned_below_zero r then Inr (-1, inbuf, inptr + 1, s) else expect_fill n inbuf (inptr + 1) s)"

text \<open>Comparing and reading on.  \<open>strncmp\<close> stops at the first difference, but not behind the buffer.\<close>

definition strncmp_eq :: "char list \<Rightarrow> nat \<Rightarrow> string \<Rightarrow> bool res" where
  "strncmp_eq inbuf cmpptr expstr =
     (let t = drop cmpptr inbuf in
      if length expstr \<le> length t then Inr (take (length expstr) t = expstr)
      else if take (length t) expstr = t then Inl (Overrun ''inbuf'') else Inr False)"

primrec expect_match :: "nat \<Rightarrow> string \<Rightarrow> char list \<Rightarrow> nat \<Rightarrow> nat \<Rightarrow> child \<Rightarrow> (int \<times> child) res" where
  "expect_match 0 expstr inbuf inptr cmpptr s = Inl Loops"
| "expect_match (Suc fuel) expstr inbuf inptr cmpptr s =
     res_bind (strncmp_eq inbuf cmpptr expstr) (\<lambda>eq.
       if eq then Inr (0, s)
       else res_bind (read_into inbuf (inptr + 1) s) (\<lambda>(r, inbuf, s).
         if unsigned_below_zero r then Inr (-1, s) else expect_match fuel expstr inbuf (inptr + 1) (cmpptr + 1) s))"

text \<open>\<open>inbuf\<close> is what the buffer happens to hold before.\<close>

definition expect_str :: "nat \<Rightarrow> char list \<Rightarrow> string \<Rightarrow> child \<Rightarrow> (int \<times> child) res" where
  "expect_str fuel inbuf ptr s =
     (if ptr = [CHR 0x22, CHR 0x22] then res_bind (DEBUG (NL # ''expect: got it'') s) (\<lambda>s. Inr (0, s))
      else case unescape ptr of
        Inr None \<Rightarrow> res_bind (into_errmsg (''invalid expect string: '' @ ptr @ [NL])) (\<lambda>m. Inr (-1, s\<lparr>emsg := m\<rparr>))
      | Inr (Some c) \<Rightarrow> Inr (-1, s\<lparr>emsg := ''unknown expect escape char: '' @ CHR 0x5C # ctl_str c @ [NL]\<rparr>)
      | Inl expstr \<Rightarrow>
          res_bind (expect_skip fuel (case expstr of [] \<Rightarrow> NUL | c # _ \<Rightarrow> c) NUL (s\<lparr>caught_alrm := False\<rparr>)) (\<lambda>(r, c, s).
            if r < 0 then Inr (-1, s)
            else res_bind (expect_fill (length expstr - 1) (inbuf[0 := c]) 0 s) (\<lambda>(r, inbuf, inptr, s).
              if r < 0 then Inr (-1, s)
              else res_bind (expect_match fuel expstr inbuf inptr 0 s) (\<lambda>(r, s).
                if r < 0 then Inr (-1, s) else res_bind (DEBUG (NL # ''expect: got it'') s) (\<lambda>s. Inr (0, s))))))"

section \<open>Sending a string\<close>

definition tty_write :: "char \<Rightarrow> child \<Rightarrow> child res" where
  "tty_write c s = (case sys_write (tout s) [c] of (r, k) \<Rightarrow> if r \<noteq> Inr 1 then Inl (Err_sys ''write error'') else Inr (s\<lparr>tout := k\<rparr>))"

text \<open>Waiting for the echo of a character.\<close>

primrec echo_wait :: "tty_event list \<Rightarrow> char \<Rightarrow> child \<Rightarrow> child res" where
  "echo_wait [] c s = Inl (Blocked ''read'')"
| "echo_wait (ev # evs) c s = (case ev of
     Byte x \<Rightarrow> res_bind (DEBUG_NONL (''{'' @ ctl_str x @ ''}'') (s\<lparr>tin := evs\<rparr>)) (\<lambda>s. if x = c then Inr s else echo_wait evs c s)
   | _ \<Rightarrow> Inl (Err_sys ''read error''))"

definition send_char :: "char \<Rightarrow> bool \<Rightarrow> child \<Rightarrow> child res" where
  "send_char c echocheck s =
     res_bind (DEBUG_NONL (ctl_str c) s) (\<lambda>s.
     res_bind (tty_write c s) (\<lambda>s.
     if echocheck then echo_wait (tin s) c s else Inr s))"

text \<open>
  Each call of the loop gives one less unit of fuel, as does the call for the phone number; what that returns is ignored.
\<close>

primrec send_str :: "nat \<Rightarrow> string \<Rightarrow> string \<Rightarrow> bool \<Rightarrow> child \<Rightarrow> (int \<times> child) res" where
  "send_str 0 ptr phone echocheck s = Inl Loops"
| "send_str (Suc fuel) ptr phone echocheck s = (case ptr of
     [] \<Rightarrow>
       res_bind (DEBUG_NONL (ctl_str (CHR 0x0D)) s) (\<lambda>s.
       res_bind (tty_write (CHR 0x0D) s) (\<lambda>s.
       res_bind (DEBUG [] s) (\<lambda>s. Inr (0, s))))
   | c # r \<Rightarrow>
       if c \<noteq> CHR 0x5C then res_bind (send_char c echocheck s) (\<lambda>s. send_str fuel r phone echocheck s)
       else (case r of
         [] \<Rightarrow> Inr (-1, s\<lparr>emsg := ''backslash at end of send string'' @ [NL]\<rparr>)
       | d # r' \<Rightarrow>
           if d = CHR ''c'' then if r' = [] then res_bind (DEBUG [] s) (\<lambda>s. Inr (0, s)) else send_str fuel r' phone echocheck s
           else if d = CHR ''d'' then res_bind (DEBUG_NONL ''<delay>'' s) (\<lambda>s. send_str fuel r' phone echocheck s)
           else if d = CHR ''p'' then res_bind (DEBUG_NONL ''<pause>'' s) (\<lambda>s. send_str fuel r' phone echocheck s)
           else if d = CHR ''e'' then res_bind (DEBUG_NONL ''<echo check off>'' s) (\<lambda>s. send_str fuel r' phone False s)
           else if d = CHR ''E'' then res_bind (DEBUG_NONL ''<echo check on>'' s) (\<lambda>s. send_str fuel r' phone True s)
           else if d = CHR ''T'' then res_bind (send_str fuel phone phone echocheck s) (\<lambda>(_, s). send_str fuel r' phone echocheck s)
           else if d = CHR ''r'' then res_bind (send_char (CHR 0x0D) echocheck s) (\<lambda>s. send_str fuel r' phone echocheck s)
           else if d = CHR ''s'' then res_bind (send_char (CHR '' '') echocheck s) (\<lambda>s. send_str fuel r' phone echocheck s)
           else Inr (-1, s\<lparr>emsg := ''unknown send escape char: '' @ CHR 0x5C # ctl_str d @ [NL]\<rparr>)))"

section \<open>The chat with the modem\<close>

text \<open>The tokens of \<open>expsend\<close>, in turn expected and sent.\<close>

fun dial_tokens :: "nat \<Rightarrow> char list \<Rightarrow> string \<Rightarrow> string list \<Rightarrow> child \<Rightarrow> (int \<times> child) res" where
  "dial_tokens fuel inbuf phone [] s = Inl (Overrun ''ptr'')"
| "dial_tokens fuel inbuf phone (e # ts) s =
     res_bind (DEBUG_NONL (''expect = '' @ e @ NL # ''read: '') s) (\<lambda>s.
     res_bind (expect_str fuel inbuf e s) (\<lambda>(r, s).
       if r < 0 then Inr (-1, s)
       else (case ts of
         [] \<Rightarrow> Inr (0, s)
       | t # ts' \<Rightarrow>
           res_bind (DEBUG_NONL (''send = '' @ t @ NL # ''write: '') s) (\<lambda>s.
           res_bind (send_str fuel t phone False s) (\<lambda>(r, s).
             if r < 0 then Inr (-1, s) else if ts' = [] then Inr (0, s) else dial_tokens fuel inbuf phone ts' s)))))"

definition tty_dial :: "nat \<Rightarrow> char list \<Rightarrow> string \<Rightarrow> string \<Rightarrow> child \<Rightarrow> (int \<times> child) res" where
  "tty_dial fuel inbuf phone expsend s = dial_tokens fuel inbuf phone (tokens expsend) s"

section \<open>Opening the line\<close>

datatype parity = NONE | EVEN | ODD

definition CS7 :: nat where "CS7 = 0x20"
definition CS8 :: nat where "CS8 = 0x30"
definition CREAD :: nat where "CREAD = 0x80"
definition PARENB :: nat where "PARENB = 0x100"
definition PARODD :: nat where "PARODD = 0x200"
definition HUPCL :: nat where "HUPCL = 0x400"
definition CLOCAL :: nat where "CLOCAL = 0x800"
definition IGNBRK :: nat where "IGNBRK = 0x1"
definition IGNPAR :: nat where "IGNPAR = 0x4"
definition ISTRIP :: nat where "ISTRIP = 0x20"
definition IXON :: nat where "IXON = 0x400"
definition IXOFF :: nat where "IXOFF = 0x1000"

record termios =
  c_cflag :: nat
  c_oflag :: nat
  c_iflag :: nat
  c_lflag :: nat
  vmin :: nat
  vtime :: nat
  speed :: nat

definition bauds :: "(string \<times> nat) list" where
  "bauds = [(''38400'', 15), (''19200'', 14), (''9600'', 13), (''4800'', 12), (''2400'', 11), (''1800'', 10), (''1200'', 9),
     (''600'', 8), (''300'', 7), (''200'', 6), (''150'', 5), (''134'', 4), (''110'', 3), (''75'', 2), (''50'', 1)]"

unbundle bit_operations_syntax

definition tty_modes :: "parity \<Rightarrow> bool \<Rightarrow> nat \<Rightarrow> termios" where
  "tty_modes par modem baud =
     \<lparr>c_cflag = (case par of NONE \<Rightarrow> CS8 | EVEN \<Rightarrow> CS7 OR PARENB | ODD \<Rightarrow> CS7 OR PARENB OR PARODD) OR CREAD OR HUPCL OR (if modem then 0 else CLOCAL),
      c_oflag = 0, c_iflag = IXON OR IXOFF OR IGNBRK OR ISTRIP OR IGNPAR, c_lflag = 0, vmin = 1, vtime = 0, speed = baud\<rparr>"

text \<open>What the system calls do for the child.\<close>

record tty_env =
  dev_open :: "string \<Rightarrow> int + int"
  dev_error :: "int \<Rightarrow> string"
  isatty :: bool
  getattr_ok :: bool
  setattr_ok :: bool
  clr_fl_ok :: bool

definition tty_open :: "tty_env \<Rightarrow> string \<Rightarrow> string \<Rightarrow> parity \<Rightarrow> bool \<Rightarrow> child \<Rightarrow> (int \<times> termios option \<times> child) res" where
  "tty_open e cls line par modem s =
     (let devname = ''/dev/'' @ line in
      if length devname \<ge> 100 then Inl (Overrun ''devname'')
      else case dev_open e devname of
        Inl en \<Rightarrow> res_bind (into_errmsg (''can't open '' @ devname @ '': '' @ dev_error e en @ [NL])) (\<lambda>m. Inr (-1, None, s\<lparr>emsg := m\<rparr>))
      | Inr fd \<Rightarrow>
          if \<not> isatty e then Inr (-1, None, s\<lparr>emsg := devname @ '' is not a tty'' @ [NL]\<rparr>)
          else if \<not> getattr_ok e then Inl (Err_sys ''tcgetattr error'')
          else case map_of bauds cls of
            None \<Rightarrow> res_bind (into_errmsg (''invalid baud rate: '' @ cls @ [NL])) (\<lambda>m. Inr (-1, None, s\<lparr>emsg := m\<rparr>))
          | Some baud \<Rightarrow>
              if \<not> setattr_ok e then Inl (Err_sys ''tcsetattr error'')
              else res_bind (DEBUG ''tty open'' s) (\<lambda>s.
                if \<not> clr_fl_ok e then Inl (Err_sys ''fcntl error'') else Inr (fd, Some (tty_modes par modem baud), s)))"

section \<open>The child\<close>

text \<open>The exit status of the child, and what it has sent.  The child has the globals of its parent from the time of the \<open>fork\<close>.\<close>

definition child_die :: "child \<Rightarrow> (int \<times> child) res" where
  "child_die s =
     res_bind (writen (csink (conn s)) (emsg s)) (\<lambda>(r, k).
       if r \<noteq> int (length (emsg s)) then Inl (Err_sys ''writen error'') else Inr (1, s\<lparr>conn := (conn s)\<lparr>csink := k\<rparr>\<rparr>))"

definition child_send :: "bool \<Rightarrow> int \<Rightarrow> child \<Rightarrow> (int \<times> child) res" where
  "child_send mem fd s =
     res_bind (DEBUG ''done'' s) (\<lambda>s.
       case send_fd mem (conn s) fd of (r, c) \<Rightarrow> if r < 0 then Inl (Err_sys ''send_fd error'') else Inr (0, s\<lparr>conn := c\<rparr>))"

definition child_dial :: "nat \<Rightarrow> char list \<Rightarrow> bool \<Rightarrow> tty_env \<Rightarrow> string option \<Rightarrow> int \<Rightarrow> Systems \<Rightarrow> Devices \<Rightarrow> parity \<Rightarrow> child \<Rightarrow> (int \<times> child) res" where
  "child_dial fuel inbuf mem e dialers pid sy dv par s =
     res_bind (DEBUG (''child, pid '' @ dec_int pid) s) (\<lambda>s.
     if d_dialer dv = ''direct''
     then res_bind (tty_open e (s_class sy) (d_line dv) par False s) (\<lambda>(fd, _, s). if fd < 0 then child_die s else child_send mem fd s)
     else
       res_bind (dial_find dialers dv) (\<lambda>(d, m).
       case d of
         None \<Rightarrow> child_die (s\<lparr>emsg := m\<rparr>)
       | Some di \<Rightarrow>
           res_bind (tty_open e (s_class sy) (d_line dv) par True s) (\<lambda>(fd, _, s).
             if fd < 0 then child_die s
             else res_bind (tty_dial fuel inbuf (s_phone sy) (di_expsend di) s) (\<lambda>(r, s).
               if r < 0 then child_die s else child_send mem fd s))))"

end
