(* ===== verification/Calld_Model.thy ===== *)
theory Calld_Model
  imports Calld_Dial
begin

text \<open>
  The call server of \<open>apue2e/calld\<close>: its clients (\<open>client.c\<close>), the locks of the lines (\<open>lock.c\<close>), the
  options of a request (\<open>cliargs.c\<close>), a request (\<open>request.c\<close>), the end of a child (\<open>sigchld.c\<close>) and the loop
  (\<open>loop.c\<close>).
\<close>

section \<open>Options\<close>

text \<open>
  \<open>getopt\<close> of the C library with the options \<open>des:o\<close>: options may come after other arguments.
\<close>

datatype opt = Opt char | Opt_arg char string | Opt_bad char

fun opt_letters :: "string \<Rightarrow> string list \<Rightarrow> opt list \<times> string list" where
  "opt_letters [] args = ([], args)"
| "opt_letters (c # cs) args =
     (if c = CHR ''d'' \<or> c = CHR ''e'' \<or> c = CHR ''o'' then (case opt_letters cs args of (os, r) \<Rightarrow> (Opt c # os, r))
      else if c = CHR ''s'' then
        if cs \<noteq> [] then ([Opt_arg c cs], args)
        else (case args of [] \<Rightarrow> ([Opt_bad c], []) | a # r \<Rightarrow> ([Opt_arg c a], r))
      else (case opt_letters cs args of (os, r) \<Rightarrow> (Opt_bad c # os, r)))"

lemma opt_letters_shorter: "length (snd (opt_letters cs args)) \<le> length args"
  by (induction cs args rule: opt_letters.induct) (auto split: prod.splits list.splits)

lemma opt_letters_rest: "(os, r) = opt_letters cs args \<Longrightarrow> length r \<le> length args"
  using opt_letters_shorter [of cs args] by (metis snd_conv)

function getopt :: "string list \<Rightarrow> opt list \<times> string list" where
  "getopt [] = ([], [])"
| "getopt (a # args) =
     (if a = ''--'' then ([], args)
      else if take 1 a = ''-'' \<and> length a > 1
      then (case opt_letters (drop 1 a) args of (os, r) \<Rightarrow> case getopt r of (os', w) \<Rightarrow> (os @ os', w))
      else case getopt args of (os, w) \<Rightarrow> (os, a # w))"
  by pat_completeness auto
termination
  by (relation "measure length") (auto simp: less_Suc_eq_le dest: opt_letters_rest)

text \<open>The options of a request: \<open>Debug\<close>, \<open>parity\<close>, \<open>speed\<close> (a null pointer is no value), \<open>sysname\<close>.\<close>

record options =
  o_errmsg :: string
  o_Debug :: bool
  o_parity :: parity
  o_speed :: "string option"
  o_sysname :: string

primrec call_options :: "opt list \<Rightarrow> options \<Rightarrow> char option \<times> options" where
  "call_options [] g = (None, g)"
| "call_options (op # ops) g = (case op of
     Opt c \<Rightarrow>
       if c = CHR ''d'' then call_options ops (g\<lparr>o_Debug := True\<rparr>)
       else if c = CHR ''e'' then call_options ops (g\<lparr>o_parity := EVEN\<rparr>)
       else call_options ops (g\<lparr>o_parity := ODD\<rparr>)
   | Opt_arg c a \<Rightarrow> call_options ops (g\<lparr>o_speed := Some a\<rparr>)
   | Opt_bad c \<Rightarrow> (Some c, g))"

definition call_args :: "string list \<Rightarrow> options \<Rightarrow> int \<times> options" where
  "call_args argv g =
     (if length argv < 2 \<or> argv ! 0 \<noteq> ''call'' then (-1, g\<lparr>o_errmsg := ''usage: call <options> <hostname>''\<rparr>)
      else
        let (ops, names) = getopt (tl argv); (bad, g) = call_options ops (g\<lparr>o_Debug := False, o_parity := NONE, o_speed := None\<rparr>) in
        case bad of
          Some c \<Rightarrow> (-1, g\<lparr>o_errmsg := ''unrecognized option: -'' @ [c, NL]\<rparr>)
        | None \<Rightarrow> (case names of
            [] \<Rightarrow> (-1, g\<lparr>o_errmsg := ''missing <hostname> to call'' @ [NL]\<rparr>)
          | n # _ \<Rightarrow> (0, g\<lparr>o_sysname := n\<rparr>)))"

section \<open>Clients\<close>

record caller =
  k_fd :: int
  k_pid :: int
  k_uid :: "32 word"
  childdone :: int
  sysftell :: int
  foundone :: int
  k_Debug :: bool
  k_parity :: parity
  k_speed :: string
  k_sysname :: string

text \<open>Only the descriptor of a new entry is set; \<open>mem\<close> is what new memory happens to hold.\<close>

definition call_alloc :: "(nat \<Rightarrow> caller) option \<Rightarrow> caller list \<Rightarrow> caller list res" where
  "call_alloc mem tab = (case mem of
     None \<Rightarrow> Inl (Err_sys ''can't alloc for client array'')
   | Some m \<Rightarrow> Inr (tab @ map (\<lambda>i. (m i)\<lparr>k_fd := -1\<rparr>) [0..<NALLOC]))"

primrec caller_at :: "(caller \<Rightarrow> bool) \<Rightarrow> caller list \<Rightarrow> nat option" where
  "caller_at P [] = None"
| "caller_at P (c # cs) = (if P c then Some 0 else map_option Suc (caller_at P cs))"

primrec call_search :: "nat \<Rightarrow> (nat \<Rightarrow> caller) option \<Rightarrow> caller list \<Rightarrow> int \<Rightarrow> 32 word \<Rightarrow> (nat \<times> caller list) res" where
  "call_search 0 mem tab fd uid = Inl Loops"
| "call_search (Suc fuel) mem tab fd uid = (case caller_at (\<lambda>c. k_fd c = -1) tab of
     Some i \<Rightarrow> Inr (i, tab[i := (tab ! i)\<lparr>k_fd := fd, k_uid := uid\<rparr>])
   | None \<Rightarrow> res_bind (call_alloc mem tab) (\<lambda>tab. call_search fuel mem tab fd uid))"

definition call_add :: "(nat \<Rightarrow> caller) option \<Rightarrow> caller list \<Rightarrow> int \<Rightarrow> 32 word \<Rightarrow> (nat \<times> caller list) res" where
  "call_add mem tab fd uid =
     res_bind (if tab = [] then call_alloc mem tab else Inr tab) (\<lambda>tab. call_search 2 mem tab fd uid)"

definition call_del :: "caller list \<Rightarrow> int \<Rightarrow> caller list res" where
  "call_del tab fd = (case caller_at (\<lambda>c. k_fd c = fd) tab of
     Some i \<Rightarrow> Inr (tab[i := (tab ! i)\<lparr>k_fd := -1\<rparr>])
   | None \<Rightarrow> Inl (Err_quit (''can't find client entry for fd '' @ dec_int fd)))"

definition client_sigchld :: "caller list \<Rightarrow> int \<Rightarrow> int \<Rightarrow> caller list res" where
  "client_sigchld tab pid stat = (case caller_at (\<lambda>c. k_pid c = pid) tab of
     Some i \<Rightarrow> Inr (tab[i := (tab ! i)\<lparr>childdone := stat\<rparr>])
   | None \<Rightarrow> Inl (Err_quit (''can't find client entry for pid '' @ dec_int pid)))"

section \<open>Locks\<close>

text \<open>The entries in use: device and process ID, 0 if the device is free.\<close>

type_synonym lock = "string \<times> int"

primrec lock_at :: "(lock \<Rightarrow> bool) \<Rightarrow> lock list \<Rightarrow> nat option" where
  "lock_at P [] = None"
| "lock_at P (l # ls) = (if P l then Some 0 else map_option Suc (lock_at P ls))"

definition find_line :: "bool \<Rightarrow> string \<Rightarrow> lock list \<Rightarrow> (nat \<times> lock list) res" where
  "find_line mem line ls = (case lock_at (\<lambda>l. fst l = line) ls of
     Some i \<Rightarrow> Inr (i, ls)
   | None \<Rightarrow> if mem then Inr (length ls, ls @ [(line, 0)]) else Inl (Err_sys ''can't alloc for lock array''))"

definition lock_set :: "bool \<Rightarrow> bool \<Rightarrow> string \<Rightarrow> int \<Rightarrow> lock list \<Rightarrow> lock list res" where
  "lock_set dbglog mem line pid ls =
     res_bind (log_doit dbglog (''locking '' @ line @ '' for pid '' @ dec_int pid)) (\<lambda>_.
     res_bind (find_line mem line ls) (\<lambda>(i, ls). Inr (ls[i := (fst (ls ! i), pid)])))"

definition lock_rel :: "bool \<Rightarrow> int \<Rightarrow> lock list \<Rightarrow> lock list res" where
  "lock_rel dbglog pid ls = (case lock_at (\<lambda>l. snd l = pid) ls of
     Some i \<Rightarrow> res_bind (log_doit dbglog (''unlocking '' @ fst (ls ! i) @ '' for pid '' @ dec_int pid)) (\<lambda>_. Inr (ls[i := (fst (ls ! i), 0)]))
   | None \<Rightarrow> Inr ls)"

definition is_locked :: "bool \<Rightarrow> string \<Rightarrow> lock list \<Rightarrow> (int \<times> lock list) res" where
  "is_locked mem line ls = res_bind (find_line mem line ls) (\<lambda>(i, ls). Inr (snd (ls ! i), ls))"

section \<open>The server\<close>

text \<open>
  \<open>opts\<close> are the global variables that \<open>cli_args\<close> sets, \<open>errmsg\<close> with them.  \<open>kids\<close> are the children that have
  not ended, with the line each was started for; \<open>links\<close> is what has been sent to each client.
\<close>

record calld =
  logging :: bool
  opts :: options
  callers :: "caller list"
  locks :: "lock list"
  fpsys :: "nat option"
  call_set :: "int set"
  call_maxfd :: int
  call_maxi :: int
  call_listen :: int
  chld_flag :: bool
  last_uid :: "32 word"
  kids :: "int \<rightharpoonup> string"
  links :: "int \<Rightarrow> chan"

text \<open>
  What the system does during a turn; \<open>fork_pid i\<close> is what \<open>fork\<close> returns for the client in slot \<open>i\<close> after \<open>select\<close>,
  \<open>fork_head i\<close> what it returns before.
\<close>

datatype select_result = Interrupted | Select_fails | Ready "int set"

record call_env =
  sys_file :: "string option"
  dev_file :: "string option"
  fork_pid :: "nat \<Rightarrow> int"
  fork_head :: "nat \<Rightarrow> int"
  lock_mem :: bool
  sel :: select_result
  k_conn :: "int \<times> string"
  k_stat :: "string \<Rightarrow> sockstat option"
  k_now :: int
  k_read :: "int \<Rightarrow> int + bytes"
  k_mem :: "(nat \<Rightarrow> caller) option"
  fd_mem :: bool

definition put_errmsg :: "string \<Rightarrow> calld \<Rightarrow> calld" where
  "put_errmsg m s = s\<lparr>opts := (opts s)\<lparr>o_errmsg := m\<rparr>\<rparr>"

definition put_caller :: "nat \<Rightarrow> caller \<Rightarrow> calld \<Rightarrow> calld" where
  "put_caller i c s = s\<lparr>callers := (callers s)[i := c]\<rparr>"

text \<open>Debug output of the server itself, to the client whose request it works on.\<close>

definition trying :: "string \<Rightarrow> int \<Rightarrow> calld \<Rightarrow> calld res" where
  "trying line fd s = res_bind (debug_out (o_Debug (opts s)) (line @ [NL]) (links s fd)) (\<lambda>c. Inr (s\<lparr>links := (links s)(fd := c)\<rparr>))"

definition no_entry :: "caller \<Rightarrow> calld \<Rightarrow> (int \<times> calld) res" where
  "no_entry c s =
     (if foundone c = 0 then res_bind (into_errmsg (''system `'' @ k_sysname c @ [CHR 0x27] @ '' not found'' @ [NL])) (\<lambda>m. Inr (-1, put_errmsg m s))
      else if o_errmsg (opts s) = []
      then res_bind (into_errmsg (''unable to connect to system `'' @ k_sysname c @ [CHR 0x27, NL])) (\<lambda>m. Inr (-1, put_errmsg m s))
      else Inr (-1, s))"

text \<open>A child is started for the line, which is locked for it.\<close>

definition start_child :: "call_env \<Rightarrow> nat \<Rightarrow> string \<Rightarrow> calld \<Rightarrow> (int \<times> calld) res" where
  "start_child e i line s =
     (let pid = fork_pid e i in
      if pid < 0 then Inl (Err_sys ''fork error'')
      else
        res_bind (lock_set (logging s) (lock_mem e) line pid (locks s)) (\<lambda>ls.
        Inr (0, (put_caller i ((callers s ! i)\<lparr>k_pid := pid\<rparr>) s)\<lparr>locks := ls, kids := (kids s)(pid \<mapsto> line)\<rparr>)))"

text \<open>One round of the loop over the entries for the system: it is left with a result, or goes on with the next entry.\<close>

datatype round = Next calld | Return int calld

definition returned :: "int \<times> calld \<Rightarrow> round res" where
  "returned r = Inr (Return (fst r) (snd r))"

definition try_dev :: "call_env \<Rightarrow> nat \<Rightarrow> Devices \<Rightarrow> calld \<Rightarrow> round res" where
  "try_dev e i d s =
     res_bind (trying (''trying dev: '' @ d_type d @ '', '' @ d_line d @ '', '' @ d_class d @ '', '' @ d_dialer d) (k_fd (callers s ! i)) s) (\<lambda>s.
     res_bind (is_locked (lock_mem e) (d_line d) (locks s)) (\<lambda>(pid, ls).
     let s = s\<lparr>locks := ls\<rparr> in
     if pid \<noteq> 0
     then
       res_bind (into_errmsg (''device `'' @ d_line d @ [CHR 0x27] @ '' already locked by pid '' @ dec_int pid @ [NL])) (\<lambda>m.
       Inr (Next (put_errmsg m s)))
     else res_bind (start_child e i (d_line d) s) returned))"

definition try_sys :: "call_env \<Rightarrow> nat \<Rightarrow> Systems \<Rightarrow> calld \<Rightarrow> round res" where
  "try_sys e i sy s =
     res_bind (trying (''trying sys: '' @ s_name sy @ '', '' @ s_type sy @ '', '' @ s_class sy @ '', '' @ s_phone sy) (k_fd (callers s ! i)) s) (\<lambda>s.
     let c = (callers s ! i)\<lparr>foundone := foundone (callers s ! i) + 1\<rparr>; s = put_caller i c s in
     res_bind (dev_find (dev_file e) sy) (\<lambda>(dv, m).
     case dv of
       None \<Rightarrow> res_bind (no_entry c (put_errmsg m s)) returned
     | Some d \<Rightarrow> try_dev e i d s))"

definition request_round :: "call_env \<Rightarrow> nat \<Rightarrow> calld \<Rightarrow> round res" where
  "request_round e i s =
     res_bind (sys_next (sys_file e) (fpsys s)) (\<lambda>(pos, entry, fp).
     let c = (callers s ! i)\<lparr>sysftell := pos\<rparr>; s = (put_caller i c s)\<lparr>fpsys := fp\<rparr> in
     case entry of
       None \<Rightarrow> res_bind (no_entry c s) returned
     | Some sy \<Rightarrow>
         if k_sysname c \<noteq> s_name sy then Inr (Next s)
         else if k_speed c \<noteq> [] \<and> k_speed c \<noteq> s_class sy then Inr (Next s)
         else try_sys e i sy s)"

primrec request_loop :: "nat \<Rightarrow> call_env \<Rightarrow> nat \<Rightarrow> calld \<Rightarrow> (int \<times> calld) res" where
  "request_loop 0 e i s = Inl Loops"
| "request_loop (Suc fuel) e i s =
     res_bind (request_round e i s) (\<lambda>r. case r of Next s \<Rightarrow> request_loop fuel e i s | Return n s \<Rightarrow> Inr (n, s))"

text \<open>The lines of the file bound the rounds of the loop.\<close>

definition sys_fuel :: "call_env \<Rightarrow> nat" where
  "sys_fuel e = (case sys_file e of None \<Rightarrow> 1 | Some body \<Rightarrow> length body + 1)"

definition call_request :: "call_env \<Rightarrow> nat \<Rightarrow> calld \<Rightarrow> (int \<times> calld) res" where
  "call_request e i s =
     res_bind (sys_posn (sysftell (callers s ! i)) (fpsys s)) (\<lambda>fp.
     request_loop (sys_fuel e) e i ((put_errmsg [] s)\<lparr>fpsys := fp\<rparr>))"

definition cli_done :: "int \<Rightarrow> calld \<Rightarrow> calld res" where
  "cli_done fd s = res_bind (call_del (callers s) fd) (\<lambda>cl. Inr (s\<lparr>callers := cl, call_set := call_set s - {fd}\<rparr>))"

text \<open>A request, and what is done when no child could be started.\<close>

definition try_request :: "call_env \<Rightarrow> nat \<Rightarrow> int \<Rightarrow> calld \<Rightarrow> calld res" where
  "try_request e i fd s =
     res_bind (call_request e i s) (\<lambda>(r, s).
     if r < 0
     then res_bind (send_err (fd_mem e) (links s fd) (-1) (o_errmsg (opts s))) (\<lambda>(r, c).
       if r < 0 then Inl (Err_sys ''send_err error'') else cli_done fd (s\<lparr>links := (links s)(fd := c)\<rparr>))
     else Inr s)"

definition one_child_done :: "call_env \<Rightarrow> nat \<Rightarrow> calld \<Rightarrow> calld res" where
  "one_child_done e i s =
     (let c = callers s ! i in
      if k_fd c < 0 \<or> childdone c = 0 then Inr s
      else if childdone c = 1 then Inr (put_caller i (c\<lparr>childdone := 0\<rparr>) s)
      else
        res_bind (lock_rel (logging s) (k_pid c) (locks s)) (\<lambda>ls.
        try_request e i (k_fd c) ((put_caller i (c\<lparr>childdone := 0\<rparr>) s)\<lparr>locks := ls\<rparr>)))"

primrec each_caller :: "(nat \<Rightarrow> calld \<Rightarrow> calld res) \<Rightarrow> nat list \<Rightarrow> calld \<Rightarrow> calld res" where
  "each_caller f [] s = Inr s"
| "each_caller f (i # is) s = res_bind (f i s) (each_caller f is)"

definition slots_to :: "int \<Rightarrow> nat list" where
  "slots_to m = [0..<nat (m + 1)]"

text \<open>The signal may come at the head of the loop or in \<open>select\<close>; there is none in between, and the loop over the clients is run once.\<close>

definition child_done :: "call_env \<Rightarrow> calld \<Rightarrow> calld res" where
  "child_done e s = each_caller (one_child_done e) (slots_to (call_maxi s)) (s\<lparr>chld_flag := False\<rparr>)"

text \<open>The options of the request are kept with the client.\<close>

definition keep_options :: "options \<Rightarrow> caller \<Rightarrow> caller res" where
  "keep_options g c =
     (if length (o_sysname g) \<ge> 256 then Inl (Overrun ''sysname'')
      else if length (case o_speed g of None \<Rightarrow> [] | Some t \<Rightarrow> t) \<ge> 256 then Inl (Overrun ''speed'')
      else Inr (c\<lparr>k_Debug := o_Debug g, k_parity := o_parity g, k_sysname := o_sysname g,
        k_speed := (case o_speed g of None \<Rightarrow> [] | Some t \<Rightarrow> t), childdone := 0, sysftell := 0, foundone := 0\<rparr>))"

definition call_data :: "call_env \<Rightarrow> nat \<Rightarrow> int \<Rightarrow> bytes \<Rightarrow> calld \<Rightarrow> calld res" where
  "call_data e i fd buf s =
     (if last buf \<noteq> NUL then Inl (Err_quit ''request not null terminated'')
      else
        res_bind (log_doit (logging s) (''starting: '' @ cstr buf @ '', from uid '' @ dec_int (sint (last_uid s)))) (\<lambda>_.
        case buf_args buf call_args (opts s) of
          (r, g) \<Rightarrow>
            if r < 0 then Inl (Err_quit ''command line error'')
            else res_bind (keep_options g (callers s ! i)) (\<lambda>c. try_request e i fd (put_caller i c (s\<lparr>opts := g\<rparr>)))))"

definition one_client :: "call_env \<Rightarrow> int set \<Rightarrow> nat \<Rightarrow> calld \<Rightarrow> calld res" where
  "one_client e rset i s =
     (let c = callers s ! i; fd = k_fd c in
      if fd < 0 \<or> fd \<notin> rset then Inr s
      else case k_read e fd of
        Inl en \<Rightarrow> Inl (Err_sys ''read error'')
      | Inr buf \<Rightarrow>
          if buf = [] then res_bind (lock_rel (logging s) (k_pid c) (locks s)) (\<lambda>ls. cli_done fd (s\<lparr>locks := ls\<rparr>))
          else call_data e i fd buf s)"

definition call_accept :: "call_env \<Rightarrow> calld \<Rightarrow> calld res" where
  "call_accept e s =
     res_bind (serv_accept (k_conn e) (k_stat e) (k_now e)) (\<lambda>a.
      let clifd = a_fd a; uid = (case a_uid a of Some u \<Rightarrow> u | None \<Rightarrow> 0) in
      if clifd < 0 then Inl (Err_sys ''serv_accept error'')
      else res_bind (call_add (k_mem e) (callers s) clifd uid) (\<lambda>(i, cl).
        if clifd \<ge> FD_SETSIZE then Inl (Overrun ''allset'')
        else Inr (s\<lparr>callers := cl, call_set := insert clifd (call_set s), call_maxfd := max clifd (call_maxfd s), call_maxi := max (int i) (call_maxi s), last_uid := uid\<rparr>)))"

definition call_turn :: "call_env \<Rightarrow> calld \<Rightarrow> calld res" where
  "call_turn e s =
     res_bind (if chld_flag s then child_done (e\<lparr>fork_pid := fork_head e\<rparr>) s else Inr s) (\<lambda>s.
     case sel e of
       Interrupted \<Rightarrow> child_done e s
     | Select_fails \<Rightarrow> Inl (Err_sys ''select error'')
     | Ready fds \<Rightarrow>
         let rset = {fd \<in> call_set s \<inter> fds. fd \<le> call_maxfd s} in
         if call_listen s \<in> rset then call_accept e s
         else each_caller (one_client e rset) (slots_to (call_maxi s)) s)"

text \<open>A child ends: with an exit status, or by a signal.\<close>

definition sig_chld :: "int \<Rightarrow> int option \<Rightarrow> calld \<Rightarrow> calld res" where
  "sig_chld pid status s =
     (let s = s\<lparr>chld_flag := True, kids := (kids s)(pid := None)\<rparr> in
      case status of
        Some st \<Rightarrow> res_bind (client_sigchld (callers s) pid (st + 1)) (\<lambda>cl. Inr (s\<lparr>callers := cl\<rparr>))
      | None \<Rightarrow> Inr s)"

definition call_start :: "bool \<Rightarrow> options \<Rightarrow> int \<Rightarrow> calld res" where
  "call_start dbglog g listenfd =
     (if listenfd < 0 then Inl (Err_sys ''serv_listen error'')
      else if listenfd \<ge> FD_SETSIZE then Inl (Overrun ''allset'')
      else Inr \<lparr>logging = dbglog, opts = g, callers = [], locks = [], fpsys = None, call_set = {listenfd}, call_maxfd = listenfd, call_maxi = -1,
        call_listen = listenfd, chld_flag = False, last_uid = 0, kids = (\<lambda>p. None), links = (\<lambda>fd. \<lparr>csink = \<lparr>sent = [], script = []\<rparr>, passed = []\<rparr>)\<rparr>)"

end
