(* ===== verification/Calld_Inv.thy ===== *)
theory Calld_Inv
  imports Calld_Model
begin

text \<open>
  What the operations of the call server keep: each client in one slot of its own, each line locked for one
  process, each process in one slot.
\<close>

declare One_nat_def [simp del]

section \<open>If a call returns\<close>

definition post :: "'e + 'a \<Rightarrow> ('a \<Rightarrow> bool) \<Rightarrow> bool" where
  "post m Q \<longleftrightarrow> (\<forall>x. m = Inr x \<longrightarrow> Q x)"

lemma post_simps [simp]: "post (Inr x) Q = Q x" "post (Inl h) Q"
  by (simp_all add: post_def)

lemma post_bind: "post m (\<lambda>x. post (f x) Q) \<Longrightarrow> post (res_bind m f) Q"
  by (cases m) simp_all

lemma post_mono: "post m P \<Longrightarrow> (\<And>x. P x \<Longrightarrow> Q x) \<Longrightarrow> post m Q"
  by (auto simp: post_def)

lemma post_any: "(\<And>x. m = Inr x \<Longrightarrow> Q x) \<Longrightarrow> post m Q"
  by (simp add: post_def)

lemma post_seq: "(\<And>x. m = Inr x \<Longrightarrow> post (f x) Q) \<Longrightarrow> post (res_bind m f) Q"
  by (cases m) simp_all

section \<open>The table of clients\<close>

definition kslot :: "caller list \<Rightarrow> slots" where
  "kslot cl i = (if i < length cl \<and> k_fd (cl ! i) \<noteq> -1 then Some (k_fd (cl ! i), k_uid (cl ! i)) else None)"

lemma caller_at_Some: "caller_at P cl = Some i \<longleftrightarrow> i < length cl \<and> P (cl ! i) \<and> (\<forall>j<i. \<not> P (cl ! j))"
proof (induction cl arbitrary: i)
  case (Cons c cl)
  then show ?case by (cases i) (auto simp: less_Suc_eq_0_disj)
qed simp

lemma caller_at_None: "caller_at P cl = None \<longleftrightarrow> (\<forall>i<length cl. \<not> P (cl ! i))"
  by (induction cl) (auto simp: less_Suc_eq_0_disj)

text \<open>New entries come behind the others.\<close>

definition grows_by :: "(nat \<Rightarrow> caller) option \<Rightarrow> caller list \<Rightarrow> caller list \<Rightarrow> bool" where
  "grows_by mem cl cl' \<longleftrightarrow> (\<exists>new. cl' = cl @ new \<and> (\<forall>c\<in>set new. \<exists>m k. mem = Some m \<and> c = (m k)\<lparr>k_fd := -1\<rparr>))"

lemma call_alloc_grows:
  assumes "call_alloc mem cl = Inr cl'"
  shows "grows_by mem cl cl'" "caller_at (\<lambda>c. k_fd c = -1) cl' \<noteq> None"
proof -
  obtain m where m: "mem = Some m" and c: "cl' = cl @ map (\<lambda>i. (m i)\<lparr>k_fd := -1\<rparr>) [0..<NALLOC]" using assms by (auto simp: call_alloc_def split: option.splits)
  then show "grows_by mem cl cl'" by (auto simp: grows_by_def)
  show "caller_at (\<lambda>c. k_fd c = -1) cl' \<noteq> None" using c by (auto simp: caller_at_None nth_append NALLOC_def intro!: exI [of _ "length cl"])
qed

lemma grown_kslot: "grows_by mem cl cl' \<Longrightarrow> kslot cl' = kslot cl"
proof (rule ext)
  fix i assume "grows_by mem cl cl'"
  then obtain new where n: "cl' = cl @ new" "\<And>c. c \<in> set new \<Longrightarrow> k_fd c = -1" by (fastforce simp: grows_by_def)
  show "kslot cl' i = kslot cl i"
  proof (cases "i < length cl")
    case False
    then have "i < length cl' \<Longrightarrow> k_fd (cl' ! i) = -1" using n by (simp add: nth_append)
    then show ?thesis using False by (auto simp: kslot_def)
  qed (simp add: n kslot_def nth_append)
qed

lemma grown_trans: "grows_by mem a b \<Longrightarrow> grows_by mem b c \<Longrightarrow> grows_by mem a c"
proof -
  assume "grows_by mem a b" "grows_by mem b c"
  then obtain x y where "b = a @ x" "c = b @ y" "\<forall>c\<in>set x. \<exists>m k. mem = Some m \<and> c = (m k)\<lparr>k_fd := -1\<rparr>"
    "\<forall>c\<in>set y. \<exists>m k. mem = Some m \<and> c = (m k)\<lparr>k_fd := -1\<rparr>" unfolding grows_by_def by blast
  then show ?thesis unfolding grows_by_def by (intro exI [of _ "x @ y"]) (simp add: ball_Un)
qed

lemma call_search_cases:
  assumes "call_search 2 mem cl fd u = Inr (i, cl')"
  shows "\<exists>c. grows_by mem cl c \<and> caller_at (\<lambda>c. k_fd c = -1) c = Some i \<and> cl' = c[i := (c ! i)\<lparr>k_fd := fd, k_uid := u\<rparr>]"
proof (cases "caller_at (\<lambda>c. k_fd c = -1) cl")
  case None
  then obtain c2 where c2: "call_alloc mem cl = Inr c2" using assms by (cases "call_alloc mem cl") (auto simp: numeral_2_eq_2)
  obtain k where k: "caller_at (\<lambda>c. k_fd c = -1) c2 = Some k" using call_alloc_grows(2) [OF c2] by blast
  then have "i = k" "cl' = c2[k := (c2 ! k)\<lparr>k_fd := fd, k_uid := u\<rparr>]" using assms None c2 by (auto simp: numeral_2_eq_2)
  then show ?thesis using k call_alloc_grows(1) [OF c2] by blast
next
  case (Some k)
  moreover have "grows_by mem cl cl" by (simp add: grows_by_def)
  ultimately show ?thesis using assms by (auto simp: numeral_2_eq_2)
qed

lemma call_add_cases:
  assumes "call_add mem cl fd u = Inr (i, cl')"
  shows "\<exists>c. grows_by mem cl c \<and> caller_at (\<lambda>c. k_fd c = -1) c = Some i \<and> cl' = c[i := (c ! i)\<lparr>k_fd := fd, k_uid := u\<rparr>]"
proof (cases "cl = []")
  case True
  then obtain c1 where c1: "call_alloc mem cl = Inr c1" "call_search 2 mem c1 fd u = Inr (i, cl')"
    using assms by (cases "call_alloc mem cl") (auto simp: call_add_def)
  then show ?thesis using call_search_cases [OF c1(2)] grown_trans [OF call_alloc_grows(1) [OF c1(1)]] by blast
next
  case False
  then show ?thesis using call_search_cases [of mem cl fd u i cl'] assms by (simp add: call_add_def)
qed

lemma call_add_slot:
  assumes "call_add mem cl fd u = Inr (i, cl')" "0 \<le> fd"
  shows "first_free (kslot cl) i \<and> kslot cl' = (kslot cl)(i \<mapsto> (fd, u))"
proof -
  obtain c where c: "grows_by mem cl c" "caller_at (\<lambda>c. k_fd c = -1) c = Some i" "cl' = c[i := (c ! i)\<lparr>k_fd := fd, k_uid := u\<rparr>]"
    using call_add_cases [OF assms(1)] by blast
  have "first_free (kslot c) i" "kslot cl' = (kslot c)(i \<mapsto> (fd, u))"
    using c(2,3) assms(2) by (auto simp: caller_at_Some first_free_def kslot_def fun_eq_iff nth_list_update)
  then show ?thesis using grown_kslot [OF c(1)] by simp
qed

lemma call_add_returns: "\<exists>i cl'. call_add (Some m) cl fd u = Inr (i, cl')"
proof -
  have "\<exists>i cl'. call_search 2 (Some m) c fd u = Inr (i, cl')" for c
  proof (cases "caller_at (\<lambda>c. k_fd c = -1) c")
    case None
    obtain c' where c': "call_alloc (Some m) c = Inr c'" by (simp add: call_alloc_def)
    then show ?thesis using None call_alloc_grows(2) [OF c'] by (auto simp: numeral_2_eq_2)
  qed (simp add: numeral_2_eq_2)
  then show ?thesis by (auto simp: call_add_def call_alloc_def)
qed

lemma call_del_slot:
  assumes "one_slot (kslot cl)" "kslot cl i = Some (fd, u)"
  shows "call_del cl fd = Inr (cl[i := (cl ! i)\<lparr>k_fd := -1\<rparr>])" "kslot (cl[i := (cl ! i)\<lparr>k_fd := -1\<rparr>]) = (kslot cl)(i := None)"
proof -
  have i: "i < length cl" "k_fd (cl ! i) = fd" "fd \<noteq> -1" using assms(2) by (auto simp: kslot_def split: if_splits)
  have "k_fd (cl ! j) \<noteq> fd" if "j < i" for j
  proof
    assume "k_fd (cl ! j) = fd"
    then have "kslot cl j = Some (fd, k_uid (cl ! j))" using i that by (auto simp: kslot_def)
    then show False using assms that unfolding one_slot_def by blast
  qed
  then have "caller_at (\<lambda>c. k_fd c = fd) cl = Some i" using i by (simp add: caller_at_Some)
  then show "call_del cl fd = Inr (cl[i := (cl ! i)\<lparr>k_fd := -1\<rparr>])" by (simp add: call_del_def)
  show "kslot (cl[i := (cl ! i)\<lparr>k_fd := -1\<rparr>]) = (kslot cl)(i := None)" using i by (auto simp: kslot_def fun_eq_iff nth_list_update)
qed

interpretation calls: client_table kslot call_add call_del
proof unfold_locales
  show "first_free (kslot t) i \<and> kslot t' = (kslot t)(i \<mapsto> (fd, u))" if "call_add mem t fd u = Inr (i, t')" "0 \<le> fd" for mem t fd u i t'
    using call_add_slot [OF that] .
  show "\<exists>i t'. call_add (Some m) t fd u = Inr (i, t')" for m t fd u by (rule call_add_returns)
  show "\<exists>t'. call_del t fd = Inr t' \<and> kslot t' = (kslot t)(i := None)" if "one_slot (kslot t)" "kslot t i = Some (fd, u)" for t i fd u
    using call_del_slot [OF that] by blast
qed

section \<open>Locks\<close>

definition locked :: "lock list \<Rightarrow> string \<Rightarrow> int \<Rightarrow> bool" where
  "locked ls line p \<longleftrightarrow> p \<noteq> 0 \<and> (line, p) \<in> set ls"

definition locks_ok :: "lock list \<Rightarrow> bool" where
  "locks_ok ls \<longleftrightarrow> distinct (map fst ls) \<and> (\<forall>a b p. locked ls a p \<longrightarrow> locked ls b p \<longrightarrow> a = b)"

lemma lock_at_Some: "lock_at P ls = Some i \<longleftrightarrow> i < length ls \<and> P (ls ! i) \<and> (\<forall>j<i. \<not> P (ls ! j))"
proof (induction ls arbitrary: i)
  case (Cons c cl)
  then show ?case by (cases i) (auto simp: less_Suc_eq_0_disj)
qed simp

lemma lock_at_None: "lock_at P ls = None \<longleftrightarrow> (\<forall>l\<in>set ls. \<not> P l)"
  by (induction ls) auto

lemma locks_once: "locks_ok ls \<Longrightarrow> (line, p) \<in> set ls \<Longrightarrow> (line, q) \<in> set ls \<Longrightarrow> p = q"
  unfolding locks_ok_def by (metis eq_key_imp_eq_value)

lemma set_update_locks:
  assumes "locks_ok ls" "i < length ls"
  shows "set (ls[i := (fst (ls ! i), p)]) = insert (fst (ls ! i), p) (set ls - {ls ! i})"
proof -
  have "distinct ls" using assms(1) unfolding locks_ok_def by (auto intro: distinct_map [THEN iffD1, THEN conjunct1])
  then show ?thesis using assms(2) by (simp add: set_update_distinct)
qed

lemma map_fst_update: "i < length ls \<Longrightarrow> map fst (ls[i := (fst (ls ! i), p)]) = map fst ls"
  by (simp add: map_update list_update_same_conv)

text \<open>Finding a line may add it, free.\<close>

lemma find_line_ok:
  assumes "find_line mem line ls = Inr (i, ls')" "locks_ok ls"
  shows "locks_ok ls'" "locked ls' = locked ls" "i < length ls'" "fst (ls' ! i) = line" "snd ` set ls' \<subseteq> insert 0 (snd ` set ls)"
proof -
  have "locks_ok ls' \<and> locked ls' = locked ls \<and> i < length ls' \<and> fst (ls' ! i) = line \<and> snd ` set ls' \<subseteq> insert 0 (snd ` set ls)"
  proof (cases "lock_at (\<lambda>l. fst l = line) ls")
    case None
    then have ls': "ls' = ls @ [(line, 0)]" "i = length ls" using assms(1) by (auto simp: find_line_def split: if_splits)
    have eq: "locked ls' = locked ls" by (auto simp: ls' locked_def fun_eq_iff)
    have "line \<notin> fst ` set ls" using None by (auto simp: lock_at_None)
    then show ?thesis using assms(2) eq unfolding locks_ok_def by (auto simp: ls')
  next
    case (Some k)
    then have "i = k" "ls' = ls" using assms(1) by (simp_all add: find_line_def)
    then show ?thesis using assms(2) Some by (auto simp: lock_at_Some)
  qed
  then show "locks_ok ls'" "locked ls' = locked ls" "i < length ls'" "fst (ls' ! i) = line" "snd ` set ls' \<subseteq> insert 0 (snd ` set ls)" by auto
qed

lemma is_locked_ok:
  assumes "locks_ok ls"
  shows "post (is_locked mem line ls) (\<lambda>(p, ls'). locks_ok ls' \<and> locked ls' = locked ls \<and> snd ` set ls' \<subseteq> insert 0 (snd ` set ls) \<and>
    (p = 0 \<longrightarrow> (\<forall>q. \<not> locked ls' line q)))"
  unfolding is_locked_def
proof (rule post_seq)
  fix x assume x: "find_line mem line ls = Inr x"
  obtain i ls' where xi: "x = (i, ls')" by (cases x)
  note f = find_line_ok [OF x [unfolded xi] assms]
  have "(line, snd (ls' ! i)) \<in> set ls'" using f(3,4) by (metis nth_mem prod.collapse)
  then have "snd (ls' ! i) = 0 \<longrightarrow> (\<forall>q. \<not> locked ls' line q)" using locks_once [OF f(1)] by (auto simp: locked_def)
  then show "post (case x of (i, ls) \<Rightarrow> Inr (snd (ls ! i), ls)) (\<lambda>(p, ls'). locks_ok ls' \<and> locked ls' = locked ls \<and> snd ` set ls' \<subseteq> insert 0 (snd ` set ls) \<and>
    (p = 0 \<longrightarrow> (\<forall>q. \<not> locked ls' line q)))" using f xi by simp
qed

lemma lock_set_ok:
  assumes ok: "locks_ok ls" and free: "\<forall>q. \<not> locked ls line q" and pid: "pid \<noteq> 0" "pid \<notin> snd ` set ls"
  shows "post (lock_set d mem line pid ls) (\<lambda>ls'. locks_ok ls' \<and> (\<forall>l p. locked ls' l p \<longleftrightarrow> l = line \<and> p = pid \<or> locked ls l p) \<and>
    snd ` set ls' \<subseteq> insert pid (insert 0 (snd ` set ls)))"
  unfolding lock_set_def
proof (rule post_seq, rule post_seq)
  fix x assume x: "find_line mem line ls = Inr x"
  obtain i l1 where xi: "x = (i, l1)" by (cases x)
  note f = find_line_ok [OF x [unfolded xi] ok]
  let ?l = "l1[i := (fst (l1 ! i), pid)]"
  have s: "set ?l = insert (line, pid) (set l1 - {l1 ! i})" using set_update_locks [OF f(1,3)] f(4) by simp
  have z: "l1 ! i = (line, 0)"
  proof -
    have "(line, snd (l1 ! i)) \<in> set l1" using f(3,4) by (metis nth_mem prod.collapse)
    then have "snd (l1 ! i) = 0" using free unfolding f(2) [symmetric] by (auto simp: locked_def)
    then show ?thesis using f(4) by (metis prod.collapse)
  qed
  have lk: "locked ?l l p \<longleftrightarrow> l = line \<and> p = pid \<or> locked ls l p" for l p
    using pid(1) s z by (auto simp: locked_def f(2) [symmetric])
  have np: "\<not> locked ls l pid" for l using pid(2) by (force simp: locked_def)
  have "locks_ok ?l" unfolding locks_ok_def
  proof
    show "distinct (map fst ?l)" using f(1,3) by (simp add: locks_ok_def map_fst_update)
    show "\<forall>a b p. locked ?l a p \<longrightarrow> locked ?l b p \<longrightarrow> a = b" using ok np unfolding lk locks_ok_def by blast
  qed
  moreover have "snd ` set ?l \<subseteq> insert pid (insert 0 (snd ` set ls))" using s f(5) by auto
  ultimately show "post (case x of (i, ls) \<Rightarrow> Inr (ls[i := (fst (ls ! i), pid)])) (\<lambda>ls'. locks_ok ls' \<and> (\<forall>l p. locked ls' l p \<longleftrightarrow> l = line \<and> p = pid \<or> locked ls l p) \<and>
    snd ` set ls' \<subseteq> insert pid (insert 0 (snd ` set ls)))" using lk xi by simp
qed

lemma lock_rel_ok:
  assumes ok: "locks_ok ls"
  shows "post (lock_rel d pid ls) (\<lambda>ls'. locks_ok ls' \<and> (\<forall>l p. locked ls' l p \<longleftrightarrow> locked ls l p \<and> p \<noteq> pid) \<and> snd ` set ls' \<subseteq> insert 0 (snd ` set ls))"
proof (cases "lock_at (\<lambda>l. snd l = pid) ls")
  case None
  then have "locked ls l p \<Longrightarrow> p \<noteq> pid" for l p by (auto simp: lock_at_None locked_def)
  then show ?thesis using None ok by (auto simp: lock_rel_def)
next
  case (Some i)
  then have i: "i < length ls" "snd (ls ! i) = pid" by (simp_all add: lock_at_Some)
  let ?l = "ls[i := (fst (ls ! i), 0)]"
  have s: "set ?l = insert (fst (ls ! i), 0) (set ls - {ls ! i})" by (rule set_update_locks [OF ok i(1)])
  have e: "ls ! i = (fst (ls ! i), pid)" using i(2) by (metis prod.collapse)
  have lk: "locked ?l l p \<longleftrightarrow> locked ls l p \<and> p \<noteq> pid" for l p
  proof (cases "p = 0")
    case False
    have "l = fst (ls ! i)" if "(l, pid) \<in> set ls" "pid \<noteq> 0"
      using ok that i nth_mem [OF i(1)] e unfolding locks_ok_def locked_def by metis
    then have "(l, p) \<in> set ?l \<longleftrightarrow> (l, p) \<in> set ls \<and> p \<noteq> pid" using False unfolding s by (subst (2) e) auto
    then show ?thesis using False unfolding locked_def by blast
  qed (simp add: locked_def)
  have "locks_ok ?l" unfolding locks_ok_def
  proof
    show "distinct (map fst ?l)" using ok i(1) by (simp add: locks_ok_def map_fst_update)
    show "\<forall>a b p. locked ?l a p \<longrightarrow> locked ?l b p \<longrightarrow> a = b" using ok unfolding lk locks_ok_def by blast
  qed
  moreover have "snd ` set ?l \<subseteq> insert 0 (snd ` set ls)" using s by auto
  ultimately have "post (Inr ?l) (\<lambda>ls'. locks_ok ls' \<and> (\<forall>l p. locked ls' l p \<longleftrightarrow> locked ls l p \<and> p \<noteq> pid) \<and> snd ` set ls' \<subseteq> insert 0 (snd ` set ls))"
    using lk by simp
  then show ?thesis unfolding lock_rel_def Some option.case by (rule post_seq)
qed

end
