(* ===== verification/Calld_Steps.thy ===== *)
theory Calld_Steps
  imports Calld_Inv Machine
begin

text \<open>
  What a turn of the call server changes: a request leaves the other clients alone, and either starts one child,
  for a line that nobody had locked, or closes the client.
\<close>

declare One_nat_def [simp del]

section \<open>A request\<close>

text \<open>\<open>near\<close>: nothing but the position in the files, the options and the free locks of client \<open>i\<close> differ.\<close>

definition others_kept :: "nat \<Rightarrow> calld \<Rightarrow> calld \<Rightarrow> bool" where
  "others_kept i s t \<longleftrightarrow> length (callers t) = length (callers s) \<and> (\<forall>j. j \<noteq> i \<longrightarrow> callers t ! j = callers s ! j) \<and>
     k_uid (callers t ! i) = k_uid (callers s ! i) \<and> call_maxi t = call_maxi s \<and> locks_ok (locks t)"

definition lock_pids :: "calld \<Rightarrow> int set" where
  "lock_pids s = insert 0 (snd ` set (locks s))"

definition near :: "nat \<Rightarrow> calld \<Rightarrow> calld \<Rightarrow> bool" where
  "near i s t \<longleftrightarrow> others_kept i s t \<and> k_fd (callers t ! i) = k_fd (callers s ! i) \<and> k_pid (callers t ! i) = k_pid (callers s ! i) \<and>
     childdone (callers t ! i) = childdone (callers s ! i) \<and> kids t = kids s \<and>
     locked (locks t) = locked (locks s) \<and> lock_pids t \<subseteq> lock_pids s"

definition forked_for :: "string \<Rightarrow> int \<Rightarrow> nat \<Rightarrow> calld \<Rightarrow> calld \<Rightarrow> bool" where
  "forked_for line pid i s t \<longleftrightarrow> others_kept i s t \<and> k_fd (callers t ! i) = k_fd (callers s ! i) \<and> k_pid (callers t ! i) = pid \<and>
     childdone (callers t ! i) = childdone (callers s ! i) \<and> kids t = (kids s)(pid \<mapsto> line) \<and>
     (\<forall>q. \<not> locked (locks s) line q) \<and> (\<forall>l p. locked (locks t) l p \<longleftrightarrow> l = line \<and> p = pid \<or> locked (locks s) l p) \<and>
     lock_pids t \<subseteq> insert pid (lock_pids s)"

definition forked :: "int \<Rightarrow> nat \<Rightarrow> calld \<Rightarrow> calld \<Rightarrow> bool" where
  "forked pid i s t \<longleftrightarrow> (\<exists>line. forked_for line pid i s t)"

lemma near_refl: "locks_ok (locks s) \<Longrightarrow> near i s s"
  by (auto simp: near_def others_kept_def)

lemma near_trans: "near i s t \<Longrightarrow> near i t u \<Longrightarrow> near i s u"
  unfolding near_def others_kept_def by (auto dest: subset_trans)

lemma near_forked: "near i s t \<Longrightarrow> forked pid i t u \<Longrightarrow> forked pid i s u"
proof -
  have "near i s t \<Longrightarrow> forked_for l pid i t u \<Longrightarrow> forked_for l pid i s u" for l unfolding near_def forked_for_def others_kept_def by auto
  then show "near i s t \<Longrightarrow> forked pid i t u \<Longrightarrow> forked pid i s u" unfolding forked_def by blast
qed

lemma near_locks: "near i s t \<Longrightarrow> locks_ok (locks t)"
  by (simp add: near_def others_kept_def)

lemma near_length: "near i s t \<Longrightarrow> length (callers t) = length (callers s)"
  by (simp add: near_def others_kept_def)

lemma near_put:
  assumes "near i s t" "i < length (callers s)" "k_fd c = k_fd (callers s ! i)" "k_pid c = k_pid (callers s ! i)" "k_uid c = k_uid (callers s ! i)"
    "childdone c = childdone (callers s ! i)"
  shows "near i s (put_caller i c t)"
  using assms unfolding near_def others_kept_def by (simp add: put_caller_def lock_pids_def)

lemma near_rest [simp]:
  "near i s (put_errmsg m t) = near i s t" "near i s (t\<lparr>fpsys := fp\<rparr>) = near i s t" "near i s (t\<lparr>links := k\<rparr>) = near i s t"
  "near i s (t\<lparr>opts := g\<rparr>) = near i s t"
  by (simp_all add: near_def others_kept_def put_errmsg_def lock_pids_def)

lemma rest_callers [simp]:
  "callers (put_errmsg m t) = callers t" "callers (put_caller i c t) = (callers t)[i := c]"
  by (simp_all add: put_errmsg_def put_caller_def)

lemma near_fields:
  assumes "near i s t"
  shows "k_fd (callers t ! i) = k_fd (callers s ! i)" "k_pid (callers t ! i) = k_pid (callers s ! i)"
    "k_uid (callers t ! i) = k_uid (callers s ! i)" "childdone (callers t ! i) = childdone (callers s ! i)"
  using assms by (simp_all add: near_def others_kept_def)

lemma trying_near: "near i s t \<Longrightarrow> post (trying l fd t) (\<lambda>u. near i s u \<and> callers u = callers t)"
  unfolding trying_def by (rule post_seq) simp

lemma no_entry_near: "near i s t \<Longrightarrow> post (no_entry c t) (\<lambda>(r, u). r = -1 \<and> near i s u)"
  unfolding no_entry_def by (auto intro!: post_seq)

lemma start_child_forks:
  assumes n: "near i s t" and i: "i < length (callers s)" and free: "\<forall>q. \<not> locked (locks t) line q"
    and pid: "0 < fork_pid e i" "fork_pid e i \<notin> lock_pids s"
  shows "post (start_child e i line t) (\<lambda>(r, u). r = 0 \<and> forked (fork_pid e i) i s u)"
proof -
  let ?p = "fork_pid e i"
  have fresh: "?p \<notin> snd ` set (locks t)" using n pid(2) unfolding near_def by (auto simp: lock_pids_def)
  have l: "post (lock_set (logging t) (lock_mem e) line ?p (locks t)) (\<lambda>ls'. locks_ok ls' \<and> (\<forall>l p. locked ls' l p \<longleftrightarrow> l = line \<and> p = ?p \<or> locked (locks t) l p) \<and>
    snd ` set ls' \<subseteq> insert ?p (insert 0 (snd ` set (locks t))))"
    using lock_set_ok [OF near_locks [OF n] free _ fresh] pid(1) by simp
  have "post (lock_set (logging t) (lock_mem e) line ?p (locks t)) (\<lambda>ls.
      forked ?p i s ((put_caller i ((callers t ! i)\<lparr>k_pid := ?p\<rparr>) t)\<lparr>locks := ls, kids := (kids t)(?p \<mapsto> line)\<rparr>))"
  proof (rule post_mono [OF l])
    fix ls assume ls: "locks_ok ls \<and> (\<forall>l p. locked ls l p \<longleftrightarrow> l = line \<and> p = ?p \<or> locked (locks t) l p) \<and> snd ` set ls \<subseteq> insert ?p (insert 0 (snd ` set (locks t)))"
    have "forked ?p i t ((put_caller i ((callers t ! i)\<lparr>k_pid := ?p\<rparr>) t)\<lparr>locks := ls, kids := (kids t)(?p \<mapsto> line)\<rparr>)"
      unfolding forked_def forked_for_def others_kept_def lock_pids_def using ls free i near_length [OF n] by (intro exI [of _ line]) (simp add: put_caller_def)
    then show "forked ?p i s ((put_caller i ((callers t ! i)\<lparr>k_pid := ?p\<rparr>) t)\<lparr>locks := ls, kids := (kids t)(?p \<mapsto> line)\<rparr>)"
      by (rule near_forked [OF n])
  qed
  then show ?thesis using pid(1) unfolding start_child_def by (simp add: Let_def post_bind)
qed

text \<open>\<open>request_ends\<close>: a request has failed, or has started a child.\<close>

definition request_ends :: "call_env \<Rightarrow> nat \<Rightarrow> calld \<Rightarrow> int \<times> calld \<Rightarrow> bool" where
  "request_ends e i s r \<longleftrightarrow> fst r = -1 \<and> near i s (snd r) \<or> fst r = 0 \<and> forked (fork_pid e i) i s (snd r)"

definition round_ends :: "call_env \<Rightarrow> nat \<Rightarrow> calld \<Rightarrow> round \<Rightarrow> bool" where
  "round_ends e i s r = (case r of Next t \<Rightarrow> near i s t | Return n t \<Rightarrow> request_ends e i s (n, t))"

lemma post_returned: "post m (request_ends e i s) \<Longrightarrow> post (res_bind m returned) (round_ends e i s)"
  by (rule post_seq) (auto simp: post_def returned_def round_ends_def)

lemma no_entry_ends: "near i s t \<Longrightarrow> post (res_bind (no_entry c t) returned) (round_ends e i s)"
  by (rule post_returned, rule post_mono [OF no_entry_near]) (auto simp: request_ends_def)

lemma try_dev_ends:
  assumes n: "near i s t" and ok: "i < length (callers s)" "0 < fork_pid e i" "fork_pid e i \<notin> lock_pids s"
  shows "post (try_dev e i d t) (round_ends e i s)"
  unfolding try_dev_def
proof (rule post_bind, rule post_mono [OF trying_near [OF n]], rule post_bind, rule post_mono, rule is_locked_ok)
  fix u assume u: "near i s u \<and> callers u = callers t"
  then show "locks_ok (locks u)" using near_locks by blast
  fix x :: "int \<times> lock list" assume x: "case x of (p, ls) \<Rightarrow> locks_ok ls \<and> locked ls = locked (locks u) \<and> snd ` set ls \<subseteq> insert 0 (snd ` set (locks u)) \<and>
    (p = 0 \<longrightarrow> (\<forall>q. \<not> locked ls (d_line d) q))"
  obtain p ls where xp: "x = (p, ls)" by (cases x)
  have "near i u (u\<lparr>locks := ls\<rparr>)" using x unfolding xp near_def others_kept_def lock_pids_def by auto
  then have nl: "near i s (u\<lparr>locks := ls\<rparr>)" using u near_trans by blast
  have st: "post (start_child e i (d_line d) (u\<lparr>locks := ls\<rparr>)) (request_ends e i s)" if "p = 0"
    by (rule post_mono [OF start_child_forks [OF nl ok(1) _ ok(2,3)]]) (use x xp that in \<open>auto simp: request_ends_def\<close>)
  then show "post (case x of (pid, ls) \<Rightarrow> let s = u\<lparr>locks := ls\<rparr> in if pid \<noteq> 0
     then res_bind (into_errmsg (''device `'' @ d_line d @ [CHR 0x27] @ '' already locked by pid '' @ dec_int pid @ [NL])) (\<lambda>m. Inr (Next (put_errmsg m s)))
     else res_bind (start_child e i (d_line d) s) returned) (round_ends e i s)"
    using nl unfolding xp by (cases "p = 0") (simp_all add: Let_def round_ends_def post_returned post_seq)
qed

lemma request_round_ends:
  assumes n: "near i s t" and ok: "i < length (callers s)" "0 < fork_pid e i" "fork_pid e i \<notin> lock_pids s"
  shows "post (request_round e i t) (round_ends e i s)"
proof -
  have tried: "post (try_sys e i sy u) (round_ends e i s)" if nu: "near i s u" for sy u
    unfolding try_sys_def
  proof (rule post_bind, rule post_mono [OF trying_near [OF nu]])
    fix v assume v: "near i s v \<and> callers v = callers u"
    let ?c = "(callers v ! i)\<lparr>foundone := foundone (callers v ! i) + 1\<rparr>"
    have "near i s (put_caller i ?c v)" using near_put [of i s v ?c] near_fields [of i s v] v ok(1) by simp
    then show "post (let c = ?c; s = put_caller i c v in res_bind (dev_find (dev_file e) sy) (\<lambda>(dv, m). case dv of
        None \<Rightarrow> res_bind (no_entry c (put_errmsg m s)) returned | Some d \<Rightarrow> try_dev e i d s)) (round_ends e i s)"
      unfolding Let_def by (intro post_seq) (auto split: option.split intro!: no_entry_ends try_dev_ends ok)
  qed
  show ?thesis unfolding request_round_def
  proof (rule post_seq)
    fix x :: "int \<times> Systems option \<times> nat option"
    obtain pos entry fp where x: "x = (pos, entry, fp)" by (cases x)
    let ?c = "(callers t ! i)\<lparr>sysftell := pos\<rparr>"
    have "near i s ((put_caller i ?c t)\<lparr>fpsys := fp\<rparr>)" using near_put [of i s t ?c] near_fields [OF n] n ok(1) by simp
    then show "post (case x of (pos, entry, fp) \<Rightarrow> let c = (callers t ! i)\<lparr>sysftell := pos\<rparr>; s = (put_caller i c t)\<lparr>fpsys := fp\<rparr> in
      case entry of None \<Rightarrow> res_bind (no_entry c s) returned
      | Some sy \<Rightarrow> if k_sysname c \<noteq> s_name sy then Inr (Next s) else if k_speed c \<noteq> [] \<and> k_speed c \<noteq> s_class sy then Inr (Next s)
         else try_sys e i sy s) (round_ends e i s)"
      unfolding x Let_def by (auto split: option.split simp: round_ends_def intro!: no_entry_ends tried)
  qed
qed

lemma request_loop_ok:
  assumes "near i s t" "i < length (callers s)" "0 < fork_pid e i" "fork_pid e i \<notin> lock_pids s"
  shows "post (request_loop n e i t) (request_ends e i s)"
  using assms(1)
proof (induction n arbitrary: t)
  case (Suc n)
  show ?case unfolding request_loop.simps
    by (rule post_bind, rule post_mono [OF request_round_ends [OF Suc.prems assms(2-)]]) (auto simp: round_ends_def Suc.IH split: round.splits)
qed simp

lemma call_request_ok:
  assumes "locks_ok (locks s)" "i < length (callers s)" "0 < fork_pid e i" "fork_pid e i \<notin> lock_pids s"
  shows "post (call_request e i s) (request_ends e i s)"
  unfolding call_request_def by (rule post_seq) (auto intro!: request_loop_ok near_refl assms)

section \<open>A client is served\<close>

text \<open>
  What serving client \<open>i\<close> does: \<open>gone\<close> says that the lock of its process is given back, \<open>go\<close> that a child may be
  started, whose process is then \<open>pid\<close>.
\<close>

definition still_locked :: "bool \<Rightarrow> nat \<Rightarrow> calld \<Rightarrow> string \<Rightarrow> int \<Rightarrow> bool" where
  "still_locked gone i s l p \<longleftrightarrow> locked (locks s) l p \<and> \<not> (gone \<and> p = k_pid (callers s ! i))"

definition served :: "int \<Rightarrow> bool \<Rightarrow> bool \<Rightarrow> nat \<Rightarrow> calld \<Rightarrow> calld \<Rightarrow> bool" where
  "served pid gone go i s t \<longleftrightarrow> others_kept i s t \<and>
     (k_fd (callers t ! i) = k_fd (callers s ! i) \<or> k_fd (callers t ! i) = -1) \<and>
     (childdone (callers t ! i) = childdone (callers s ! i) \<or> childdone (callers t ! i) = 0) \<and>
     lock_pids t \<subseteq> insert pid (lock_pids s) \<and>
     (k_pid (callers t ! i) = k_pid (callers s ! i) \<and> kids t = kids s \<and> (\<forall>l p. locked (locks t) l p \<longleftrightarrow> still_locked gone i s l p) \<or>
      go \<and> k_pid (callers t ! i) = pid \<and> childdone (callers t ! i) = 0 \<and>
      (\<exists>line. kids t = (kids s)(pid \<mapsto> line) \<and> (\<forall>q. \<not> still_locked gone i s line q) \<and>
         (\<forall>l p. locked (locks t) l p \<longleftrightarrow> l = line \<and> p = pid \<or> still_locked gone i s l p)))"

text \<open>The lock is given back, and nothing else is done yet.\<close>

definition released :: "bool \<Rightarrow> nat \<Rightarrow> calld \<Rightarrow> calld \<Rightarrow> bool" where
  "released gone i s t \<longleftrightarrow> others_kept i s t \<and> k_fd (callers t ! i) = k_fd (callers s ! i) \<and> k_pid (callers t ! i) = k_pid (callers s ! i) \<and>
     (childdone (callers t ! i) = childdone (callers s ! i) \<or> childdone (callers t ! i) = 0) \<and> kids t = kids s \<and> lock_pids t \<subseteq> lock_pids s \<and>
     (\<forall>l p. locked (locks t) l p \<longleftrightarrow> still_locked gone i s l p)"

lemma served_same: "locks_ok (locks s) \<Longrightarrow> served pid False go i s s"
  by (auto simp: served_def others_kept_def still_locked_def)

lemma near_released: "near i s t \<Longrightarrow> released False i s t"
  by (simp add: near_def released_def still_locked_def)

lemma released_near: "released gone i s t \<Longrightarrow> near i t u \<Longrightarrow> released gone i s u"
  unfolding released_def near_def others_kept_def by (auto dest: subset_trans)

lemma released_served: "released gone i s t \<Longrightarrow> served pid gone go i s t"
  by (auto simp: released_def served_def)

lemma released_then_served:
  assumes "released gone i s t" "served pid False True i t u"
  shows "served pid gone True i s u"
proof -
  have still: "still_locked False i t = still_locked gone i s" using assms(1) by (auto simp: released_def still_locked_def fun_eq_iff)
  have "others_kept i s u" using assms unfolding released_def served_def others_kept_def by auto
  moreover have "lock_pids u \<subseteq> insert pid (lock_pids s)" using assms unfolding released_def served_def by blast
  ultimately show ?thesis using assms unfolding served_def still released_def by auto
qed

lemma released_kslot: "released gone i s t \<Longrightarrow> kslot (callers t) = kslot (callers s)"
proof (rule ext)
  fix j assume n: "released gone i s t"
  then have "callers t ! j = callers s ! j" if "j \<noteq> i" using that by (simp add: released_def others_kept_def)
  then show "kslot (callers t) j = kslot (callers s) j" using n by (cases "j = i") (simp_all add: kslot_def released_def others_kept_def)
qed

lemma cli_done_served:
  assumes r: "released gone i s t" and one: "one_slot (kslot (callers s))" and i: "i < length (callers s)" and fd: "k_fd (callers s ! i) = fd" "0 \<le> fd"
  shows "post (cli_done fd t) (served pid gone go i s)"
proof -
  have "kslot (callers t) i = Some (fd, k_uid (callers s ! i))" using i fd unfolding released_kslot [OF r] by (simp add: kslot_def)
  moreover have "one_slot (kslot (callers t))" using one released_kslot [OF r] by simp
  ultimately have d: "call_del (callers t) fd = Inr ((callers t)[i := (callers t ! i)\<lparr>k_fd := -1\<rparr>])" by (rule call_del_slot(1) [rotated])
  have "length (callers t) = length (callers s)" using r by (simp add: released_def others_kept_def)
  then have "served pid gone go i s (t\<lparr>callers := (callers t)[i := (callers t ! i)\<lparr>k_fd := -1\<rparr>], call_set := call_set t - {fd}\<rparr>)"
    using r i unfolding released_def served_def others_kept_def lock_pids_def by auto
  then show ?thesis by (simp add: cli_done_def d)
qed

lemma try_request_served:
  assumes ok: "locks_ok (locks s)" "i < length (callers s)" "0 < fork_pid e i" "fork_pid e i \<notin> lock_pids s"
    and one: "one_slot (kslot (callers s))" and fd: "k_fd (callers s ! i) = fd" "0 \<le> fd" and c: "childdone (callers s ! i) = 0"
  shows "post (try_request e i fd s) (served (fork_pid e i) False True i s)"
  unfolding try_request_def
proof (rule post_bind, rule post_mono [OF call_request_ok [OF ok]])
  fix x assume x: "request_ends e i s x"
  obtain r t where xr: "x = (r, t)" by (cases x)
  have f: "served (fork_pid e i) False True i s t" if "forked (fork_pid e i) i s t"
    using that c unfolding forked_def forked_for_def served_def still_locked_def by auto
  have n: "post (cli_done fd (t\<lparr>links := k\<rparr>)) (served (fork_pid e i) False True i s)" if "near i s t" for k
    using cli_done_served [OF near_released one ok(2) fd] that by simp
  show "post (case x of (r, s) \<Rightarrow> if r < 0
     then res_bind (send_err (fd_mem e) (links s fd) (-1) (o_errmsg (opts s))) (\<lambda>(r, c).
       if r < 0 then Inl (Err_sys ''send_err error'') else cli_done fd (s\<lparr>links := (links s)(fd := c)\<rparr>))
     else Inr s) (served (fork_pid e i) False True i s)"
    using x f n unfolding xr request_ends_def by (auto intro!: post_seq)
qed

end
