(* ===== verification/Calld_Turn.thy ===== *)
theory Calld_Turn
  imports Calld_Steps
begin

text \<open>
  One client of the call server is served: after its child has ended (\<open>child_done\<close>), or because something has come
  from it (\<open>loop\<close>).  Each lemma says which lock may be given back and when a child may be started.
\<close>

declare One_nat_def [simp del]

section \<open>One client\<close>

definition failed_child :: "nat \<Rightarrow> calld \<Rightarrow> bool" where
  "failed_child i s \<longleftrightarrow> 0 \<le> k_fd (callers s ! i) \<and> childdone (callers s ! i) \<notin> {0, 1}"

definition hung_up :: "call_env \<Rightarrow> int \<Rightarrow> bool" where
  "hung_up e fd \<longleftrightarrow> k_read e fd = Inr [] \<and> (case sel e of Ready fds \<Rightarrow> fd \<in> fds | _ \<Rightarrow> False)"

lemma release_lock:
  assumes "locks_ok (locks s)" "i < length (callers s)" "k_fd c = k_fd (callers s ! i)" "k_pid c = k_pid (callers s ! i)"
    "k_uid c = k_uid (callers s ! i)" "childdone c = childdone (callers s ! i) \<or> childdone c = 0"
  shows "post (lock_rel (logging s) (k_pid (callers s ! i)) (locks s)) (\<lambda>ls. released True i s ((put_caller i c s)\<lparr>locks := ls\<rparr>))"
  by (rule post_mono [OF lock_rel_ok [OF assms(1)]])
    (use assms in \<open>auto simp: released_def others_kept_def put_caller_def lock_pids_def still_locked_def\<close>)

lemma released_one: "released gone i s t \<Longrightarrow> one_slot (kslot (callers s)) \<Longrightarrow> one_slot (kslot (callers t))"
  by (simp add: released_kslot)

lemma ready_again:
  assumes r: "released gone i s t" and i: "i < length (callers s)" and pid: "0 < fork_pid e i" "fork_pid e i \<notin> lock_pids s"
    and one: "one_slot (kslot (callers s))" and fd: "k_fd (callers s ! i) = fd" "0 \<le> fd" and c: "childdone (callers t ! i) = 0"
  shows "post (try_request e i fd t) (served (fork_pid e i) gone True i s)"
proof (rule post_mono [OF try_request_served])
  show "served (fork_pid e i) gone True i s u" if "served (fork_pid e i) False True i t u" for u by (rule released_then_served [OF r that])
  show "locks_ok (locks t)" "i < length (callers t)" "fork_pid e i \<notin> lock_pids t" "k_fd (callers t ! i) = fd"
    using r i pid fd by (auto simp: released_def others_kept_def)
qed (use pid fd c released_one [OF r one] in auto)

lemma one_child_done_served:
  assumes ok: "locks_ok (locks s)" and i: "i < length (callers s)" and pid: "0 < fork_pid e i" "fork_pid e i \<notin> lock_pids s"
    and one: "one_slot (kslot (callers s))"
  shows "post (one_child_done e i s) (served (fork_pid e i) (failed_child i s) (failed_child i s) i s)"
proof (cases "failed_child i s")
  case False
  have "released False i s (put_caller i ((callers s ! i)\<lparr>childdone := 0\<rparr>) s)"
    using ok i by (auto simp: released_def others_kept_def put_caller_def lock_pids_def still_locked_def)
  then show ?thesis using False served_same [OF ok] released_served unfolding one_child_done_def failed_child_def Let_def by auto
next
  case True
  let ?c = "callers s ! i"
  have eq: "one_child_done e i s = res_bind (lock_rel (logging s) (k_pid ?c) (locks s)) (\<lambda>ls.
      try_request e i (k_fd ?c) ((put_caller i (?c\<lparr>childdone := 0\<rparr>) s)\<lparr>locks := ls\<rparr>))"
    using True unfolding one_child_done_def failed_child_def Let_def by auto
  show ?thesis unfolding eq
  proof (rule post_bind, rule post_mono [OF release_lock [OF ok i, of "?c\<lparr>childdone := 0\<rparr>"]])
    fix ls assume r: "released True i s ((put_caller i (?c\<lparr>childdone := 0\<rparr>) s)\<lparr>locks := ls\<rparr>)"
    show "post (try_request e i (k_fd ?c) ((put_caller i (?c\<lparr>childdone := 0\<rparr>) s)\<lparr>locks := ls\<rparr>)) (served (fork_pid e i) (failed_child i s) (failed_child i s) i s)"
      using ready_again [OF r i pid one refl] True i by (simp add: failed_child_def)
  qed simp_all
qed

text \<open>The options of a request are kept, the rest of the client is not touched.\<close>

lemma keep_options_fields:
  "post (keep_options g c) (\<lambda>d. k_fd d = k_fd c \<and> k_pid d = k_pid c \<and> k_uid d = k_uid c \<and> childdone d = 0)"
  by (simp add: keep_options_def)

lemma call_data_served:
  assumes ok: "locks_ok (locks s)" and i: "i < length (callers s)" and pid: "0 < fork_pid e i" "fork_pid e i \<notin> lock_pids s"
    and one: "one_slot (kslot (callers s))" and fd: "k_fd (callers s ! i) = fd" "0 \<le> fd"
  shows "post (call_data e i fd buf s) (served (fork_pid e i) False True i s)"
proof -
  have "post (res_bind (keep_options g (callers s ! i)) (\<lambda>c. try_request e i fd (put_caller i c (s\<lparr>opts := g\<rparr>)))) (served (fork_pid e i) False True i s)" for g
  proof (rule post_bind, rule post_mono [OF keep_options_fields])
    fix c :: caller assume c: "k_fd c = k_fd (callers s ! i) \<and> k_pid c = k_pid (callers s ! i) \<and> k_uid c = k_uid (callers s ! i) \<and> childdone c = 0"
    have "released False i s (put_caller i c (s\<lparr>opts := g\<rparr>))"
      using c ok i by (auto simp: released_def others_kept_def put_caller_def lock_pids_def still_locked_def)
    then show "post (try_request e i fd (put_caller i c (s\<lparr>opts := g\<rparr>))) (served (fork_pid e i) False True i s)"
      by (rule ready_again [OF _ i pid one fd]) (use c i in simp)
  qed
  then show ?thesis unfolding call_data_def by (auto split: prod.split intro!: post_seq [of "log_doit _ _"])
qed

lemma one_client_served:
  assumes ok: "locks_ok (locks s)" and i: "i < length (callers s)" and pid: "0 < fork_pid e i" "fork_pid e i \<notin> lock_pids s"
    and one: "one_slot (kslot (callers s))" and sel: "sel e = Ready fds" "rset \<subseteq> fds"
  shows "\<exists>gone go. post (one_client e rset i s) (served (fork_pid e i) gone go i s) \<and>
    (gone \<longrightarrow> 0 \<le> k_fd (callers s ! i) \<and> hung_up e (k_fd (callers s ! i))) \<and> (go \<longrightarrow> \<not> hung_up e (k_fd (callers s ! i)))"
proof -
  let ?c = "callers s ! i"
  let ?fd = "k_fd ?c"
  show ?thesis
  proof (cases "?fd < 0 \<or> ?fd \<notin> rset")
    case True
    then show ?thesis using served_same [OF ok] by (auto simp: one_client_def intro!: exI [of _ False])
  next
    case False
    then have fd: "0 \<le> ?fd" "?fd \<in> rset" by auto
    show ?thesis
    proof (cases "k_read e ?fd = Inr []")
      case True
      have eq: "one_client e rset i s = res_bind (lock_rel (logging s) (k_pid ?c) (locks s)) (\<lambda>ls. cli_done ?fd ((put_caller i ?c s)\<lparr>locks := ls\<rparr>))"
        using fd True by (simp add: one_client_def Let_def put_caller_def)
      have "post (one_client e rset i s) (served (fork_pid e i) True False i s)" unfolding eq
        by (rule post_bind, rule post_mono [OF release_lock [OF ok i]]) (auto intro: cli_done_served [OF _ one i refl fd(1)])
      moreover have "hung_up e ?fd" using True fd sel by (auto simp: hung_up_def)
      ultimately show ?thesis using fd(1) by blast
    next
      case neq: False
      have "post (one_client e rset i s) (served (fork_pid e i) False True i s)"
        using fd neq call_data_served [OF ok i pid one refl fd(1)] by (auto simp: one_client_def Let_def split: sum.split)
      moreover have "\<not> hung_up e ?fd" using neq by (simp add: hung_up_def)
      ultimately show ?thesis by blast
    qed
  qed
qed

end
