(* ===== verification/Calld_Lines.thy ===== *)
theory Calld_Lines
  imports Calld_Turn
begin

text \<open>
  The invariant of the call server, and the rule by which a turn is taken apart into the clients that it serves and
  the one that it lets in.
\<close>

declare One_nat_def [simp del]

section \<open>The invariant\<close>

text \<open>The processes that the server has anything recorded for.\<close>

definition used :: "calld \<Rightarrow> int set" where
  "used s = k_pid ` set (callers s) \<union> lock_pids s \<union> dom (kids s)"

definition call_inv :: "calld \<Rightarrow> bool" where
  "call_inv s \<longleftrightarrow> one_slot (kslot (callers s)) \<and> (\<forall>i<length (callers s). -1 \<le> k_fd (callers s ! i)) \<and>
     (\<forall>i<length (callers s). \<forall>j<length (callers s). k_pid (callers s ! i) = k_pid (callers s ! j) \<longrightarrow> k_pid (callers s ! i) \<noteq> 0 \<longrightarrow> i = j) \<and>
     locks_ok (locks s) \<and> call_maxi s < int (length (callers s))"

lemma one_slot_less: "one_slot f \<Longrightarrow> (\<And>j. g j = f j \<or> g j = None) \<Longrightarrow> one_slot g"
  unfolding one_slot_def by (metis option.distinct(1))

lemma served_others: "served pid gone go i s t \<Longrightarrow> j \<noteq> i \<Longrightarrow> callers t ! j = callers s ! j"
  by (simp add: served_def others_kept_def)

lemma served_same_length: "served pid gone go i s t \<Longrightarrow> length (callers t) = length (callers s)"
  by (simp add: served_def others_kept_def)

lemma served_pid: "served pid gone go i s t \<Longrightarrow> k_pid (callers t ! j) = k_pid (callers s ! j) \<or> go \<and> j = i \<and> k_pid (callers t ! j) = pid"
  using served_others [of pid gone go i s t j] by (cases "j = i") (auto simp: served_def)

lemma served_fd: "served pid gone go i s t \<Longrightarrow> k_fd (callers t ! j) = k_fd (callers s ! j) \<or> k_fd (callers t ! j) = -1"
  using served_others [of pid gone go i s t j] by (cases "j = i") (auto simp: served_def)

lemma served_childdone: "served pid gone go i s t \<Longrightarrow> childdone (callers t ! j) = childdone (callers s ! j) \<or> childdone (callers t ! j) = 0"
  using served_others [of pid gone go i s t j] by (cases "j = i") (auto simp: served_def)

lemma served_kids: "served pid gone go i s t \<Longrightarrow> dom (kids t) \<subseteq> insert pid (dom (kids s))"
  by (auto simp: served_def)

lemma served_used:
  assumes "served pid gone go i s t"
  shows "used t \<subseteq> insert pid (used s)"
proof -
  have "k_pid ` set (callers t) \<subseteq> insert pid (k_pid ` set (callers s))"
  proof
    fix p assume "p \<in> k_pid ` set (callers t)"
    then obtain j where j: "j < length (callers s)" "p = k_pid (callers t ! j)" using served_same_length [OF assms] by (auto simp: in_set_conv_nth)
    then have "k_pid (callers s ! j) \<in> k_pid ` set (callers s)" by simp
    then show "p \<in> insert pid (k_pid ` set (callers s))" using served_pid [OF assms, of j] j(2) by auto
  qed
  moreover have "lock_pids t \<subseteq> insert pid (lock_pids s)" using assms by (simp add: served_def)
  ultimately show ?thesis using served_kids [OF assms] unfolding used_def by blast
qed

lemma served_inv:
  assumes inv: "call_inv s" and i: "i < length (callers s)" and pid: "pid \<notin> used s" and sv: "served pid gone go i s t"
  shows "call_inv t"
proof -
  note len = served_same_length [OF sv]
  have uid: "k_uid (callers t ! j) = k_uid (callers s ! j)" for j
    using sv served_others [OF sv] by (cases "j = i") (auto simp: served_def others_kept_def)
  have "kslot (callers t) j = kslot (callers s) j \<or> kslot (callers t) j = None" for j
    using served_fd [OF sv, of j] uid len by (auto simp: kslot_def)
  then have "one_slot (kslot (callers t))" using inv one_slot_less by (auto simp: call_inv_def)
  moreover have "-1 \<le> k_fd (callers t ! j)" if "j < length (callers t)" for j
    using inv that len served_fd [OF sv, of j] by (auto simp: call_inv_def)
  moreover have "j = k" if jk: "j < length (callers t)" "k < length (callers t)" "k_pid (callers t ! j) = k_pid (callers t ! k)" "k_pid (callers t ! j) \<noteq> 0" for j k
  proof -
    have "k_pid (callers s ! l) \<noteq> pid" if "l < length (callers s)" for l using pid that by (auto simp: used_def)
    then show ?thesis using jk len inv served_pid [OF sv, of j] served_pid [OF sv, of k] unfolding call_inv_def by metis
  qed
  moreover have "locks_ok (locks t)" "call_maxi t < int (length (callers t))"
    using sv inv len by (auto simp: served_def others_kept_def call_inv_def)
  ultimately show ?thesis unfolding call_inv_def by blast
qed

section \<open>Letting a client in\<close>

definition let_in :: "calld \<Rightarrow> calld \<Rightarrow> bool" where
  "let_in s t \<longleftrightarrow> locks t = locks s \<and> kids t = kids s \<and> length (callers s) \<le> length (callers t) \<and>
     (\<forall>j<length (callers t). if j < length (callers s) then k_pid (callers t ! j) = k_pid (callers s ! j) \<and> childdone (callers t ! j) = childdone (callers s ! j)
        else k_pid (callers t ! j) = 0)"

text \<open>New memory holds no process ID.\<close>

definition clean :: "(nat \<Rightarrow> caller) option \<Rightarrow> bool" where
  "clean mem \<longleftrightarrow> (\<forall>m k. mem = Some m \<longrightarrow> k_pid (m k) = 0)"

lemma call_add_pids:
  assumes "call_add mem cl fd u = Inr (i, cl')" "clean mem"
  shows "length cl \<le> length cl' \<and> i < length cl' \<and> (\<forall>j<length cl'. if j < length cl then k_pid (cl' ! j) = k_pid (cl ! j) \<and> childdone (cl' ! j) = childdone (cl ! j)
        else k_pid (cl' ! j) = 0) \<and> (\<forall>j<length cl'. j \<noteq> i \<longrightarrow> (if j < length cl then k_fd (cl' ! j) = k_fd (cl ! j) else k_fd (cl' ! j) = -1)) \<and> k_fd (cl' ! i) = fd"
proof -
  obtain c where c: "grows_by mem cl c" "caller_at (\<lambda>c. k_fd c = -1) c = Some i" "cl' = c[i := (c ! i)\<lparr>k_fd := fd, k_uid := u\<rparr>]"
    using call_add_cases [OF assms(1)] by blast
  obtain new where n: "c = cl @ new" "\<forall>d\<in>set new. k_pid d = 0 \<and> k_fd d = -1"
    using c(1) assms(2) unfolding grows_by_def clean_def by fastforce
  have i: "i < length c" using c(2) by (simp add: caller_at_Some)
  have "k_pid (c ! j) = 0" "k_fd (c ! j) = -1" if "j < length c" "\<not> j < length cl" for j using n that by (auto simp: nth_append)
  moreover have "c ! j = cl ! j" if "j < length cl" for j using n that by (simp add: nth_append)
  ultimately show ?thesis using i n(1) unfolding c(3) by (auto simp: nth_list_update)
qed

lemma call_accept_ok:
  assumes inv: "call_inv s" and mem: "clean (k_mem e)" and fd: "\<forall>i<length (callers s). 0 \<le> k_fd (callers s ! i) \<longrightarrow> k_fd (callers s ! i) \<noteq> fst (k_conn e)"
  shows "post (call_accept e s) (\<lambda>t. call_inv t \<and> let_in s t)"
  unfolding call_accept_def
proof (rule post_seq)
  fix a assume a: "serv_accept (k_conn e) (k_stat e) (k_now e) = Inr a"
  let ?uid = "case a_uid a of Some u \<Rightarrow> u | None \<Rightarrow> 0"
  have "call_inv (s\<lparr>callers := cl, call_set := insert (a_fd a) (call_set s), call_maxfd := max (a_fd a) (call_maxfd s), call_maxi := max (int i) (call_maxi s), last_uid := ?uid\<rparr>) \<and>
    let_in s (s\<lparr>callers := cl, call_set := insert (a_fd a) (call_set s), call_maxfd := max (a_fd a) (call_maxfd s), call_maxi := max (int i) (call_maxi s), last_uid := ?uid\<rparr>)"
    if ok: "0 \<le> a_fd a" and add: "call_add (k_mem e) (callers s) (a_fd a) ?uid = Inr (i, cl)" for i cl
  proof -
    have conn: "a_fd a = fst (k_conn e)" by (rule serv_accept_fd [OF a ok])
    note p = call_add_pids [OF add mem]
    have "\<not> in_slots (kslot (callers s)) (a_fd a)" using fd ok conn by (auto simp: in_slots_def kslot_def split: if_splits)
    then have "one_slot (kslot cl)" using calls.add_one_slot [OF add ok] inv by (simp add: call_inv_def)
    moreover have "-1 \<le> k_fd (cl ! j)" if "j < length cl" for j
      using p inv ok that by (cases "j = i"; cases "j < length (callers s)") (auto simp: call_inv_def)
    moreover have "j = k" if jk: "j < length cl" "k < length cl" "k_pid (cl ! j) = k_pid (cl ! k)" "k_pid (cl ! j) \<noteq> 0" for j k
    proof -
      have "j < length (callers s)" "k < length (callers s)" "k_pid (cl ! j) = k_pid (callers s ! j)" "k_pid (cl ! k) = k_pid (callers s ! k)"
        using p jk by (auto split: if_splits)
      then show ?thesis using inv jk unfolding call_inv_def by metis
    qed
    ultimately show ?thesis using p inv unfolding call_inv_def let_in_def by auto
  qed
  then show "post (let clifd = a_fd a; uid = ?uid in if clifd < 0 then Inl (Err_sys ''serv_accept error'')
      else res_bind (call_add (k_mem e) (callers s) clifd uid) (\<lambda>(i, cl). if clifd \<ge> FD_SETSIZE then Inl (Overrun ''allset'')
        else Inr (s\<lparr>callers := cl, call_set := insert clifd (call_set s), call_maxfd := max clifd (call_maxfd s), call_maxi := max (int i) (call_maxi s), last_uid := uid\<rparr>)))
      (\<lambda>t. call_inv t \<and> let_in s t)"
    unfolding Let_def by (auto intro!: post_seq)
qed

section \<open>A turn\<close>

text \<open>
  What a turn may rely on: a process ID is not used again while anything is recorded for it, new memory holds none, and
  a new connection has a descriptor of its own.
\<close>

definition forks_fresh :: "(nat \<Rightarrow> int) \<Rightarrow> int set \<Rightarrow> bool" where
  "forks_fresh fk U \<longleftrightarrow> inj fk \<and> (\<forall>i. 0 < fk i \<and> fk i \<notin> U)"

definition fresh :: "call_env \<Rightarrow> calld \<Rightarrow> bool" where
  "fresh e s \<longleftrightarrow> forks_fresh (fork_head e) (used s) \<and> forks_fresh (fork_pid e) (used s \<union> range (fork_head e)) \<and> clean (k_mem e) \<and>
     (\<forall>i<length (callers s). 0 \<le> k_fd (callers s ! i) \<longrightarrow> k_fd (callers s ! i) \<noteq> fst (k_conn e))"

text \<open>The server in the middle of a turn that began in state \<open>s\<close>.\<close>

definition midway :: "calld \<Rightarrow> int set \<Rightarrow> calld \<Rightarrow> bool" where
  "midway s U u \<longleftrightarrow> call_inv u \<and> length (callers u) = length (callers s) \<and> call_maxi u = call_maxi s \<and>
     (\<forall>j. k_fd (callers u ! j) = k_fd (callers s ! j) \<or> k_fd (callers u ! j) = -1) \<and> used u \<subseteq> U"

text \<open>One client is served for a reason.\<close>

definition serves :: "call_env \<Rightarrow> int \<Rightarrow> nat \<Rightarrow> calld \<Rightarrow> calld \<Rightarrow> bool" where
  "serves e pid i s t \<longleftrightarrow> (\<exists>gone go. served pid gone go i s t \<and>
     (gone \<longrightarrow> failed_child i s \<or> 0 \<le> k_fd (callers s ! i) \<and> hung_up e (k_fd (callers s ! i))) \<and>
     (go \<longrightarrow> failed_child i s \<or> \<not> hung_up e (k_fd (callers s ! i))))"

lemma serves_midway:
  assumes m: "midway s U u" and i: "i < length (callers u)" and pid: "pid \<notin> used u" and sv: "serves e pid i u t"
  shows "midway s (insert pid U) t"
proof -
  obtain gone go where sv: "served pid gone go i u t" using sv by (auto simp: serves_def)
  have "k_fd (callers t ! j) = k_fd (callers s ! j) \<or> k_fd (callers t ! j) = -1" for j
    using served_fd [OF sv, of j] m by (auto simp: midway_def)
  moreover have "call_maxi t = call_maxi u" using sv by (simp add: served_def others_kept_def)
  ultimately show ?thesis using m served_inv [OF _ i pid sv] served_same_length [OF sv] served_used [OF sv] unfolding midway_def by auto
qed

lemma each_caller_rule:
  assumes op: "\<And>i u. i \<in> set ks \<Longrightarrow> midway s U u \<Longrightarrow> i < length (callers u) \<Longrightarrow> 0 < fk i \<Longrightarrow> fk i \<notin> used u \<Longrightarrow> post (f i u) (serves e (fk i) i u)"
    and P: "\<And>i u t. call_inv u \<Longrightarrow> P u \<Longrightarrow> i < length (callers u) \<Longrightarrow> 0 < fk i \<Longrightarrow> fk i \<notin> used u \<Longrightarrow> serves e (fk i) i u t \<Longrightarrow> P t"
    and ks: "distinct ks" "\<forall>i\<in>set ks. i < length (callers s)" and fk: "inj fk" "\<forall>i. 0 < fk i"
    and u: "midway s U u" "P u" "\<forall>i\<in>set ks. fk i \<notin> used u" and U: "range fk \<subseteq> U"
  shows "post (each_caller f ks u) (\<lambda>t. midway s U t \<and> P t)"
  using op ks u
proof (induction ks arbitrary: u)
  case (Cons i ks)
  have len: "i < length (callers u)" using Cons.prems(3,4) by (simp add: midway_def)
  have pos: "0 < fk i" using fk by simp
  have new: "fk i \<notin> used u" using Cons.prems(6) by simp
  have "post (f i u) (serves e (fk i) i u)" using Cons.prems(1) [OF _ Cons.prems(4) len pos new] by simp
  then have "post (f i u) (\<lambda>t. post (each_caller f ks t) (\<lambda>t. midway s U t \<and> P t))"
  proof (rule post_mono)
    fix t assume sv: "serves e (fk i) i u t"
    have "insert (fk i) U = U" using U by blast
    then have mt: "midway s U t" using serves_midway [OF Cons.prems(4) len new sv] by simp
    have Pt: "P t" using P [OF _ Cons.prems(5) len pos new sv] Cons.prems(4) by (simp add: midway_def)
    have "used t \<subseteq> insert (fk i) (used u)" using sv served_used unfolding serves_def by blast
    moreover have "fk j \<noteq> fk i" if "j \<in> set ks" for j using that Cons.prems(2) fk(1) by (auto dest: injD)
    ultimately have "\<forall>j\<in>set ks. fk j \<notin> used t" using Cons.prems(6) by auto
    then show "post (each_caller f ks t) (\<lambda>t. midway s U t \<and> P t)"
      using Cons.prems(1-3) mt Pt by (intro Cons.IH) auto
  qed
  then show ?case by (simp add: post_bind)
qed simp

lemma flag_kept [simp]:
  "call_inv (u\<lparr>chld_flag := b\<rparr>) = call_inv u" "used (u\<lparr>chld_flag := b\<rparr>) = used u" "midway s U (u\<lparr>chld_flag := b\<rparr>) = midway s U u"
  by (simp_all add: call_inv_def used_def lock_pids_def midway_def)

lemma slots_to_set: "call_inv s \<Longrightarrow> \<forall>i\<in>set (slots_to (call_maxi s)). i < length (callers s)"
  by (auto simp: slots_to_def call_inv_def)

lemma inv_ready:
  assumes "call_inv u" "pid \<notin> used u"
  shows "locks_ok (locks u)" "pid \<notin> lock_pids u" "one_slot (kslot (callers u))"
  using assms by (auto simp: call_inv_def used_def)

lemma child_done_rule:
  assumes P: "\<And>i u t. call_inv u \<Longrightarrow> P u \<Longrightarrow> i < length (callers u) \<Longrightarrow> 0 < fork_pid d i \<Longrightarrow> fork_pid d i \<notin> used u \<Longrightarrow> serves e (fork_pid d i) i u t \<Longrightarrow> P t"
    and flag: "P (u\<lparr>chld_flag := False\<rparr>)" and inv: "call_inv s" and u: "midway s U u" and fk: "forks_fresh (fork_pid d) U"
  shows "post (child_done d u) (\<lambda>t. midway s (U \<union> range (fork_pid d)) t \<and> P t)"
  unfolding child_done_def
proof (rule each_caller_rule [where fk = "fork_pid d" and e = e])
  show "distinct (slots_to (call_maxi u))" by (simp add: slots_to_def)
  show "\<forall>i\<in>set (slots_to (call_maxi u)). i < length (callers s)" using slots_to_set [of u] u by (auto simp: midway_def)
  show "midway s (U \<union> range (fork_pid d)) (u\<lparr>chld_flag := False\<rparr>)" using u by (auto simp: midway_def)
  show "\<forall>i\<in>set (slots_to (call_maxi u)). fork_pid d i \<notin> used (u\<lparr>chld_flag := False\<rparr>)" using u fk by (auto simp: midway_def forks_fresh_def)
  fix i v assume v: "midway s (U \<union> range (fork_pid d)) v" "i < length (callers v)" "0 < fork_pid d i" "fork_pid d i \<notin> used v"
  have "call_inv v" using v(1) by (simp add: midway_def)
  note r = inv_ready [OF this v(4)]
  have "post (one_child_done d i v) (served (fork_pid d i) (failed_child i v) (failed_child i v) i v)"
    by (rule one_child_done_served [OF r(1) v(2,3) r(2,3)])
  then show "post (one_child_done d i v) (serves e (fork_pid d i) i v)"
    by (rule post_mono) (auto simp: serves_def)
qed (use P flag fk in \<open>auto simp: forks_fresh_def\<close>)

lemma clients_rule:
  assumes P: "\<And>i u t. call_inv u \<Longrightarrow> P u \<Longrightarrow> i < length (callers u) \<Longrightarrow> 0 < fork_pid e i \<Longrightarrow> fork_pid e i \<notin> used u \<Longrightarrow> serves e (fork_pid e i) i u t \<Longrightarrow> P t"
    and Pu: "P u" and inv: "call_inv s" and u: "midway s U u" and fk: "forks_fresh (fork_pid e) U" and sel: "sel e = Ready fds" "rset \<subseteq> fds"
  shows "post (each_caller (one_client e rset) (slots_to (call_maxi u)) u) (\<lambda>t. midway s (U \<union> range (fork_pid e)) t \<and> P t)"
proof (rule each_caller_rule [where fk = "fork_pid e" and e = e])
  show "distinct (slots_to (call_maxi u))" by (simp add: slots_to_def)
  show "\<forall>i\<in>set (slots_to (call_maxi u)). i < length (callers s)" using slots_to_set [of u] u by (auto simp: midway_def)
  show "midway s (U \<union> range (fork_pid e)) u" using u by (auto simp: midway_def)
  show "\<forall>i\<in>set (slots_to (call_maxi u)). fork_pid e i \<notin> used u" using u fk by (auto simp: midway_def forks_fresh_def)
  fix i v assume v: "midway s (U \<union> range (fork_pid e)) v" "i < length (callers v)" "0 < fork_pid e i" "fork_pid e i \<notin> used v"
  have "call_inv v" using v(1) by (simp add: midway_def)
  note r = inv_ready [OF this v(4)]
  obtain gone go where "post (one_client e rset i v) (served (fork_pid e i) gone go i v)"
    "gone \<longrightarrow> 0 \<le> k_fd (callers v ! i) \<and> hung_up e (k_fd (callers v ! i))" "go \<longrightarrow> \<not> hung_up e (k_fd (callers v ! i))"
    using one_client_served [OF r(1) v(2,3) r(2,3) sel] by blast
  then show "post (one_client e rset i v) (serves e (fork_pid e i) i v)"
    by (elim post_mono) (auto simp: serves_def)
qed (use P Pu fk in \<open>auto simp: forks_fresh_def\<close>)

text \<open>A property holds after a turn if serving a client keeps it.\<close>

lemma turn_rule:
  assumes inv: "call_inv s" and fr: "fresh e s" and Ps: "P s" and flag: "\<And>u. P u \<Longrightarrow> P (u\<lparr>chld_flag := False\<rparr>)"
    and step: "\<And>pid i u t. call_inv u \<Longrightarrow> P u \<Longrightarrow> i < length (callers u) \<Longrightarrow> 0 < pid \<Longrightarrow> pid \<notin> used u \<Longrightarrow> pid \<notin> used s \<Longrightarrow> serves e pid i u t \<Longrightarrow> P t"
    and acc: "\<And>u t. call_inv u \<Longrightarrow> P u \<Longrightarrow> let_in u t \<Longrightarrow> Q t" and last: "\<And>u. P u \<Longrightarrow> Q u"
  shows "post (call_turn e s) (\<lambda>t. call_inv t \<and> Q t)"
proof -
  let ?d = "e\<lparr>fork_pid := fork_head e\<rparr>" and ?U = "used s \<union> range (fork_head e)" and ?b = "fork_pid e" and ?h = "fork_head e"
  have fh: "forks_fresh (fork_pid ?d) (used s)" and fb: "forks_fresh ?b ?U" using fr by (simp_all add: fresh_def)
  have s0: "midway s (used s) s" using inv by (simp add: midway_def)
  have ph: "P t" if "call_inv u" "P u" "i < length (callers u)" "0 < fork_pid ?d i" "fork_pid ?d i \<notin> used u" "serves e (fork_pid ?d i) i u t" for i u t
    using step [of u i "?h i" t] that fh by (simp add: forks_fresh_def)
  have pb: "P t" if "call_inv u" "P u" "i < length (callers u)" "0 < ?b i" "?b i \<notin> used u" "serves e (?b i) i u t" for i u t
    using step [of u i "?b i" t] that fb by (simp add: forks_fresh_def)
  have hd: "post (if chld_flag s then child_done ?d s else Inr s) (\<lambda>u. midway s ?U u \<and> P u)"
  proof (cases "chld_flag s")
    case True
    have "post (child_done ?d s) (\<lambda>u. midway s (used s \<union> range (fork_pid ?d)) u \<and> P u)"
      by (rule child_done_rule [where e = e and P = P and d = ?d and u = s, OF ph flag [OF Ps] inv s0 fh])
    then show ?thesis using True by simp
  next
    case False
    then show ?thesis using s0 Ps by (simp add: midway_def)
  qed
  have bd: "post (case sel e of Interrupted \<Rightarrow> child_done e u | Select_fails \<Rightarrow> Inl (Err_sys ''select error'')
     | Ready fds \<Rightarrow> let rset = {fd \<in> call_set u \<inter> fds. fd \<le> call_maxfd u} in
         if call_listen u \<in> rset then call_accept e u else each_caller (one_client e rset) (slots_to (call_maxi u)) u) (\<lambda>t. call_inv t \<and> Q t)"
    if m: "midway s ?U u" and Pu: "P u" for u
  proof -
    have fin: "post x (\<lambda>t. midway s V t \<and> P t) \<Longrightarrow> post x (\<lambda>t. call_inv t \<and> Q t)" for x :: "calld res" and V
      by (erule post_mono) (auto simp: midway_def intro: last)
    have iu: "call_inv u" using m by (simp add: midway_def)
    have fd: "\<forall>i<length (callers u). 0 \<le> k_fd (callers u ! i) \<longrightarrow> k_fd (callers u ! i) \<noteq> fst (k_conn e)"
      using fr m unfolding fresh_def midway_def by (metis neg_0_le_iff_le not_one_le_zero)
    have ac: "post (call_accept e u) (\<lambda>t. call_inv t \<and> Q t)"
      by (rule post_mono [OF call_accept_ok [OF iu _ fd]]) (use fr in \<open>auto simp: fresh_def intro: acc [OF iu Pu]\<close>)
    show ?thesis
    proof (cases "sel e")
      case Interrupted
      then show ?thesis using fin [OF child_done_rule [where e = e and P = P and d = e and u = u, OF pb flag [OF Pu] inv m fb]] by simp
    next
      case (Ready fds)
      let ?r = "{fd \<in> call_set u \<inter> fds. fd \<le> call_maxfd u}"
      have "post (each_caller (one_client e ?r) (slots_to (call_maxi u)) u) (\<lambda>t. call_inv t \<and> Q t)"
        by (rule fin [OF clients_rule [where P = P and u = u, OF pb Pu inv m fb Ready]]) auto
      then show ?thesis using ac Ready by (simp add: Let_def)
    qed simp
  qed
  show ?thesis unfolding call_turn_def by (rule post_bind, rule post_mono [OF hd]) (use bd in blast)
qed

section \<open>The machine\<close>

text \<open>The server makes a turn, or a child of it ends.\<close>

definition call_begins :: "calld \<Rightarrow> bool" where
  "call_begins s \<longleftrightarrow> (\<exists>dbglog g fd. call_start dbglog g fd = Inr s)"

definition call_step :: "calld \<Rightarrow> calld \<Rightarrow> bool" where
  "call_step s t \<longleftrightarrow> (\<exists>e. fresh e s \<and> call_turn e s = Inr t) \<or> (\<exists>pid st. kids s pid \<noteq> None \<and> sig_chld pid st s = Inr t)"

lemma call_begins_fields:
  assumes "call_begins s"
  shows "callers s = []" "locks s = []" "kids s = (\<lambda>p. None)" "call_maxi s = -1"
  using assms by (auto simp: call_begins_def call_start_def split: if_splits)

lemma sig_chld_effect:
  assumes "sig_chld pid st s = Inr t"
  shows "locks t = locks s \<and> kids t = (kids s)(pid := None) \<and> call_maxi t = call_maxi s \<and> length (callers t) = length (callers s) \<and>
    (\<forall>j. k_fd (callers t ! j) = k_fd (callers s ! j) \<and> k_uid (callers t ! j) = k_uid (callers s ! j) \<and> k_pid (callers t ! j) = k_pid (callers s ! j) \<and>
      (childdone (callers t ! j) = childdone (callers s ! j) \<or> j < length (callers s) \<and> k_pid (callers s ! j) = pid))"
proof (cases st)
  case None
  then show ?thesis using assms by (auto simp: sig_chld_def)
next
  case (Some n)
  then obtain i where i: "caller_at (\<lambda>c. k_pid c = pid) (callers s) = Some i"
    "t = s\<lparr>chld_flag := True, kids := (kids s)(pid := None), callers := (callers s)[i := (callers s ! i)\<lparr>childdone := n + 1\<rparr>]\<rparr>"
    using assms by (cases "caller_at (\<lambda>c. k_pid c = pid) (callers s)") (auto simp: sig_chld_def client_sigchld_def Let_def)
  then show ?thesis by (auto simp: caller_at_Some nth_list_update)
qed

lemma sig_chld_inv:
  assumes "call_inv s" "sig_chld pid st s = Inr t"
  shows "call_inv t"
proof -
  note e = sig_chld_effect [OF assms(2)]
  have "kslot (callers t) = kslot (callers s)" using e by (auto simp: kslot_def fun_eq_iff)
  then show ?thesis using assms(1) e unfolding call_inv_def by auto
qed

lemma call_step_inv: "call_inv s \<Longrightarrow> call_step s t \<Longrightarrow> call_inv t"
proof -
  assume inv: "call_inv s" and "call_step s t"
  then consider e where "fresh e s" "call_turn e s = Inr t" | pid st where "sig_chld pid st s = Inr t" by (auto simp: call_step_def)
  then show "call_inv t"
  proof cases
    case 1
    have "post (call_turn e s) (\<lambda>t. call_inv t \<and> True)" by (rule turn_rule [OF inv 1(1), where P = "\<lambda>_. True"]) simp_all
    then show ?thesis using 1 by (simp add: post_def)
  next
    case 2
    then show ?thesis using sig_chld_inv [OF inv] by blast
  qed
qed

interpretation lines: invariant call_begins call_step call_inv
proof
  show "call_inv s" if "call_begins s" for s using call_begins_fields [OF that] by (simp add: call_inv_def one_slot_def kslot_def locks_ok_def locked_def)
  show "call_inv t" if "call_inv s" "call_step s t" for s t using that by (rule call_step_inv)
qed

end
