(* ===== verification/Calld_Safety.thy ===== *)
theory Calld_Safety
  imports Calld_Lines
begin

text \<open>
  Who may give a lock back, and when two children cannot dial the same line.
\<close>

declare One_nat_def [simp del]

section \<open>Locks are given back for their own clients\<close>

text \<open>Client \<open>i\<close> is connected and its process has the lock of the line.\<close>

definition holds :: "calld \<Rightarrow> nat \<Rightarrow> string \<Rightarrow> bool" where
  "holds s i line \<longleftrightarrow> i < length (callers s) \<and> 0 \<le> k_fd (callers s ! i) \<and> locked (locks s) line (k_pid (callers s ! i))"

lemma holds_once:
  assumes "call_inv s" "holds s i line" "holds s j line"
  shows "i = j"
proof -
  have "k_pid (callers s ! i) = k_pid (callers s ! j)" "k_pid (callers s ! i) \<noteq> 0"
    using assms locks_once [of "locks s" line] by (auto simp: call_inv_def holds_def locked_def)
  then show ?thesis using assms unfolding call_inv_def holds_def by blast
qed

text \<open>The client has hung up, or its child has failed.\<close>

definition finished :: "call_env \<Rightarrow> calld \<Rightarrow> nat \<Rightarrow> bool" where
  "finished e s i \<longleftrightarrow> i < length (callers s) \<and> (failed_child i s \<or> 0 \<le> k_fd (callers s ! i) \<and> hung_up e (k_fd (callers s ! i)))"

definition locks_from :: "call_env \<Rightarrow> calld \<Rightarrow> calld \<Rightarrow> bool" where
  "locks_from e s u \<longleftrightarrow> length (callers u) = length (callers s) \<and>
     (\<forall>j<length (callers s). (k_fd (callers u ! j) = k_fd (callers s ! j) \<or> k_fd (callers u ! j) = -1) \<and>
       (k_pid (callers u ! j) = k_pid (callers s ! j) \<or> k_pid (callers u ! j) \<notin> used s) \<and>
       (childdone (callers u ! j) = childdone (callers s ! j) \<or> childdone (callers u ! j) = 0)) \<and>
     (\<forall>l p. locked (locks s) l p \<longrightarrow> locked (locks u) l p \<or> (\<exists>j. finished e s j \<and> k_pid (callers s ! j) = p))"

lemma locked_used: "locked (locks s) l p \<Longrightarrow> p \<in> used s"
  by (force simp: locked_def used_def lock_pids_def)

lemma locks_from_serves:
  assumes f: "locks_from e s u" and i: "i < length (callers u)" and pid: "pid \<notin> used s" and sv: "serves e pid i u t"
  shows "locks_from e s t"
proof -
  obtain gone go where sv: "served pid gone go i u t" and gone: "gone \<longrightarrow> failed_child i u \<or> 0 \<le> k_fd (callers u ! i) \<and> hung_up e (k_fd (callers u ! i))"
    using sv by (auto simp: serves_def)
  have fields: "(k_fd (callers t ! j) = k_fd (callers s ! j) \<or> k_fd (callers t ! j) = -1) \<and> (k_pid (callers t ! j) = k_pid (callers s ! j) \<or> k_pid (callers t ! j) \<notin> used s) \<and>
       (childdone (callers t ! j) = childdone (callers s ! j) \<or> childdone (callers t ! j) = 0)" if "j < length (callers s)" for j
    using f that pid served_fd [OF sv, of j] served_pid [OF sv, of j] served_childdone [OF sv, of j] unfolding locks_from_def by metis
  have lk: "locked (locks t) l p \<or> gone \<and> p = k_pid (callers u ! i)" if "locked (locks u) l p" for l p
    using sv that by (auto simp: served_def still_locked_def)
  have fin: "finished e s i" if gone
  proof -
    have "k_fd (callers u ! i) = k_fd (callers s ! i)" "0 \<le> k_fd (callers u ! i)" using gone that f i by (auto simp: locks_from_def failed_child_def)
    moreover have "childdone (callers u ! i) \<noteq> 0 \<Longrightarrow> childdone (callers u ! i) = childdone (callers s ! i)" using f i by (auto simp: locks_from_def)
    ultimately show ?thesis using gone that f i by (auto simp: finished_def failed_child_def locks_from_def)
  qed
  have "locked (locks t) l p \<or> (\<exists>j. finished e s j \<and> k_pid (callers s ! j) = p)" if l: "locked (locks s) l p" for l p
  proof -
    have "k_pid (callers u ! i) = k_pid (callers s ! i) \<or> k_pid (callers u ! i) \<noteq> p" using f i locked_used [OF l] by (auto simp: locks_from_def)
    moreover have "locked (locks u) l p \<or> (\<exists>j. finished e s j \<and> k_pid (callers s ! j) = p)" using f l by (simp add: locks_from_def)
    ultimately show ?thesis using lk [of l p] fin by metis
  qed
  then show ?thesis using fields f served_same_length [OF sv] unfolding locks_from_def by metis
qed

lemma turn_locks:
  assumes inv: "call_inv s" and fr: "fresh e s" and t: "call_turn e s = Inr t" and l: "locked (locks s) line p"
  shows "locked (locks t) line p \<or> (\<exists>j. finished e s j \<and> k_pid (callers s ! j) = p)"
proof -
  let ?Q = "\<lambda>t. locked (locks t) line p \<or> (\<exists>j. finished e s j \<and> k_pid (callers s ! j) = p)"
  have q: "?Q u" if "locks_from e s u" for u using that l by (auto simp: locks_from_def)
  have "post (call_turn e s) (\<lambda>t. call_inv t \<and> ?Q t)"
  proof (rule turn_rule [OF inv fr, where P = "locks_from e s"])
    show "locks_from e s s" by (simp add: locks_from_def)
    show "?Q w" if "locks_from e s u" "let_in u w" for u w using q [OF that(1)] that(2) by (simp add: let_in_def)
    show "locks_from e s w" if "locks_from e s u" "i < length (callers u)" "pid \<notin> used s" "serves e pid i u w" for pid i u w
      using that by (rule locks_from_serves)
  qed (use q in \<open>auto simp: locks_from_def\<close>)
  then show ?thesis using t by (simp add: post_def)
qed

section \<open>Children\<close>

text \<open>Every child has the lock of the line it dials, and a child that is reported to have ended has ended.\<close>

definition kids_ok :: "calld \<Rightarrow> bool" where
  "kids_ok s \<longleftrightarrow> (\<forall>p l. kids s p = Some l \<longrightarrow> p \<noteq> 0 \<and> locked (locks s) l p) \<and>
     (\<forall>i<length (callers s). childdone (callers s ! i) \<noteq> 0 \<longrightarrow> kids s (k_pid (callers s ! i)) = None)"

text \<open>No client hangs up before its child has succeeded.\<close>

definition patient :: "call_env \<Rightarrow> calld \<Rightarrow> bool" where
  "patient e s \<longleftrightarrow> (\<forall>i<length (callers s). 0 \<le> k_fd (callers s ! i) \<longrightarrow> hung_up e (k_fd (callers s ! i)) \<longrightarrow>
     kids s (k_pid (callers s ! i)) = None \<and> childdone (callers s ! i) \<in> {0, 1})"

lemma kids_ok_serves:
  assumes k: "kids_ok u" and pt: "patient e u" and i: "i < length (callers u)" and pid: "0 < pid" "pid \<notin> used u" and sv: "serves e pid i u t"
  shows "kids_ok t \<and> patient e t"
proof -
  obtain gone go where sv: "served pid gone go i u t" and gone: "gone \<longrightarrow> failed_child i u \<or> 0 \<le> k_fd (callers u ! i) \<and> hung_up e (k_fd (callers u ! i))"
    and go: "go \<longrightarrow> failed_child i u \<or> \<not> hung_up e (k_fd (callers u ! i))"
    using sv by (auto simp: serves_def)
  note len = served_same_length [OF sv]
  have other: "k_pid (callers u ! j) \<noteq> pid" if "j < length (callers u)" for j using pid(2) that by (auto simp: used_def)
  have ended: "kids u (k_pid (callers u ! i)) = None" if gone
    using gone that k pt i by (auto simp: kids_ok_def patient_def failed_child_def)
  have still: "still_locked gone i u l p" if "kids u p = Some l" for l p
    using that k ended unfolding kids_ok_def still_locked_def by fastforce
  have new: "kids u pid = None" using pid(2) by (auto simp: used_def)
  consider (kept) "k_pid (callers t ! i) = k_pid (callers u ! i)" "kids t = kids u" "\<forall>l p. locked (locks t) l p \<longleftrightarrow> still_locked gone i u l p"
    | (forked) line where go "k_pid (callers t ! i) = pid" "childdone (callers t ! i) = 0" "kids t = (kids u)(pid \<mapsto> line)"
        "\<forall>l p. locked (locks t) l p \<longleftrightarrow> l = line \<and> p = pid \<or> still_locked gone i u l p"
    using sv unfolding served_def by blast
  then show ?thesis
  proof cases
    case kept
    have pidj: "k_pid (callers t ! j) = k_pid (callers u ! j)" for j using kept(1) served_others [OF sv] by (cases "j = i") auto
    have "kids_ok t" unfolding kids_ok_def using kept still k len pidj served_childdone [OF sv] by (auto simp: kids_ok_def) metis
    moreover have "patient e t" unfolding patient_def
    proof (intro allI impI)
      fix j assume j: "j < length (callers t)" "0 \<le> k_fd (callers t ! j)" "hung_up e (k_fd (callers t ! j))"
      then have "k_fd (callers t ! j) = k_fd (callers u ! j)" using served_fd [OF sv, of j] by auto
      then have "kids u (k_pid (callers u ! j)) = None \<and> childdone (callers u ! j) \<in> {0, 1}" using pt j len by (auto simp: patient_def)
      then show "kids t (k_pid (callers t ! j)) = None \<and> childdone (callers t ! j) \<in> {0, 1}" using kept(2) pidj served_childdone [OF sv, of j] by auto
    qed
    ultimately show ?thesis by blast
  next
    case forked
    have "kids_ok t" unfolding kids_ok_def
    proof (intro conjI allI impI)
      fix p l assume "kids t p = Some l"
      then show "p \<noteq> 0" "locked (locks t) l p" using forked(4,5) still k pid(1) unfolding kids_ok_def by (auto split: if_splits)
    next
      fix j assume j: "j < length (callers t)" "childdone (callers t ! j) \<noteq> 0"
      then have "j \<noteq> i" using forked(3) by auto
      then show "kids t (k_pid (callers t ! j)) = None" using forked(4) j k len other [of j] served_others [OF sv, of j] by (auto simp: kids_ok_def)
    qed
    moreover have "patient e t" unfolding patient_def
    proof (intro allI impI)
      fix j assume j: "j < length (callers t)" "0 \<le> k_fd (callers t ! j)" "hung_up e (k_fd (callers t ! j))"
      then have fd: "k_fd (callers t ! j) = k_fd (callers u ! j)" using served_fd [OF sv, of j] by auto
      have u: "kids u (k_pid (callers u ! j)) = None \<and> childdone (callers u ! j) \<in> {0, 1}" using pt j fd len by (auto simp: patient_def)
      have "j \<noteq> i" using go forked(1) u j fd by (auto simp: failed_child_def)
      then show "kids t (k_pid (callers t ! j)) = None \<and> childdone (callers t ! j) \<in> {0, 1}"
        using u forked(4) other [of j] j len served_others [OF sv, of j] by auto
    qed
    ultimately show ?thesis by blast
  qed
qed

text \<open>The machine with clients that wait.\<close>

definition patient_step :: "calld \<Rightarrow> calld \<Rightarrow> bool" where
  "patient_step s t \<longleftrightarrow> (\<exists>e. fresh e s \<and> patient e s \<and> call_turn e s = Inr t) \<or> (\<exists>pid st. kids s pid \<noteq> None \<and> sig_chld pid st s = Inr t)"

lemma patient_is_step: "patient_step s t \<Longrightarrow> call_step s t"
  by (auto simp: patient_step_def call_step_def)

lemma kids_ok_let_in: "kids_ok u \<Longrightarrow> let_in u t \<Longrightarrow> kids_ok t"
  unfolding kids_ok_def let_in_def by (metis not_None_eq)

lemma kids_ok_turn:
  assumes "call_inv s" "kids_ok s" "fresh e s" "patient e s" "call_turn e s = Inr t"
  shows "kids_ok t"
proof -
  have "post (call_turn e s) (\<lambda>t. call_inv t \<and> kids_ok t)"
  proof (rule turn_rule [OF assms(1,3), where P = "\<lambda>u. kids_ok u \<and> patient e u"])
    show "kids_ok w \<and> patient e w" if "kids_ok u \<and> patient e u" "i < length (callers u)" "0 < pid" "pid \<notin> used u" "serves e pid i u w" for pid i u w
      using that kids_ok_serves by blast
    show "kids_ok (u\<lparr>chld_flag := False\<rparr>) \<and> patient e (u\<lparr>chld_flag := False\<rparr>)" if "kids_ok u \<and> patient e u" for u
      using that by (simp add: kids_ok_def patient_def)
    show "kids_ok w" if "kids_ok u \<and> patient e u" "let_in u w" for u w using that kids_ok_let_in by blast
  qed (use assms(2,4) in simp_all)
  then show ?thesis using assms(5) by (simp add: post_def)
qed

lemma kids_ok_sig_chld: "kids_ok s \<Longrightarrow> sig_chld pid st s = Inr t \<Longrightarrow> kids_ok t"
  using sig_chld_effect [of pid st s t] unfolding kids_ok_def by (metis fun_upd_apply option.distinct(1))

interpretation dialing: invariant call_begins patient_step "\<lambda>s. call_inv s \<and> kids_ok s"
proof
  show "call_inv s \<and> kids_ok s" if "call_begins s" for s
    using lines.start_inv [OF that] call_begins_fields [OF that] by (simp add: kids_ok_def)
  show "call_inv t \<and> kids_ok t" if "call_inv s \<and> kids_ok s" "patient_step s t" for s t
    using that lines.step_inv [OF _ patient_is_step] kids_ok_turn kids_ok_sig_chld unfolding patient_step_def by blast
qed

end
