(* ===== verification/Calld_Order.thy ===== *)
theory Calld_Order
  imports Calld_Safety
begin

text \<open>
  A request goes through the entries of the \<open>Systems\<close> file in their order, from where the last one stopped, and takes
  the first one whose device is free; the loop ends on every file.
\<close>

declare One_nat_def [simp del]

section \<open>The entries that a request looks at\<close>

function entries :: "string \<Rightarrow> nat \<Rightarrow> (Systems \<times> nat) list" where
  "entries body pos = (case next_entry parse_sys body pos of
     Inr (Some sy, p) \<Rightarrow> (sy, p) # entries body p
   | _ \<Rightarrow> [])"
  by pat_completeness auto
termination
  by (relation "measure (\<lambda>(body, pos). length body - pos)") (auto dest: next_entry_pos)

declare entries.simps [simp del]

definition wants :: "string \<Rightarrow> string \<Rightarrow> Systems \<Rightarrow> bool" where
  "wants name cls sy \<longleftrightarrow> name = s_name sy \<and> (cls = [] \<or> cls = s_class sy)"

text \<open>The line of the first entry that is wanted and has a free device, and the position behind the entry.\<close>

primrec first_free_line :: "(string \<Rightarrow> bool) \<Rightarrow> string option \<Rightarrow> string \<Rightarrow> string \<Rightarrow> (Systems \<times> nat) list \<Rightarrow> (string \<times> nat) option" where
  "first_free_line busy devs name cls [] = None"
| "first_free_line busy devs name cls (x # xs) =
     (if \<not> wants name cls (fst x) then first_free_line busy devs name cls xs
      else case dev_find devs (fst x) of
        Inr (Some d, _) \<Rightarrow> if busy (d_line d) then first_free_line busy devs name cls xs else Some (d_line d, snd x)
      | _ \<Rightarrow> None)"

definition busy :: "calld \<Rightarrow> string \<Rightarrow> bool" where
  "busy s line \<longleftrightarrow> (\<exists>p. locked (locks s) line p)"

definition sys_pos :: "calld \<Rightarrow> nat" where
  "sys_pos s = (case fpsys s of None \<Rightarrow> 0 | Some p \<Rightarrow> p)"

text \<open>What is still to be tried in a state.\<close>

definition next_line :: "call_env \<Rightarrow> string \<Rightarrow> nat \<Rightarrow> calld \<Rightarrow> (string \<times> nat) option" where
  "next_line e body i s = first_free_line (busy s) (dev_file e) (k_sysname (callers s ! i)) (k_speed (callers s ! i)) (entries body (sys_pos s))"

section \<open>One round\<close>

text \<open>The client keeps what it asked for, and the file its position.\<close>

definition same_wish :: "nat \<Rightarrow> calld \<Rightarrow> calld \<Rightarrow> bool" where
  "same_wish i s t \<longleftrightarrow> k_sysname (callers t ! i) = k_sysname (callers s ! i) \<and> k_speed (callers t ! i) = k_speed (callers s ! i) \<and>
     length (callers t) = length (callers s)"

definition at_entry :: "nat \<Rightarrow> nat \<Rightarrow> calld \<Rightarrow> bool" where
  "at_entry i p t \<longleftrightarrow> fpsys t = Some p \<and> sysftell (callers t ! i) = int p"

lemma trying_keeps: "trying l fd s = Inr t \<Longrightarrow> callers t = callers s \<and> fpsys t = fpsys s \<and> locks t = locks s \<and> kids t = kids s"
  by (cases "debug_out (o_Debug (opts s)) (l @ [NL]) (links s fd)") (auto simp: trying_def)

lemma is_locked_busy:
  assumes "is_locked mem line ls = Inr (p, ls')" "locks_ok ls"
  shows "p \<noteq> 0 \<longleftrightarrow> (\<exists>q. locked ls line q)"
proof -
  obtain i where f: "find_line mem line ls = Inr (i, ls')" and p: "p = snd (ls' ! i)"
    using assms(1) by (cases "find_line mem line ls") (auto simp: is_locked_def)
  note f = find_line_ok [OF f assms(2)]
  have "(line, p) \<in> set ls'" using f(3,4) p by (metis nth_mem prod.collapse)
  then show ?thesis using locks_once [OF f(1)] unfolding f(2) [symmetric] locked_def by blast
qed

lemma start_child_line:
  assumes "start_child e i line s = Inr (n, t)" "i < length (callers s)"
  shows "n = 0 \<and> kids t = (kids s)(fork_pid e i \<mapsto> line) \<and> fpsys t = fpsys s \<and> sysftell (callers t ! i) = sysftell (callers s ! i)"
  using assms by (cases "lock_set (logging s) (lock_mem e) line (fork_pid e i) (locks s)") (auto simp: start_child_def Let_def put_caller_def split: if_splits)

lemma try_dev_cases:
  assumes t: "try_dev e i d s = Inr r" and ok: "locks_ok (locks s)" "i < length (callers s)"
  shows "if busy s (d_line d) then \<exists>t. r = Next t \<and> same_wish i s t \<and> fpsys t = fpsys s \<and> sysftell (callers t ! i) = sysftell (callers s ! i)
    else \<exists>t. r = Return 0 t \<and> kids t = (kids s)(fork_pid e i \<mapsto> d_line d) \<and> fpsys t = fpsys s \<and> sysftell (callers t ! i) = sysftell (callers s ! i)"
proof -
  obtain u where u: "trying (''trying dev: '' @ d_type d @ '', '' @ d_line d @ '', '' @ d_class d @ '', '' @ d_dialer d) (k_fd (callers s ! i)) s = Inr u"
    using t unfolding try_dev_def res_bind_Inr by blast
  obtain p ls where p: "is_locked (lock_mem e) (d_line d) (locks u) = Inr (p, ls)"
    using t u by (cases "is_locked (lock_mem e) (d_line d) (locks u)") (auto simp: try_dev_def)
  note k = trying_keeps [OF u]
  have b: "p \<noteq> 0 \<longleftrightarrow> busy s (d_line d)" using is_locked_busy [OF p] ok k by (simp add: busy_def)
  show ?thesis
  proof (cases "p = 0")
    case True
    then have "res_bind (start_child e i (d_line d) (u\<lparr>locks := ls\<rparr>)) returned = Inr r" using t u p by (simp add: try_dev_def)
    then obtain n t' where "start_child e i (d_line d) (u\<lparr>locks := ls\<rparr>) = Inr (n, t')" "r = Return n t'"
      by (cases "start_child e i (d_line d) (u\<lparr>locks := ls\<rparr>)") (auto simp: returned_def)
    then show ?thesis using start_child_line [of e i "d_line d" "u\<lparr>locks := ls\<rparr>" n t'] k ok b True by simp
  next
    case False
    then have "\<exists>m. r = Next (put_errmsg m (u\<lparr>locks := ls\<rparr>))"
      using t u p by (cases "into_errmsg (''device `'' @ d_line d @ [CHR 0x27] @ '' already locked by pid '' @ dec_int p @ [NL])") (auto simp: try_dev_def)
    then show ?thesis using b False k by (auto simp: same_wish_def put_errmsg_def)
  qed
qed

text \<open>What a round comes to when the entry \<open>sy\<close> is wanted.\<close>

definition tried :: "call_env \<Rightarrow> nat \<Rightarrow> Systems \<Rightarrow> calld \<Rightarrow> round \<Rightarrow> bool" where
  "tried e i sy s r \<longleftrightarrow> (case dev_find (dev_file e) sy of
     Inl h \<Rightarrow> False
   | Inr (None, m) \<Rightarrow> \<exists>t. r = Return (-1) t
   | Inr (Some d, m) \<Rightarrow>
       if busy s (d_line d) then \<exists>t. r = Next t \<and> same_wish i s t \<and> fpsys t = fpsys s \<and> sysftell (callers t ! i) = sysftell (callers s ! i)
       else \<exists>t. r = Return 0 t \<and> kids t = (kids s)(fork_pid e i \<mapsto> d_line d) \<and> fpsys t = fpsys s \<and> sysftell (callers t ! i) = sysftell (callers s ! i))"

lemma no_entry_returns: "res_bind (no_entry c s) returned = Inr r \<Longrightarrow> \<exists>t. r = Return (-1) t"
  by (auto simp: no_entry_def res_bind_Inr returned_def split: if_splits)

lemma try_sys_cases:
  assumes t: "try_sys e i sy s = Inr r" and ok: "locks_ok (locks s)" "i < length (callers s)"
  shows "tried e i sy s r"
proof -
  obtain u where u: "trying (''trying sys: '' @ s_name sy @ '', '' @ s_type sy @ '', '' @ s_class sy @ '', '' @ s_phone sy) (k_fd (callers s ! i)) s = Inr u"
    using t unfolding try_sys_def res_bind_Inr by blast
  note k = trying_keeps [OF u]
  let ?c = "(callers u ! i)\<lparr>foundone := foundone (callers u ! i) + 1\<rparr>"
  obtain dv m where f: "dev_find (dev_file e) sy = Inr (dv, m)" using t u by (cases "dev_find (dev_file e) sy") (auto simp: try_sys_def Let_def)
  have r: "(case dv of None \<Rightarrow> res_bind (no_entry ?c (put_errmsg m (put_caller i ?c u))) returned | Some d \<Rightarrow> try_dev e i d (put_caller i ?c u)) = Inr r"
    using t u f by (simp add: try_sys_def Let_def)
  show ?thesis
  proof (cases dv)
    case None
    then show ?thesis using r f no_entry_returns by (auto simp: tried_def)
  next
    case (Some d)
    let ?v = "put_caller i ?c u"
    have "try_dev e i d ?v = Inr r" using r Some by simp
    note c = try_dev_cases [OF this]
    have v: "locks ?v = locks s" "kids ?v = kids s" "fpsys ?v = fpsys s" "callers ?v ! i = ?c" "length (callers ?v) = length (callers s)"
      using k ok by (simp_all add: put_caller_def)
    have b: "busy ?v (d_line d) = busy s (d_line d)" using v(1) by (simp add: busy_def)
    have w: "same_wish i ?v = same_wish i s" using v k by (simp add: same_wish_def fun_eq_iff)
    have ft: "sysftell (callers ?v ! i) = sysftell (callers s ! i)" using k unfolding v by simp
    show ?thesis using c [unfolded b w ft v(1-3,5), OF ok] f Some by (simp add: tried_def)
  qed
qed

definition round_of :: "call_env \<Rightarrow> string \<Rightarrow> nat \<Rightarrow> calld \<Rightarrow> round \<Rightarrow> bool" where
  "round_of e body i s r \<longleftrightarrow> (case next_entry parse_sys body (sys_pos s) of
     Inl h \<Rightarrow> False
   | Inr (None, p) \<Rightarrow> \<exists>t. r = Return (-1) t
   | Inr (Some sy, p) \<Rightarrow> \<exists>u. same_wish i s u \<and> at_entry i p u \<and> locks u = locks s \<and> kids u = kids s \<and>
       (if wants (k_sysname (callers s ! i)) (k_speed (callers s ! i)) sy then tried e i sy u r else r = Next u))"

lemma request_round_of:
  assumes t: "request_round e i s = Inr r" and ok: "locks_ok (locks s)" "i < length (callers s)" and body: "sys_file e = Some body"
  shows "round_of e body i s r"
proof -
  obtain en p where en: "next_entry parse_sys body (sys_pos s) = Inr (en, p)"
    using t body by (cases "next_entry parse_sys body (sys_pos s)") (auto simp: request_round_def sys_next_def fopen_once_def sys_pos_def)
  let ?pos = "case en of None \<Rightarrow> -1 | Some _ \<Rightarrow> int p"
  let ?c = "(callers s ! i)\<lparr>sysftell := ?pos\<rparr>"
  let ?u = "(put_caller i ?c s)\<lparr>fpsys := Some p\<rparr>"
  have n: "sys_next (sys_file e) (fpsys s) = Inr (?pos, en, Some p)" using en body by (simp add: sys_next_def fopen_once_def sys_pos_def)
  have r: "(case en of None \<Rightarrow> res_bind (no_entry ?c ?u) returned
     | Some sy \<Rightarrow> if k_sysname ?c \<noteq> s_name sy then Inr (Next ?u) else if k_speed ?c \<noteq> [] \<and> k_speed ?c \<noteq> s_class sy then Inr (Next ?u) else try_sys e i sy ?u) = Inr r"
    using t unfolding request_round_def n by (simp add: Let_def)
  show ?thesis
  proof (cases en)
    case None
    then show ?thesis using r en no_entry_returns by (auto simp: round_of_def)
  next
    case (Some sy)
    have u: "same_wish i s ?u \<and> at_entry i p ?u \<and> locks ?u = locks s \<and> kids ?u = kids s"
      using ok Some by (simp add: same_wish_def at_entry_def put_caller_def)
    have "tried e i sy ?u r" if "wants (k_sysname (callers s ! i)) (k_speed (callers s ! i)) sy"
      using try_sys_cases [of e i sy ?u r] r Some that ok by (auto simp: wants_def put_caller_def)
    moreover have "r = Next ?u" if "\<not> wants (k_sysname (callers s ! i)) (k_speed (callers s ! i)) sy"
      using r Some that by (auto simp: wants_def split: if_splits)
    ultimately show ?thesis using u en Some unfolding round_of_def by auto
  qed
qed

text \<open>The order of the entries: a round that goes on leaves the choice as it was.\<close>

lemma round_entry:
  assumes "round_of e body i s (Next t) \<or> round_of e body i s (Return 0 t)"
  shows "\<exists>sy p. next_entry parse_sys body (sys_pos s) = Inr (Some sy, p) \<and> entries body (sys_pos s) = (sy, p) # entries body p"
  using assms by (subst entries.simps) (auto simp: round_of_def split: sum.splits prod.splits option.splits)

lemma round_next:
  assumes r: "round_of e body i s (Next t)" and lk: "locked (locks t) = locked (locks s)"
  shows "next_line e body i t = next_line e body i s \<and> sys_pos s < sys_pos t \<and> sys_pos s < length body"
proof -
  obtain sy p where n: "next_entry parse_sys body (sys_pos s) = Inr (Some sy, p)" "entries body (sys_pos s) = (sy, p) # entries body p"
    using round_entry [of e body i s t] r by blast
  obtain u where u: "same_wish i s u" "at_entry i p u" "locks u = locks s"
    and d: "if wants (k_sysname (callers s ! i)) (k_speed (callers s ! i)) sy then tried e i sy u (Next t) else Next t = Next u"
    using r n by (auto simp: round_of_def)
  have b: "busy u = busy s" "busy t = busy s" using u(3) lk by (simp_all add: busy_def fun_eq_iff)
  have t: "same_wish i s t" "fpsys t = Some p"
    using d u by (auto simp: tried_def same_wish_def at_entry_def split: if_splits sum.splits option.splits)
  have "first_free_line (busy s) (dev_file e) (k_sysname (callers s ! i)) (k_speed (callers s ! i)) ((sy, p) # entries body p) =
    first_free_line (busy s) (dev_file e) (k_sysname (callers s ! i)) (k_speed (callers s ! i)) (entries body p)"
    using d b by (auto simp: tried_def split: if_splits sum.splits option.splits)
  then show ?thesis using t b n next_entry_pos [OF n(1)] unfolding next_line_def by (simp add: same_wish_def sys_pos_def)
qed

lemma round_fails:
  assumes r: "round_of e body i s (Return n t)" and n: "n \<noteq> 0"
  shows "next_line e body i s = None"
proof (cases "next_entry parse_sys body (sys_pos s)")
  case (Inr x)
  obtain en p where x: "x = (en, p)" by (cases x)
  show ?thesis
  proof (cases en)
    case None
    then show ?thesis using Inr x unfolding next_line_def by (subst entries.simps) simp
  next
    case (Some sy)
    then obtain u where "if wants (k_sysname (callers s ! i)) (k_speed (callers s ! i)) sy then tried e i sy u (Return n t) else Return n t = Next u"
      using r Inr x by (auto simp: round_of_def)
    then have "wants (k_sysname (callers s ! i)) (k_speed (callers s ! i)) sy" "\<exists>m. dev_find (dev_file e) sy = Inr (None, m)"
      using n by (auto simp: tried_def split: if_splits sum.splits option.splits)
    then show ?thesis using Inr x Some unfolding next_line_def by (subst entries.simps) auto
  qed
qed (use r in \<open>simp add: round_of_def\<close>)

lemma round_starts:
  assumes r: "round_of e body i s (Return 0 t)"
  shows "\<exists>l p. next_line e body i s = Some (l, p) \<and> kids t = (kids s)(fork_pid e i \<mapsto> l) \<and> at_entry i p t"
proof -
  obtain sy p where n: "next_entry parse_sys body (sys_pos s) = Inr (Some sy, p)" "entries body (sys_pos s) = (sy, p) # entries body p"
    using round_entry [of e body i s t] r by blast
  obtain u where u: "at_entry i p u" "locks u = locks s" "kids u = kids s"
    and d: "if wants (k_sysname (callers s ! i)) (k_speed (callers s ! i)) sy then tried e i sy u (Return 0 t) else Return 0 t = Next u"
    using r n by (auto simp: round_of_def)
  have b: "busy u = busy s" using u(2) by (simp add: busy_def fun_eq_iff)
  obtain dv m where "wants (k_sysname (callers s ! i)) (k_speed (callers s ! i)) sy" "dev_find (dev_file e) sy = Inr (Some dv, m)" "\<not> busy s (d_line dv)"
    "kids t = (kids s)(fork_pid e i \<mapsto> d_line dv)" "at_entry i p t"
    using d b u by (auto simp: tried_def at_entry_def split: if_splits sum.splits option.splits)
  then show ?thesis using n by (simp add: next_line_def)
qed

section \<open>The loop\<close>

lemma request_loop_order:
  assumes body: "sys_file e = Some body" and pid: "0 < fork_pid e i"
    and s: "locks_ok (locks s)" "i < length (callers s)" "fork_pid e i \<notin> lock_pids s" and l: "request_loop n e i s = Inr (r, t)"
  shows "case next_line e body i s of None \<Rightarrow> r < 0 | Some (l, p) \<Rightarrow> r = 0 \<and> kids t = (kids s)(fork_pid e i \<mapsto> l) \<and> at_entry i p t"
  using s l
proof (induction n arbitrary: s)
  case (Suc n)
  obtain x where x: "request_round e i s = Inr x" using Suc.prems(4) by (cases "request_round e i s") auto
  have ro: "round_of e body i s x" by (rule request_round_of [OF x Suc.prems(1,2) body])
  have en: "round_ends e i s x" using request_round_ends [OF near_refl [OF Suc.prems(1)] Suc.prems(2) pid Suc.prems(3)] x by (simp add: post_def)
  show ?case
  proof (cases x)
    case (Next u)
    have nu: "near i s u" using en Next by (simp add: round_ends_def)
    have "locked (locks u) = locked (locks s)" "kids u = kids s" "fork_pid e i \<notin> lock_pids u" using nu Suc.prems(3) by (auto simp: near_def)
    moreover have "next_line e body i u = next_line e body i s" using round_next [of e body i s u] ro Next calculation(1) by simp
    ultimately show ?thesis using Suc.IH [OF near_locks [OF nu] _ _] Suc.prems(2,4) near_length [OF nu] x Next by (auto split: option.splits)
  next
    case (Return m u)
    have m: "m = r" "u = t" using Suc.prems(4) x Return by simp_all
    have "r = -1 \<or> r = 0" using en Return m by (auto simp: round_ends_def request_ends_def)
    then show ?thesis using round_fails [of e body i s r t] round_starts [of e body i s t] ro Return m by auto
  qed
qed simp

text \<open>No round loops.\<close>

lemma no_loops:
  "debug_out b l c \<noteq> Inl Loops" "into_errmsg m \<noteq> Inl Loops" "log_doit b m \<noteq> Inl Loops" "find_line b l ls \<noteq> Inl Loops"
  using writen_total [of "csink c" l]
  by (auto simp: debug_out_def into_errmsg_def log_doit_def find_line_def res_bind_Inl Let_def split: option.splits)

lemma fields_no_loop:
  "(\<And>t r. k t r \<noteq> Inl Loops) \<Longrightarrow> field d w f rest k \<noteq> Inl Loops" "(\<And>t r. q t r \<noteq> Inl Loops) \<Longrightarrow> first_field w f line q \<noteq> Inl Loops"
  by (auto simp: field_def first_field_def missing_def Let_def split: option.splits)

lemma parse_no_loop: "parse_sys line \<noteq> Inl Loops" "parse_dev line \<noteq> Inl Loops"
  unfolding parse_sys_def parse_dev_def by (intro fields_no_loop; simp)+

lemma next_entry_no_loop: "(\<And>line. parse line \<noteq> Inl Loops) \<Longrightarrow> next_entry parse body pos \<noteq> Inl Loops"
proof (induction parse body pos rule: next_entry.induct)
  case (1 parse body pos)
  then show ?case by (subst next_entry.simps) (auto simp: Let_def split: sum.splits option.splits)
qed

lemma dev_scan_no_loop: "dev_scan ok body pos \<noteq> Inl Loops"
proof (induction ok body pos rule: dev_scan.induct)
  case (1 ok body pos)
  then show ?case using next_entry_no_loop [OF parse_no_loop(2)] by (subst dev_scan.simps) (auto split: sum.splits option.splits prod.splits)
qed

lemma file_no_loop: "dev_find f sy \<noteq> Inl Loops" "sys_next f fp \<noteq> Inl Loops"
  using dev_scan_no_loop next_entry_no_loop [OF parse_no_loop(1)]
  by (auto simp: dev_find_def sys_next_def fopen_once_def res_bind_Inl no_loops split: option.splits)

lemma round_no_loop: "request_round e i s \<noteq> Inl Loops"
proof -
  have a: "trying l fd u \<noteq> Inl Loops" "no_entry c u \<noteq> Inl Loops" "start_child e i l u \<noteq> Inl Loops" "is_locked b l ls \<noteq> Inl Loops" for l fd u c b ls
    by (auto simp: trying_def no_entry_def start_child_def lock_set_def is_locked_def res_bind_Inl no_loops Let_def)
  have d: "try_dev e i dv u \<noteq> Inl Loops" for dv u by (auto simp: try_dev_def res_bind_Inl a no_loops returned_def Let_def split: if_splits)
  have "try_sys e i sy u \<noteq> Inl Loops" for sy u by (auto simp: try_sys_def res_bind_Inl a d file_no_loop returned_def Let_def split: option.splits)
  then show ?thesis by (auto simp: request_round_def res_bind_Inl a file_no_loop returned_def Let_def split: option.splits if_splits)
qed

lemma request_loop_ends:
  assumes body: "sys_file e = Some body" and pid: "0 < fork_pid e i"
    and s: "locks_ok (locks s)" "i < length (callers s)" "fork_pid e i \<notin> lock_pids s" "length body - sys_pos s < n"
  shows "request_loop n e i s \<noteq> Inl Loops"
  using s
proof (induction n arbitrary: s)
  case (Suc n)
  show ?case
  proof (cases "request_round e i s")
    case (Inl h)
    then show ?thesis using round_no_loop by auto
  next
    case (Inr x)
    show ?thesis
    proof (cases x)
      case (Next u)
      have nu: "near i s u" using request_round_ends [OF near_refl [OF Suc.prems(1)] Suc.prems(2) pid Suc.prems(3)] Inr Next by (simp add: post_def round_ends_def)
      have "fork_pid e i \<notin> lock_pids u" "locked (locks u) = locked (locks s)" using nu Suc.prems(3) by (auto simp: near_def)
      moreover have "length body - sys_pos u < n"
        using round_next [OF request_round_of [OF Inr [unfolded Next] Suc.prems(1,2) body] calculation(2)] Suc.prems(4) by linarith
      ultimately show ?thesis using Suc.IH [OF near_locks [OF nu]] Suc.prems(2) near_length [OF nu] Inr Next by simp
    next
      case (Return m u)
      then show ?thesis using Inr by simp
    qed
  qed
qed simp

section \<open>A request\<close>

text \<open>The choice of a request: from where the client left off.\<close>

definition choice :: "call_env \<Rightarrow> string \<Rightarrow> nat \<Rightarrow> calld \<Rightarrow> (string \<times> nat) option" where
  "choice e body i s = first_free_line (busy s) (dev_file e) (k_sysname (callers s ! i)) (k_speed (callers s ! i)) (entries body (nat (sysftell (callers s ! i))))"

lemma call_request_order:
  assumes body: "sys_file e = Some body" and s: "locks_ok (locks s)" "i < length (callers s)" "0 < fork_pid e i" "fork_pid e i \<notin> lock_pids s"
    and pos: "sysftell (callers s ! i) = 0 \<or> 0 < sysftell (callers s ! i) \<and> fpsys s \<noteq> None"
  shows "call_request e i s \<noteq> Inl Loops"
    and "call_request e i s = Inr (r, t) \<Longrightarrow> case choice e body i s of None \<Rightarrow> r < 0
      | Some (l, p) \<Rightarrow> r = 0 \<and> kids t = (kids s)(fork_pid e i \<mapsto> l) \<and> sysftell (callers t ! i) = int p"
proof -
  obtain fp where fp: "sys_posn (sysftell (callers s ! i)) (fpsys s) = Inr fp" "(case fp of None \<Rightarrow> 0 | Some p \<Rightarrow> p) = nat (sysftell (callers s ! i))"
    using pos by (cases "fpsys s") (auto simp: sys_posn_def)
  let ?u = "(put_errmsg [] s)\<lparr>fpsys := fp\<rparr>"
  have eq: "call_request e i s = request_loop (sys_fuel e) e i ?u" using fp by (simp add: call_request_def)
  have u: "locks_ok (locks ?u)" "i < length (callers ?u)" "fork_pid e i \<notin> lock_pids ?u" "kids ?u = kids s"
    using s by (simp_all add: put_errmsg_def lock_pids_def)
  have "busy ?u = busy s" by (simp add: busy_def put_errmsg_def fun_eq_iff)
  then have n: "next_line e body i ?u = choice e body i s" using fp(2) by (simp add: next_line_def choice_def sys_pos_def)
  show "call_request e i s \<noteq> Inl Loops" unfolding eq
    by (rule request_loop_ends [OF body s(3) u(1-3)]) (simp add: sys_fuel_def body)
  show "case choice e body i s of None \<Rightarrow> r < 0 | Some (l, p) \<Rightarrow> r = 0 \<and> kids t = (kids s)(fork_pid e i \<mapsto> l) \<and> sysftell (callers t ! i) = int p"
    if "call_request e i s = Inr (r, t)"
    using request_loop_order [OF body s(3) u(1-3) that [unfolded eq]] u(4) n by (auto simp: at_entry_def split: option.splits)
qed

end
