(* ===== verification/Calld_Expect.thy ===== *)
theory Calld_Expect
  imports Calld_Dial
begin

text \<open>
  What \<open>expect_str\<close> finds: the first occurrence of the string in what comes from the line, if the alarm does
  not go off, and nothing ever if it does.
\<close>

section \<open>Finding a string in another\<close>

fun first_at :: "string \<Rightarrow> string \<Rightarrow> nat option" where
  "first_at m [] = (if m = [] then Some 0 else None)"
| "first_at m (c # cs) = (if take (length m) (c # cs) = m then Some 0 else map_option Suc (first_at m cs))"

lemma first_at_here: "first_at m d = Some k \<Longrightarrow> take (length m) (drop k d) = m \<and> k + length m \<le> length d"
proof (induction m d arbitrary: k rule: first_at.induct)
  case (2 m c cs)
  show ?case
  proof (cases "take (length m) (c # cs) = m")
    case True
    then have "length m \<le> length (c # cs)" by (metis length_take min.cobounded1)
    then show ?thesis using True 2 by simp
  next
    case False
    then show ?thesis using 2 by auto
  qed
qed (auto split: if_splits)

lemma first_at_0: "first_at m d = Some 0 \<longleftrightarrow> take (length m) d = m"
  by (cases d) auto

lemma first_at_Suc: "first_at m d = Some (Suc k) \<Longrightarrow> take (length m) d \<noteq> m \<and> (\<exists>c cs. d = c # cs \<and> first_at m cs = Some k)"
  by (cases d) (auto split: if_splits)

lemma first_at_drop: "first_at m d = Some k \<Longrightarrow> p \<le> k \<Longrightarrow> first_at m (drop p d) = Some (k - p)"
proof (induction p arbitrary: d k)
  case (Suc p)
  then obtain k' where k: "k = Suc k'" by (cases k) auto
  then obtain c cs where "d = c # cs" "first_at m cs = Some k'" using first_at_Suc Suc.prems by blast
  then show ?case using Suc k by simp
qed simp

section \<open>Reading\<close>

lemma silent: "\<not> dbg s \<Longrightarrow> DEBUG_NONL line s = Inr s" "\<not> dbg s \<Longrightarrow> DEBUG line s = Inr s"
  by (simp_all add: DEBUG_def DEBUG_NONL_def debug_out_def)

lemma read_byte: "\<not> dbg s \<Longrightarrow> \<not> caught_alrm s \<Longrightarrow> tin s = Byte c # ev \<Longrightarrow> exp_read s = Inr (1, Some c, s\<lparr>tin := ev\<rparr>)"
  by (simp add: exp_read_def silent)

lemma skip_to_first:
  assumes "\<not> dbg s" "\<not> caught_alrm s" "tin s = map Byte (x @ f # y) @ rest" "f \<notin> set x" "length x < fuel"
  shows "expect_skip fuel f c s = Inr (0, f, s\<lparr>tin := map Byte y @ rest\<rparr>)"
  using assms
proof (induction x arbitrary: fuel c s)
  case Nil
  then show ?case by (cases fuel) (simp_all add: read_byte unsigned_below_zero_def)
next
  case (Cons b x)
  then obtain n where n: "fuel = Suc n" by (cases fuel) auto
  have "exp_read s = Inr (1, Some b, s\<lparr>tin := map Byte (x @ f # y) @ rest\<rparr>)" using Cons.prems by (simp add: read_byte)
  then show ?case using Cons.IH [of "s\<lparr>tin := map Byte (x @ f # y) @ rest\<rparr>" n b] Cons.prems n by (auto simp: unsigned_below_zero_def)
qed

lemma read_into_byte:
  assumes "\<not> dbg s" "\<not> caught_alrm s" "tin s = Byte c # ev" "p < length inbuf"
  shows "read_into inbuf p s = Inr (1, inbuf[p := c], s\<lparr>tin := ev\<rparr>)"
  using assms by (simp add: read_into_def read_byte)

lemma take_update_next: "p < length b \<Longrightarrow> take (Suc p) (b[p := c]) = take p b @ [c]"
  by (simp add: take_Suc_conv_app_nth)

lemma fill_reads:
  assumes "\<not> dbg s" "\<not> caught_alrm s" "tin s = map Byte y @ rest" "n \<le> length y" "p + n < length inbuf"
  shows "\<exists>b. expect_fill n inbuf p s = Inr (0, b, p + n, s\<lparr>tin := map Byte (drop n y) @ rest\<rparr>) \<and> length b = length inbuf \<and>
    take (Suc (p + n)) b = take (Suc p) inbuf @ take n y"
  using assms
proof (induction n arbitrary: y inbuf p s)
  case (Suc n)
  then obtain c y' where y: "y = c # y'" by (cases y) auto
  let ?b = "inbuf[Suc p := c]" and ?s = "s\<lparr>tin := map Byte y' @ rest\<rparr>"
  have r: "read_into inbuf (Suc p) s = Inr (1, ?b, ?s)" using Suc.prems y by (intro read_into_byte) simp_all
  obtain b where b: "expect_fill n ?b (Suc p) ?s = Inr (0, b, Suc p + n, ?s\<lparr>tin := map Byte (drop n y') @ rest\<rparr>)" "length b = length ?b"
    "take (Suc (Suc p + n)) b = take (Suc (Suc p)) ?b @ take n y'"
    using Suc.IH [of ?s y' "Suc p" ?b] Suc.prems y by auto
  have "take (Suc (Suc p)) ?b = take (Suc p) inbuf @ [c]" using Suc.prems by (intro take_update_next) simp
  then show ?case using r b y by (auto simp: unsigned_below_zero_def)
qed simp

lemma compare_window:
  assumes "cmp + length m = Suc p" "Suc p \<le> length inbuf"
  shows "strncmp_eq inbuf cmp m = Inr (take (length m) (drop cmp (take (Suc p) inbuf)) = m)"
  using assms by (simp add: strncmp_eq_def Let_def drop_take flip: assms(1))

lemma match_finds:
  assumes "\<not> dbg s" "\<not> caught_alrm s" "tin s = map Byte y @ rest" "cmp + length m = Suc p" "p + k < length inbuf"
    and "first_at m (drop cmp (take (Suc p) inbuf) @ y) = Some k" "k < fuel"
  shows "expect_match fuel m inbuf p cmp s = Inr (0, s\<lparr>tin := map Byte (drop k y) @ rest\<rparr>)"
  using assms
proof (induction k arbitrary: y inbuf p cmp s fuel)
  case 0
  let ?w = "drop cmp (take (Suc p) inbuf)"
  have l: "length ?w = length m" using 0 by simp
  then have "take (length m) ?w = m" using 0(6) by (simp add: first_at_0)
  then show ?case using compare_window [of cmp m p inbuf] 0 by (cases fuel) simp_all
next
  case (Suc k)
  then obtain n where n: "fuel = Suc n" by (cases fuel) auto
  let ?w = "drop cmp (take (Suc p) inbuf)"
  have l: "length ?w = length m" using Suc.prems by simp
  have f: "take (length m) ?w \<noteq> m" using first_at_Suc [OF Suc.prems(6)] l by simp
  obtain c cs where c: "?w @ y = c # cs" "first_at m cs = Some k" using first_at_Suc [OF Suc.prems(6)] by blast
  have "Suc k + length m \<le> length (?w @ y)" using first_at_here [OF Suc.prems(6)] by blast
  then obtain b y' where y: "y = b # y'" using l by (cases y) auto
  have m: "m \<noteq> []" using f by auto
  let ?b = "inbuf[Suc p := b]" and ?s = "s\<lparr>tin := map Byte y' @ rest\<rparr>"
  have r: "read_into inbuf (Suc p) s = Inr (1, ?b, ?s)" using Suc.prems y by (intro read_into_byte) simp_all
  have "drop (Suc cmp) (take (Suc (Suc p)) ?b) = tl ?w @ [b]"
  proof -
    have "take (Suc (Suc p)) ?b = take (Suc p) inbuf @ [b]" using Suc.prems by (intro take_update_next) simp
    moreover have "Suc cmp \<le> length (take (Suc p) inbuf)" using Suc.prems m by (cases m) auto
    ultimately show ?thesis by (simp add: drop_Suc tl_drop)
  qed
  moreover have "cs = tl ?w @ y" using c(1) l m by (cases ?w) auto
  ultimately have fa: "first_at m (drop (Suc cmp) (take (Suc (Suc p)) ?b) @ y') = Some k" using c(2) y by simp
  have "expect_match n m ?b (Suc p) (Suc cmp) ?s = Inr (0, ?s\<lparr>tin := map Byte (drop k y') @ rest\<rparr>)"
    by (rule Suc.IH [OF _ _ _ _ _ fa]) (use Suc.prems n in simp_all)
  then show ?case using compare_window [of cmp m p inbuf] Suc.prems f r n y by (simp add: unsigned_below_zero_def)
qed

lemma expect_first:
  assumes s: "\<not> dbg s" "tin s = map Byte data @ rest" and p: "ptr \<noteq> [CHR 0x22, CHR 0x22]" "unescape ptr = Inl m" "m \<noteq> []"
    and f: "first_at m data = Some i" "i + length m \<le> length inbuf" "length data < fuel"
  shows "expect_str fuel inbuf ptr s = Inr (0, s\<lparr>caught_alrm := False, tin := map Byte (drop (i + length m) data) @ rest\<rparr>)"
proof -
  obtain c m' where m: "m = c # m'" using p(3) by (cases m) auto
  note here = first_at_here [OF f(1)]
  let ?x = "takeWhile (\<lambda>b. b \<noteq> c) data" and ?s = "s\<lparr>caught_alrm := False\<rparr>"
  have "data ! i = c" using here m by (metis drop_eq_Nil hd_drop_conv_nth list.sel(1) list.size(3) not_less take_eq_Nil hd_take length_greater_0_conv list.distinct(1) p(3))
  moreover have il: "i < length data" using here m by simp
  ultimately have xi: "length ?x \<le> i" by (metis (mono_tags, lifting) nth_mem not_le_imp_less set_takeWhileD takeWhile_nth)
  then obtain y where d: "data = ?x @ c # y" using il nth_length_takeWhile [of "\<lambda>b. b \<noteq> c" data]
    by (metis (mono_tags, lifting) append_take_drop_id id_take_nth_drop le_less_trans takeWhile_eq_take)
  let ?n = "length m'" and ?k = "i - length ?x" and ?s1 = "?s\<lparr>tin := map Byte y @ rest\<rparr>"
  have len: "length data = length ?x + Suc (length y)" using arg_cong [OF d, of length] by simp
  have sk: "expect_skip fuel c NUL ?s = Inr (0, c, ?s1)"
  proof (rule skip_to_first [of ?s ?x c y rest])
    show "tin ?s = map Byte (?x @ c # y) @ rest" using s(2) d by simp
    show "c \<notin> set ?x" by (auto dest: set_takeWhileD)
  qed (use s(1) f(3) len in simp_all)
  have n: "?n \<le> length y" "?n < length inbuf" using here m f(2) xi len by auto
  obtain b where b: "expect_fill ?n (inbuf[0 := c]) 0 ?s1 = Inr (0, b, ?n, ?s1\<lparr>tin := map Byte (drop ?n y) @ rest\<rparr>)" "length b = length inbuf"
    "take (Suc ?n) b = take (Suc 0) (inbuf[0 := c]) @ take ?n y"
    using fill_reads [of ?s1 y rest ?n 0 "inbuf[0 := c]"] s(1) n by auto
  have w: "take (Suc ?n) b = c # take ?n y" using b(3) n(2) by (cases inbuf) simp_all
  have "first_at m (drop (length ?x) data) = Some ?k" by (rule first_at_drop [OF f(1) xi])
  moreover have "drop (length ?x) data = c # y" using d by (metis append_eq_conv_conj)
  ultimately have fa: "first_at m (drop 0 (take (Suc ?n) b) @ drop ?n y) = Some ?k" unfolding w by simp
  have "expect_match fuel m b ?n 0 (?s1\<lparr>tin := map Byte (drop ?n y) @ rest\<rparr>) = Inr (0, (?s1\<lparr>tin := map Byte (drop ?n y) @ rest\<rparr>)\<lparr>tin := map Byte (drop ?k (drop ?n y)) @ rest\<rparr>)"
    by (rule match_finds [OF _ _ _ _ _ fa]) (use s m b f len il xi in auto)
  moreover have "drop ?k (drop ?n y) = drop (i + length m) data"
  proof -
    have "drop (i + length m) data = drop (i + length m - length ?x) (c # y)" using d xi by (metis append_eq_conv_conj drop_append drop_eq_Nil append_Nil trans_le_add1)
    moreover have "i + length m - length ?x = Suc (?k + ?n)" using xi m by simp
    ultimately show ?thesis by (simp add: add.commute)
  qed
  ultimately show ?thesis using sk b(1) p s m by (simp add: expect_str_def silent)
qed

section \<open>The alarm\<close>

lemma alarmed_skip:
  assumes "\<not> dbg s" "caught_alrm s" "c \<noteq> f"
  shows "expect_skip fuel f c s = Inl Loops"
  using assms by (induction fuel) (simp_all add: exp_read_def silent unsigned_below_zero_def)

lemma alarm_skip:
  assumes "\<not> dbg s" "\<not> caught_alrm s" "tin s = map Byte x @ Alarm # rest" "f \<notin> set x" "c \<noteq> f"
  shows "expect_skip fuel f c s = Inl Loops"
  using assms
proof (induction x arbitrary: fuel c s)
  case Nil
  then show ?case by (cases fuel) (simp_all add: exp_read_def silent unsigned_below_zero_def alarmed_skip)
next
  case (Cons b x)
  then show ?case
  proof (cases fuel)
    case (Suc n)
    have "exp_read s = Inr (1, Some b, s\<lparr>tin := map Byte x @ Alarm # rest\<rparr>)" using Cons.prems by (simp add: read_byte)
    then show ?thesis using Cons.IH [of "s\<lparr>tin := map Byte x @ Alarm # rest\<rparr>" b n] Cons.prems Suc by (auto simp: unsigned_below_zero_def)
  qed simp
qed

end
