(* ===== verification/Calld_Examples.thy ===== *)
theory Calld_Examples
  imports Calld_Order Calld_Expect
begin

text \<open>
  A run of the call server with one system and one device: a client connects, asks and hangs up while its child is
  still dialing; another one connects and asks.
\<close>

declare One_nat_def [simp del]

definition ca_sys :: string where "ca_sys = ''h Any ACU 9600 5 x'' @ [NL]"
definition ca_dev :: string where "ca_dev = ''ACU cua0 - 9600 m'' @ [NL]"
definition ca_entry :: Systems where "ca_entry = \<lparr>s_name = ''h'', s_time = ''Any'', s_type = ''ACU'', s_class = ''9600'', s_phone = ''5'', s_login = ''x''\<rparr>"
definition ca_device :: Devices where "ca_device = \<lparr>d_type = ''ACU'', d_line = ''cua0'', d_line2 = ''-'', d_class = ''9600'', d_dialer = ''m''\<rparr>"

lemma ca_files: "next_entry parse_sys ca_sys 0 = Inr (Some ca_entry, 19)" "dev_find (Some ca_dev) ca_entry = Inr (Some ca_device, [])"
  by code_simp+

definition ca_blank :: caller where
  "ca_blank = \<lparr>k_fd = -1, k_pid = 0, k_uid = 0, childdone = 0, sysftell = 0, foundone = 0, k_Debug = False, k_parity = NONE, k_speed = [], k_sysname = []\<rparr>"

definition ca_env :: "int \<Rightarrow> select_result \<Rightarrow> int \<Rightarrow> bytes \<Rightarrow> call_env" where
  "ca_env b r fd msg = \<lparr>sys_file = Some ca_sys, dev_file = Some ca_dev, fork_pid = (\<lambda>i. b + 2 * int i), fork_head = (\<lambda>i. b + 1 + 2 * int i), lock_mem = True,
     sel = r, k_conn = (fd, ''/var/tmp/1''), k_stat = (\<lambda>_. Some \<lparr>is_sock = True, mode = 448, atime = 9, ctime = 9, mtime = 9, owner = 7\<rparr>), k_now = 9,
     k_read = (\<lambda>_. Inr msg), k_mem = Some (\<lambda>_. ca_blank), fd_mem = True\<rparr>"

definition ca_opts :: options where
  "ca_opts = \<lparr>o_errmsg = [], o_Debug = False, o_parity = NONE, o_speed = None, o_sysname = []\<rparr>"

definition ca_s0 :: calld where
  "ca_s0 = \<lparr>logging = True, opts = ca_opts, callers = [], locks = [], fpsys = None, call_set = {3}, call_maxfd = 3, call_maxi = -1,
        call_listen = 3, chld_flag = False, last_uid = 0, kids = (\<lambda>p. None), links = (\<lambda>fd. \<lparr>csink = \<lparr>sent = [], script = []\<rparr>, passed = []\<rparr>)\<rparr>"

definition ca_table :: "caller \<Rightarrow> caller list" where
  "ca_table c = [c, ca_blank, ca_blank, ca_blank, ca_blank, ca_blank, ca_blank, ca_blank, ca_blank, ca_blank]"

definition ca_s1 :: calld where
  "ca_s1 = ca_s0\<lparr>callers := ca_table (ca_blank\<lparr>k_fd := 5, k_uid := 7\<rparr>), call_set := {5, 3}, call_maxfd := 5, call_maxi := 0, last_uid := 7\<rparr>"

definition ca_msg :: bytes where "ca_msg = ''call h'' @ [NUL]"

definition ca_caller :: caller where
  "ca_caller = ca_blank\<lparr>k_fd := 5, k_uid := 7, k_pid := 100, sysftell := 19, foundone := 1, k_sysname := ''h''\<rparr>"

definition ca_s2 :: calld where
  "ca_s2 = ca_s1\<lparr>opts := ca_opts\<lparr>o_sysname := ''h''\<rparr>, callers := ca_table ca_caller, locks := [(''cua0'', 100)], fpsys := Some 19, kids := [100 \<mapsto> ''cua0'']\<rparr>"

definition ca_s3 :: calld where
  "ca_s3 = ca_s2\<lparr>callers := ca_table (ca_caller\<lparr>k_fd := -1\<rparr>), locks := [(''cua0'', 0)], call_set := {3}\<rparr>"

definition ca_s4 :: calld where
  "ca_s4 = ca_s3\<lparr>callers := ca_table (ca_caller\<lparr>k_fd := 6\<rparr>), call_set := {6, 3}, call_maxfd := 6\<rparr>"

definition ca_s5 :: calld where
  "ca_s5 = ca_s4\<lparr>callers := ca_table (ca_caller\<lparr>k_fd := 6, k_pid := 300\<rparr>), locks := [(''cua0'', 300)], kids := [100 \<mapsto> ''cua0'', 300 \<mapsto> ''cua0'']\<rparr>"

lemma ca_parts:
  "buf_args ca_msg call_args ca_opts = (0, ca_opts\<lparr>o_sysname := ''h''\<rparr>)" 
  "buf_args ca_msg call_args (ca_opts\<lparr>o_sysname := ''h''\<rparr>) = (0, ca_opts\<lparr>o_sysname := ''h''\<rparr>)" 
  "log_doit True (''starting: call h, from uid 7'') = Inr ()"
  "log_doit True (''locking cua0 for pid 100'') = Inr ()"
  "log_doit True (''unlocking cua0 for pid 100'') = Inr ()"
  "dec_int 100 = ''100''" "dec_int 300 = ''300''" "dec_int 7 = ''7''"
  "log_doit True (''locking cua0 for pid 300'') = Inr ()" "cstr ca_msg = ''call h''" "last ca_msg = NUL" "ca_msg \<noteq> []"
  by code_simp+

lemma ca_entry_name: "s_name ca_entry = ''h''" "d_line ca_device = ''cua0''"
  by (simp_all add: ca_entry_def ca_device_def)

definition ca_rounds :: nat where "ca_rounds = 19"

lemma ca_env_fields [simp]:
  "sys_file (ca_env b r fd m) = Some ca_sys" "dev_file (ca_env b r fd m) = Some ca_dev" "fork_pid (ca_env b r fd m) = (\<lambda>i. b + 2 * int i)"
  "fork_head (ca_env b r fd m) = (\<lambda>i. b + 1 + 2 * int i)" "lock_mem (ca_env b r fd m)" "sel (ca_env b r fd m) = r" "k_conn (ca_env b r fd m) = (fd, ''/var/tmp/1'')"
  "k_stat (ca_env b r fd m) = (\<lambda>_. Some \<lparr>is_sock = True, mode = 448, atime = 9, ctime = 9, mtime = 9, owner = 7\<rparr>)" "k_now (ca_env b r fd m) = 9"
  "k_read (ca_env b r fd m) = (\<lambda>_. Inr m)" "k_mem (ca_env b r fd m) = Some (\<lambda>_. ca_blank)" "sys_fuel (ca_env b r fd m) = Suc ca_rounds"
  by (simp_all add: ca_env_def sys_fuel_def ca_sys_def ca_rounds_def)

lemmas ca_defs = ca_s0_def ca_s1_def ca_s2_def ca_s3_def ca_s4_def ca_s5_def ca_caller_def ca_table_def ca_blank_def

lemmas request_defs = call_request_def sys_posn_def put_errmsg_def request_round_def sys_next_def fopen_once_def Let_def put_caller_def try_sys_def trying_def
  debug_out_def try_dev_def is_locked_def find_line_def start_child_def lock_set_def returned_def

lemma ca_asks:
  assumes "fd = 5 \<and> b = 100 \<and> s = ca_s1\<lparr>opts := ca_opts\<lparr>o_sysname := ''h''\<rparr>, callers := ca_table (ca_blank\<lparr>k_fd := 5, k_uid := 7, k_sysname := ''h''\<rparr>)\<rparr> \<and> t = ca_s2 \<or>
    fd = 6 \<and> b = 300 \<and> s = ca_s4\<lparr>callers := ca_table (ca_caller\<lparr>k_fd := 6, sysftell := 0, foundone := 0\<rparr>)\<rparr> \<and> t = ca_s5"
  shows "call_request (ca_env b (Ready {fd}) 0 ca_msg) 0 s = Inr (0, t)"
  using assms ca_files ca_parts ca_entry_name by (auto simp: request_defs ca_defs ca_opts_def)

lemmas turn_defs = call_turn_def Let_def slots_to_def upt_rec one_client_def put_caller_def

lemma ca_turn1: "call_turn (ca_env 10 (Ready {3}) 5 []) ca_s0 = Inr ca_s1"
  by (simp add: turn_defs ca_defs call_accept_def serv_accept_def SUN_PATH_def STALE_def call_add_def call_alloc_def NALLOC_def numeral_2_eq_2 FD_SETSIZE_def)

lemma ca_turn2: "call_turn (ca_env 100 (Ready {5}) 0 ca_msg) ca_s1 = Inr ca_s2"
  using ca_asks [of 5 100 _ ca_s2] ca_parts by (simp add: turn_defs call_data_def keep_options_def try_request_def ca_defs ca_opts_def)

lemma ca_turn3: "call_turn (ca_env 200 (Ready {5}) 0 []) ca_s2 = Inr ca_s3"
  using ca_parts by (simp add: turn_defs lock_rel_def cli_done_def call_del_def ca_defs insert_Diff_if)

lemma ca_turn4: "call_turn (ca_env 200 (Ready {3}) 6 []) ca_s3 = Inr ca_s4"
  by (simp add: turn_defs ca_defs call_accept_def serv_accept_def SUN_PATH_def STALE_def call_add_def NALLOC_def numeral_2_eq_2 FD_SETSIZE_def)

lemma ca_turn5: "call_turn (ca_env 300 (Ready {6}) 0 ca_msg) ca_s4 = Inr ca_s5"
  using ca_asks [of 6 300 _ ca_s5] ca_parts by (simp add: turn_defs call_data_def keep_options_def try_request_def ca_defs ca_opts_def)

lemma ca_fresh:
  assumes "0 < b" "\<forall>p\<in>used s. p < b" "\<forall>i<length (callers s). 0 \<le> k_fd (callers s ! i) \<longrightarrow> k_fd (callers s ! i) \<noteq> fd"
  shows "fresh (ca_env b r fd m) s"
proof -
  have "b + 2 * int i \<noteq> b + 1 + 2 * int j" for i j by presburger
  then show ?thesis using assms by (force simp: fresh_def forks_fresh_def clean_def ca_blank_def inj_def)
qed

lemma ca_used:
  "used ca_s0 \<subseteq> {0}" "used ca_s1 \<subseteq> {0}" "used ca_s2 \<subseteq> {0, 100}" "used ca_s3 \<subseteq> {0, 100}" "used ca_s4 \<subseteq> {0, 100}"
  by (auto simp: used_def lock_pids_def ca_defs split: if_splits)

lemma ca_less_10: "j < length (ca_table c) \<Longrightarrow> j = 0 \<or> 0 < j \<and> ca_table c ! j = ca_blank"
  by (auto simp: ca_table_def nth_Cons' less_Suc_eq)

lemma ca_begins: "call_begins ca_s0"
  unfolding call_begins_def by (intro exI [of _ True] exI [of _ ca_opts] exI [of _ 3]) (simp add: call_start_def ca_s0_def FD_SETSIZE_def)

end
