(* ===== verification/Calld_Correct.thy ===== *)
theory Calld_Correct
  imports Calld_Examples
begin

text \<open>
  The theorems on the call server: its locks, its children, the order in which it tries the lines, and the strings
  that a child waits for.
\<close>

declare One_nat_def [simp del]

section \<open>The run of the examples\<close>

lemma ca_patient1: "patient_step ca_s0 ca_s1"
  unfolding patient_step_def using ca_turn1 ca_used(1)
  by (intro disjI1 exI [of _ "ca_env 10 (Ready {3}) 5 []"] conjI ca_fresh) (auto simp: patient_def ca_s0_def)

lemma ca_fds:
  "\<forall>i<length (callers ca_s1). 0 \<le> k_fd (callers ca_s1 ! i) \<longrightarrow> k_fd (callers ca_s1 ! i) = 5"
  "\<forall>i<length (callers ca_s2). 0 \<le> k_fd (callers ca_s2 ! i) \<longrightarrow> k_fd (callers ca_s2 ! i) = 5"
  "\<forall>i<length (callers ca_s3). k_fd (callers ca_s3 ! i) < 0"
  "\<forall>i<length (callers ca_s4). 0 \<le> k_fd (callers ca_s4 ! i) \<longrightarrow> k_fd (callers ca_s4 ! i) = 6"
  using ca_less_10 by (fastforce simp: ca_s1_def ca_s2_def ca_s3_def ca_s4_def ca_blank_def ca_caller_def ca_table_def)+

lemma ca_patient2: "patient_step ca_s1 ca_s2"
  unfolding patient_step_def using ca_turn2 ca_used(2) ca_fds(1) ca_parts(12)
  by (intro disjI1 exI [of _ "ca_env 100 (Ready {5}) 0 ca_msg"] conjI ca_fresh) (auto simp: patient_def hung_up_def)

lemma ca_step3: "fresh (ca_env 200 (Ready {5}) 0 []) ca_s2" "call_step ca_s2 ca_s3"
proof -
  show "fresh (ca_env 200 (Ready {5}) 0 []) ca_s2" using ca_used(3) ca_fds(2) by (intro ca_fresh) auto
  then show "call_step ca_s2 ca_s3" using ca_turn3 unfolding call_step_def by blast
qed

lemma ca_step4: "call_step ca_s3 ca_s4"
  unfolding call_step_def using ca_turn4 ca_used(4) ca_fds(3)
  by (intro disjI1 exI [of _ "ca_env 200 (Ready {3}) 6 []"] conjI ca_fresh) (auto simp: not_le)

lemma ca_step5: "call_step ca_s4 ca_s5"
  unfolding call_step_def using ca_turn5 ca_used(5) ca_fds(4)
  by (intro disjI1 exI [of _ "ca_env 300 (Ready {6}) 0 ca_msg"] conjI ca_fresh) auto

lemma ca_waiting: "reachable call_begins patient_step ca_s2"
  using ca_begins ca_patient1 ca_patient2 by (meson reachable.intros)

lemma ca_reached: "reachable call_begins call_step ca_s2" "reachable call_begins call_step ca_s4" "reachable call_begins call_step ca_s5"
  using ca_begins ca_patient1 ca_patient2 ca_step3(2) ca_step4 ca_step5 by (meson patient_is_step reachable.intros)+

lemma ca_holds: "holds ca_s2 0 ''cua0''"
  by (simp add: holds_def locked_def ca_defs)

section \<open>Locks\<close>





section \<open>Children\<close>



text \<open>
  C39.  Without that a line can have two children: the lock is given back when a client hangs up, although its child is still dialing,
  and the next client gets the line.  When the first child ends the server stops, because its process is in no slot any more.
\<close>

theorem hang_up_while_dialing:
  "\<exists>s p q. reachable call_begins call_step s \<and> p \<noteq> q \<and> kids s p = Some ''cua0'' \<and> kids s q = Some ''cua0'' \<and>
     (\<forall>st. sig_chld p (Some st) s = Inl (Err_quit (''can't find client entry for pid '' @ dec_int p)))"
proof (intro exI conjI)
  show "reachable call_begins call_step ca_s5" by (rule ca_reached)
  show "(100::int) \<noteq> 300" by simp
  show "kids ca_s5 100 = Some ''cua0''" "kids ca_s5 300 = Some ''cua0''" by (simp_all add: ca_s5_def)
  show "\<forall>st. sig_chld 100 (Some st) ca_s5 = Inl (Err_quit (''can't find client entry for pid '' @ dec_int 100))"
    by (simp add: sig_chld_def client_sigchld_def ca_defs)
qed

section \<open>Requests\<close>


definition ca_twice :: call_env where
  "ca_twice = (ca_env 300 (Ready {6}) 0 ca_msg)\<lparr>sys_file := Some (ca_sys @ ca_sys)\<rparr>"

lemma ca_twice_entries: "next_entry parse_sys (ca_sys @ ca_sys) 19 = Inr (Some ca_entry, 38)" "entries (ca_sys @ ca_sys) 19 = [(ca_entry, 38)]"
  by code_simp+

lemma ca_twice_fields [simp]:
  "sys_file ca_twice = Some (ca_sys @ ca_sys)" "dev_file ca_twice = Some ca_dev" "fork_pid ca_twice = (\<lambda>i. 300 + 2 * int i)" "lock_mem ca_twice"
  "sys_fuel ca_twice = Suc (ca_rounds + ca_rounds)"
  by (simp_all add: ca_twice_def sys_fuel_def ca_sys_def ca_rounds_def)

lemma ca_twice_asks: "\<exists>t. call_request ca_twice 0 ca_s4 = Inr (0, t)"
  using ca_files ca_parts ca_entry_name ca_twice_entries by (simp add: request_defs ca_defs ca_opts_def)


section \<open>The chat with the modem\<close>

text \<open>
  C30.  A child that expects a string finds its first occurrence in what comes from the line and reads no further, if the string fits the
  buffer together with all that comes before it and the alarm does not go off.
\<close>

theorem expect_finds_first_match:
  assumes "\<not> dbg s" "tin s = map Byte data @ rest" "ptr \<noteq> [CHR 0x22, CHR 0x22]" "unescape ptr = Inl m" "m \<noteq> []"
    and "first_at m data = Some i" "i + length m \<le> length inbuf" "length data < fuel"
  shows "expect_str fuel inbuf ptr s = Inr (0, s\<lparr>caught_alrm := False, tin := map Byte (drop (i + length m) data) @ rest\<rparr>)"
  using assms by (rule expect_first)

definition ca_child :: "tty_event list \<Rightarrow> child" where
  "ca_child ev = \<lparr>conn = \<lparr>csink = \<lparr>sent = [], script = []\<rparr>, passed = []\<rparr>, dbg = False, emsg = [], tin = ev, tout = \<lparr>sent = [], script = []\<rparr>, caught_alrm = False\<rparr>"

theorem expect_finds_first_match_witness:
  "expect_str 8 (replicate MAXLINE NUL) ''OK'' (ca_child (map Byte ''xOOKy'')) = Inr (0, ca_child (map Byte ''y''))"
proof -
  have "unescape ''OK'' = Inl ''OK''" "first_at ''OK'' ''xOOKy'' = Some 2" by code_simp+
  then show ?thesis
    using expect_finds_first_match [of "ca_child (map Byte ''xOOKy'')" "''xOOKy''" "[]" "''OK''" "''OK''" 2 "replicate MAXLINE NUL" 8]
    by (simp add: ca_child_def MAXLINE_def)
qed

text \<open>
  C40.  A timeout does not end the wait: if the alarm goes off before the first character of the string has come, the child reads for ever,
  because the result of \<open>exp_read\<close> has an unsigned type and is never below zero.
\<close>

theorem read_timeout_never_returns:
  assumes "\<not> dbg s" "tin s = map Byte data @ Alarm # rest" "ptr \<noteq> [CHR 0x22, CHR 0x22]" "unescape ptr = Inl (c # m)" "c \<noteq> NUL" "c \<notin> set data"
  shows "expect_str fuel inbuf ptr s = Inl Loops"
proof -
  have "expect_skip fuel c NUL (s\<lparr>caught_alrm := False\<rparr>) = Inl Loops"
    by (rule alarm_skip [of _ data rest]) (use assms in auto)
  then show ?thesis using assms(3,4) by (simp add: expect_str_def)
qed

theorem read_timeout_never_returns_witness: "\<forall>fuel inbuf. expect_str fuel inbuf ''OK'' (ca_child (map Byte ''xy'' @ [Alarm])) = Inl Loops"
proof -
  have "unescape ''OK'' = Inl ''OK''" by code_simp
  then show ?thesis using read_timeout_never_returns [of "ca_child (map Byte ''xy'' @ [Alarm])" "''xy''" "[]" "''OK''"] by (simp add: ca_child_def)
qed

end
