(* ===== verification/Spec2Isabelle.thy ===== *)
theory Spec2Isabelle
  imports Db_Correct Dtree_Correct Stream_Correct Ipp_Examples Sem_Correct Shm_Correct Opend_Correct Calld_Correct
begin

text \<open>
  Programs of a collection for system programming on Unix: the sources of a textbook under \<open>apue2e\<close>, those of
  another under \<open>tlpi-dist\<close>, and two directories of small exercises.  The collection is not one program; this
  development models its larger pieces, each a library or a server with a state of its own, and the library functions
  they share.

  \<^bold>\<open>How the parts are related.\<close>  \<open>readn\<close> and \<open>writen\<close> carry the bytes of the print server, of the copy through
  shared memory and of the messages of the two descriptor servers.  The record locks stand under the database
  library.  System V semaphores stand under the semaphore library, under the binary semaphores and, through these,
  under the copy through shared memory.  The functions that pass descriptors, connect and accept, and take a request
  apart serve the open server and the call server, and the tables of clients of both satisfy one contract.

  \<^bold>\<open>Vocabulary.\<close>  \<open>Prelude\<close> has C strings, decimal numbers, byte segments, chains of pointers, and the outcome type
  \<open>'a res\<close>: a value, or one of the ways in which a call does not return one (an error function of \<open>apue2e/lib\<close> that
  ends the process, \<open>exit\<close>, a wait that nothing ends, a write or read outside a buffer, a loop that does not end).
  \<open>Errno\<close> has error numbers, \<open>Encoding\<close> numbers as bytes, \<open>Machine\<close> reachable states and the contract
  \<open>invariant\<close>.  What a system call returns that the model does not determine is an argument: a script of a
  descriptor, a record of the environment of one turn, a function for \<open>malloc\<close>.

  \<^bold>\<open>Database library\<close> (\<open>apue2e/db/db.c\<close>; \<open>lib/lockreg.c\<close>, \<open>lib/locktest.c\<close>).  \<open>Posix\<close> is the kernel: files,
  descriptors, byte-range locks, and on it \<open>lock_reg\<close>.  \<open>Db_Model\<close> has one definition for each function of \<open>db.c\<close>
  under its name; the record \<open>DB\<close> is the struct of that name.  \<open>Db_Format\<close>, \<open>Db_Prims\<close>, \<open>Db_Inv\<close> and \<open>Db_Ops\<close> relate
  the bytes of the two files to chains of records and prove each operation against the invariant; \<open>Db_Refine\<close> states
  the library as a finite map through the contract \<open>kv_store\<close> of \<open>Kv_Store\<close>; \<open>Db_Scan\<close> treats the walk, creation and
  reopening.  \<open>Db_Correct\<close>: store, fetch and delete refine the operations on a map, alone and in every sequence; a walk
  lists the map; reopening keeps it; two processes do not hold a chain at once; where a key is too long for the buffer.

  \<^bold>\<open>Directory tree cache\<close> (\<open>tlpi-dist/inotify/inotify_dtree.c\<close>).  \<open>Dtree_Model\<close> has the globals as one record, the
  inotify instance as another and the file system through \<open>lstat\<close> and \<open>nftw\<close>.  \<open>Dtree_Cache\<close>, \<open>Dtree_Inv\<close>,
  \<open>Dtree_Events\<close> and \<open>Dtree_Facts\<close> lead the invariant (watches and cache agree) through subtrees, events, blocks of
  events and turns.  \<open>Dtree_Correct\<close>: the cache is complete in every reachable state; building, renaming and removing
  do what they should; an event pair split over two reads is treated as one; the loop over a block ends.

  \<^bold>\<open>Whole transfers and lines\<close> (\<open>apue2e/lib/readn.c\<close>, \<open>writen.c\<close>; \<open>tlpi-dist/sockets/rdwrn.c\<close>, \<open>read_line.c\<close>,
  \<open>read_line_buf.c\<close>).  \<open>Stream_IO\<close> has the loops once over the contracts \<open>reader\<close> and \<open>writer\<close>, which plain,
  restarting and timed descriptors satisfy; \<open>Stream_Correct\<close> has what they promise, and that the buffered line reader
  returns what the byte-wise one does.

  \<^bold>\<open>Print server\<close> (\<open>apue2e/ipp\<close>: \<open>printd.c\<close>, \<open>util.c\<close>, \<open>print.c\<close>; \<open>sockets/clconn.c\<close>).  \<open>Ipp_Queue\<close> has the two
  linked lists in memory and shows the first to be a queue; \<open>Ipp_Model\<close> the utilities, the start and the thread of a
  client; \<open>Ipp_Status\<close> the parser of the printer's answer; \<open>Ipp_Printer\<close> the other threads and the command.
  \<open>Ipp_Facts\<close> and \<open>Ipp_Request\<close> describe each branch and the encoding of requests; \<open>Ipp_Spool\<close> runs the threads in
  any order.  \<open>Ipp_Correct\<close>, with the run of \<open>Ipp_Examples\<close>: every job in memory has its files and the directory
  rebuilds the queue; jobs are served in order; a file is removed only after the printer has taken it; the client is
  served or refused; the answer of the printer decides; a submitted job arrives; when the header overruns its buffer.

  \<^bold>\<open>Semaphores\<close> (\<open>apue2e/lib/semaph.c\<close>; \<open>tlpi-dist/svsem/binary_sems.c\<close>, \<open>event_flags.c\<close>).  \<open>Sem_Kernel\<close> has sets
  with adjustments at exit, and processes that run programs of system calls interleaved in any order, are interrupted
  and may exit anywhere.  \<open>Sem_Lib\<close> has each function as such a program; \<open>Sem_Inv\<close> and \<open>Sem_Steps\<close> the invariant.
  \<open>Sem_Correct\<close>: a set in use is never removed, its counter counts the users, its lock is given back, and the race
  of opening and closing.  \<open>Bin_Sems\<close>: a binary semaphore excludes.

  \<^bold>\<open>Copy through shared memory\<close> (\<open>tlpi-dist/svshm/svshm_xfr_writer.c\<close>, \<open>svshm_xfr_reader.c\<close>).  \<open>Shm_Xfr\<close> has both
  programs as steps between their calls on semaphores, \<open>Shm_Inv\<close> their invariant; \<open>Shm_Correct\<close>: what is written out is
  what was read in, the segment is used by one at a time, and the pair is never stuck.

  \<^bold>\<open>Open server\<close> (\<open>apue2e/opend\<close>, \<open>open\<close>, \<open>opend.fe\<close>; \<open>lib/sendfd.c\<close>, \<open>senderr.c\<close>, \<open>recvfd.c\<close>, \<open>bufargs.c\<close>,
  \<open>servlisten.c\<close>, \<open>servaccept.c\<close>, \<open>cliconn.c\<close>, \<open>errorlog.c\<close>).  \<open>Fd_Pass\<close> has the two directions of the protocol;
  \<open>Opend_Model\<close> the requests, the table of clients and one turn of each loop, with \<open>poll\<close> and with \<open>select\<close>.
  \<open>Opend_Table\<close> has the contract \<open>client_table\<close>; \<open>Opend_Inv\<close>, \<open>Opend_Loops\<close>, \<open>Opend_Select\<close> and \<open>Opend_Request\<close> the
  invariants and the path of a request.  \<open>Opend_Correct\<close>: a file opened through the server is the one asked for; each
  client has one slot; a turn is safe; the two loops agree; connections have proven owners.

  \<^bold>\<open>Call server\<close> (\<open>apue2e/calld\<close>).  \<open>Calld_Files\<close> has the files \<open>Systems\<close>, \<open>Devices\<close> and \<open>Dialers\<close>; \<open>Calld_Dial\<close> the
  child (\<open>child_dial\<close>, \<open>tty_open\<close>, \<open>tty_dial\<close>, \<open>expect_str\<close>, \<open>send_str\<close>); \<open>Calld_Model\<close> the server: \<open>call_add\<close>,
  \<open>call_del\<close> and \<open>client_sigchld\<close> of \<open>client.c\<close>, \<open>lock_set\<close>, \<open>lock_rel\<close> and \<open>is_locked\<close>, \<open>call_request\<close> for
  \<open>request\<close>, \<open>child_done\<close>, \<open>sig_chld\<close>, and \<open>call_turn\<close> for a turn of \<open>loop\<close>; the record \<open>calld\<close> holds the globals and
  the children that have not ended.  \<open>Calld_Inv\<close> treats the tables of clients and of locks, \<open>Calld_Steps\<close> a request,
  \<open>Calld_Turn\<close> one client, \<open>Calld_Lines\<close> a turn and the reachable states, \<open>Calld_Safety\<close> locks and children,
  \<open>Calld_Order\<close> the order of the entries, \<open>Calld_Expect\<close> the search for a string.  \<open>Calld_Correct\<close>, with the run of
  \<open>Calld_Examples\<close>: a line is held by one client; a lock is given back only for its own client; two children dial one
  line only if a client hangs up too early, and then they can; a request ends and takes the first free line; the first
  match is found; a timeout is never noticed.

  \<^bold>\<open>Assumptions.\<close>  A step of the call server assumes that a process ID is not used again while something is recorded
  for it, that new memory holds no process ID, and that a new connection has a descriptor that is not in use; a step of
  the open server assumes the last of these.  A child that ends during a turn of the call server is seen in the next.
  Other system calls may fail wherever the code tests for it.

  \<^bold>\<open>Bounds and fuel.\<close>  Loops over data recurse over the data.  Loops whose end has to be proved take a number of
  rounds, and the outcome \<open>Loops\<close> is shown not to occur: the chains of the database (length of the index file and
  two), a block of inotify events (twice the events that can still be read, and two), transfers (bytes and scripted
  calls that are left), the entries of \<open>Systems\<close> (length of the file and one).  Where a loop may run for ever the number
  is an argument of the theorem: \<open>printer_status\<close>, which returns for every complete answer and is shown to hang on a
  split one, \<open>expect_str\<close>, which returns if the string comes and is shown not to if the alarm does, and \<open>send_str\<close>,
  which calls itself for the phone number.  Buffers have the sizes of the source (\<open>MAXLINE\<close>, \<open>IDXLEN_MAX\<close>, \<open>IOBUFSZ\<close>,
  \<open>FD_SETSIZE\<close>, \<open>sun_path\<close>), and a write behind one is the outcome \<open>Overrun\<close>.

  \<^bold>\<open>Not modelled.\<close>  The main functions of the two descriptor servers only read options and call \<open>daemonize\<close>.  The client
  of the call server (\<open>apue2e/call\<close>) moves bytes between the terminal and the line.  The other directories of \<open>apue2e\<close> and
  \<open>tlpi-dist\<close>, and those of \<open>exercise\<close> and \<open>linux-sys-code\<close>, mostly hold single programs that show what a system
  call does: they call it and print what it returns, so that a model of them would be a model of the kernel.  Some small
  programs with a state of their own are among them and have no model here: the reference-counted table of
  \<open>apue2e/threads\<close>, the servers over message queues and FIFOs of \<open>tlpi-dist\<close>, the socket filters.  Timing, sleeping and the contents of log messages beyond their length and format are left out.
\<close>

end
